(* ===== verification/Sync_Prelude.thy ===== *)
theory Sync_Prelude
  imports Main "HOL-Library.Word" "HOL-Library.Char_ord" "HOL-Library.List_Lexorder"
    "HOL-Library.Multiset" "HOL-Library.AList"
begin

text \<open>
  Prelude of the development: the fact collections the component theories extend, the model
  of JavaScript strings (identifiers as ASCII \<open>string\<close>s, document text as lists of
  UTF-16 code units), the decimal printing that template literals such as
  \<open>${clock}:${siteId}\<close> perform, and list lemmas used by several components.
\<close>

section \<open>Fact collections\<close>

named_theorems wf_intros "well-formedness is kept by the operations"
named_theorems doc_simps "the effect of an operation on the parts of a document"
named_theorems log_simps "the effect of an operation on the parts of an operation log"
named_theorems store_simps "the effect of an operation on the tables of the event store"

section \<open>JavaScript strings\<close>

text \<open>Identifiers, keys and messages are \<open>string\<close>; the document's own text keeps its
  UTF-16 code units, since the code counts and splits them.\<close>

type_synonym code_unit = "16 word"
type_synonym js_text = "code_unit list"

definition ascii :: "string \<Rightarrow> js_text" where
  "ascii s = map (\<lambda>c. word_of_nat (of_char c)) s"

definition is_high_surrogate :: "code_unit \<Rightarrow> bool" where
  "is_high_surrogate u \<longleftrightarrow> 0xD800 \<le> u \<and> u \<le> 0xDBFF"

definition is_low_surrogate :: "code_unit \<Rightarrow> bool" where
  "is_low_surrogate u \<longleftrightarrow> 0xDC00 \<le> u \<and> u \<le> 0xDFFF"

text \<open>The string iterator, \<open>[...s]\<close>: a surrogate pair is one element, everything else
  (lone surrogates included) is an element of one code unit.\<close>

fun code_points :: "js_text \<Rightarrow> js_text list" where
  "code_points [] = []"
| "code_points [u] = [[u]]"
| "code_points (u # v # s) =
     (if is_high_surrogate u \<and> is_low_surrogate v then [u, v] # code_points s
      else [u] # code_points (v # s))"

lemma concat_code_points [simp]: "concat (code_points s) = s"
  by (induction s rule: code_points.induct) auto

lemma code_points_inj: "code_points s = code_points t \<longleftrightarrow> s = t"
  by (metis concat_code_points)

lemma code_points_eq_Nil [simp]: "code_points s = [] \<longleftrightarrow> s = []"
  by (metis code_points.simps(1) code_points_inj)

section \<open>Decimal numbers in template literals\<close>

definition digit_char :: "nat \<Rightarrow> char" where
  "digit_char d = char_of (48 + d)"

fun show_nat :: "nat \<Rightarrow> string" where
  "show_nat n = (if n < 10 then [digit_char n] else show_nat (n div 10) @ [digit_char (n mod 10)])"

declare show_nat.simps [simp del]

definition show_int :: "int \<Rightarrow> string" where
  "show_int i = (if i < 0 then CHR ''-'' # show_nat (nat (- i)) else show_nat (nat i))"

text \<open>\<open>parseInt(s, 10)\<close> on the digits PostgreSQL returns for a BIGINT column.\<close>

definition parse_digits :: "string \<Rightarrow> nat" where
  "parse_digits s = foldl (\<lambda>a c. 10 * a + (of_char c - 48)) 0 s"

fun parseInt :: "string \<Rightarrow> int" where
  "parseInt (c # s) =
     (if c = CHR ''-'' then - int (parse_digits s) else int (parse_digits (c # s)))"
| "parseInt [] = 0"

lemma of_char_digit: "d < 10 \<Longrightarrow> of_char (digit_char d) = 48 + d"
  by (simp add: digit_char_def)

lemma parse_digits_snoc [simp]:
  "parse_digits (s @ [c]) = 10 * parse_digits s + (of_char c - 48)"
  by (simp add: parse_digits_def)

lemma parse_digits_show [simp]: "parse_digits (show_nat n) = n"
proof (induction n rule: show_nat.induct)
  case (1 n)
  show ?case
  proof (cases "n < 10")
    case True
    then show ?thesis
      by (subst show_nat.simps) (simp add: parse_digits_def of_char_digit)
  next
    case False
    with 1 show ?thesis
      by (subst show_nat.simps) (simp add: of_char_digit)
  qed
qed

lemma show_nat_inj [simp]: "show_nat m = show_nat n \<longleftrightarrow> m = n"
  by (metis parse_digits_show)

lemma show_nat_digits: "c \<in> set (show_nat n) \<Longrightarrow> 48 \<le> (of_char c :: nat) \<and> (of_char c :: nat) < 58"
proof (induction n rule: show_nat.induct)
  case (1 n)
  show ?case
  proof (cases "n < 10")
    case True
    with 1 show ?thesis by (simp add: show_nat.simps [of n] of_char_digit)
  next
    case False
    with 1 show ?thesis by (auto simp: show_nat.simps [of n] of_char_digit)
  qed
qed

lemma show_nat_not_Nil [simp]: "show_nat n \<noteq> []"
  by (subst show_nat.simps) auto

lemma minus_not_in_show_nat [simp]: "CHR ''-'' \<notin> set (show_nat n)"
  using show_nat_digits [of "CHR ''-''" n] by auto

lemma colon_not_in_show_nat [simp]: "CHR '':'' \<notin> set (show_nat n)"
  using show_nat_digits [of "CHR '':''" n] by auto

lemma colon_not_in_show_int [simp]: "CHR '':'' \<notin> set (show_int i)"
  by (simp add: show_int_def)

lemma parseInt_show_int [simp]: "parseInt (show_int i) = i"
proof (cases "i < 0")
  case True
  then show ?thesis by (simp add: show_int_def)
next
  case False
  obtain c s where cs: "show_nat (nat i) = c # s"
    by (cases "show_nat (nat i)") auto
  have "c \<noteq> CHR ''-''"
    using minus_not_in_show_nat [of "nat i"] cs by auto
  moreover have "int (parse_digits (c # s)) = i"
    using False parse_digits_show [of "nat i"] unfolding cs by simp
  ultimately show ?thesis
    using False by (simp add: show_int_def cs)
qed

lemma show_int_inj [simp]: "show_int i = show_int j \<longleftrightarrow> i = j"
  by (metis parseInt_show_int)

text \<open>A separator that occurs in neither prefix (or in neither suffix) splits a string
  uniquely: keys built with \<open>:\<close> are injective.\<close>

lemma split_at_first:
  assumes "c \<notin> set a" "c \<notin> set b"
  shows "a @ c # s = b @ c # t \<longleftrightarrow> a = b \<and> s = t"
  using assms
proof (induction a arbitrary: b)
  case Nil
  then show ?case by (cases b) auto
next
  case (Cons x a)
  then show ?case by (cases b) auto
qed

lemma split_at_last:
  assumes "c \<notin> set s" "c \<notin> set t"
  shows "a @ c # s = b @ c # t \<longleftrightarrow> a = b \<and> s = t"
proof -
  have "a @ c # s = b @ c # t \<longleftrightarrow> rev s @ c # rev a = rev t @ c # rev b"
    by (metis rev_append rev.simps(2) append_assoc append_Cons append_Nil rev_rev_ident)
  also have "\<dots> \<longleftrightarrow> rev s = rev t \<and> rev a = rev b"
    by (rule split_at_first) (use assms in auto)
  finally show ?thesis by auto
qed

section \<open>Lists\<close>

lemma filter_eq_all: "(\<And>x. x \<in> set xs \<Longrightarrow> P x) \<Longrightarrow> filter P xs = xs"
  by (induction xs) auto

lemma split_first_not:
  assumes "\<not> set xs \<subseteq> A"
  obtains p x q where "xs = p @ x # q" "set p \<subseteq> A" "x \<notin> A"
  using assms split_list_first_prop [of xs "\<lambda>x. x \<notin> A"] by (metis subset_code(1) subsetI)

lemma foldl_max_ge: "(a::int) \<le> foldl max a xs \<and> (\<forall>x \<in> set xs. x \<le> foldl max a xs)"
  by (induction xs arbitrary: a) (auto, (meson dual_order.trans max.cobounded1 max.cobounded2)+)

end
