(* ===== verification/Shared_Types.thy ===== *)
theory Shared_Types
  imports Sync_Prelude
begin

text \<open>
  The data model of \<^verbatim>\<open>src/shared\<close>: JSON values, UIDs and their order
  (\<open>compareUID\<close>, \<open>uidKey\<close>), the CRDT operations and their envelope, vector clocks as plain
  objects, snapshots and history records, presence records and the wire protocol. The lemmas
  show that \<open>compareUID\<close> is a total order (UIDs become a \<open>linorder\<close>), that the string keys
  are injective, and that merging clocks is the pointwise maximum.
\<close>

section \<open>JSON values\<close>

text \<open>The values typed \<open>any\<close>: what \<open>JSON.parse\<close> can produce, with integer numbers.
  An attribute object is a finite map.\<close>

datatype json = JNull | JBool bool | JNum int | JStr js_text | JArr "json list"
  | JObj "(string \<times> json) list"

type_synonym attributes = "string \<rightharpoonup> json"

text \<open>The string \<open>Array.join\<close> makes of an element (and \<open>${v ?? ''}\<close> of a value).\<close>

fun join_with :: "js_text \<Rightarrow> js_text list \<Rightarrow> js_text" where
  "join_with sep [] = []"
| "join_with sep [x] = x"
| "join_with sep (x # y # xs) = x @ sep @ join_with sep (y # xs)"

lemma join_with_nil: "join_with ([] :: js_text) xs = concat xs"
  by (induction "[] :: js_text" xs rule: join_with.induct) simp_all

fun js_join_part :: "json \<Rightarrow> js_text" where
  "js_join_part JNull = []"
| "js_join_part (JBool b) = ascii (if b then ''true'' else ''false'')"
| "js_join_part (JNum n) = ascii (show_int n)"
| "js_join_part (JStr s) = s"
| "js_join_part (JArr vs) = join_with (ascii '','') (map js_join_part vs)"
| "js_join_part (JObj fs) = ascii ''[object Object]''"

section \<open>Unique identifiers\<close>

datatype UID = UID (clock: int) (siteId: string)

definition compareUID :: "UID \<Rightarrow> UID \<Rightarrow> int" where
  "compareUID a b =
     (if clock a \<noteq> clock b then clock a - clock b
      else if siteId a < siteId b then -1
      else if siteId a > siteId b then 1
      else 0)"

definition uidKey :: "UID \<Rightarrow> string" where
  "uidKey u = show_int (clock u) @ CHR '':'' # siteId u"

definition ROOT_UID :: UID where
  "ROOT_UID = UID 0 ''__root__''"

lemma uidKey_inj [simp]: "uidKey a = uidKey b \<longleftrightarrow> a = b"
  by (cases a; cases b) (simp add: uidKey_def split_at_first)

lemma inj_uidKey: "inj uidKey"
  by (rule injI) simp

text \<open>\<open>compareUID\<close> as the library's linear order.\<close>

instantiation UID :: linorder
begin

definition less_UID :: "UID \<Rightarrow> UID \<Rightarrow> bool" where
  "less_UID a b \<longleftrightarrow> compareUID a b < 0"

definition less_eq_UID :: "UID \<Rightarrow> UID \<Rightarrow> bool" where
  "less_eq_UID a b \<longleftrightarrow> compareUID a b \<le> 0"

instance
proof
  fix x y z :: UID
  show "x < y \<longleftrightarrow> x \<le> y \<and> \<not> y \<le> x"
    by (cases x; cases y) (auto simp: less_UID_def less_eq_UID_def compareUID_def)
  show "x \<le> x"
    by (simp add: less_eq_UID_def compareUID_def)
  show "x \<le> y \<Longrightarrow> y \<le> z \<Longrightarrow> x \<le> z"
    by (cases x; cases y; cases z)
       (auto simp: less_eq_UID_def compareUID_def split: if_splits)
  show "x \<le> y \<Longrightarrow> y \<le> x \<Longrightarrow> x = y"
    by (cases x; cases y) (auto simp: less_eq_UID_def compareUID_def split: if_splits)
  show "x \<le> y \<or> y \<le> x"
    by (cases x; cases y) (auto simp: less_eq_UID_def compareUID_def split: if_splits)
qed

end

lemma compareUID_pos [simp]: "0 < compareUID a b \<longleftrightarrow> b < a"
  by (cases a; cases b) (auto simp: less_UID_def compareUID_def split: if_splits)

lemma compareUID_neg [simp]: "compareUID a b < 0 \<longleftrightarrow> a < b"
  by (simp add: less_UID_def)

lemma compareUID_zero [simp]: "compareUID a b = 0 \<longleftrightarrow> a = b"
  by (cases a; cases b) (auto simp: compareUID_def)

lemma less_UID_iff: "UID c s < UID c' s' \<longleftrightarrow> c < c' \<or> (c = c' \<and> s < s')"
  by (auto simp: less_UID_def compareUID_def)

lemma less_UID_clock: "clock a < clock b \<Longrightarrow> a < b"
  by (cases a; cases b) (simp add: less_UID_iff)

section \<open>Operations\<close>

text \<open>The union \<open>RGAOperation\<close>. \<open>ROLLBACK\<close> is not a member of it: it is the sentinel
  object the history service builds and casts with \<open>as any\<close>.\<close>

datatype RGAOperation =
    INSERT (op_uid: UID) (op_after: "UID option") (op_value: json)
  | DELETE (op_uid: UID)
  | FORMAT (op_uid: UID) (op_attributes: attributes)
  | ROLLBACK (op_uid: UID) (op_after: "UID option") (op_value: json)

fun op_type :: "RGAOperation \<Rightarrow> string" where
  "op_type (INSERT _ _ _) = ''INSERT''"
| "op_type (DELETE _) = ''DELETE''"
| "op_type (FORMAT _ _) = ''FORMAT''"
| "op_type (ROLLBACK _ _ _) = ''ROLLBACK''"

text \<open>A \<open>Record<string, number>\<close> is its list of entries in insertion order; \<open>o[k] = v\<close> is
  \<open>AList.update\<close>, \<open>o[k] ?? 0\<close> is \<open>vc_get\<close>.\<close>

type_synonym VectorClock = "(string \<times> int) list"

definition vc_get :: "VectorClock \<Rightarrow> string \<Rightarrow> int" where
  "vc_get vc site = (case map_of vc site of None \<Rightarrow> 0 | Some c \<Rightarrow> c)"

record OperationEnvelope =
  env_id :: string
  env_docId :: string
  env_sessionId :: string
  env_userId :: string
  env_op :: RGAOperation
  env_seq :: int
  env_clientSeq :: int
  env_timestamp :: string
  env_vectorClock :: VectorClock
  env_nonce :: string

section \<open>Vector clocks as plain objects\<close>

fun mergeVectorClocks :: "VectorClock \<Rightarrow> VectorClock \<Rightarrow> VectorClock" where
  "mergeVectorClocks result [] = result"
| "mergeVectorClocks result ((site, c) # b) =
     mergeVectorClocks (AList.update site (max (vc_get result site) c) result) b"

definition incrementClock :: "VectorClock \<Rightarrow> string \<Rightarrow> VectorClock" where
  "incrementClock vc site = AList.update site (vc_get vc site + 1) vc"

lemma vc_get_update [simp]:
  "vc_get (AList.update s c vc) t = (if t = s then c else vc_get vc t)"
  by (simp add: vc_get_def update_conv)

lemma vc_get_Nil [simp]: "vc_get [] s = 0"
  by (simp add: vc_get_def)

lemma vc_get_Cons: "vc_get ((t, c) # vc) s = (if s = t then c else vc_get vc s)"
  by (simp add: vc_get_def)

lemma vc_get_notin: "s \<notin> fst ` set vc \<Longrightarrow> vc_get vc s = 0"
  by (metis (no_types, lifting) map_of_eq_None_iff option.simps(4) vc_get_def)

lemma vc_get_in: "distinct (map fst vc) \<Longrightarrow> (s, c) \<in> set vc \<Longrightarrow> vc_get vc s = c"
  by (simp add: vc_get_def)

text \<open>For clocks with distinct keys and no negative entry in the merged-in clock's absent
  sites, the merge is the pointwise maximum.\<close>

lemma vc_get_merge:
  assumes "distinct (map fst b)"
  shows "vc_get (mergeVectorClocks a b) s =
    (if s \<in> fst ` set b then max (vc_get a s) (vc_get b s) else vc_get a s)"
  using assms
proof (induction b arbitrary: a)
  case Nil
  then show ?case by simp
next
  case (Cons p b)
  obtain t c where p: "p = (t, c)" by (cases p)
  show ?case
    using Cons by (auto simp: p vc_get_Cons)
qed

section \<open>Documents, snapshots and history records\<close>

datatype DocumentPermission = owner | editor | viewer

record Document =
  doc_id :: string
  doc_title :: js_text
  doc_ownerId :: string
  doc_createdAt :: string
  doc_updatedAt :: string
  doc_isDeleted :: bool

record DocumentWithPermission = Document +
  doc_role :: DocumentPermission

record Revision =
  rev_id :: string
  rev_docId :: string
  rev_seq :: int
  rev_label :: "string option"
  rev_createdBy :: string
  rev_createdAt :: string

record SerializedRGANode =
  s_clock :: int
  s_siteId :: string
  s_value :: json
  s_attributes :: "attributes option"
  s_tombstoned :: bool

record SnapshotRecord =
  snap_id :: string
  snap_docId :: string
  snap_seq :: int
  snap_data :: "SerializedRGANode list"
  snap_textHash :: string
  snap_createdAt :: string

record OperationSummary =
  sum_seq :: int
  sum_userId :: string
  sum_displayName :: string
  sum_opType :: string
  sum_preview :: js_text
  sum_timestamp :: string

record HistoryPage =
  page_ops :: "OperationSummary list"
  page_total :: int
  page_from :: int
  page_to :: int

section \<open>Presence\<close>

record CursorPosition =
  afterUid :: "UID option"
  anchorUid :: "UID option"

record UserPresence =
  p_sessionId :: string
  p_userId :: string
  p_displayName :: string
  p_color :: string
  p_cursor :: "CursorPosition option"
  p_isTyping :: bool
  p_lastSeen :: string

record PresenceUpdate =
  u_sessionId :: string
  u_cursor :: "CursorPosition option"
  u_isTyping :: bool

section \<open>The wire protocol\<close>

record JoinMessage =
  join_docId :: "string option"
  join_token :: string
  join_lastSeq :: int
  join_clientId :: string

record OperationMessage =
  msg_docId :: string
  msg_clientSeq :: int
  msg_op :: RGAOperation
  msg_vectorClock :: VectorClock
  msg_nonce :: string

record PresenceMessage =
  pm_docId :: string
  pm_update :: PresenceUpdate

datatype ClientMessage =
    JOIN JoinMessage
  | OPERATION OperationMessage
  | PRESENCE PresenceMessage
  | PRESENCE_CURSOR string string json
  | PRESENCE_TYPING string bool
  | PING int

record Snapshot =
  ack_seq :: int
  ack_nodes :: "SerializedRGANode list"

record JoinAckMessage =
  ack_sessionId :: string
  ack_siteId :: string
  ack_snapshot :: Snapshot
  ack_missedOps :: "OperationEnvelope list"
  ack_presence :: "UserPresence list"

datatype ErrorCode = AUTH_FAILED | PERMISSION_DENIED | DOCUMENT_NOT_FOUND | INVALID_OPERATION
  | RATE_LIMITED | REPLAY_DETECTED | SLOW_CONSUMER | SERVER_ERROR

datatype ServerMessage =
    JOIN_ACK JoinAckMessage
  | OP_ACK int int string
  | BROADCAST OperationEnvelope
  | PRESENCE_UPDATE UserPresence
  | PRESENCE_CURSOR_UPDATE string json
  | PRESENCE_TYPING_UPDATE string bool
  | ACTIVITY_EVENT string json
  | NOTIFICATION_CREATED json
  | USER_LEFT string string
  | PONG int int
  | ERROR ErrorCode string "int option"

section \<open>Constants\<close>

definition WS_AUTH_FAILED :: int where "WS_AUTH_FAILED = 4001"
definition WS_PERMISSION_DENIED :: int where "WS_PERMISSION_DENIED = 4003"
definition WS_DOCUMENT_NOT_FOUND :: int where "WS_DOCUMENT_NOT_FOUND = 4004"
definition WS_SLOW_CONSUMER :: int where "WS_SLOW_CONSUMER = 4009"

definition docChannel :: "string \<Rightarrow> string" where
  "docChannel docId = ''doc:'' @ docId @ '':ops''"

definition presenceChannel :: "string \<Rightarrow> string" where
  "presenceChannel docId = ''doc:'' @ docId @ '':presence''"

definition rateLimitKey :: "string \<Rightarrow> string" where
  "rateLimitKey userId = ''rl:'' @ userId"

definition replayNonceKey :: "string \<Rightarrow> string \<Rightarrow> string" where
  "replayNonceKey docId nonce = ''replay:'' @ docId @ '':'' @ nonce"

lemma docChannel_inj [simp]: "docChannel a = docChannel b \<longleftrightarrow> a = b"
  by (simp add: docChannel_def)

lemma replayNonceKey_inj:
  assumes "CHR '':'' \<notin> set n" "CHR '':'' \<notin> set n'"
  shows "replayNonceKey d n = replayNonceKey d' n' \<longleftrightarrow> d = d' \<and> n = n'"
  using assms by (simp add: replayNonceKey_def split_at_last)

end
