(* ===== verification/RGA_Document.thy ===== *)
theory RGA_Document
  imports Shared_Types
begin

text \<open>
  \<^verbatim>\<open>src/crdt/rga-document.ts\<close> on the level of the list the pointers spell: the field
  \<open>doc_chain\<close> holds the nodes reachable from the sentinel by \<open>next\<close>, the sentinel first, and
  the index is the lookup of a key in it (\<^verbatim>\<open>RGA_Heap\<close> has the pointers and the
  \<open>Map\<close> themselves and refines them to this model). Every operation of the class is here, with
  the invariant the class keeps, \<open>wf_doc\<close>, and the effect of each operation on the chain.
\<close>

section \<open>Nodes, documents, the index\<close>

record RGANode =
  node_uid :: UID
  node_value :: json
  node_attributes :: attributes
  node_tombstoned :: bool

record RGADocument =
  doc_chain :: "RGANode list"
  doc_length :: int
  doc_nodeCount :: int

datatype rga_error = CausalGap string

definition root_node :: RGANode where
  "root_node = \<lparr>node_uid = ROOT_UID, node_value = JNull, node_attributes = Map.empty,
    node_tombstoned = False\<rparr>"

definition newRGADocument :: RGADocument where
  "newRGADocument = \<lparr>doc_chain = [root_node], doc_length = 0, doc_nodeCount = 0\<rparr>"

abbreviation body :: "RGADocument \<Rightarrow> RGANode list" where
  "body d \<equiv> tl (doc_chain d)"

definition node_key :: "RGANode \<Rightarrow> string" where
  "node_key n = uidKey (node_uid n)"

definition index_get :: "RGADocument \<Rightarrow> string \<Rightarrow> RGANode option" where
  "index_get d k = find (\<lambda>n. node_key n = k) (doc_chain d)"

definition index_has :: "RGADocument \<Rightarrow> string \<Rightarrow> bool" where
  "index_has d k \<longleftrightarrow> index_get d k \<noteq> None"

section \<open>INSERT\<close>

text \<open>The scan-right loop from the insertion point and the splice: skip the nodes with a
  higher UID, then put the new node in.\<close>

fun scan_insert :: "RGANode \<Rightarrow> RGANode list \<Rightarrow> RGANode list" where
  "scan_insert n [] = [n]"
| "scan_insert n (x # xs) =
     (if compareUID (node_uid x) (node_uid n) > 0 then x # scan_insert n xs else n # x # xs)"

fun insert_after :: "string \<Rightarrow> RGANode \<Rightarrow> RGANode list \<Rightarrow> RGANode list" where
  "insert_after k n [] = []"
| "insert_after k n (x # xs) =
     (if node_key x = k then x # scan_insert n xs else x # insert_after k n xs)"

definition new_node :: "UID \<Rightarrow> json \<Rightarrow> RGANode" where
  "new_node u v = \<lparr>node_uid = u, node_value = v, node_attributes = Map.empty,
    node_tombstoned = False\<rparr>"

definition after_key :: "UID option \<Rightarrow> string" where
  "after_key a = (case a of Some u \<Rightarrow> uidKey u | None \<Rightarrow> uidKey ROOT_UID)"

definition applyInsert :: "RGADocument \<Rightarrow> UID \<Rightarrow> UID option \<Rightarrow> json \<Rightarrow> rga_error + RGADocument" where
  "applyInsert d u a v =
     (if index_has d (uidKey u) then Inr d
      else if \<not> index_has d (after_key a) then Inl (CausalGap (after_key a))
      else Inr (d\<lparr>doc_chain := insert_after (after_key a) (new_node u v) (doc_chain d),
                  doc_length := doc_length d + 1,
                  doc_nodeCount := doc_nodeCount d + 1\<rparr>))"

section \<open>DELETE and FORMAT\<close>

fun update_node :: "string \<Rightarrow> (RGANode \<Rightarrow> RGANode) \<Rightarrow> RGANode list \<Rightarrow> RGANode list" where
  "update_node k f [] = []"
| "update_node k f (x # xs) = (if node_key x = k then f x # xs else x # update_node k f xs)"

definition tombstone :: "RGANode \<Rightarrow> RGANode" where
  "tombstone n = n\<lparr>node_tombstoned := True\<rparr>"

definition applyDelete :: "RGADocument \<Rightarrow> UID \<Rightarrow> RGADocument \<times> bool" where
  "applyDelete d u =
     (case index_get d (uidKey u) of
        None \<Rightarrow> (d, False)
      | Some n \<Rightarrow>
          (if \<not> node_tombstoned n
           then (d\<lparr>doc_chain := update_node (uidKey u) tombstone (doc_chain d),
                   doc_length := doc_length d - 1\<rparr>, True)
           else (d, True)))"

definition merge_attributes :: "attributes \<Rightarrow> RGANode \<Rightarrow> RGANode" where
  "merge_attributes attrs n = n\<lparr>node_attributes := node_attributes n ++ attrs\<rparr>"

definition applyFormat :: "RGADocument \<Rightarrow> UID \<Rightarrow> attributes \<Rightarrow> RGADocument \<times> bool" where
  "applyFormat d u attrs =
     (case index_get d (uidKey u) of
        None \<Rightarrow> (d, False)
      | Some n \<Rightarrow> (d\<lparr>doc_chain := update_node (uidKey u) (merge_attributes attrs) (doc_chain d)\<rparr>,
                  True))"

section \<open>Unified apply\<close>

fun applyOperation :: "RGADocument \<Rightarrow> RGAOperation \<Rightarrow> RGADocument \<times> bool" where
  "applyOperation d (INSERT u a v) =
     (case applyInsert d u a v of Inr d' \<Rightarrow> (d', True) | Inl _ \<Rightarrow> (d, False))"
| "applyOperation d (DELETE u) = applyDelete d u"
| "applyOperation d (FORMAT u attrs) = applyFormat d u attrs"
| "applyOperation d (ROLLBACK _ _ _) = (d, False)"

section \<open>Queries\<close>

fun text_parts :: "RGANode list \<Rightarrow> js_text list" where
  "text_parts [] = []"
| "text_parts (n # ns) =
     (case node_value n of
        JStr s \<Rightarrow> if \<not> node_tombstoned n then s # text_parts ns else text_parts ns
      | _ \<Rightarrow> text_parts ns)"

definition toText :: "RGADocument \<Rightarrow> js_text" where
  "toText d = concat (text_parts (body d))"

definition toNodes :: "RGADocument \<Rightarrow> RGANode list" where
  "toNodes d = filter (\<lambda>n. \<not> node_tombstoned n) (body d)"

fun uidToIndex_from :: "RGANode list \<Rightarrow> UID \<Rightarrow> int \<Rightarrow> int" where
  "uidToIndex_from [] u idx = -1"
| "uidToIndex_from (n # ns) u idx =
     (if \<not> node_tombstoned n then
        (if clock (node_uid n) = clock u \<and> siteId (node_uid n) = siteId u then idx
         else uidToIndex_from ns u (idx + 1))
      else uidToIndex_from ns u idx)"

definition uidToIndex :: "RGADocument \<Rightarrow> UID option \<Rightarrow> int" where
  "uidToIndex d u = (case u of None \<Rightarrow> 0 | Some u \<Rightarrow> uidToIndex_from (body d) u 0)"

fun indexToUID_from :: "RGANode list \<Rightarrow> int \<Rightarrow> int \<Rightarrow> UID option" where
  "indexToUID_from [] index idx = None"
| "indexToUID_from (n # ns) index idx =
     (if \<not> node_tombstoned n then
        (if idx + 1 = index then Some (node_uid n) else indexToUID_from ns index (idx + 1))
      else indexToUID_from ns index idx)"

definition indexToUID :: "RGADocument \<Rightarrow> int \<Rightarrow> UID option" where
  "indexToUID d index = (if index = 0 then None else indexToUID_from (body d) index 0)"

definition getAfterUID :: "RGADocument \<Rightarrow> int \<Rightarrow> UID option" where
  "getAfterUID d index = (if index = 0 then None else indexToUID d index)"

definition getNode :: "RGADocument \<Rightarrow> UID \<Rightarrow> RGANode option" where
  "getNode d u = index_get d (uidKey u)"

definition isEmpty :: "RGADocument \<Rightarrow> bool" where
  "isEmpty d \<longleftrightarrow> doc_length d = 0"

section \<open>Serialization and garbage collection\<close>

definition serialize_node :: "RGANode \<Rightarrow> SerializedRGANode" where
  "serialize_node n = \<lparr>s_clock = clock (node_uid n), s_siteId = siteId (node_uid n),
     s_value = node_value n, s_attributes = Some (node_attributes n),
     s_tombstoned = node_tombstoned n\<rparr>"

definition serialize :: "RGADocument \<Rightarrow> SerializedRGANode list" where
  "serialize d = map serialize_node (body d)"

definition deserialize_node :: "SerializedRGANode \<Rightarrow> RGANode" where
  "deserialize_node n = \<lparr>node_uid = UID (s_clock n) (s_siteId n), node_value = s_value n,
     node_attributes = (case s_attributes n of None \<Rightarrow> Map.empty | Some a \<Rightarrow> a),
     node_tombstoned = s_tombstoned n\<rparr>"

text \<open>The loop appends each node and counts it, the live ones twice.\<close>

definition append_node :: "RGADocument \<Rightarrow> SerializedRGANode \<Rightarrow> RGADocument" where
  "append_node d n = d\<lparr>doc_chain := doc_chain d @ [deserialize_node n],
     doc_length := (if \<not> s_tombstoned n then doc_length d + 1 else doc_length d),
     doc_nodeCount := doc_nodeCount d + 1\<rparr>"

definition deserialize :: "SerializedRGANode list \<Rightarrow> RGADocument" where
  "deserialize nodes = foldl append_node newRGADocument nodes"

definition clone :: "RGADocument \<Rightarrow> RGADocument" where
  "clone d = deserialize (serialize d)"

fun gc_nodes :: "RGANode list \<Rightarrow> RGANode list \<times> int" where
  "gc_nodes [] = ([], 0)"
| "gc_nodes (n # ns) =
     (case gc_nodes ns of (ns', removed) \<Rightarrow>
        if node_tombstoned n then (ns', removed + 1) else (n # ns', removed))"

definition gc :: "RGADocument \<Rightarrow> RGADocument \<times> int" where
  "gc d = (case gc_nodes (body d) of (ns, removed) \<Rightarrow>
     (d\<lparr>doc_chain := hd (doc_chain d) # ns, doc_nodeCount := doc_nodeCount d - removed\<rparr>, removed))"

section \<open>The class invariant\<close>

definition live :: "RGANode list \<Rightarrow> RGANode list" where
  "live ns = filter (\<lambda>n. \<not> node_tombstoned n) ns"

definition uids :: "RGADocument \<Rightarrow> UID set" where
  "uids d = node_uid ` set (doc_chain d)"

text \<open>The chain starts with the untouched sentinel, no UID occurs twice, and the counters count
  the live nodes and all nodes. Operations on the sentinel itself are excluded: the server's
  schema only lets UUID site ids through.\<close>

definition wf_doc :: "RGADocument \<Rightarrow> bool" where
  "wf_doc d \<longleftrightarrow> doc_chain d \<noteq> [] \<and> hd (doc_chain d) = root_node \<and>
     distinct (map node_uid (doc_chain d)) \<and>
     doc_length d = int (length (live (body d))) \<and>
     doc_nodeCount d = int (length (body d))"

definition not_on_root :: "RGAOperation \<Rightarrow> bool" where
  "not_on_root x \<longleftrightarrow> op_uid x \<noteq> ROOT_UID"

section \<open>The index and the node lists\<close>

lemma index_has_iff [simp]: "index_has d (uidKey u) \<longleftrightarrow> u \<in> uids d"
  by (auto simp: index_has_def index_get_def uids_def node_key_def find_None_iff)

lemma index_get_None_iff: "index_get d (uidKey u) = None \<longleftrightarrow> u \<notin> uids d"
  using index_has_iff [of d u] unfolding index_has_def by blast

lemma index_get_None [simp]: "u \<notin> uids d \<Longrightarrow> index_get d (uidKey u) = None"
  by (simp add: index_get_None_iff)

lemma index_get_uids: "index_get d (uidKey u) = Some n \<Longrightarrow> u \<in> uids d"
  by (metis index_get_None_iff option.distinct(1))

lemma index_get_SomeD: "index_get d (uidKey u) = Some n \<Longrightarrow> n \<in> set (doc_chain d) \<and> node_uid n = u"
  by (auto simp: index_get_def node_key_def find_Some_iff)

definition anchor :: "UID option \<Rightarrow> UID" where
  "anchor a = (case a of Some u \<Rightarrow> u | None \<Rightarrow> ROOT_UID)"

lemma after_key_anchor [simp]: "after_key a = uidKey (anchor a)"
  by (simp add: after_key_def anchor_def split: option.split)

lemma anchor_simps [simp]: "anchor None = ROOT_UID" "anchor (Some u) = u"
  by (simp_all add: anchor_def)

lemma node_uid_simps [simp]:
  "node_uid (new_node u v) = u" "node_uid (tombstone n) = node_uid n"
  "node_uid (merge_attributes as n) = node_uid n" "node_uid root_node = ROOT_UID"
  by (simp_all add: new_node_def tombstone_def merge_attributes_def root_node_def)

lemma node_key_simps [simp]:
  "node_key (new_node u v) = uidKey u" "node_key (tombstone n) = node_key n"
  "node_key (merge_attributes as n) = node_key n" "node_key root_node = uidKey ROOT_UID"
  by (simp_all add: node_key_def)

lemma node_key_eq [simp]: "node_key n = uidKey u \<longleftrightarrow> node_uid n = u"
  by (simp add: node_key_def)

lemma node_key_eq' [simp]: "uidKey u = node_key n \<longleftrightarrow> node_uid n = u"
  by (metis node_key_eq)

lemma mset_scan_insert [simp]: "mset (scan_insert n xs) = add_mset n (mset xs)"
  by (induction xs) auto

lemma set_scan_insert [simp]: "set (scan_insert n xs) = insert n (set xs)"
  by (metis mset_scan_insert set_mset_add_mset_insert set_mset_mset)

lemma mset_insert_after:
  "k \<in> node_key ` set xs \<Longrightarrow> mset (insert_after k n xs) = add_mset n (mset xs)"
  by (induction xs) auto

lemma insert_after_absent: "k \<notin> node_key ` set xs \<Longrightarrow> insert_after k n xs = xs"
  by (induction xs) auto

lemma hd_insert_after [simp]: "xs \<noteq> [] \<Longrightarrow> hd (insert_after k n xs) = hd xs"
  by (cases xs) auto

lemma insert_after_eq_Nil [simp]: "insert_after k n xs = [] \<longleftrightarrow> xs = []"
  by (cases xs) auto

lemma node_keys_image: "uidKey u \<in> node_key ` set xs \<longleftrightarrow> u \<in> node_uid ` set xs"
  by (auto simp: node_key_def)

lemma uids_insert_after:
  "uidKey a \<in> node_key ` set xs \<Longrightarrow>
     node_uid ` set (insert_after (uidKey a) n xs) = insert (node_uid n) (node_uid ` set xs)"
  using mset_insert_after [of "uidKey a" xs n] by (metis image_insert set_mset_add_mset_insert set_mset_mset)

lemma map_update_node [simp]:
  assumes "\<And>x. g (f x) = g x"
  shows "map g (update_node k f xs) = map g xs"
  by (induction xs) (auto simp: assms)

lemma set_map_update_node:
  assumes "\<And>x. g (f x) = g x"
  shows "g ` set (update_node k f xs) = g ` set xs"
  by (metis assms list.set_map map_update_node)

lemma update_node_absent: "k \<notin> node_key ` set xs \<Longrightarrow> update_node k f xs = xs"
  by (induction xs) auto

lemma update_node_eq_Nil [simp]: "update_node k f xs = [] \<longleftrightarrow> xs = []"
  by (cases xs) auto

lemma length_update_node [simp]: "length (update_node k f xs) = length xs"
  by (induction xs) auto

lemma hd_update_node: "xs \<noteq> [] \<Longrightarrow> hd (update_node k f xs) =
    (if node_key (hd xs) = k then f (hd xs) else hd xs)"
  by (cases xs) auto

text \<open>With distinct UIDs the first node with a key is the only one.\<close>

lemma update_node_map:
  assumes "distinct (map node_uid xs)"
  shows "update_node (uidKey u) f xs = map (\<lambda>n. if node_uid n = u then f n else n) xs"
  using assms
proof (induction xs)
  case (Cons x xs)
  then have "node_uid x \<notin> node_uid ` set xs" by simp
  moreover have "map (\<lambda>n. if node_uid n = v then f n else n) ys = ys"
    if "v \<notin> node_uid ` set ys" for v ys
    using that by (induction ys) auto
  ultimately have "map (\<lambda>n. if node_uid n = node_uid x then f n else n) xs = xs"
    by blast
  with Cons show ?case by auto
qed simp

lemma gc_nodes_eq: "gc_nodes ns = (live ns, int (length ns) - int (length (live ns)))"
  by (induction ns) (auto simp: live_def)

section \<open>Effects of the operations\<close>

text \<open>An operation is ready when the nodes it names are in the index (an insert that is already
  there needs nothing).\<close>

fun op_ready :: "RGADocument \<Rightarrow> RGAOperation \<Rightarrow> bool" where
  "op_ready d (INSERT u a v) \<longleftrightarrow> u \<in> uids d \<or> anchor a \<in> uids d"
| "op_ready d (DELETE u) \<longleftrightarrow> u \<in> uids d"
| "op_ready d (FORMAT u attrs) \<longleftrightarrow> u \<in> uids d"
| "op_ready d (ROLLBACK _ _ _) \<longleftrightarrow> False"

definition applyOp :: "RGADocument \<Rightarrow> RGAOperation \<Rightarrow> RGADocument" where
  "applyOp d x = fst (applyOperation d x)"

lemma applyOperation_ready [simp]: "snd (applyOperation d x) = op_ready d x"
proof (cases x)
  case (INSERT u a v)
  then show ?thesis by (simp add: applyInsert_def)
next
  case (DELETE u)
  show ?thesis
    by (cases "u \<in> uids d")
       (auto simp: DELETE applyDelete_def index_get_None_iff split: option.split)
next
  case (FORMAT u attrs)
  show ?thesis
    by (cases "u \<in> uids d")
       (auto simp: FORMAT applyFormat_def index_get_None_iff split: option.split)
qed simp

lemma applyOperation_eq: "applyOperation d x = (applyOp d x, op_ready d x)"
  using applyOperation_ready [of d x] by (simp add: applyOp_def prod_eq_iff)

text \<open>The chain after each operation.\<close>

lemma chain_INSERT [doc_simps]:
  "doc_chain (applyOp d (INSERT u a v)) =
     (if u \<in> uids d \<or> anchor a \<notin> uids d then doc_chain d
      else insert_after (uidKey (anchor a)) (new_node u v) (doc_chain d))"
  by (auto simp: applyOp_def applyInsert_def)

lemma update_node_fix:
  "find (\<lambda>n. node_key n = k) xs = Some n \<Longrightarrow> f n = n \<Longrightarrow> update_node k f xs = xs"
  by (induction xs) (auto split: if_splits)

lemma chain_DELETE [doc_simps]:
  "doc_chain (applyOp d (DELETE u)) = update_node (uidKey u) tombstone (doc_chain d)"
proof (cases "index_get d (uidKey u)")
  case None
  then have "update_node (uidKey u) tombstone (doc_chain d) = doc_chain d"
    by (intro update_node_absent) (simp add: index_get_None_iff uids_def node_keys_image)
  with None show ?thesis
    by (simp add: applyOp_def applyDelete_def)
next
  case (Some n)
  have "node_tombstoned n \<Longrightarrow> tombstone n = n"
    by (simp add: tombstone_def)
  then have "node_tombstoned n \<Longrightarrow> update_node (uidKey u) tombstone (doc_chain d) = doc_chain d"
    using Some by (intro update_node_fix [of _ _ n]) (simp_all add: index_get_def)
  with Some show ?thesis
    by (simp add: applyOp_def applyDelete_def)
qed

lemma chain_FORMAT [doc_simps]:
  "doc_chain (applyOp d (FORMAT u attrs)) =
     update_node (uidKey u) (merge_attributes attrs) (doc_chain d)"
proof (cases "index_get d (uidKey u)")
  case None
  then have "update_node (uidKey u) (merge_attributes attrs) (doc_chain d) = doc_chain d"
    by (intro update_node_absent) (simp add: index_get_None_iff uids_def node_keys_image)
  with None show ?thesis
    by (simp add: applyOp_def applyFormat_def)
qed (simp add: applyOp_def applyFormat_def)

lemma applyOp_ROLLBACK [simp]: "applyOp d (ROLLBACK u a v) = d"
  by (simp add: applyOp_def)

lemma applyOp_gap: "\<not> op_ready d x \<Longrightarrow> applyOp d x = d"
  by (cases x)
     (auto simp: applyOp_def applyInsert_def applyDelete_def applyFormat_def
       split: option.split)

lemma uids_applyOp [doc_simps]:
  "uids (applyOp d x) =
    (case x of INSERT u a v \<Rightarrow> if anchor a \<in> uids d then insert u (uids d) else uids d
     | _ \<Rightarrow> uids d)"
proof (cases x)
  case (INSERT u a v)
  show ?thesis
  proof (cases "u \<notin> uids d \<and> anchor a \<in> uids d")
    case True
    then have "uidKey (anchor a) \<in> node_key ` set (doc_chain d)"
      by (simp add: uids_def node_keys_image)
    with True INSERT show ?thesis
      by (simp add: uids_def chain_INSERT uids_insert_after)
  next
    case False
    then show ?thesis by (auto simp: INSERT uids_def chain_INSERT)
  qed
next
  case (DELETE u)
  then show ?thesis
    by (auto simp: uids_def applyOp_def applyDelete_def set_map_update_node split: option.split)
next
  case (FORMAT u attrs)
  then show ?thesis
    by (simp add: uids_def chain_FORMAT set_map_update_node)
qed simp

lemma uids_mono: "uids d \<subseteq> uids (applyOp d x)"
  by (auto simp: doc_simps split: RGAOperation.split)

lemma op_ready_mono: "op_ready d y \<Longrightarrow> op_ready (applyOp d x) y"
  using uids_mono [of d x] by (cases y) auto

section \<open>The invariant is kept\<close>

lemma wf_new [wf_intros, simp]: "wf_doc newRGADocument"
  by (simp add: wf_doc_def newRGADocument_def live_def)

lemma wf_doc_distinct: "wf_doc d \<Longrightarrow> distinct (map node_uid (doc_chain d))"
  by (simp add: wf_doc_def)

lemma wf_doc_chain: "wf_doc d \<Longrightarrow> doc_chain d = root_node # body d"
  by (metis list.collapse wf_doc_def)

lemma root_in_uids [simp]: "wf_doc d \<Longrightarrow> ROOT_UID \<in> uids d"
  by (metis image_eqI list.set_intros(1) node_uid_simps(4) uids_def wf_doc_chain)

lemma wf_docI:
  assumes "doc_chain d = root_node # ns" "distinct (ROOT_UID # map node_uid ns)"
    and "doc_length d = int (length (live ns))" "doc_nodeCount d = int (length ns)"
  shows "wf_doc d"
  using assms by (simp add: wf_doc_def)

lemma wf_docE:
  assumes "wf_doc d"
  obtains ns where "doc_chain d = root_node # ns" "distinct (ROOT_UID # map node_uid ns)"
    "doc_length d = int (length (live ns))" "doc_nodeCount d = int (length ns)"
proof
  show c: "doc_chain d = root_node # body d"
    by (rule wf_doc_chain) fact
  show "distinct (ROOT_UID # map node_uid (body d))"
    using wf_doc_distinct [OF assms] c by (metis list.simps(9) node_uid_simps(4))
qed (use assms in \<open>simp_all add: wf_doc_def\<close>)

lemma size_live: "length (live ns) = size (filter_mset (\<lambda>n. \<not> node_tombstoned n) (mset ns))"
  by (simp add: live_def flip: mset_filter)

lemma wf_applyInsert:
  assumes "wf_doc d" "applyInsert d u a v = Inr d'"
  shows "wf_doc d'"
proof (cases "u \<in> uids d")
  case True
  with assms show ?thesis by (simp add: applyInsert_def)
next
  case False
  with assms have a: "anchor a \<in> uids d"
    and d': "d' = d\<lparr>doc_chain := insert_after (uidKey (anchor a)) (new_node u v) (doc_chain d),
                  doc_length := doc_length d + 1, doc_nodeCount := doc_nodeCount d + 1\<rparr>"
    by (auto simp: applyInsert_def split: if_splits)
  obtain ns where ns: "doc_chain d = root_node # ns" "distinct (ROOT_UID # map node_uid ns)"
    "doc_length d = int (length (live ns))" "doc_nodeCount d = int (length ns)"
    using wf_docE [OF assms(1)] .
  let ?xs = "insert_after (uidKey (anchor a)) (new_node u v) (doc_chain d)"
  have "mset ?xs = add_mset (new_node u v) (mset (doc_chain d))"
    using a by (intro mset_insert_after) (simp add: uids_def node_keys_image)
  moreover obtain ms where ms: "?xs = root_node # ms"
    using ns hd_insert_after [of "doc_chain d" "uidKey (anchor a)" "new_node u v"]
    by (metis hd_Cons_tl insert_after_eq_Nil list.distinct(1) list.sel(1))
  ultimately have m: "mset ms = add_mset (new_node u v) (mset ns)"
    using ns by simp
  have "mset (map node_uid ms) = add_mset u (mset (map node_uid ns))"
    using m by simp
  then have "distinct (map node_uid ms) \<longleftrightarrow> distinct (u # map node_uid ns)"
    by (metis mset.simps(2) mset_eq_imp_distinct_iff)
  moreover have "set ms = insert (new_node u v) (set ns)"
    using m by (metis set_mset_add_mset_insert set_mset_mset)
  moreover have "u \<notin> node_uid ` set ns" "u \<noteq> ROOT_UID"
    using False ns by (auto simp: uids_def)
  moreover have "length ms = length ns + 1"
    using m by (metis Suc_eq_plus1 size_add_mset size_mset)
  moreover have "length (live ms) = length (live ns) + 1"
    using m by (simp add: size_live new_node_def)
  ultimately show ?thesis
    using ns ms by (auto simp: d' intro!: wf_docI [of _ ms])
qed

lemma live_update_tombstone:
  assumes "distinct (map node_uid xs)" "n \<in> set xs" "node_uid n = u"
  shows "length (live (update_node (uidKey u) tombstone xs)) =
    length (live xs) - (if node_tombstoned n then 0 else 1)"
  using assms
proof (induction xs)
  case (Cons x xs)
  show ?case
  proof (cases "node_uid x = u")
    case True
    then have "n = x" using Cons.prems by (auto simp: image_iff)
    with True show ?thesis by (simp add: live_def tombstone_def)
  next
    case False
    then have "n \<in> set xs" using Cons.prems by auto
    moreover have "length (live xs) > 0" if "\<not> node_tombstoned n"
      using that \<open>n \<in> set xs\<close> by (auto simp: live_def filter_empty_conv)
    ultimately show ?thesis
      using False Cons by (auto simp: live_def)
  qed
qed simp

lemma live_update_other:
  assumes "\<And>n. node_tombstoned (f n) = node_tombstoned n"
  shows "length (live (update_node k f xs)) = length (live xs)"
  by (induction xs) (auto simp: live_def assms)

lemma wf_applyDelete:
  assumes "wf_doc d" "u \<noteq> ROOT_UID"
  shows "wf_doc (fst (applyDelete d u))"
proof (cases "index_get d (uidKey u)")
  case None
  with assms show ?thesis by (simp add: applyDelete_def)
next
  case (Some n)
  obtain ns where ns: "doc_chain d = root_node # ns" "distinct (ROOT_UID # map node_uid ns)"
    "doc_length d = int (length (live ns))" "doc_nodeCount d = int (length ns)"
    using wf_docE [OF assms(1)] .
  have n: "n \<in> set ns" "node_uid n = u"
    using index_get_SomeD [OF Some] ns assms(2) by auto
  let ?ms = "update_node (uidKey u) tombstone ns"
  have "length (live ns) > 0" if "\<not> node_tombstoned n"
    using that n by (auto simp: live_def filter_empty_conv)
  then show ?thesis
    using Some assms ns n live_update_tombstone [of ns n u]
    by (auto simp: applyDelete_def of_nat_diff Suc_le_eq intro!: wf_docI [of _ ?ms])
qed

lemma wf_applyFormat:
  assumes "wf_doc d" "u \<noteq> ROOT_UID"
  shows "wf_doc (fst (applyFormat d u attrs))"
proof (cases "index_get d (uidKey u)")
  case None
  with assms show ?thesis by (simp add: applyFormat_def)
next
  case (Some n)
  obtain ns where ns: "doc_chain d = root_node # ns" "distinct (ROOT_UID # map node_uid ns)"
    "doc_length d = int (length (live ns))" "doc_nodeCount d = int (length ns)"
    using wf_docE [OF assms(1)] .
  let ?ms = "update_node (uidKey u) (merge_attributes attrs) ns"
  have "length (live ?ms) = length (live ns)"
    by (rule live_update_other) (simp add: merge_attributes_def)
  then show ?thesis
    using Some assms ns by (auto simp: applyFormat_def intro!: wf_docI [of _ ?ms])
qed

lemma wf_applyOp [wf_intros]: "wf_doc d \<Longrightarrow> not_on_root x \<Longrightarrow> wf_doc (applyOp d x)"
  by (cases x)
     (auto simp: applyOp_def not_on_root_def intro: wf_applyDelete wf_applyFormat
       dest: wf_applyInsert split: sum.split)

lemma wf_gc [wf_intros]:
  assumes "wf_doc d"
  shows "wf_doc (fst (gc d))"
proof -
  obtain ns where ns: "doc_chain d = root_node # ns" "distinct (ROOT_UID # map node_uid ns)"
    "doc_length d = int (length (live ns))" "doc_nodeCount d = int (length ns)"
    using wf_docE [OF assms] .
  have "distinct (map node_uid (live ns))"
    using ns by (simp add: live_def distinct_map_filter)
  moreover have "set (live ns) \<subseteq> set ns" "live (live ns) = live ns"
    by (auto simp: live_def)
  ultimately show ?thesis
    using ns by (auto simp: gc_def gc_nodes_eq image_iff intro!: wf_docI [of _ "live ns"]) blast
qed

end
