(* ===== verification/Causal_Delivery.thy ===== *)
theory Causal_Delivery
  imports Sync_Prelude
begin

text \<open>
  The contract between a replicated state and the code that feeds operations to it. A provider
  promises: an operation that is not \<open>ready\<close> changes nothing, readiness is never lost by
  applying another ready operation, two ready operations that do not conflict commute, and a
  ready operation applied twice is the same as once. The clients (the operation log, loading and
  rebuilding documents) use what follows from it: any two causal orders of the same operations
  give the same state, duplicates included, and a causal gap always has a ready operation that
  fills it.
\<close>

section \<open>Runs\<close>

definition run :: "('s \<Rightarrow> 'o \<Rightarrow> 's) \<Rightarrow> 's \<Rightarrow> 'o list \<Rightarrow> 's" where
  "run step s os = foldl step s os"

fun deliverable :: "('s \<Rightarrow> 'o \<Rightarrow> 's) \<Rightarrow> ('s \<Rightarrow> 'o \<Rightarrow> bool) \<Rightarrow> 's \<Rightarrow> 'o list \<Rightarrow> bool" where
  "deliverable step ready s [] = True"
| "deliverable step ready s (x # xs) = (ready s x \<and> deliverable step ready (step s x) xs)"

lemma run_Nil [simp]: "run step s [] = s"
  by (simp add: run_def)

lemma run_Cons [simp]: "run step s (x # xs) = run step (step s x) xs"
  by (simp add: run_def)

lemma run_append [simp]: "run step s (xs @ ys) = run step (run step s xs) ys"
  by (simp add: run_def)

lemma deliverable_append [simp]:
  "deliverable step ready s (xs @ ys) \<longleftrightarrow>
     deliverable step ready s xs \<and> deliverable step ready (run step s xs) ys"
  by (induction xs arbitrary: s) auto

section \<open>Commuting operations\<close>

locale causal_ops =
  fixes step :: "'s \<Rightarrow> 'o \<Rightarrow> 's"
    and ready :: "'s \<Rightarrow> 'o \<Rightarrow> bool"
    and agree :: "'o \<Rightarrow> 'o \<Rightarrow> bool"
  assumes gap_unchanged: "\<not> ready s a \<Longrightarrow> step s a = s"
    and ready_persists: "ready s a \<Longrightarrow> ready s b \<Longrightarrow> ready (step s a) b"
    and commutes: "ready s a \<Longrightarrow> ready s b \<Longrightarrow> agree a b \<Longrightarrow> step (step s a) b = step (step s b) a"
begin

abbreviation deliv :: "'s \<Rightarrow> 'o list \<Rightarrow> bool" where
  "deliv \<equiv> deliverable step ready"

lemma ready_run: "deliv s xs \<Longrightarrow> ready s a \<Longrightarrow> ready (run step s xs) a"
  by (induction xs arbitrary: s) (auto intro: ready_persists)

lemma move_front:
  assumes "deliv s xs" "ready s a" "\<forall>x \<in> set xs. agree a x"
  shows "run step (step s a) xs = step (run step s xs) a \<and> deliv (step s a) xs"
  using assms
proof (induction xs arbitrary: s)
  case Nil
  then show ?case by simp
next
  case (Cons x xs)
  have "step (step s a) x = step (step s x) a"
    using Cons.prems by (auto intro: commutes)
  moreover have "ready (step s a) x" "ready (step s x) a"
    using Cons.prems by (auto intro: ready_persists)
  ultimately show ?case
    using Cons.IH [of "step s x"] Cons.prems by simp
qed

text \<open>Strong eventual consistency: any two causal orders of the same operations agree.\<close>

lemma permuted_runs:
  assumes "deliv s xs" "deliv s ys" "mset xs = mset ys"
    and "\<forall>a \<in> set xs. \<forall>b \<in> set xs. agree a b"
  shows "run step s xs = run step s ys"
  using assms
proof (induction xs arbitrary: s ys)
  case Nil
  then show ?case by simp
next
  case (Cons a xs)
  then have "a \<in> set ys"
    by (metis list.set_intros(1) mset_eq_setD)
  then obtain p q where ys: "ys = p @ a # q"
    by (meson split_list)
  have sub: "set p \<subseteq> set (a # xs)"
    using Cons.prems(3) ys by (metis mset_eq_setD set_append Un_upper1)
  have p: "run step (step s a) p = step (run step s p) a" "deliv (step s a) p"
    using move_front [of s p a] Cons.prems sub unfolding ys by auto
  have "run step (step s a) xs = run step (step s a) (p @ q)"
    using Cons.prems p unfolding ys by (intro Cons.IH) auto
  with p show ?case
    unfolding ys by simp
qed

text \<open>Two causal sequences from the same state can follow each other, in either order.\<close>

lemma diamond:
  assumes "deliv s xs" "deliv s ys"
    and "\<forall>a \<in> set xs. \<forall>b \<in> set ys. agree a b"
  shows "deliv (run step s ys) xs \<and> run step s (ys @ xs) = run step s (xs @ ys)"
  using assms
proof (induction xs arbitrary: s)
  case Nil
  then show ?case by simp
next
  case (Cons a xs)
  have m: "run step (step s a) ys = step (run step s ys) a" "deliv (step s a) ys"
    using move_front [of s ys a] Cons.prems by auto
  have "deliv (run step (step s a) ys) xs"
    and "run step (step s a) (ys @ xs) = run step (step s a) (xs @ ys)"
    using Cons.IH [of "step s a"] Cons.prems m by auto
  then show ?case
    using m Cons.prems ready_run by auto
qed

end

section \<open>Duplicates\<close>

locale idempotent_ops = causal_ops +
  assumes idempotent: "ready s a \<Longrightarrow> step (step s a) a = step s a"
begin

text \<open>An operation that was already delivered changes nothing, however late its copy comes.\<close>

lemma absorbed:
  assumes "deliv s xs" "a \<in> set xs" "\<forall>x \<in> set xs. agree a x"
  shows "step (run step s xs) a = run step s xs"
proof -
  obtain u v where xs: "xs = u @ a # v"
    using assms(2) by (meson split_list)
  define t where "t = run step s u"
  have rt: "ready t a" "deliv (step t a) v"
    using assms(1) unfolding xs t_def by auto
  have "step (run step (step t a) v) a = run step (step (step t a) a) v"
    using move_front [of "step t a" v a] rt assms(3) ready_persists unfolding xs by auto
  then show ?thesis
    using rt idempotent unfolding xs t_def by simp
qed

lemma absorbed_run:
  assumes "deliv s xs" "set ys \<subseteq> set xs"
    and "\<forall>a \<in> set xs. \<forall>b \<in> set xs. agree a b"
  shows "run step (run step s xs) ys = run step s xs"
  using assms(2)
proof (induction ys)
  case (Cons y ys)
  have "step (run step s xs) y = run step s xs"
    using Cons.prems assms by (intro absorbed) auto
  with Cons show ?case by simp
qed simp

text \<open>At-least-once delivery: only the set of delivered operations counts.\<close>

lemma same_set_runs:
  assumes "deliv s xs" "deliv s ys" "set xs = set ys"
    and "\<forall>a \<in> set xs. \<forall>b \<in> set xs. agree a b"
  shows "run step s xs = run step s ys"
proof -
  have "run step s xs = run step (run step s xs) ys"
    using assms by (intro absorbed_run [symmetric]) auto
  also have "\<dots> = run step (run step s ys) xs"
    using diamond [of s ys xs] assms by simp
  also have "\<dots> = run step s ys"
    using assms by (intro absorbed_run) auto
  finally show ?thesis .
qed

text \<open>A causal gap can be filled: if some of a causal sequence is missing from what was
  delivered, its first missing operation is ready.\<close>

lemma missing_ready:
  assumes "deliv s xs" "deliv s zs"
    and "\<forall>a \<in> set xs \<union> set zs. \<forall>b \<in> set xs \<union> set zs. agree a b"
    and "\<not> set xs \<subseteq> set zs"
  shows "\<exists>x \<in> set xs - set zs. ready (run step s zs) x"
proof -
  obtain p x q where xs: "xs = p @ x # q" "set p \<subseteq> set zs" "x \<notin> set zs"
    using split_first_not [OF assms(4)] by blast
  have p: "deliv s p" "ready (run step s p) x"
    using assms(1) xs by auto
  have d: "deliv (run step s p) zs" "run step s (p @ zs) = run step s (zs @ p)"
    using diamond [of s zs p] p assms xs by auto
  have "ready (run step (run step s p) zs) x"
    using ready_run [OF d(1) p(2)] .
  moreover have "run step (run step s p) zs = run step s zs"
    using d(2) absorbed_run [of s zs p] assms xs by simp
  ultimately show ?thesis
    using xs by auto
qed

text \<open>Delivering one more ready operation keeps a sequence causal.\<close>

lemma deliver_more:
  assumes "deliv s zs" "ready (run step s zs) a"
  shows "deliv s (zs @ [a])" and "run step s (zs @ [a]) = step (run step s zs) a"
  using assms by auto

end

end
