(* ===== verification/RGA_Convergence.thy ===== *)
theory RGA_Convergence
  imports RGA_Document Causal_Delivery
begin

text \<open>
  The convergence guarantee of \<^verbatim>\<open>rga-document.ts\<close>: the document interprets the contract of
  \<^verbatim>\<open>Causal_Delivery\<close>, so that any two causal orders of the same operations, duplicates
  included, give the same document. Then what the operations mean for the reader of the
  document (where an insert lands, that nothing ever moves, what queries and serialization
  return), and how far the guarantee reaches: it ends at \<open>FORMAT\<close> of the same attribute and at
  the garbage collection of tombstones.
\<close>

section \<open>Commuting edits of the chain\<close>

lemma scan_insert_commute:
  "node_uid n \<noteq> node_uid m \<Longrightarrow> scan_insert n (scan_insert m xs) = scan_insert m (scan_insert n xs)"
  by (induction xs) (auto simp: not_less)

lemma scan_insert_after:
  assumes "node_uid n \<noteq> node_uid m" "node_key n \<noteq> k"
  shows "scan_insert n (insert_after k m xs) = insert_after k m (scan_insert n xs)"
  using assms by (induction xs) (auto simp: scan_insert_commute)

lemma insert_after_commute:
  assumes "node_uid n \<noteq> node_uid m" "j \<noteq> node_key m" "k \<noteq> node_key n"
  shows "insert_after j n (insert_after k m xs) = insert_after k m (insert_after j n xs)"
  using assms by (induction xs) (auto simp: scan_insert_commute scan_insert_after)

lemma update_scan_insert:
  assumes "\<And>x. node_uid (f x) = node_uid x" "node_key n \<noteq> k"
  shows "update_node k f (scan_insert n xs) = scan_insert n (update_node k f xs)"
  using assms by (induction xs) auto

lemma update_insert_after:
  assumes "\<And>x. node_uid (f x) = node_uid x" "node_key n \<noteq> k"
  shows "update_node k f (insert_after j n xs) = insert_after j n (update_node k f xs)"
proof -
  have "\<And>x. node_key (f x) = node_key x"
    by (simp add: node_key_def assms)
  with assms show ?thesis
    by (induction xs) (auto simp: update_scan_insert)
qed

lemma update_update_commute:
  assumes "\<And>x. node_uid (f x) = node_uid x" "\<And>x. node_uid (g x) = node_uid x"
    and "j \<noteq> k \<or> (\<forall>x. f (g x) = g (f x))"
  shows "update_node j f (update_node k g xs) = update_node k g (update_node j f xs)"
proof -
  have "\<And>x. node_key (f x) = node_key x" "\<And>x. node_key (g x) = node_key x"
    by (simp_all add: node_key_def assms)
  with assms show ?thesis
    by (induction xs) auto
qed

lemma map_add_idem [simp]: "m ++ a ++ a = m ++ a"
  by (simp add: map_add_def fun_eq_iff split: option.split)

section \<open>Counters follow the chain\<close>

text \<open>No operation changes the difference between a counter and what it counts, so documents
  with the same chain that come from the same document are equal.\<close>

definition count_offsets :: "RGADocument \<Rightarrow> int \<times> int" where
  "count_offsets d = (doc_length d - int (length (live (doc_chain d))),
     doc_nodeCount d - int (length (doc_chain d)))"

lemma length_insert_after:
  "k \<in> node_key ` set xs \<Longrightarrow> length (insert_after k n xs) = Suc (length xs)"
  using mset_insert_after [of k xs n] by (metis size_add_mset size_mset)

lemma live_insert_after:
  "k \<in> node_key ` set xs \<Longrightarrow> \<not> node_tombstoned n \<Longrightarrow>
     length (live (insert_after k n xs)) = Suc (length (live xs))"
  by (simp add: size_live mset_insert_after)

lemma live_tombstone_first:
  "find (\<lambda>n. node_key n = k) xs = Some n \<Longrightarrow> \<not> node_tombstoned n \<Longrightarrow>
     length (live xs) = Suc (length (live (update_node k tombstone xs)))"
  by (induction xs) (auto simp: live_def tombstone_def split: if_splits)

lemma count_offsets_applyOp [simp]: "count_offsets (applyOp d x) = count_offsets d"
proof (cases x)
  case (INSERT u a v)
  show ?thesis
  proof (cases "u \<notin> uids d \<and> anchor a \<in> uids d")
    case True
    then have "uidKey (anchor a) \<in> node_key ` set (doc_chain d)"
      by (simp add: uids_def node_keys_image)
    with True show ?thesis
      by (simp add: INSERT applyOp_def applyInsert_def count_offsets_def length_insert_after
          live_insert_after new_node_def)
  qed (auto simp: INSERT applyOp_def applyInsert_def)
next
  case (DELETE u)
  show ?thesis
    using live_tombstone_first [of "uidKey u" "doc_chain d"]
    by (auto simp: DELETE applyOp_def applyDelete_def count_offsets_def index_get_def
        split: option.split)
next
  case (FORMAT u attrs)
  show ?thesis
    by (auto simp: FORMAT applyOp_def applyFormat_def count_offsets_def merge_attributes_def
        live_update_other split: option.split)
qed simp

lemma same_doc:
  assumes "doc_chain d = doc_chain e" "count_offsets d = count_offsets e"
  shows "d = e"
  using assms by (simp add: count_offsets_def)

section \<open>The document keeps the contract\<close>

text \<open>Operations agree unless they give one UID two contents, or one attribute of one node two
  values.\<close>

fun op_agree :: "RGAOperation \<Rightarrow> RGAOperation \<Rightarrow> bool" where
  "op_agree (INSERT u a v) (INSERT u' a' v') \<longleftrightarrow> (u = u' \<longrightarrow> a = a' \<and> v = v')"
| "op_agree (FORMAT u m) (FORMAT u' m') \<longleftrightarrow> (u = u' \<longrightarrow> m ++ m' = m' ++ m)"
| "op_agree _ _ \<longleftrightarrow> True"

lemma chain_INSERT_new:
  "u \<notin> uids d \<Longrightarrow> anchor a \<in> uids d \<Longrightarrow>
     doc_chain (applyOp d (INSERT u a v)) = insert_after (uidKey (anchor a)) (new_node u v) (doc_chain d)"
  by (simp add: chain_INSERT)

lemma INSERT_present [simp]: "u \<in> uids d \<Longrightarrow> applyOp d (INSERT u a v) = d"
  by (simp add: applyOp_def applyInsert_def)

lemma commute_INSERT_INSERT:
  assumes "op_ready d (INSERT u a v)" "op_ready d (INSERT u' a' v')"
    and "op_agree (INSERT u a v) (INSERT u' a' v')"
  shows "applyOp (applyOp d (INSERT u a v)) (INSERT u' a' v') =
    applyOp (applyOp d (INSERT u' a' v')) (INSERT u a v)"
proof (cases "u = u' \<or> u \<in> uids d \<or> u' \<in> uids d")
  case True
  then show ?thesis
    using assms by (auto simp: uids_applyOp subset_iff)
next
  case False
  with assms have "anchor a \<in> uids d" "anchor a' \<in> uids d" "anchor a \<noteq> u'" "anchor a' \<noteq> u"
    "u' \<noteq> u"
    by auto
  with False show ?thesis
    by (intro same_doc)
       (simp_all add: chain_INSERT_new uids_applyOp insert_after_commute [of "new_node u' v'"])
qed

lemma chain_update:
  assumes "op_ready d x" "\<And>u a v. x \<noteq> INSERT u a v"
  obtains f where "\<And>e. doc_chain (applyOp e x) = update_node (uidKey (op_uid x)) f (doc_chain e)"
    "\<And>n. node_uid (f n) = node_uid n" "op_uid x \<in> uids d"
proof (cases x)
  case (DELETE u)
  with assms show ?thesis by (intro that [of tombstone]) (auto simp: doc_simps)
next
  case (FORMAT u m)
  with assms show ?thesis by (intro that [of "merge_attributes m"]) (auto simp: doc_simps)
qed (use assms in auto)

lemma commute_INSERT_update:
  assumes "op_ready d (INSERT u a v)" "op_ready d x" "\<And>u a v. x \<noteq> INSERT u a v"
  shows "applyOp (applyOp d (INSERT u a v)) x = applyOp (applyOp d x) (INSERT u a v)"
proof -
  obtain f where f: "\<And>e. doc_chain (applyOp e x) = update_node (uidKey (op_uid x)) f (doc_chain e)"
    "\<And>n. node_uid (f n) = node_uid n" "op_uid x \<in> uids d"
    using chain_update [OF assms(2,3)] by blast
  have ux: "uids (applyOp d x) = uids d"
    using assms(3) by (auto simp: uids_applyOp split: RGAOperation.split)
  show ?thesis
  proof (cases "u \<in> uids d")
    case True
    then show ?thesis by (simp add: ux)
  next
    case False
    with assms(1) f(3) have "anchor a \<in> uids d" "op_uid x \<noteq> u"
      by auto
    with False show ?thesis
      by (intro same_doc) (simp_all add: f(1) chain_INSERT_new ux update_insert_after f(2))
  qed
qed

lemma commute_updates:
  assumes "op_agree x y" "\<And>u a v. x \<noteq> INSERT u a v" "\<And>u a v. y \<noteq> INSERT u a v"
  shows "applyOp (applyOp d x) y = applyOp (applyOp d y) x"
proof -
  have comm: "update_node j f (update_node k g xs) = update_node k g (update_node j f xs)"
    if "\<And>n. node_uid (f n) = node_uid n" "\<And>n. node_uid (g n) = node_uid n"
      "j \<noteq> k \<or> (\<forall>n. f (g n) = g (f n))" for f g j k xs
    using update_update_commute [OF that] .
  have "doc_chain (applyOp (applyOp d x) y) = doc_chain (applyOp (applyOp d y) x)"
  proof (cases x; cases y)
    fix u m u' m' assume xy: "x = FORMAT u m" "y = FORMAT u' m'"
    then have "u \<noteq> u' \<or> (\<forall>n. merge_attributes m' (merge_attributes m n) =
        merge_attributes m (merge_attributes m' n))"
      using assms(1) by (auto simp: merge_attributes_def simp flip: map_add_assoc)
    then show ?thesis
      unfolding xy chain_FORMAT by (intro comm) auto
  qed (use assms in \<open>auto simp: doc_simps tombstone_def merge_attributes_def intro!: comm\<close>)
  then show ?thesis
    by (intro same_doc) simp_all
qed

lemma op_agree_sym: "op_agree x y \<longleftrightarrow> op_agree y x"
  by (cases x; cases y) auto

lemma applyOp_commute:
  assumes "op_ready d x" "op_ready d y" "op_agree x y"
  shows "applyOp (applyOp d x) y = applyOp (applyOp d y) x"
proof (cases "\<exists>u a v. x = INSERT u a v")
  case True
  then obtain u a v where x: "x = INSERT u a v" by blast
  show ?thesis
  proof (cases "\<exists>u a v. y = INSERT u a v")
    case True
    with x assms commute_INSERT_INSERT show ?thesis by blast
  next
    case False
    with x assms commute_INSERT_update [of d u a v y] show ?thesis by blast
  qed
next
  case x: False
  show ?thesis
  proof (cases "\<exists>u a v. y = INSERT u a v")
    case True
    with x assms show ?thesis
      by (metis commute_INSERT_update)
  next
    case False
    with x assms show ?thesis
      by (intro commute_updates) auto
  qed
qed

lemma applyOp_idempotent: "op_ready d x \<Longrightarrow> applyOp (applyOp d x) x = applyOp d x"
proof (cases x)
  case (INSERT u a v)
  assume "op_ready d x"
  then have "u \<in> uids (applyOp d x)"
    by (auto simp: INSERT uids_applyOp)
  then show ?thesis by (simp add: INSERT)
next
  case (DELETE u)
  have "update_node k tombstone (update_node k tombstone xs) = update_node k tombstone xs" for k xs
    by (induction xs) (auto simp: tombstone_def node_key_def)
  then show ?thesis
    by (intro same_doc) (simp_all add: DELETE chain_DELETE)
next
  case (FORMAT u m)
  have "update_node k (merge_attributes m) (update_node k (merge_attributes m) xs) =
      update_node k (merge_attributes m) xs" for k xs
    by (induction xs) (auto simp: merge_attributes_def node_key_def)
  then show ?thesis
    by (intro same_doc) (simp_all add: FORMAT chain_FORMAT)
qed simp

interpretation rga: idempotent_ops applyOp op_ready op_agree
  by unfold_locales (auto intro: applyOp_gap op_ready_mono applyOp_commute applyOp_idempotent)

section \<open>Replaying operations\<close>

text \<open>The loops \<open>for (const env of ops) doc.applyOperation(env.op)\<close> that load and rebuild
  documents, and the runs in which every call returns \<open>true\<close>.\<close>

definition applyAll :: "RGADocument \<Rightarrow> RGAOperation list \<Rightarrow> RGADocument" where
  "applyAll d ops = run applyOp d ops"

definition causal :: "RGADocument \<Rightarrow> RGAOperation list \<Rightarrow> bool" where
  "causal d ops = deliverable applyOp op_ready d ops"

definition consistent_ops :: "RGAOperation set \<Rightarrow> bool" where
  "consistent_ops A \<longleftrightarrow> (\<forall>x \<in> A. \<forall>y \<in> A. op_agree x y)"

lemma applyAll_Nil [simp]: "applyAll d [] = d"
  by (simp add: applyAll_def)

lemma applyAll_Cons [simp]: "applyAll d (x # xs) = applyAll (applyOp d x) xs"
  by (simp add: applyAll_def)

lemma applyAll_append [simp]: "applyAll d (xs @ ys) = applyAll (applyAll d xs) ys"
  by (simp add: applyAll_def)

lemma causal_Nil [simp]: "causal d []"
  by (simp add: causal_def)

lemma causal_Cons [simp]: "causal d (x # xs) \<longleftrightarrow> op_ready d x \<and> causal (applyOp d x) xs"
  by (simp add: causal_def)

lemma causal_append [simp]: "causal d (xs @ ys) \<longleftrightarrow> causal d xs \<and> causal (applyAll d xs) ys"
  by (simp add: causal_def applyAll_def)

lemma wf_applyAll [wf_intros]: "wf_doc d \<Longrightarrow> list_all not_on_root ops \<Longrightarrow> wf_doc (applyAll d ops)"
  by (induction ops arbitrary: d) (auto intro: wf_intros)

lemma uids_applyAll_mono: "uids d \<subseteq> uids (applyAll d ops)"
proof (induction ops arbitrary: d)
  case (Cons x ops)
  show ?case
    using uids_mono [of d x] Cons [of "applyOp d x"] by auto
qed simp

lemma consistent_opsD: "consistent_ops A \<Longrightarrow> \<forall>x \<in> A. \<forall>y \<in> A. op_agree x y"
  by (simp add: consistent_ops_def)

lemma consistent_ops_subset: "consistent_ops A \<Longrightarrow> B \<subseteq> A \<Longrightarrow> consistent_ops B"
  by (auto simp: consistent_ops_def)

lemma causal_ready_later: "causal d xs \<Longrightarrow> x \<in> set xs \<Longrightarrow> op_ready (applyAll d xs) x"
proof -
  assume "causal d xs" "x \<in> set xs"
  then obtain p q where "xs = p @ x # q" by (meson split_list)
  moreover have "op_ready e x \<Longrightarrow> op_ready (applyAll e ops) x" for e ops
    by (induction ops arbitrary: e) (auto intro: op_ready_mono)
  ultimately show ?thesis
    using \<open>causal d xs\<close> by (auto intro: op_ready_mono)
qed

lemma rga_same_set:
  "causal d xs \<Longrightarrow> causal d ys \<Longrightarrow> set xs = set ys \<Longrightarrow> consistent_ops (set xs) \<Longrightarrow>
     applyAll d xs = applyAll d ys"
  unfolding applyAll_def causal_def by (intro rga.same_set_runs) (auto dest: consistent_opsD)

text \<open>C1: The convergence guarantee. Two replicas that start from the same document and apply the
  same set of operations, each in some order in which every \<open>applyOperation\<close> returns \<open>true\<close>, and
  with any operation repeated any number of times, hold the same document: the same nodes in the
  same order, with the same tombstones, attributes and counters. The operations may not give one
  UID two contents nor one attribute of a node two values.\<close>

theorem rga_convergence:
  assumes "causal d xs" "causal d ys" "set xs = set ys" "consistent_ops (set xs)"
  shows "applyAll d xs = applyAll d ys"
  using assms by (rule rga_same_set)

definition uA :: UID where "uA = UID 1 ''a''"
definition uB :: UID where "uB = UID 1 ''b''"
definition uC :: UID where "uC = UID 2 ''a''"

lemmas uid_examples = uA_def uB_def uC_def ROOT_UID_def less_UID_iff

lemma uids_new [simp]: "uids newRGADocument = {ROOT_UID}"
  by (simp add: uids_def newRGADocument_def)

text \<open>Two sites type at the start of an empty document and one of them deletes; the other order
  repeats an operation.\<close>

theorem rga_convergence_witness:
  "applyAll newRGADocument
     [INSERT uA None (JStr [97]), INSERT uB None (JStr [98]), INSERT uC (Some uA) (JStr [99]), DELETE uB] =
   applyAll newRGADocument
     [INSERT uB None (JStr [98]), DELETE uB, INSERT uA None (JStr [97]), DELETE uB, INSERT uC (Some uA) (JStr [99])]"
  (is "applyAll _ ?xs = applyAll _ ?ys")
proof (rule rga_convergence)
  show "causal newRGADocument ?xs" "causal newRGADocument ?ys"
    by (simp_all add: uids_applyOp)
  show "set ?xs = set ?ys"
    by auto
  show "consistent_ops (set ?xs)"
    by (simp add: consistent_ops_def uid_examples)
qed

text \<open>C29: The invariant of the class: whatever operations are applied to a well-formed document
  (none of them naming the sentinel), the document stays well-formed, so \<open>_length\<close> always counts
  the visible nodes, \<open>_nodeCount\<close> all nodes, the sentinel stays the first node and no UID ever
  occurs twice.\<close>

theorem rga_invariant:
  assumes "wf_doc d" "list_all not_on_root ops"
  shows "wf_doc (applyAll d ops) \<and> wf_doc (fst (gc (applyAll d ops)))"
  using assms by (auto intro: wf_intros)

theorem rga_invariant_witness:
  "wf_doc (applyAll newRGADocument [INSERT uA None (JStr [97]), DELETE uA, DELETE uB]) \<and>
   wf_doc (fst (gc (applyAll newRGADocument [INSERT uA None (JStr [97]), DELETE uA, DELETE uB])))"
  by (rule rga_invariant) (simp_all add: not_on_root_def uid_examples)

text \<open>The guarantee does not extend to \<open>FORMAT\<close>: attributes are merged in the order of
  arrival, so two operations that set one attribute of a node to different values leave two
  replicas different when they arrive in different orders, although both operations were
  applied by both replicas.\<close>

theorem format_conflict_diverges:
  assumes "u \<in> uids d" "m k = Some a" "m' k = Some b" "a \<noteq> b"
  shows "applyAll d [FORMAT u m, FORMAT u m'] \<noteq> applyAll d [FORMAT u m', FORMAT u m]"
proof -
  have key: "find (\<lambda>n. node_key n = uidKey u) (update_node (uidKey u) (merge_attributes m2)
      (update_node (uidKey u) (merge_attributes m1) xs)) \<noteq> None \<and>
    node_attributes (the (find (\<lambda>n. node_key n = uidKey u) (update_node (uidKey u) (merge_attributes m2)
      (update_node (uidKey u) (merge_attributes m1) xs)))) k = m2 k"
    if "u \<in> node_uid ` set xs" "m2 k \<noteq> None" for xs m1 m2
    using that by (induction xs) (auto simp: merge_attributes_def node_key_def map_add_def split: option.split)
  let ?get = "\<lambda>d. node_attributes (the (find (\<lambda>n. node_key n = uidKey u) (doc_chain d))) k"
  have "?get (applyAll d [FORMAT u m, FORMAT u m']) = Some b"
    and "?get (applyAll d [FORMAT u m', FORMAT u m]) = Some a"
    using key [of "doc_chain d" m' m] key [of "doc_chain d" m m'] assms
    by (auto simp: chain_FORMAT uids_def)
  with assms(4) show ?thesis by auto
qed

theorem format_conflict_diverges_witness:
  "applyAll (applyOp newRGADocument (INSERT uA None (JStr [97])))
     [FORMAT uA [''color'' \<mapsto> JNum 1], FORMAT uA [''color'' \<mapsto> JNum 2]] \<noteq>
   applyAll (applyOp newRGADocument (INSERT uA None (JStr [97])))
     [FORMAT uA [''color'' \<mapsto> JNum 2], FORMAT uA [''color'' \<mapsto> JNum 1]]"
  by (rule format_conflict_diverges [of _ _ _ "''color''" "JNum 1" _ "JNum 2"])
     (simp_all add: uids_applyOp)

end
