(* ===== verification/RGA_Queries.thy ===== *)
theory RGA_Queries
  imports RGA_Convergence "HOL-Library.Sublist"
begin

text \<open>
  What the operations of \<^verbatim>\<open>rga-document.ts\<close> mean for the reader of a document: where an insert
  lands, that nothing ever moves, the conversions between positions and UIDs, serialization, and
  the garbage collection of tombstones with the limits it puts on later operations.
\<close>

section \<open>Where an insert lands\<close>

lemma scan_insert_spec:
  "\<exists>q r. xs = q @ r \<and> scan_insert n xs = q @ n # r \<and> (\<forall>m \<in> set q. node_uid n < node_uid m) \<and>
     (r = [] \<or> node_uid (hd r) \<le> node_uid n)"
proof (induction xs)
  case Nil
  then show ?case by simp
next
  case (Cons x xs)
  show ?case
  proof (cases "node_uid n < node_uid x")
    case True
    from Cons obtain q r where "xs = q @ r" "scan_insert n xs = q @ n # r"
      "\<forall>m \<in> set q. node_uid n < node_uid m" "r = [] \<or> node_uid (hd r) \<le> node_uid n" by blast
    with True show ?thesis by - (rule exI [of _ "x # q"], rule exI [of _ r], simp)
  next
    case False
    then show ?thesis by - (rule exI [of _ "[]"], rule exI [of _ "x # xs"], simp)
  qed
qed

lemma insert_after_split:
  "uidKey a \<in> node_key ` set xs \<Longrightarrow>
     \<exists>p x ys. xs = p @ x # ys \<and> node_uid x = a \<and> insert_after (uidKey a) n xs = p @ x # scan_insert n ys"
proof (induction xs)
  case (Cons x xs)
  show ?case
  proof (cases "node_uid x = a")
    case True
    then show ?thesis by - (rule exI [of _ "[]"], rule exI [of _ x], rule exI [of _ xs], simp)
  next
    case False
    with Cons obtain p y ys where "xs = p @ y # ys" "node_uid y = a"
      "insert_after (uidKey a) n xs = p @ y # scan_insert n ys" by auto
    with False show ?thesis by - (rule exI [of _ "x # p"], rule exI [of _ y], rule exI [of _ ys], simp)
  qed
qed simp

lemma insert_lands:
  assumes "u \<notin> uids d" "anchor a \<in> uids d"
  shows "\<exists>p x q r. doc_chain d = p @ x # q @ r \<and> node_uid x = anchor a \<and>
    doc_chain (applyOp d (INSERT u a v)) = p @ x # q @ new_node u v # r \<and>
    (\<forall>n \<in> set q. u < node_uid n) \<and> (r = [] \<or> node_uid (hd r) < u)"
proof -
  have "uidKey (anchor a) \<in> node_key ` set (doc_chain d)"
    using assms(2) by (simp add: uids_def node_keys_image)
  then obtain p x ys where 1: "doc_chain d = p @ x # ys" "node_uid x = anchor a"
    "insert_after (uidKey (anchor a)) (new_node u v) (doc_chain d) = p @ x # scan_insert (new_node u v) ys"
    using insert_after_split by blast
  obtain q r where 2: "ys = q @ r" "scan_insert (new_node u v) ys = q @ new_node u v # r"
    "\<forall>m \<in> set q. u < node_uid m" "r = [] \<or> node_uid (hd r) \<le> u"
    using scan_insert_spec [of ys "new_node u v"] by auto
  have "r = [] \<or> node_uid (hd r) < u"
  proof (cases r)
    case (Cons m r')
    then have "node_uid m \<in> uids d"
      using 1 2 by (auto simp: uids_def)
    with assms(1) 2 Cons show ?thesis by (auto simp: less_le)
  qed simp
  moreover have "doc_chain (applyOp d (INSERT u a v)) = p @ x # q @ new_node u v # r"
    using 1 2 assms by (simp add: chain_INSERT_new)
  moreover have "doc_chain d = p @ x # q @ r"
    using 1 2 by simp
  ultimately show ?thesis
    using 1 2 by blast
qed

text \<open>An operation with a UID above everything in the document, as a Lamport clock gives, needs no
  scan: the new node follows its anchor directly.\<close>

lemma insert_newest:
  assumes "\<forall>w \<in> uids d. w < u" "anchor a \<in> uids d"
  shows "\<exists>p x r. doc_chain d = p @ x # r \<and> node_uid x = anchor a \<and>
    doc_chain (applyOp d (INSERT u a v)) = p @ x # new_node u v # r"
proof -
  have "u \<notin> uids d"
    using assms(1) by auto
  then obtain p x q r where 1: "doc_chain d = p @ x # q @ r" "node_uid x = anchor a"
    "doc_chain (applyOp d (INSERT u a v)) = p @ x # q @ new_node u v # r" "\<forall>n \<in> set q. u < node_uid n"
    using insert_lands assms(2) by blast
  have "q = []"
  proof (cases q)
    case (Cons n q')
    then have "node_uid n \<in> uids d" "u < node_uid n"
      using 1 by (auto simp: uids_def)
    with assms(1) show ?thesis by auto
  qed
  with 1 show ?thesis by auto
qed

section \<open>Nothing moves\<close>

definition uid_order :: "RGADocument \<Rightarrow> UID list" where
  "uid_order d = map node_uid (doc_chain d)"

lemma uid_order_applyOp: "filter (\<lambda>w. w \<in> uids d) (uid_order (applyOp d x)) = uid_order d"
proof (cases "\<exists>u a v. x = INSERT u a v \<and> u \<notin> uids d \<and> anchor a \<in> uids d")
  case True
  then obtain u a v where x: "x = INSERT u a v" "u \<notin> uids d" "anchor a \<in> uids d" by blast
  then obtain p y q r where c: "doc_chain d = p @ y # q @ r"
    "doc_chain (applyOp d x) = p @ y # q @ new_node u v # r"
    using insert_lands [of u d a v] by auto
  have "\<forall>w \<in> set (uid_order d). w \<in> uids d"
    by (auto simp: uid_order_def uids_def)
  with x c show ?thesis
    by (auto simp: uid_order_def intro!: filter_True)
next
  case False
  then have "uid_order (applyOp d x) = uid_order d"
    by (cases x) (auto simp: uid_order_def doc_simps)
  then show ?thesis
    by (auto simp: uid_order_def uids_def intro!: filter_True)
qed

text \<open>Positions are stable: whatever operations arrive, the nodes a replica already has keep
  their relative order, and none of them leaves the list. New nodes only go in between.\<close>

theorem order_stable: "filter (\<lambda>w. w \<in> uids d) (uid_order (applyAll d ops)) = uid_order d"
proof (induction ops arbitrary: d)
  case Nil
  then show ?case by (auto simp: uid_order_def uids_def intro!: filter_True)
next
  case (Cons x ops)
  have "filter (\<lambda>w. w \<in> uids d) (uid_order (applyAll d (x # ops))) =
      filter (\<lambda>w. w \<in> uids d) (filter (\<lambda>w. w \<in> uids (applyOp d x)) (uid_order (applyAll (applyOp d x) ops)))"
    using uids_mono [of d x] by (auto intro!: filter_cong)
  also have "\<dots> = uid_order d"
    using Cons [of "applyOp d x"] uid_order_applyOp by simp
  finally show ?case .
qed

section \<open>Positions and UIDs\<close>

lemma live_simps [simp]:
  "live [] = []" "live (n # ns) = (if node_tombstoned n then live ns else n # live ns)"
  "live (xs @ ys) = live xs @ live ys" "live (live xs) = live xs"
  by (simp_all add: live_def)

lemma toNodes_live: "toNodes d = live (body d)"
  by (simp add: toNodes_def live_def)

lemma indexToUID_from_eq:
  "indexToUID_from ns i k =
     (if k < i \<and> i - k \<le> int (length (live ns)) then Some (node_uid (live ns ! nat (i - k - 1))) else None)"
proof (induction ns i k rule: indexToUID_from.induct)
  case (2 n ns i k)
  show ?case
  proof (cases "node_tombstoned n")
    case True
    with 2 show ?thesis by simp
  next
    case False
    have "k + 1 < i \<Longrightarrow> nat (i - k - 1) = Suc (nat (i - (k + 1) - 1))"
      by simp
    with False 2 show ?thesis by auto
  qed
qed simp

lemma indexToUID_eq:
  "indexToUID d i = (if 1 \<le> i \<and> i \<le> int (length (toNodes d)) then Some (node_uid (toNodes d ! nat (i - 1)))
     else None)"
  by (simp add: indexToUID_def indexToUID_from_eq toNodes_live)

lemma uidToIndex_from_nth:
  assumes "distinct (map node_uid ns)" "j < length (live ns)"
  shows "uidToIndex_from ns (node_uid (live ns ! j)) k = k + int j"
  using assms
proof (induction ns arbitrary: j k)
  case (Cons n ns)
  show ?case
  proof (cases "node_tombstoned n")
    case True
    with Cons show ?thesis by simp
  next
    case False
    show ?thesis
    proof (cases j)
      case 0
      with False show ?thesis by simp
    next
      case (Suc i)
      with False Cons.prems have i: "i < length (live ns)" by simp
      then have "live ns ! i \<in> set ns"
        by (metis filter_is_subset live_def nth_mem subsetD)
      then have "node_uid (live ns ! i) \<noteq> node_uid n"
        using Cons.prems by (metis distinct.simps(2) image_eqI list.set_map list.simps(9))
      then have "\<not> (clock (node_uid n) = clock (node_uid (live ns ! i)) \<and>
          siteId (node_uid n) = siteId (node_uid (live ns ! i)))"
        by (metis UID.expand)
      with False Suc i Cons show ?thesis by simp
    qed
  qed
qed simp

lemma wf_body_distinct: "wf_doc d \<Longrightarrow> distinct (map node_uid (body d))"
  by (metis distinct_tl map_tl wf_doc_def)

lemma root_notin_body: "wf_doc d \<Longrightarrow> ROOT_UID \<notin> node_uid ` set (body d)"
  by (erule wf_docE) simp

lemma set_toNodes: "n \<in> set (toNodes d) \<longleftrightarrow> n \<in> set (body d) \<and> \<not> node_tombstoned n"
  by (simp add: toNodes_def)

lemma uid_in_toNodes:
  assumes "wf_doc d" "n \<in> set (body d)" "node_uid n \<in> node_uid ` set (toNodes d)"
  shows "\<not> node_tombstoned n"
  using assms wf_body_distinct [OF assms(1)] by (auto simp: set_toNodes distinct_map dest: inj_onD)

text \<open>Deleting takes exactly the named nodes out of view.\<close>

lemma live_update_tombstone_filter:
  assumes "distinct (map node_uid ns)"
  shows "live (update_node (uidKey u) tombstone ns) = filter (\<lambda>n. node_uid n \<noteq> u) (live ns)"
  using assms
proof (induction ns)
  case (Cons n ns)
  have "filter (\<lambda>n. node_uid n \<noteq> u) (live ns) = live ns" if "node_uid n = u"
    using Cons.prems that by (intro filter_eq_all) (auto simp: live_def, metis image_eqI)
  moreover have "live (tombstone n # ns) = live ns"
    by (simp add: live_def tombstone_def)
  ultimately show ?case
    using Cons by (auto simp: live_def [of "_ # _"])
qed (simp add: live_def)

lemma live_chain: "wf_doc d \<Longrightarrow> live (doc_chain d) = root_node # toNodes d"
  by (metis (no_types, lifting) filter.simps(2) live_def toNodes_live wf_doc_chain root_node_def RGANode.select_convs(4))

lemma toNodes_DELETE:
  assumes "wf_doc d" "u \<noteq> ROOT_UID"
  shows "toNodes (applyOp d (DELETE u)) = filter (\<lambda>n. node_uid n \<noteq> u) (toNodes d)"
proof -
  have "wf_doc (applyOp d (DELETE u))"
    using assms by (auto simp: not_on_root_def intro: wf_applyOp)
  then have "root_node # toNodes (applyOp d (DELETE u)) = filter (\<lambda>n. node_uid n \<noteq> u) (live (doc_chain d))"
    using live_update_tombstone_filter [OF wf_doc_distinct [OF assms(1)], of u]
    by (simp add: chain_DELETE flip: live_chain)
  then show ?thesis
    using assms by (simp add: live_chain)
qed

lemma toNodes_DELETEs:
  assumes "wf_doc d" "ROOT_UID \<notin> set us"
  shows "toNodes (applyAll d (map DELETE us)) = filter (\<lambda>n. node_uid n \<notin> set us) (toNodes d)"
  using assms
proof (induction us arbitrary: d)
  case (Cons u us)
  have "wf_doc (applyOp d (DELETE u))"
    using Cons.prems by (auto simp: not_on_root_def intro: wf_applyOp)
  with Cons show ?case
    by (auto simp: toNodes_DELETE intro: filter_cong)
qed simp

text \<open>C37: The two position conversions are inverse on the visible characters: the UID found at
  position \<open>i\<close> (counted from 1) is a visible node's, and its index (counted from 0) is \<open>i - 1\<close>;
  positions outside \<open>1..length\<close> have no UID.\<close>

theorem index_uid_roundtrip:
  assumes "wf_doc d"
  shows "(if 1 \<le> i \<and> i \<le> doc_length d
    then \<exists>u. indexToUID d i = Some u \<and> uidToIndex d (Some u) = i - 1 \<and> getAfterUID d i = Some u
    else indexToUID d i = None)"
proof -
  have len: "doc_length d = int (length (toNodes d))"
    using assms by (simp add: wf_doc_def toNodes_live)
  show ?thesis
  proof (cases "1 \<le> i \<and> i \<le> doc_length d")
    case True
    then have "nat (i - 1) < length (live (body d))"
      using len by (simp add: toNodes_live nat_less_iff)
    then have "uidToIndex_from (body d) (node_uid (live (body d) ! nat (i - 1))) 0 = i - 1"
      using uidToIndex_from_nth [OF wf_body_distinct [OF assms], of "nat (i - 1)" 0] True by simp
    with True len show ?thesis
      by (simp add: indexToUID_eq uidToIndex_def getAfterUID_def toNodes_live)
  next
    case False
    with len show ?thesis by (auto simp: indexToUID_eq)
  qed
qed

theorem index_uid_roundtrip_witness:
  "\<exists>u. indexToUID (applyOp newRGADocument (INSERT uA None (JStr [97]))) 1 = Some u \<and>
     uidToIndex (applyOp newRGADocument (INSERT uA None (JStr [97]))) (Some u) = 0"
proof -
  have "wf_doc (applyOp newRGADocument (INSERT uA None (JStr [97])))"
    by (intro wf_intros) (simp add: not_on_root_def uid_examples)
  moreover have "doc_length (applyOp newRGADocument (INSERT uA None (JStr [97]))) = 1"
    by (simp add: applyOp_def applyInsert_def uid_examples) (simp add: newRGADocument_def)
  ultimately show ?thesis
    using index_uid_roundtrip [of "applyOp newRGADocument (INSERT uA None (JStr [97]))" 1] by auto
qed

text \<open>An insert with a new highest UID at the anchor of a position lands at that position.\<close>

lemma nth_of_split:
  assumes "distinct (map f xs)" "xs = p @ x # r" "i < length xs" "f (xs ! i) = f x"
  shows "i = length p"
proof -
  have "xs ! length p = x"
    using assms(2) by simp
  then have "map f xs ! i = map f xs ! length p"
    using assms(2-4) by (metis add_Suc_right length_append length_Cons less_add_Suc1 nth_map)
  then show ?thesis
    using nth_eq_iff_index_eq [OF assms(1), of i "length p"] assms(2,3) by simp
qed

lemma insert_between:
  assumes "wf_doc d" "u \<notin> uids d" "0 \<le> i" "i \<le> int (length (toNodes d))"
  shows "\<exists>q r. toNodes d = take (nat i) (toNodes d) @ q @ r \<and>
    toNodes (applyOp d (INSERT u (indexToUID d i) v)) = take (nat i) (toNodes d) @ q @ new_node u v # r \<and>
    (\<forall>n \<in> set q. u < node_uid n)"
proof -
  let ?a = "indexToUID d i"
  have a: "?a = (if i = 0 then None else Some (node_uid (toNodes d ! nat (i - 1))))"
    using assms(3,4) by (auto simp: indexToUID_eq)
  have j: "nat (i - 1) < length (toNodes d)" if "i \<noteq> 0"
    using assms(3,4) that by linarith
  have nth: "toNodes d ! nat (i - 1) \<in> set (toNodes d)" if "i \<noteq> 0"
    using j that by simp
  have in_body: "n \<in> set (body d)" if "n \<in> set (toNodes d)" for n
    using that by (simp add: set_toNodes)
  have "anchor ?a \<in> uids d"
  proof (cases "i = 0")
    case False
    then have "toNodes d ! nat (i - 1) \<in> set (doc_chain d)"
      using in_body nth by (metis list.set_sel(2) tl_Nil)
    with False show ?thesis by (simp add: a uids_def)
  qed (use a assms(1) in simp)
  then obtain p x q r where c: "doc_chain d = p @ x # q @ r" "node_uid x = anchor ?a"
    "doc_chain (applyOp d (INSERT u ?a v)) = p @ x # q @ new_node u v # r" "\<forall>n \<in> set q. u < node_uid n"
    using insert_lands assms(2) by blast
  have root: "doc_chain d = root_node # body d"
    by (rule wf_doc_chain) fact
  have live: "live (new_node u v # r) = new_node u v # live r"
    by (simp add: live_def new_node_def)
  have "toNodes d = take (nat i) (toNodes d) @ live q @ live r \<and>
    toNodes (applyOp d (INSERT u ?a v)) = take (nat i) (toNodes d) @ live q @ new_node u v # live r"
  proof (cases "i = 0")
    case True
    have "p = []"
    proof (cases p)
      case (Cons y ys)
      then have "node_uid x \<in> node_uid ` set (body d)" using c(1) root by auto
      moreover have "node_uid x = ROOT_UID" using a True by (simp add: c(2))
      ultimately show ?thesis using root_notin_body [OF assms(1)] by metis
    qed
    with c live True show ?thesis by (simp add: toNodes_live)
  next
    case False
    then have ux: "node_uid x = node_uid (toNodes d ! nat (i - 1))"
      by (simp add: c(2) a)
    then have "node_uid x \<in> node_uid ` set (body d)"
      using in_body nth False by simp
    then have "node_uid x \<noteq> ROOT_UID"
      using root_notin_body [OF assms(1)] by metis
    then obtain p' where p: "p = root_node # p'" "body d = p' @ x # q @ r"
      using c(1) root by (cases p) auto
    have "\<not> node_tombstoned x"
      using uid_in_toNodes [OF assms(1), of x] p(2) ux nth False by simp
    then have t: "toNodes d = live p' @ x # live q @ live r"
      by (simp add: toNodes_live p(2) live_def)
    have dist: "distinct (map node_uid (toNodes d))"
      using wf_body_distinct [OF assms(1)] by (simp add: toNodes_def distinct_map_filter)
    have "nat (i - 1) = length (live p')"
      by (rule nth_of_split [OF dist t j [OF False] ux [symmetric]])
    then have "nat i = Suc (length (live p'))"
      using False assms(3) by simp
    moreover have "toNodes (applyOp d (INSERT u ?a v)) = live p' @ x # live q @ new_node u v # live r"
      using c(3) p(1) live \<open>\<not> node_tombstoned x\<close> by (simp add: toNodes_live live_def)
    ultimately show ?thesis
      by (simp add: t)
  qed
  moreover have "\<forall>n \<in> set (live q). u < node_uid n" using c(4) by (simp add: live_def)
  ultimately show ?thesis by blast
qed

lemma insert_at_index:
  assumes "wf_doc d" "\<forall>w \<in> uids d. w < u" "0 \<le> i" "i \<le> int (length (toNodes d))"
  shows "toNodes (applyOp d (INSERT u (indexToUID d i) v)) =
    take (nat i) (toNodes d) @ new_node u v # drop (nat i) (toNodes d)"
proof -
  have "u \<notin> uids d" using assms(2) by auto
  then obtain q r where q: "toNodes d = take (nat i) (toNodes d) @ q @ r"
    "toNodes (applyOp d (INSERT u (indexToUID d i) v)) = take (nat i) (toNodes d) @ q @ new_node u v # r" "\<forall>n \<in> set q. u < node_uid n"
    using insert_between [OF assms(1) _ assms(3,4)] by blast
  have "n \<notin> set q" for n
  proof
    assume n: "n \<in> set q"
    then have "n \<in> set (toNodes d)" using q(1) by (metis in_set_conv_decomp append_assoc append_Cons)
    then have "n \<in> set (doc_chain d)" by (metis list.set_sel(2) set_toNodes tl_Nil)
    then have "node_uid n < u" using assms(2) by (simp add: uids_def)
    then show False using q(3) n by auto
  qed
  then have "q = []" by (cases q) auto
  moreover have "drop (nat i) (toNodes d) = r"
    using q(1) \<open>q = []\<close> by (metis append_self_conv2 append_take_drop_id same_append_eq)
  ultimately show ?thesis using q(2) by simp
qed

text \<open>C10: Where an inserted character appears. Inserting with a new UID at the anchor of a visible index shows the
  character at that index or further on, all other visible characters keeping their order; the
  characters it is put behind are concurrent insertions with higher UIDs. With a UID above all others,
  as a local edit has, it appears at exactly the index.\<close>

theorem insert_position:
  assumes "wf_doc d" "u \<notin> uids d" "0 \<le> i" "i \<le> doc_length d" "d' = applyOp d (INSERT u (getAfterUID d i) v)"
  shows "\<exists>k. i \<le> k \<and> k \<le> doc_length d \<and>
    toNodes d' = take (nat k) (toNodes d) @ new_node u v # drop (nat k) (toNodes d) \<and> indexToUID d' (k + 1) = Some u \<and>
    (\<forall>j. i < j \<and> j \<le> k \<longrightarrow> (\<exists>w. indexToUID d j = Some w \<and> u < w)) \<and> ((\<forall>w \<in> uids d. w < u) \<longrightarrow> k = i)"
proof -
  let ?ns = "toNodes d"
  have len: "doc_length d = int (length ?ns)" using assms(1) by (simp add: wf_doc_def toNodes_live)
  have after: "getAfterUID d i = indexToUID d i" by (simp add: getAfterUID_def indexToUID_eq)
  obtain q r where q: "?ns = take (nat i) ?ns @ q @ r" "toNodes d' = take (nat i) ?ns @ q @ new_node u v # r" "\<forall>n \<in> set q. u < node_uid n"
    using insert_between [OF assms(1-3) assms(4) [unfolded len], of v] unfolding assms(5) after by blast
  define h where "h = take (nat i) ?ns"
  have h: "?ns = h @ q @ r" "int (length h) = i" using q(1) assms(3,4) by (simp_all add: h_def len)
  let ?k = "i + int (length q)"
  have k: "nat ?k = length (h @ q)" using h(2) assms(3) by simp
  have d': "toNodes d' = (h @ q) @ new_node u v # r" using q(2) by (simp add: h_def)
  have split: "take (nat ?k) ?ns = h @ q" "drop (nat ?k) ?ns = r" unfolding k h(1) by simp_all
  have "indexToUID d' (?k + 1) = Some u"
    using k h(2) assms(3) by (simp add: indexToUID_eq d' nth_append)
  moreover have "\<exists>w. indexToUID d j = Some w \<and> u < w" if "i < j" "j \<le> ?k" for j
  proof -
    have "nat (j - 1) - length h < length q" "\<not> nat (j - 1) < length h" "nat (j - 1) < length h + length q"
      using that h(2) assms(3) by linarith+
    then show ?thesis
      using that q(3) assms(3) h(2) by (simp add: indexToUID_eq h(1) nth_append)
  qed
  moreover have "?k = i" if "\<forall>w \<in> uids d. w < u"
  proof -
    have "toNodes d' = take (nat i) ?ns @ new_node u v # drop (nat i) ?ns"
      using insert_at_index [OF assms(1) that assms(3), of v] assms(4) by (simp only: len assms(5) after)
    moreover have "drop (nat i) ?ns = q @ r"
      using q(1) by (metis append_take_drop_id same_append_eq)
    ultimately have "q @ new_node u v # r = new_node u v # q @ r" using q(2) by simp
    then have "q = []" using q(3) by (cases q) (auto simp: new_node_def)
    then show ?thesis by simp
  qed
  ultimately show ?thesis
    using d' h split by (intro exI [of _ ?k]) (simp add: len)
qed

text \<open>The second letter is typed behind the first.\<close>

theorem insert_position_witness:
  "indexToUID (applyOp (applyOp newRGADocument (INSERT uA None (JStr [97]))) (INSERT uB (Some uA) (JStr [98]))) 2 = Some uB"
proof -
  let ?d = "applyOp newRGADocument (INSERT uA None (JStr [97]))"
  have d: "wf_doc ?d" "uB \<notin> uids ?d" "doc_length ?d = 1" "getAfterUID ?d 1 = Some uA" "\<forall>w \<in> uids ?d. w < uB"
    by (auto simp: uids_applyOp uid_examples not_on_root_def intro!: wf_intros) code_simp+
  from insert_position [OF d(1,2) _ _ refl, of 1 "JStr [98]"] d show ?thesis by auto
qed

lemma delete_at_index:
  assumes "wf_doc d" "0 \<le> i" "i < int (length (toNodes d))"
  shows "\<exists>u. indexToUID d (i + 1) = Some u \<and> u \<in> uids d \<and> u \<noteq> ROOT_UID \<and>
    toNodes (applyOp d (DELETE u)) = take (nat i) (toNodes d) @ drop (nat i + 1) (toNodes d)"
proof -
  let ?n = "toNodes d ! nat i"
  have i: "nat i < length (toNodes d)" using assms(2,3) by simp
  have n: "?n \<in> set (body d)" using nth_mem [OF i] by (simp add: set_toNodes)
  have ne: "node_uid ?n \<noteq> ROOT_UID"
    using n root_notin_body [OF assms(1)] by (metis image_eqI)
  have split: "toNodes d = take (nat i) (toNodes d) @ ?n # drop (nat i + 1) (toNodes d)"
    using id_take_nth_drop [OF i] by simp
  have dist: "distinct (map node_uid (toNodes d))"
    using wf_body_distinct [OF assms(1)] by (simp add: toNodes_def distinct_map_filter)
  define p x r where "p = take (nat i) (toNodes d)" "x = ?n" "r = drop (nat i + 1) (toNodes d)"
  have t: "toNodes d = p @ x # r"
    unfolding p_x_r_def by (rule split)
  have "distinct (map node_uid (p @ x # r))"
    using dist by (simp only: t)
  then have "node_uid m \<noteq> node_uid x" if "m \<in> set p \<union> set r" for m
    using that by (auto simp: image_iff)
  then have "filter (\<lambda>m. node_uid m \<noteq> node_uid x) p = p" "filter (\<lambda>m. node_uid m \<noteq> node_uid x) r = r"
    by (auto intro: filter_eq_all)
  then have "filter (\<lambda>m. node_uid m \<noteq> node_uid x) (toNodes d) = p @ r"
    by (simp add: t)
  then have "filter (\<lambda>m. node_uid m \<noteq> node_uid ?n) (toNodes d) =
      take (nat i) (toNodes d) @ drop (nat i + 1) (toNodes d)"
    by (simp only: p_x_r_def)
  moreover have "?n \<in> set (doc_chain d)"
    using n by (metis list.set_sel(2) tl_Nil)
  ultimately show ?thesis
    using assms ne toNodes_DELETE [OF assms(1) ne] by (simp add: indexToUID_eq uids_def)
qed

section \<open>Serialization\<close>

lemma deserialize_foldl:
  "foldl append_node d ns = d\<lparr>doc_chain := doc_chain d @ map deserialize_node ns,
     doc_length := doc_length d + int (length (live (map deserialize_node ns))),
     doc_nodeCount := doc_nodeCount d + int (length ns)\<rparr>"
  by (induction ns arbitrary: d) (auto simp: append_node_def deserialize_node_def)

lemma deserialize_eq:
  "deserialize ns = \<lparr>doc_chain = root_node # map deserialize_node ns,
     doc_length = int (length (live (map deserialize_node ns))), doc_nodeCount = int (length ns)\<rparr>"
  by (simp add: deserialize_def deserialize_foldl newRGADocument_def)

lemma deserialize_serialize_node [simp]: "deserialize_node (serialize_node n) = n"
  by (cases n) (simp add: deserialize_node_def serialize_node_def)

lemma serialize_deserialize_clone:
  assumes "wf_doc d"
  shows "deserialize (serialize d) = d \<and> clone d = d"
proof -
  obtain ns where ns: "doc_chain d = root_node # ns"
    "doc_length d = int (length (live ns))" "doc_nodeCount d = int (length ns)"
    using wf_docE [OF assms] by metis
  have "map deserialize_node (map serialize_node ns) = ns"
    by (simp add: comp_def)
  with ns show ?thesis
    by (simp add: clone_def serialize_def deserialize_eq)
qed

lemma serialize_deserialize: "wf_doc d \<Longrightarrow> deserialize (serialize d) = d"
  using serialize_deserialize_clone by blast

text \<open>Serializing a well-formed document and deserializing the result gives the document
  back, so \<open>clone\<close> is a copy and a snapshot holds the whole CRDT state.\<close>

theorem serialize_roundtrip:
  assumes "wf_doc d"
  shows "deserialize (serialize d) = d \<and> clone d = d"
  using assms by (rule serialize_deserialize_clone)

theorem serialize_roundtrip_witness:
  "clone (applyOp newRGADocument (INSERT uA None (JStr [97]))) =
     applyOp newRGADocument (INSERT uA None (JStr [97]))"
proof -
  have "wf_doc (applyOp newRGADocument (INSERT uA None (JStr [97])))"
    by (intro wf_intros) (simp add: not_on_root_def uid_examples)
  then show ?thesis
    using serialize_roundtrip by blast
qed

text \<open>Snapshot data read back from the database: distinct UIDs are all that a well-formed document
  needs.\<close>

lemma wf_deserialize:
  assumes "distinct (ROOT_UID # map (\<lambda>n. UID (s_clock n) (s_siteId n)) ns)"
  shows "wf_doc (deserialize ns)"
proof -
  have "map node_uid (map deserialize_node ns) = map (\<lambda>n. UID (s_clock n) (s_siteId n)) ns"
    by (simp add: deserialize_node_def)
  with assms show ?thesis
    by (intro wf_docI [of _ "map deserialize_node ns"]) (simp_all add: deserialize_eq del: map_map)
qed

section \<open>Garbage collection\<close>

lemma text_parts_live [simp]: "text_parts (live ns) = text_parts ns"
  by (induction ns) (auto split: json.split)

lemma gc_doc:
  assumes "wf_doc d"
  shows "body (fst (gc d)) = live (body d)" "doc_length (fst (gc d)) = doc_length d"
    "snd (gc d) = int (length (body d)) - int (length (live (body d)))"
  by (simp_all add: gc_def gc_nodes_eq)

lemma toText_gc [simp]: "wf_doc d \<Longrightarrow> toText (fst (gc d)) = toText d"
  and toNodes_gc [simp]: "wf_doc d \<Longrightarrow> toNodes (fst (gc d)) = toNodes d"
  using gc_doc [of d] by (simp_all add: toText_def toNodes_live)

lemma uids_gc:
  assumes "wf_doc d"
  shows "uids (fst (gc d)) = insert ROOT_UID (node_uid ` set (toNodes d))"
  using assms by (simp add: gc_def gc_nodes_eq uids_def toNodes_live wf_doc_def)

text \<open>Garbage collection is invisible to readers: text, visible nodes, length and every
  position conversion are unchanged, the result is well-formed without tombstones, and the number
  returned is the number of nodes that went.\<close>

theorem gc_invisible:
  assumes "wf_doc d"
  shows "toText (fst (gc d)) = toText d \<and> toNodes (fst (gc d)) = toNodes d \<and>
    doc_length (fst (gc d)) = doc_length d \<and> indexToUID (fst (gc d)) i = indexToUID d i \<and>
    wf_doc (fst (gc d)) \<and> (\<forall>n \<in> set (body (fst (gc d))). \<not> node_tombstoned n) \<and>
    snd (gc d) = doc_nodeCount d - doc_length d"
proof (intro conjI)
  show "toText (fst (gc d)) = toText d" "toNodes (fst (gc d)) = toNodes d"
    "doc_length (fst (gc d)) = doc_length d" "indexToUID (fst (gc d)) i = indexToUID d i"
    using gc_doc [OF assms] by (simp_all add: toText_def toNodes_live indexToUID_eq)
  show "wf_doc (fst (gc d))"
    using assms by (rule wf_gc)
  show "\<forall>n \<in> set (body (fst (gc d))). \<not> node_tombstoned n"
    using gc_doc [OF assms] by (simp add: live_def)
  show "snd (gc d) = doc_nodeCount d - doc_length d"
    using gc_doc [OF assms] assms by (simp add: wf_doc_def)
qed

theorem gc_invisible_witness:
  "toText (fst (gc (applyAll newRGADocument [INSERT uA None (JStr [97]), DELETE uA]))) =
     toText (applyAll newRGADocument [INSERT uA None (JStr [97]), DELETE uA])"
proof -
  have "wf_doc (applyAll newRGADocument [INSERT uA None (JStr [97]), DELETE uA])"
    by (intro wf_intros) (simp_all add: not_on_root_def uid_examples)
  then show ?thesis
    using gc_invisible by blast
qed

text \<open>Garbage collection ends idempotency: once a deleted node has been collected, a second
  delivery of its \<open>INSERT\<close> (whose anchor is still there) is applied as new, and the deleted
  character is visible again. Before the collection the same delivery changes nothing.\<close>

theorem gc_resurrects_deleted:
  assumes "wf_doc d" "n \<in> set (body d)" "node_tombstoned n"
    and "anchor a \<in> uids (fst (gc d))"
  shows "applyOp d (INSERT (node_uid n) a v) = d \<and> node_uid n \<notin> node_uid ` set (toNodes d) \<and>
    node_uid n \<in> node_uid ` set (toNodes (applyOp (fst (gc d)) (INSERT (node_uid n) a v)))"
proof -
  let ?u = "node_uid n" and ?g = "fst (gc d)"
  have c: "doc_chain d = root_node # body d"
    by (rule wf_doc_chain) fact
  have "?u \<in> uids d"
    by (subst uids_def, subst c) (use assms(2) in auto)
  moreover have gone: "?u \<notin> node_uid ` set (toNodes d)"
  proof
    assume "?u \<in> node_uid ` set (toNodes d)"
    then obtain m where "m \<in> set (body d)" "\<not> node_tombstoned m" "node_uid m = ?u"
      by (auto simp: toNodes_def)
    then have "m = n"
      using wf_body_distinct [OF assms(1)] assms(2) by (metis distinct_map inj_onD)
    with \<open>\<not> node_tombstoned m\<close> assms(3) show False by simp
  qed
  moreover have "?u \<in> node_uid ` set (toNodes (applyOp ?g (INSERT ?u a v)))"
  proof -
    have "?u \<noteq> ROOT_UID"
      using assms(1,2) by (metis distinct.simps(2) image_eqI list.set_map wf_docE list.sel(3))
    with gone have "?u \<notin> uids ?g"
      using assms(1) by (simp add: uids_gc)
    then obtain p x q r where "doc_chain (applyOp ?g (INSERT ?u a v)) = p @ x # q @ new_node ?u v # r"
      using insert_lands [of ?u ?g a v] assms(4) by blast
    then have "new_node ?u v \<in> set (body (applyOp ?g (INSERT ?u a v)))"
      by (cases p) auto
    moreover have "\<not> node_tombstoned (new_node ?u v)"
      by (simp add: new_node_def)
    ultimately have "new_node ?u v \<in> set (toNodes (applyOp ?g (INSERT ?u a v)))"
      by (simp add: toNodes_def)
    then show ?thesis
      by (metis image_eqI node_uid_simps(1))
  qed
  ultimately show ?thesis by simp
qed

definition deleted_A :: RGADocument where
  "deleted_A = applyAll newRGADocument [INSERT uA None (JStr [97]), DELETE uA]"

theorem gc_resurrects_deleted_witness:
  "\<exists>n \<in> set (body deleted_A). node_tombstoned n \<and> node_uid n = uA \<and>
     applyOp deleted_A (INSERT uA None (JStr [97])) = deleted_A \<and>
     uA \<in> node_uid ` set (toNodes (applyOp (fst (gc deleted_A)) (INSERT uA None (JStr [97]))))"
proof -
  have wf: "wf_doc deleted_A"
    unfolding deleted_A_def by (intro wf_intros) (simp_all add: not_on_root_def uid_examples)
  have "doc_chain deleted_A = [root_node, tombstone (new_node uA (JStr [97]))]"
    by (simp add: deleted_A_def doc_simps newRGADocument_def uids_def root_node_def uid_examples)
  then obtain n where n: "n \<in> set (body deleted_A)" "node_tombstoned n" "node_uid n = uA"
    by (simp add: tombstone_def new_node_def)
  have "anchor None \<in> uids (fst (gc deleted_A))"
    using wf by (simp add: uids_gc)
  from gc_resurrects_deleted [OF wf n(1,2) this, of "JStr [97]"] n show ?thesis by auto
qed

text \<open>Garbage collection on one replica only can make visible texts differ for good, even when
  every later operation applies on both replicas: tombstones still decide where the scan of a
  concurrent insert stops. The two replicas start from the same document, apply the same
  operation successfully, and show different texts.\<close>

theorem gc_breaks_convergence:
  "\<exists>d x. wf_doc d \<and> op_ready d x \<and> op_ready (fst (gc d)) x \<and>
     toText (applyOp (fst (gc d)) x) \<noteq> toText (applyOp d x)"
proof -
  define h where "h = applyAll newRGADocument [INSERT (UID 1 ''a'') None (JStr [65]),
      INSERT (UID 2 ''a'') (Some (UID 1 ''a'')) (JStr [84]),
      INSERT (UID 4 ''a'') (Some (UID 2 ''a'')) (JStr [66]), DELETE (UID 2 ''a'')]"
  let ?x = "INSERT (UID 3 ''b'') (Some (UID 1 ''a'')) (JStr [88])"
  have wf: "wf_doc h"
    unfolding h_def by (intro wf_intros) (simp_all add: not_on_root_def ROOT_UID_def)
  have c: "doc_chain h = [root_node, new_node (UID 1 ''a'') (JStr [65]),
      tombstone (new_node (UID 2 ''a'') (JStr [84])), new_node (UID 4 ''a'') (JStr [66])]"
    by (simp add: h_def doc_simps newRGADocument_def uids_def root_node_def ROOT_UID_def)
  have g: "doc_chain (fst (gc h)) = [root_node, new_node (UID 1 ''a'') (JStr [65]),
      new_node (UID 4 ''a'') (JStr [66])]"
    unfolding gc_def c by (simp add: gc_nodes_eq tombstone_def new_node_def)
  have u: "uids h = {ROOT_UID, UID 1 ''a'', UID 2 ''a'', UID 4 ''a''}"
    "uids (fst (gc h)) = {ROOT_UID, UID 1 ''a'', UID 4 ''a''}"
    unfolding uids_def c g by auto
  have "toText (applyOp h ?x) = [65, 88, 66]" "toText (applyOp (fst (gc h)) ?x) = [65, 66, 88]"
    unfolding toText_def chain_INSERT u c g
    by (simp_all add: ROOT_UID_def root_node_def less_UID_iff new_node_def tombstone_def)
  moreover have "op_ready h ?x" "op_ready (fst (gc h)) ?x"
    by (simp_all add: u)
  ultimately show ?thesis
    using wf by (intro exI [of _ h] exI [of _ ?x]) auto
qed

end
