(* ===== verification/RGA_Heap.thy ===== *)
theory RGA_Heap
  imports RGA_Queries
begin

text \<open>
  \<^verbatim>\<open>src/crdt/rga-document.ts\<close> with its pointers: a store of node objects linked by \<open>prev\<close> and
  \<open>next\<close>, and the \<open>Map\<close> from keys to references. The loops over \<open>next\<close> are partial functions:
  \<open>None\<close> is a loop that never ends (or leaves the store). The refinement lemmas show that on every
  document that represents a well-formed list, each operation returns, keeps the doubly-linked
  shape and the index, and computes what the list model of \<^verbatim>\<open>RGA_Document\<close> computes.
\<close>

section \<open>Objects and pointers\<close>

type_synonym ref = nat

record hnode =
  h_uid :: UID
  h_value :: json
  h_attributes :: attributes
  h_tombstoned :: bool
  h_prev :: "ref option"
  h_next :: "ref option"

type_synonym heap = "ref \<rightharpoonup> hnode"

record heap_doc =
  h_heap :: heap
  h_fresh :: ref
  h_root :: ref
  h_index :: "string \<rightharpoonup> ref"
  h_length :: int
  h_nodeCount :: int

definition h_new :: heap_doc where
  "h_new = \<lparr>h_heap = [0 \<mapsto> \<lparr>h_uid = ROOT_UID, h_value = JNull, h_attributes = Map.empty,
      h_tombstoned = False, h_prev = None, h_next = None\<rparr>],
    h_fresh = 1, h_root = 0, h_index = [uidKey ROOT_UID \<mapsto> 0], h_length = 0, h_nodeCount = 0\<rparr>"

definition upd :: "heap \<Rightarrow> ref \<Rightarrow> (hnode \<Rightarrow> hnode) \<Rightarrow> heap" where
  "upd h r f = (case h r of None \<Rightarrow> h | Some n \<Rightarrow> h(r \<mapsto> f n))"

definition upd_opt :: "heap \<Rightarrow> ref option \<Rightarrow> (hnode \<Rightarrow> hnode) \<Rightarrow> heap" where
  "upd_opt h r f = (case r of None \<Rightarrow> h | Some r \<Rightarrow> upd h r f)"

section \<open>The operations\<close>

text \<open>\<open>while (p.next !== null && compareUID(p.next.uid, uid) > 0) p = p.next\<close>\<close>

partial_function (option) h_scan :: "heap \<Rightarrow> UID \<Rightarrow> ref \<Rightarrow> ref option" where
  "h_scan h u r = (case h r of None \<Rightarrow> None | Some n \<Rightarrow>
     (case h_next n of None \<Rightarrow> Some r | Some q \<Rightarrow>
        (case h q of None \<Rightarrow> None | Some m \<Rightarrow>
           if compareUID (h_uid m) u > 0 then h_scan h u q else Some r)))"

definition h_splice :: "heap_doc \<Rightarrow> UID \<Rightarrow> json \<Rightarrow> ref \<Rightarrow> hnode \<Rightarrow> heap_doc" where
  "h_splice d u v ip n =
     (let new = h_fresh d;
          node = \<lparr>h_uid = u, h_value = v, h_attributes = Map.empty, h_tombstoned = False,
                  h_prev = Some ip, h_next = h_next n\<rparr>;
          h1 = (h_heap d)(new \<mapsto> node);
          h2 = upd_opt h1 (h_next n) (\<lambda>m. m\<lparr>h_prev := Some new\<rparr>);
          h3 = upd h2 ip (\<lambda>m. m\<lparr>h_next := Some new\<rparr>)
      in d\<lparr>h_heap := h3, h_fresh := new + 1, h_index := (h_index d)(uidKey u \<mapsto> new),
           h_length := h_length d + 1, h_nodeCount := h_nodeCount d + 1\<rparr>)"

definition h_applyInsert ::
  "heap_doc \<Rightarrow> UID \<Rightarrow> UID option \<Rightarrow> json \<Rightarrow> (rga_error + heap_doc) option" where
  "h_applyInsert d u a v =
     (if h_index d (uidKey u) \<noteq> None then Some (Inr d)
      else (case h_index d (after_key a) of
          None \<Rightarrow> Some (Inl (CausalGap (after_key a)))
        | Some r \<Rightarrow>
            (case h_scan (h_heap d) u r of None \<Rightarrow> None | Some ip \<Rightarrow>
               (case h_heap d ip of None \<Rightarrow> None | Some n \<Rightarrow> Some (Inr (h_splice d u v ip n))))))"

definition h_applyDelete :: "heap_doc \<Rightarrow> UID \<Rightarrow> (heap_doc \<times> bool) option" where
  "h_applyDelete d u =
     (case h_index d (uidKey u) of None \<Rightarrow> Some (d, False)
      | Some r \<Rightarrow> (case h_heap d r of None \<Rightarrow> None | Some n \<Rightarrow>
          Some (if \<not> h_tombstoned n
            then (d\<lparr>h_heap := upd (h_heap d) r (\<lambda>m. m\<lparr>h_tombstoned := True\<rparr>),
                    h_length := h_length d - 1\<rparr>, True)
            else (d, True))))"

definition h_applyFormat :: "heap_doc \<Rightarrow> UID \<Rightarrow> attributes \<Rightarrow> (heap_doc \<times> bool) option" where
  "h_applyFormat d u attrs =
     (case h_index d (uidKey u) of None \<Rightarrow> Some (d, False)
      | Some r \<Rightarrow> Some (d\<lparr>h_heap := upd (h_heap d) r
          (\<lambda>m. m\<lparr>h_attributes := h_attributes m ++ attrs\<rparr>)\<rparr>, True))"

fun h_applyOperation :: "heap_doc \<Rightarrow> RGAOperation \<Rightarrow> (heap_doc \<times> bool) option" where
  "h_applyOperation d (INSERT u a v) =
     (case h_applyInsert d u a v of None \<Rightarrow> None
      | Some (Inr d') \<Rightarrow> Some (d', True) | Some (Inl _) \<Rightarrow> Some (d, False))"
| "h_applyOperation d (DELETE u) = h_applyDelete d u"
| "h_applyOperation d (FORMAT u attrs) = h_applyFormat d u attrs"
| "h_applyOperation d (ROLLBACK _ _ _) = Some (d, False)"

text \<open>The nodes a loop \<open>while (node !== null) { ...; node = node.next; }\<close> visits.\<close>

partial_function (option) h_visit :: "heap \<Rightarrow> ref option \<Rightarrow> hnode list option" where
  "h_visit h r = (case r of None \<Rightarrow> Some [] | Some q \<Rightarrow>
     (case h q of None \<Rightarrow> None | Some n \<Rightarrow>
        Option.bind (h_visit h (h_next n)) (\<lambda>ns. Some (n # ns))))"

definition strip :: "hnode \<Rightarrow> RGANode" where
  "strip n = \<lparr>node_uid = h_uid n, node_value = h_value n, node_attributes = h_attributes n,
     node_tombstoned = h_tombstoned n\<rparr>"

definition h_body :: "heap_doc \<Rightarrow> hnode list option" where
  "h_body d = (case h_heap d (h_root d) of None \<Rightarrow> None | Some n \<Rightarrow> h_visit (h_heap d) (h_next n))"

definition h_serialize :: "heap_doc \<Rightarrow> SerializedRGANode list option" where
  "h_serialize d = map_option (map (\<lambda>n. serialize_node (strip n))) (h_body d)"

definition h_toText :: "heap_doc \<Rightarrow> js_text option" where
  "h_toText d = map_option (\<lambda>ns. concat (text_parts (map strip ns))) (h_body d)"

text \<open>The collection loop: relink around a tombstone, drop its key, go on.\<close>

partial_function (option) h_gc_loop ::
  "heap \<Rightarrow> (string \<rightharpoonup> ref) \<Rightarrow> int \<Rightarrow> int \<Rightarrow> ref option \<Rightarrow> (heap \<times> (string \<rightharpoonup> ref) \<times> int \<times> int) option" where
  "h_gc_loop h ix cnt removed r =
     (case r of None \<Rightarrow> Some (h, ix, cnt, removed)
      | Some q \<Rightarrow> (case h q of None \<Rightarrow> None | Some n \<Rightarrow>
          if h_tombstoned n then
            h_gc_loop
              (upd_opt (upd_opt h (h_prev n) (\<lambda>m. m\<lparr>h_next := h_next n\<rparr>)) (h_next n)
                 (\<lambda>m. m\<lparr>h_prev := h_prev n\<rparr>))
              (ix(uidKey (h_uid n) := None)) (cnt - 1) (removed + 1) (h_next n)
          else h_gc_loop h ix cnt removed (h_next n)))"

definition h_gc :: "heap_doc \<Rightarrow> (heap_doc \<times> int) option" where
  "h_gc d = (case h_heap d (h_root d) of None \<Rightarrow> None | Some n \<Rightarrow>
     (case h_gc_loop (h_heap d) (h_index d) (h_nodeCount d) 0 (h_next n) of None \<Rightarrow> None
      | Some (h, ix, cnt, removed) \<Rightarrow>
          Some (d\<lparr>h_heap := h, h_index := ix, h_nodeCount := cnt\<rparr>, removed)))"

section \<open>Doubly-linked segments\<close>

fun first_ref :: "ref list \<Rightarrow> ref option \<Rightarrow> ref option" where
  "first_ref [] e = e"
| "first_ref (r # rs) e = Some r"

fun last_ref :: "ref list \<Rightarrow> ref option \<Rightarrow> ref option" where
  "last_ref [] p = p"
| "last_ref (r # rs) p = last_ref rs (Some r)"

fun dseg :: "heap \<Rightarrow> ref option \<Rightarrow> ref list \<Rightarrow> ref option \<Rightarrow> bool" where
  "dseg h p [] e \<longleftrightarrow> True"
| "dseg h p (r # rs) e \<longleftrightarrow>
     (\<exists>n. h r = Some n \<and> h_prev n = p \<and> h_next n = first_ref rs e) \<and> dseg h (Some r) rs e"

lemma first_ref_append [simp]: "first_ref (xs @ ys) e = first_ref xs (first_ref ys e)"
  by (cases xs) auto

lemma last_ref_append [simp]: "last_ref (xs @ ys) p = last_ref ys (last_ref xs p)"
  by (induction xs arbitrary: p) auto

lemma dseg_append [simp]:
  "dseg h p (xs @ ys) e \<longleftrightarrow> dseg h p xs (first_ref ys e) \<and> dseg h (last_ref xs p) ys e"
  by (induction xs arbitrary: p) auto

lemma dseg_frame: "dseg h p rs e \<Longrightarrow> \<forall>r \<in> set rs. h' r = h r \<Longrightarrow> dseg h' p rs e"
  by (induction rs arbitrary: p) auto

lemma dseg_dom: "dseg h p rs e \<Longrightarrow> r \<in> set rs \<Longrightarrow> \<exists>n. h r = Some n"
  by (induction rs arbitrary: p) auto

lemma upd_same: "h r = Some n \<Longrightarrow> upd h r f r = Some (f n)"
  by (simp add: upd_def)

lemma upd_other [simp]: "q \<noteq> r \<Longrightarrow> upd h r f q = h q"
  by (simp add: upd_def split: option.split)

lemma upd_dom: "dom (upd h r f) = dom h"
  by (auto simp: upd_def split: option.split)

lemma dseg_upd_away [simp]: "r \<notin> set rs \<Longrightarrow> dseg (upd h r f) p rs e \<longleftrightarrow> dseg h p rs e"
proof (induction rs arbitrary: p)
  case (Cons q rs)
  then have "upd h r f q = h q" by simp
  with Cons show ?case by simp
qed simp

lemma dseg_new_away [simp]: "r \<notin> set rs \<Longrightarrow> dseg (h(r \<mapsto> n)) p rs e \<longleftrightarrow> dseg h p rs e"
  by (induction rs arbitrary: p) auto

lemma dseg_upd_data:
  assumes "dseg h p rs e" "\<And>n. h_prev (f n) = h_prev n" "\<And>n. h_next (f n) = h_next n"
  shows "dseg (upd h r f) p rs e"
  using assms(1)
proof (induction rs arbitrary: p)
  case (Cons q rs)
  then obtain n where "h q = Some n" "h_prev n = p" "h_next n = first_ref rs e" by auto
  then have "\<exists>m. upd h r f q = Some m \<and> h_prev m = p \<and> h_next m = first_ref rs e"
    by (cases "q = r") (auto simp: upd_same assms)
  with Cons show ?case by simp
qed simp

text \<open>Redirecting the two pointers at the ends of neighbouring segments.\<close>

lemma dseg_set_prev:
  assumes "dseg h p (r # rs) e" "distinct (r # rs)"
  shows "dseg (upd h r (\<lambda>m. m\<lparr>h_prev := p'\<rparr>)) p' (r # rs) e"
  using assms by (auto simp: upd_same)

lemma dseg_set_next:
  assumes "dseg h p (xs @ [r]) e" "distinct (xs @ [r])"
  shows "dseg (upd h r (\<lambda>m. m\<lparr>h_next := e'\<rparr>)) p (xs @ [r]) e'"
  using assms by (auto simp: upd_same)

lemma dseg_set_prev_opt:
  assumes "dseg h p rs None" "distinct rs"
  shows "dseg (upd_opt h (first_ref rs None) (\<lambda>m. m\<lparr>h_prev := p'\<rparr>)) p' rs None"
  using assms dseg_set_prev [of h p _ _ None] by (cases rs) (auto simp: upd_opt_def)

section \<open>Representation\<close>

definition node_at :: "heap \<Rightarrow> ref \<Rightarrow> RGANode" where
  "node_at h r = strip (the (h r))"

definition key_at :: "heap \<Rightarrow> ref \<Rightarrow> string" where
  "key_at h r = uidKey (h_uid (the (h r)))"

definition indexes :: "heap \<Rightarrow> ref list \<Rightarrow> (string \<rightharpoonup> ref) \<Rightarrow> bool" where
  "indexes h rs ix \<longleftrightarrow> (\<forall>k r. ix k = Some r \<longleftrightarrow> r \<in> set rs \<and> key_at h r = k)"

definition represents :: "heap_doc \<Rightarrow> ref list \<Rightarrow> RGADocument \<Rightarrow> bool" where
  "represents d rs c \<longleftrightarrow>
     rs \<noteq> [] \<and> hd rs = h_root d \<and> distinct rs \<and> dseg (h_heap d) None rs None \<and>
     (\<forall>r \<in> dom (h_heap d). r < h_fresh d) \<and>
     indexes (h_heap d) rs (h_index d) \<and>
     map (node_at (h_heap d)) rs = doc_chain c \<and>
     h_length d = doc_length c \<and> h_nodeCount d = doc_nodeCount c"

definition implements :: "heap_doc \<Rightarrow> RGADocument \<Rightarrow> bool" where
  "implements d c \<longleftrightarrow> (\<exists>rs. represents d rs c)"

lemma node_at_uid [simp]: "node_uid (node_at h r) = h_uid (the (h r))"
  by (simp add: node_at_def strip_def)

lemma key_at_node: "key_at h r = node_key (node_at h r)"
  by (simp add: key_at_def node_key_def)

lemma node_at_frame:
  assumes "\<And>q. q \<noteq> r \<Longrightarrow> node_at h' q = node_at h q" "r \<notin> set xs"
  shows "map (node_at h') xs = map (node_at h) xs"
  using assms by (metis map_cong)

lemma implements_new: "implements h_new newRGADocument"
  unfolding implements_def represents_def
  by (rule exI [of _ "[0]"])
     (auto simp: h_new_def newRGADocument_def node_at_def strip_def root_node_def indexes_def
       key_at_def split: if_splits)

lemma represents_keys_distinct:
  assumes "represents d rs c"
  shows "distinct (map (key_at (h_heap d)) rs)"
proof -
  have "inj_on (key_at (h_heap d)) (set rs)"
    using assms by (intro inj_onI) (metis indexes_def option.inject represents_def)
  with assms show ?thesis
    by (simp add: distinct_map represents_def)
qed

lemma index_Some:
  assumes "represents d rs c" "h_index d k = Some r"
  obtains xs ys n where "rs = xs @ r # ys" "h_heap d r = Some n" "key_at (h_heap d) r = k"
    "k \<notin> key_at (h_heap d) ` set xs" "k \<notin> key_at (h_heap d) ` set ys"
proof -
  have r: "r \<in> set rs" "key_at (h_heap d) r = k"
    using assms by (auto simp: represents_def indexes_def)
  then obtain xs ys where xs: "rs = xs @ r # ys"
    by (meson split_list)
  moreover have "\<exists>n. h_heap d r = Some n"
    using assms(1) r(1) unfolding represents_def by (metis dseg_dom)
  moreover have "k \<notin> key_at (h_heap d) ` set xs" "k \<notin> key_at (h_heap d) ` set ys"
    using represents_keys_distinct [OF assms(1)] r(2) by (auto simp: xs)
  ultimately show ?thesis using r that by blast
qed

lemma index_None:
  assumes "represents d rs c"
  shows "h_index d k = None \<longleftrightarrow> k \<notin> node_key ` set (doc_chain c)"
proof -
  have "h_index d k = None \<longleftrightarrow> (\<forall>r \<in> set rs. key_at (h_heap d) r \<noteq> k)"
    using assms by (metis indexes_def not_Some_eq represents_def)
  also have "\<dots> \<longleftrightarrow> k \<notin> node_key ` set (map (node_at (h_heap d)) rs)"
    by (auto simp: key_at_node)
  also have "map (node_at (h_heap d)) rs = doc_chain c"
    using assms by (simp add: represents_def)
  finally show ?thesis .
qed

section \<open>The list model at a split\<close>

lemma scan_insert_at:
  "\<forall>m \<in> set qs. node_uid n < node_uid m \<Longrightarrow> zs = [] \<or> \<not> node_uid n < node_uid (hd zs) \<Longrightarrow>
     scan_insert n (qs @ zs) = qs @ n # zs"
  by (induction qs) (cases zs; auto)+

lemma insert_after_at:
  "node_key x = k \<Longrightarrow> k \<notin> node_key ` set xs \<Longrightarrow> insert_after k n (xs @ x # ys) = xs @ x # scan_insert n ys"
  by (induction xs) auto

lemma update_node_at:
  "node_key x = k \<Longrightarrow> k \<notin> node_key ` set xs \<Longrightarrow> update_node k f (xs @ x # ys) = xs @ f x # ys"
  by (induction xs) auto

lemma find_at:
  "node_key x = k \<Longrightarrow> k \<notin> node_key ` set xs \<Longrightarrow> find (\<lambda>n. node_key n = k) (xs @ x # ys) = Some x"
  by (induction xs) auto

section \<open>Insert\<close>

lemma h_scan_spec:
  assumes "dseg h p (r # ys) None"
  shows "\<exists>qs zs. ys = qs @ zs \<and> h_scan h u r = Some (last (r # qs)) \<and>
    (\<forall>q \<in> set qs. u < h_uid (the (h q))) \<and> (zs = [] \<or> \<not> u < h_uid (the (h (hd zs))))"
  using assms
proof (induction ys arbitrary: r p)
  case Nil
  then show ?case by (subst h_scan.simps) auto
next
  case (Cons q ys)
  then obtain n m where nm: "h r = Some n" "h_next n = Some q" "h q = Some m"
    and d: "dseg h (Some r) (q # ys) None" by auto
  show ?case
  proof (cases "u < h_uid m")
    case True
    have "h_scan h u r = h_scan h u q"
      using nm True by (subst h_scan.simps) simp
    moreover obtain qs zs where "ys = qs @ zs" "h_scan h u q = Some (last (q # qs))"
      "\<forall>q \<in> set qs. u < h_uid (the (h q))" "zs = [] \<or> \<not> u < h_uid (the (h (hd zs)))"
      using Cons.IH [OF d] by blast
    ultimately show ?thesis
      using nm True by - (rule exI [of _ "q # qs"], rule exI [of _ zs], simp)
  next
    case False
    have "h_scan h u r = Some r"
      using nm False by (subst h_scan.simps) simp
    with nm False show ?thesis
      by - (rule exI [of _ "[]"], rule exI [of _ "q # ys"], simp)
  qed
qed

lemma node_at_upd:
  assumes "\<And>n. strip (f n) = strip n"
  shows "node_at (upd h r f) q = node_at h q"
  using assms by (cases "q = r"; cases "h r") (auto simp: node_at_def upd_def)

lemma node_at_upd_opt:
  assumes "\<And>n. strip (f n) = strip n"
  shows "node_at (upd_opt h r f) q = node_at h q"
  using assms by (cases r) (auto simp: upd_opt_def node_at_upd)

lemma upd_opt_dom: "dom (upd_opt h r f) = dom h"
  by (simp add: upd_opt_def upd_dom split: option.split)

lemma dseg_upd_opt_away:
  "set rs \<inter> set ys = {} \<Longrightarrow> dseg (upd_opt h (first_ref ys None) f) p rs e \<longleftrightarrow> dseg h p rs e"
  by (cases ys) (auto simp: upd_opt_def)

lemma dseg_link:
  assumes "dseg h None (xs @ [ip]) e" "dseg h p ys None" "distinct (xs @ [ip])" "distinct ys"
    and "set (xs @ [ip]) \<inter> set ys = {}"
  shows "dseg (upd_opt (upd_opt h (Some ip) (\<lambda>m. m\<lparr>h_next := first_ref ys None\<rparr>)) (first_ref ys None)
      (\<lambda>m. m\<lparr>h_prev := Some ip\<rparr>)) None (xs @ ip # ys) None"
proof -
  let ?h1 = "upd h ip (\<lambda>m. m\<lparr>h_next := first_ref ys None\<rparr>)"
  let ?h2 = "upd_opt ?h1 (first_ref ys None) (\<lambda>m. m\<lparr>h_prev := Some ip\<rparr>)"
  have "dseg ?h1 None (xs @ [ip]) (first_ref ys None)" "dseg ?h1 p ys None"
    using dseg_set_next [OF assms(1,3)] assms(2,5) by auto
  then have "dseg ?h2 None (xs @ [ip]) (first_ref ys None)" "dseg ?h2 (Some ip) ys None"
    using dseg_upd_opt_away [OF assms(5)] dseg_set_prev_opt [OF _ assms(4)] by auto
  moreover have "xs @ ip # ys = (xs @ [ip]) @ ys"
    by simp
  ultimately show ?thesis
    unfolding upd_opt_def [of h] by (simp only: dseg_append option.case) simp
qed

lemma splice_heap:
  assumes "dseg (h_heap d) None (xs @ ip # ys) None" "distinct (xs @ ip # ys)"
    and "h_heap d ip = Some n" "h_fresh d \<notin> set (xs @ ip # ys)"
  shows "dseg (h_heap (h_splice d u v ip n)) None (xs @ ip # h_fresh d # ys) None \<and>
    (\<forall>r. r \<noteq> h_fresh d \<longrightarrow> node_at (h_heap (h_splice d u v ip n)) r = node_at (h_heap d) r) \<and>
    node_at (h_heap (h_splice d u v ip n)) (h_fresh d) = new_node u v"
proof -
  let ?new = "h_fresh d" and ?h = "h_heap d"
  define h1 where "h1 = ?h(?new \<mapsto> \<lparr>h_uid = u, h_value = v, h_attributes = Map.empty,
    h_tombstoned = False, h_prev = Some ip, h_next = first_ref ys None\<rparr>)"
  define h2 where "h2 = upd_opt h1 (first_ref ys None) (\<lambda>m. m\<lparr>h_prev := Some ?new\<rparr>)"
  define h3 where "h3 = upd h2 ip (\<lambda>m. m\<lparr>h_next := Some ?new\<rparr>)"
  have n: "h_next n = first_ref ys None"
    using assms(1,3) by simp
  then have h: "h_heap (h_splice d u v ip n) = h3"
    by (simp add: h_splice_def Let_def h1_def h2_def h3_def)
  have "dseg h1 None (xs @ [ip]) (first_ref ys None)" "dseg h1 (Some ip) ys None"
    "dseg h1 (Some ip) [?new] (first_ref ys None)"
    using assms by (auto simp: h1_def)
  moreover have "set (xs @ [ip]) \<inter> set ys = {}" "set [?new] \<inter> set ys = {}" "distinct ys"
    using assms by auto
  ultimately have "dseg h2 None (xs @ [ip]) (first_ref ys None)" "dseg h2 (Some ?new) ys None"
    "dseg h2 (Some ip) [?new] (first_ref ys None)"
    unfolding h2_def using dseg_upd_opt_away dseg_set_prev_opt by metis+
  then have "dseg h3 None (xs @ [ip]) (Some ?new)" "dseg h3 (Some ?new) ys None"
    "dseg h3 (Some ip) [?new] (first_ref ys None)"
    unfolding h3_def using assms dseg_set_next [of h2 None xs ip]
    by (auto simp del: dseg.simps dseg_append)
  moreover have "xs @ ip # ?new # ys = (xs @ [ip]) @ [?new] @ ys"
    by simp
  ultimately have "dseg h3 None (xs @ ip # ?new # ys) None"
    by (simp only: dseg_append) simp
  moreover have "node_at h3 r = node_at h1 r" for r
    by (simp add: h3_def h2_def node_at_upd node_at_upd_opt strip_def)
  moreover have "node_at h1 ?new = new_node u v" "r \<noteq> ?new \<Longrightarrow> node_at h1 r = node_at ?h r" for r
    by (simp_all add: h1_def node_at_def strip_def new_node_def)
  ultimately show ?thesis
    unfolding h by simp
qed

lemma implements_splice:
  assumes "represents d (xs @ ip # ys) c" "h_heap d ip = Some n" "h_index d (uidKey u) = None"
    and "doc_chain c' = map (node_at (h_heap d)) (xs @ [ip]) @ new_node u v # map (node_at (h_heap d)) ys"
    and "doc_length c' = doc_length c + 1" "doc_nodeCount c' = doc_nodeCount c + 1"
  shows "implements (h_splice d u v ip n) c'"
proof -
  let ?rs = "xs @ ip # ys" and ?new = "h_fresh d" and ?d = "h_splice d u v ip n"
  have fresh: "?new \<notin> set ?rs"
    using assms(1) dseg_dom unfolding represents_def by (metis domI less_irrefl)
  have sp: "dseg (h_heap ?d) None (xs @ ip # ?new # ys) None"
    "r \<noteq> ?new \<Longrightarrow> node_at (h_heap ?d) r = node_at (h_heap d) r"
    "node_at (h_heap ?d) ?new = new_node u v" for r
    using splice_heap [of d xs ip ys n u v] assms fresh by (auto simp: represents_def)
  have keys: "key_at (h_heap ?d) r = key_at (h_heap d) r" if "r \<in> set ?rs" for r
    using sp(2) [of r] that fresh by (metis key_at_node)
  have new_key: "key_at (h_heap ?d) ?new = uidKey u"
    using sp(3) by (simp add: key_at_node)
  have fields: "h_index ?d = (h_index d)(uidKey u \<mapsto> ?new)" "h_fresh ?d = ?new + 1" "h_root ?d = h_root d"
    "h_length ?d = h_length d + 1" "h_nodeCount ?d = h_nodeCount d + 1"
    "dom (h_heap ?d) = insert ?new (dom (h_heap d))"
    by (simp_all add: h_splice_def Let_def upd_dom upd_opt_dom)
  have "indexes (h_heap ?d) (xs @ ip # ?new # ys) (h_index ?d)"
    unfolding indexes_def
  proof (intro allI)
    fix k r
    have old: "h_index d k = Some r \<longleftrightarrow> r \<in> set ?rs \<and> key_at (h_heap d) r = k"
      using assms(1) by (simp add: represents_def indexes_def)
    show "h_index ?d k = Some r \<longleftrightarrow> r \<in> set (xs @ ip # ?new # ys) \<and> key_at (h_heap ?d) r = k"
    proof (cases "k = uidKey u")
      case True
      then have "\<not> (r \<in> set ?rs \<and> key_at (h_heap d) r = k)"
        using old assms(3) by auto
      with True show ?thesis using keys [of r] new_key fields(1) by auto
    next
      case False
      with old keys [of r] new_key fields(1) fresh show ?thesis by auto
    qed
  qed
  moreover have "map (node_at (h_heap ?d)) (xs @ ip # ?new # ys) = doc_chain c'"
    using node_at_frame [OF sp(2), where xs = xs] node_at_frame [OF sp(2), where xs = "[ip]"]
      node_at_frame [OF sp(2), where xs = ys] fresh sp(3) assms(4) by simp
  moreover have "hd (xs @ ip # ?new # ys) = h_root ?d"
    using assms(1) fields(3) by (cases xs) (auto simp: represents_def)
  moreover have "\<forall>r \<in> dom (h_heap ?d). r < h_fresh ?d"
    using assms(1) unfolding fields represents_def by (auto intro: less_SucI)
  moreover have "distinct (xs @ ip # ?new # ys)"
    using assms(1) fresh by (auto simp: represents_def)
  ultimately have "represents ?d (xs @ ip # ?new # ys) c'"
    using assms(1,5,6) sp(1) fields unfolding represents_def by simp
  then show ?thesis
    by (auto simp: implements_def)
qed

lemma h_applyInsert_refines:
  assumes "represents d rs c"
  shows "(case applyInsert c u a v of
      Inl e \<Rightarrow> h_applyInsert d u a v = Some (Inl e)
    | Inr c' \<Rightarrow> \<exists>d'. h_applyInsert d u a v = Some (Inr d') \<and> implements d' c')"
proof (cases "h_index d (uidKey u)")
  case (Some r)
  then have "u \<in> uids c"
    using index_None [OF assms, of "uidKey u"] by (simp add: uids_def node_keys_image)
  with Some assms show ?thesis
    by (auto simp: applyInsert_def h_applyInsert_def implements_def)
next
  case None
  then have u: "u \<notin> uids c"
    using index_None [OF assms, of "uidKey u"] by (auto simp: uids_def)
  show ?thesis
  proof (cases "h_index d (uidKey (anchor a))")
    case an: None
    then have "anchor a \<notin> uids c"
      using index_None [OF assms, of "uidKey (anchor a)"] by (auto simp: uids_def)
    with None an u show ?thesis
      by (simp add: applyInsert_def h_applyInsert_def)
  next
    case (Some r)
    then have "anchor a \<in> uids c"
      using index_None [OF assms, of "uidKey (anchor a)"] by (simp add: uids_def node_keys_image)
    with u have ap: "applyInsert c u a v = Inr (c\<lparr>doc_chain :=
        insert_after (uidKey (anchor a)) (new_node u v) (doc_chain c),
        doc_length := doc_length c + 1, doc_nodeCount := doc_nodeCount c + 1\<rparr>)"
      by (simp add: applyInsert_def)
    obtain xs ys where rs: "rs = xs @ r # ys" "key_at (h_heap d) r = uidKey (anchor a)"
      "uidKey (anchor a) \<notin> key_at (h_heap d) ` set xs"
      using index_Some [OF assms Some] by metis
    have ds: "dseg (h_heap d) (last_ref xs None) (r # ys) None"
      using assms unfolding represents_def rs(1) by simp
    obtain qs zs where qz: "ys = qs @ zs" "h_scan (h_heap d) u r = Some (last (r # qs))"
      "\<forall>q \<in> set qs. u < h_uid (the (h_heap d q))"
      "zs = [] \<or> \<not> u < h_uid (the (h_heap d (hd zs)))"
      using h_scan_spec [OF ds] by blast
    define ip where "ip = last (r # qs)"
    define ws where "ws = xs @ butlast (r # qs)"
    have ws: "xs @ r # qs = ws @ [ip]" "rs = ws @ ip # zs"
      using append_butlast_last_id [of "r # qs"] by (auto simp: ws_def ip_def rs qz)
    obtain n where n: "h_heap d ip = Some n"
      using assms dseg_dom [of "h_heap d" None rs None ip] by (auto simp: represents_def ws(2))
    have chain: "doc_chain c = map (node_at (h_heap d)) rs"
      using assms by (simp add: represents_def)
    have "insert_after (uidKey (anchor a)) (new_node u v) (doc_chain c) =
        map (node_at (h_heap d)) (xs @ [r]) @ scan_insert (new_node u v) (map (node_at (h_heap d)) ys)"
      using rs insert_after_at [of "node_at (h_heap d) r" "uidKey (anchor a)"
          "map (node_at (h_heap d)) xs" "new_node u v" "map (node_at (h_heap d)) ys"]
      by (auto simp: chain key_at_node image_iff)
    also have "scan_insert (new_node u v) (map (node_at (h_heap d)) ys) =
        map (node_at (h_heap d)) qs @ new_node u v # map (node_at (h_heap d)) zs"
      unfolding qz(1) map_append using qz(3,4) by (intro scan_insert_at) (auto simp: hd_map)
    finally have "insert_after (uidKey (anchor a)) (new_node u v) (doc_chain c) =
        map (node_at (h_heap d)) (ws @ [ip]) @ new_node u v # map (node_at (h_heap d)) zs"
      unfolding ws(1) [symmetric] by simp
    then have "implements (h_splice d u v ip n) (c\<lparr>doc_chain :=
        insert_after (uidKey (anchor a)) (new_node u v) (doc_chain c),
        doc_length := doc_length c + 1, doc_nodeCount := doc_nodeCount c + 1\<rparr>)"
      using assms n None unfolding ws(2) by (intro implements_splice [of d ws ip zs c]) auto
    moreover have "h_applyInsert d u a v = Some (Inr (h_splice d u v ip n))"
      using None Some qz(2) n by (simp add: h_applyInsert_def ip_def)
    ultimately show ?thesis
      using ap by simp
  qed
qed

section \<open>Delete and format\<close>

lemma node_at_strip:
  assumes "h r = Some n" "strip (f n) = g (strip n)"
  shows "node_at (upd h r f) r = g (node_at h r)"
  using assms by (simp add: node_at_def upd_same)

text \<open>An update of one node that leaves UID and pointers alone is an \<open>update_node\<close>.\<close>

lemma implements_update:
  assumes "represents d rs c" "h_index d (uidKey u) = Some r"
    and "\<And>n. strip (f n) = g (strip n)" "\<And>n. h_uid (f n) = h_uid n"
    and "\<And>n. h_prev (f n) = h_prev n" "\<And>n. h_next (f n) = h_next n"
    and "d' = d\<lparr>h_heap := upd (h_heap d) r f, h_length := len\<rparr>"
    and "c' = c\<lparr>doc_chain := update_node (uidKey u) g (doc_chain c), doc_length := len\<rparr>"
  shows "implements d' c'"
proof -
  let ?h = "h_heap d" and ?h' = "upd (h_heap d) r f"
  obtain xs ys n where rs: "rs = xs @ r # ys" "?h r = Some n" "key_at ?h r = uidKey u"
    "uidKey u \<notin> key_at ?h ` set xs"
    using index_Some [OF assms(1,2)] by metis
  have dist: "r \<notin> set xs" "r \<notin> set ys"
    using assms(1) rs(1) by (auto simp: represents_def)
  have keys: "key_at ?h' q = key_at ?h q" for q
    using rs(2) assms(4) by (cases "q = r") (simp_all add: key_at_def upd_same)
  have other: "node_at ?h' q = node_at ?h q" if "q \<noteq> r" for q
    using that by (simp add: node_at_def)
  have "map (node_at ?h') xs = map (node_at ?h) xs" "map (node_at ?h') ys = map (node_at ?h) ys"
    by (rule node_at_frame [of r], erule other, fact)+
  moreover have "node_at ?h' r = g (node_at ?h r)"
    using node_at_strip [of ?h r n f g] rs(2) assms(3) by simp
  moreover have "update_node (uidKey u) g (map (node_at ?h) rs) =
      map (node_at ?h) xs @ g (node_at ?h r) # map (node_at ?h) ys"
    unfolding rs(1) map_append list.map
    using rs(3,4) by (intro update_node_at) (auto simp: key_at_node image_iff)
  ultimately have "map (node_at ?h') rs = update_node (uidKey u) g (doc_chain c)"
    using assms(1) by (simp add: represents_def rs(1))
  moreover have "dseg ?h' None rs None"
    using assms(1) by (intro dseg_upd_data assms(5,6)) (simp add: represents_def)
  ultimately have "represents d' rs c'"
    using assms(1) by (simp add: represents_def assms(7,8) indexes_def keys upd_dom)
  then show ?thesis
    by (auto simp: implements_def)
qed

lemma index_get_heap:
  assumes "represents d rs c" "h_index d (uidKey u) = Some r"
  shows "\<exists>n. h_heap d r = Some n \<and> index_get c (uidKey u) = Some (strip n)"
proof -
  obtain xs ys n where rs: "rs = xs @ r # ys" "h_heap d r = Some n" "key_at (h_heap d) r = uidKey u"
    "uidKey u \<notin> key_at (h_heap d) ` set xs"
    using index_Some [OF assms] by metis
  have "find (\<lambda>n. node_key n = uidKey u) (map (node_at (h_heap d)) rs) = Some (node_at (h_heap d) r)"
    unfolding rs(1) map_append list.map using rs(3,4) by (intro find_at) (auto simp: key_at_node image_iff)
  then show ?thesis
    using assms(1) rs(2) by (simp add: index_get_def represents_def node_at_def)
qed

lemma index_get_heap_None:
  assumes "represents d rs c" "h_index d (uidKey u) = None"
  shows "index_get c (uidKey u) = None"
  using index_None [OF assms(1), of "uidKey u"] assms(2)
  by (simp add: index_get_None_iff uids_def node_keys_image)

lemma h_applyDelete_refines:
  assumes "represents d rs c"
  shows "\<exists>d'. h_applyDelete d u = Some (d', snd (applyDelete c u)) \<and> implements d' (fst (applyDelete c u))"
proof (cases "h_index d (uidKey u)")
  case None
  with assms show ?thesis
    using index_get_heap_None [OF assms None]
    by (auto simp: h_applyDelete_def applyDelete_def implements_def)
next
  case (Some r)
  then obtain n where n: "h_heap d r = Some n" "index_get c (uidKey u) = Some (strip n)"
    using index_get_heap [OF assms] by blast
  have len: "h_length d = doc_length c"
    using assms by (simp add: represents_def)
  have "implements (d\<lparr>h_heap := upd (h_heap d) r (\<lambda>m. m\<lparr>h_tombstoned := True\<rparr>), h_length := doc_length c - 1\<rparr>)
      (c\<lparr>doc_chain := update_node (uidKey u) tombstone (doc_chain c), doc_length := doc_length c - 1\<rparr>)"
    by (rule implements_update [OF assms Some]) (simp_all add: strip_def tombstone_def)
  then show ?thesis
    using Some n assms
    by (auto simp: h_applyDelete_def applyDelete_def strip_def len implements_def)
qed

lemma h_applyFormat_refines:
  assumes "represents d rs c"
  shows "\<exists>d'. h_applyFormat d u attrs = Some (d', snd (applyFormat c u attrs)) \<and>
    implements d' (fst (applyFormat c u attrs))"
proof (cases "h_index d (uidKey u)")
  case None
  with assms show ?thesis
    using index_get_heap_None [OF assms None]
    by (auto simp: h_applyFormat_def applyFormat_def implements_def)
next
  case (Some r)
  then obtain n where n: "h_heap d r = Some n" "index_get c (uidKey u) = Some (strip n)"
    using index_get_heap [OF assms] by blast
  have len: "h_length d = doc_length c"
    using assms by (simp add: represents_def)
  let ?f = "\<lambda>m. m\<lparr>h_attributes := h_attributes m ++ attrs\<rparr>"
  have "d\<lparr>h_heap := upd (h_heap d) r ?f\<rparr> = d\<lparr>h_heap := upd (h_heap d) r ?f, h_length := doc_length c\<rparr>"
    using len by simp
  then have "implements (d\<lparr>h_heap := upd (h_heap d) r ?f\<rparr>)
      (c\<lparr>doc_chain := update_node (uidKey u) (merge_attributes attrs) (doc_chain c)\<rparr>)"
    by (rule implements_update [OF assms Some, where len = "doc_length c" and g = "merge_attributes attrs", rotated 4])
      (simp_all add: strip_def merge_attributes_def)
  then show ?thesis
    using Some n by (auto simp: h_applyFormat_def applyFormat_def)
qed

section \<open>Reading\<close>

lemma h_visit_dseg: "dseg h p rs None \<Longrightarrow> h_visit h (first_ref rs None) = Some (map (\<lambda>r. the (h r)) rs)"
  by (induction rs arbitrary: p; subst h_visit.simps) auto

lemma h_body_map:
  assumes "represents d rs c"
  shows "\<exists>ns. h_body d = Some ns \<and> map strip ns = body c"
proof -
  obtain r ts where rs: "rs = r # ts" "r = h_root d"
    using assms by (cases rs) (auto simp: represents_def)
  then obtain n where n: "h_heap d r = Some n" "h_next n = first_ref ts None"
    "dseg (h_heap d) (Some r) ts None"
    using assms by (auto simp: represents_def)
  have "h_body d = Some (map (\<lambda>r. the (h_heap d r)) ts)"
    using n rs h_visit_dseg by (simp add: h_body_def)
  moreover have "doc_chain c = map (node_at (h_heap d)) rs"
    using assms by (simp add: represents_def)
  ultimately show ?thesis
    by (auto simp: rs node_at_def)
qed

section \<open>Collecting\<close>

abbreviation dead :: "heap \<Rightarrow> ref \<Rightarrow> bool" where
  "dead h r \<equiv> node_tombstoned (node_at h r)"

definition unlink :: "heap \<Rightarrow> hnode \<Rightarrow> heap" where
  "unlink h n = upd_opt (upd_opt h (h_prev n) (\<lambda>m. m\<lparr>h_next := h_next n\<rparr>)) (h_next n)
     (\<lambda>m. m\<lparr>h_prev := h_prev n\<rparr>)"

lemma unlink_node_at [simp]: "node_at (unlink h n) r = node_at h r"
  by (simp add: unlink_def node_at_upd_opt strip_def)

lemma unlink_dom [simp]: "dom (unlink h n) = dom h"
  by (simp add: unlink_def upd_opt_dom)

lemma dseg_unlink:
  assumes "dseg h None (ps @ q # qs) None" "distinct (ps @ q # qs)" "ps \<noteq> []" "h q = Some n"
  shows "dseg (unlink h n) None (ps @ qs) None"
proof -
  obtain xs ip where ps: "ps = xs @ [ip]"
    using assms(3) by (metis append_butlast_last_id)
  have "h_prev n = Some ip" "h_next n = first_ref qs None"
    using assms(1,4) unfolding ps by auto
  then show ?thesis
    using dseg_link [of h xs ip "Some q" "Some q" qs] assms unfolding ps unlink_def by auto
qed

lemma h_gc_loop_spec:
  assumes "dseg h None (ps @ qs) None" "distinct (ps @ qs)" "ps \<noteq> []"
  shows "\<exists>h'. h_gc_loop h ix cnt removed (first_ref qs None) =
      Some (h', \<lambda>k. if k \<in> key_at h ` set (filter (dead h) qs) then None else ix k,
        cnt - int (length (filter (dead h) qs)), removed + int (length (filter (dead h) qs))) \<and>
    dseg h' None (ps @ filter (\<lambda>r. \<not> dead h r) qs) None \<and>
    node_at h' = node_at h \<and> dom h' = dom h"
  using assms
proof (induction qs arbitrary: h ps ix cnt removed)
  case Nil
  then show ?case by (subst h_gc_loop.simps) auto
next
  case (Cons q qs)
  then obtain n where n: "h q = Some n" "h_next n = first_ref qs None" by auto
  then have dead: "dead h q = h_tombstoned n" "key_at h q = uidKey (h_uid n)"
    by (simp_all add: node_at_def strip_def key_at_def)
  show ?case
  proof (cases "h_tombstoned n")
    case True
    have nodes: "node_at (unlink h n) = node_at h" by (rule ext) simp
    then have keys: "key_at (unlink h n) = key_at h" by (simp add: key_at_node fun_eq_iff)
    have step: "h_gc_loop h ix cnt removed (first_ref (q # qs) None) =
        h_gc_loop (unlink h n) (ix(uidKey (h_uid n) := None)) (cnt - 1) (removed + 1) (first_ref qs None)"
      using n True by (subst h_gc_loop.simps) (simp add: unlink_def)
    have "dseg (unlink h n) None (ps @ qs) None"
      using Cons.prems n(1) by (intro dseg_unlink)
    moreover have "distinct (ps @ qs)" using Cons.prems(2) by simp
    ultimately obtain h' where IH: "h_gc_loop (unlink h n) (ix(uidKey (h_uid n) := None)) (cnt - 1)
          (removed + 1) (first_ref qs None) =
        Some (h', \<lambda>k. if k \<in> key_at h ` set (filter (dead h) qs) then None
            else (ix(uidKey (h_uid n) := None)) k,
          cnt - 1 - int (length (filter (dead h) qs)), removed + 1 + int (length (filter (dead h) qs)))"
      "dseg h' None (ps @ filter (\<lambda>r. \<not> dead h r) qs) None" "node_at h' = node_at h" "dom h' = dom h"
      using Cons.IH [of "unlink h n" ps] Cons.prems(3) unfolding nodes keys by fastforce
    show ?thesis
      unfolding step IH(1) using IH(2-) True dead
      by - (rule exI [of _ h'], auto simp: fun_eq_iff)
  next
    case False
    have step: "h_gc_loop h ix cnt removed (first_ref (q # qs) None) =
        h_gc_loop h ix cnt removed (first_ref qs None)"
      using n False by (subst h_gc_loop.simps) simp
    show ?thesis
      unfolding step using Cons.IH [of h "ps @ [q]" ix cnt removed] Cons.prems False dead by simp
  qed
qed

lemma represents_gc:
  assumes "represents d rs c"
  shows "\<exists>d'. h_gc d = Some (d', snd (gc c)) \<and> implements d' (fst (gc c))"
proof -
  let ?h = "h_heap d"
  obtain r qs where rs: "rs = r # qs" "r = h_root d"
    using assms by (cases rs) (auto simp: represents_def)
  then obtain n where n: "?h r = Some n" "h_next n = first_ref qs None"
    using assms by (auto simp: represents_def)
  have d: "dseg ?h None ([r] @ qs) None" "distinct ([r] @ qs)"
    using assms by (auto simp: represents_def rs)
  let ?k = "int (length (filter (dead ?h) qs))" and ?dead = "key_at ?h ` set (filter (dead ?h) qs)"
  let ?ix = "\<lambda>k. if k \<in> ?dead then None else h_index d k"
  obtain h' where h': "h_gc_loop ?h (h_index d) (h_nodeCount d) 0 (first_ref qs None) =
      Some (h', ?ix, h_nodeCount d - ?k, ?k)" "dseg h' None (r # filter (\<lambda>r. \<not> dead ?h r) qs) None"
    "node_at h' = node_at ?h" "dom h' = dom ?h"
    using h_gc_loop_spec [OF d, of "h_index d" "h_nodeCount d" 0] by auto
  have gc: "h_gc d = Some (d\<lparr>h_heap := h', h_index := ?ix, h_nodeCount := h_nodeCount d - ?k\<rparr>, ?k)"
    using n h'(1) by (simp add: h_gc_def flip: rs(2))
  have chain: "doc_chain c = node_at ?h r # map (node_at ?h) qs"
    using assms by (simp add: represents_def rs)
  have live: "live (map (node_at ?h) qs) = map (node_at ?h) (filter (\<lambda>r. \<not> dead ?h r) qs)"
    by (simp add: live_def filter_map comp_def)
  have k: "int (length qs) - int (length (filter (\<lambda>r. \<not> dead ?h r) qs)) = ?k"
    using sum_length_filter_compl [of "dead ?h" qs] by simp
  have keys: "key_at h' = key_at ?h"
    using h'(3) by (simp add: key_at_node fun_eq_iff)
  have "key_at ?h r \<notin> ?dead"
    using represents_keys_distinct [OF assms] by (auto simp: rs)
  moreover have "key_at ?h q \<notin> ?dead" if "q \<in> set qs" "\<not> dead ?h q" for q
    using represents_keys_distinct [OF assms] that by (auto simp: rs distinct_map dest: inj_onD)
  ultimately have "indexes h' (r # filter (\<lambda>r. \<not> dead ?h r) qs) ?ix"
    using assms unfolding represents_def indexes_def rs(1) keys by (auto split: if_splits)
  then have "represents (d\<lparr>h_heap := h', h_index := ?ix, h_nodeCount := h_nodeCount d - ?k\<rparr>)
      (r # filter (\<lambda>r. \<not> dead ?h r) qs) (fst (gc c))"
    using assms h' d(2) by (simp add: represents_def gc_def gc_nodes_eq chain live k rs)
  with gc show ?thesis
    by (auto simp: implements_def gc_def gc_nodes_eq chain live k)
qed

section \<open>The class on its objects\<close>

text \<open>C7: On objects that represent a list document, every operation returns - the scan always
  ends - with the result the list model gives, and leaves objects that represent the new list:
  both directions of the links, the index and the counters included.\<close>

theorem heap_operations_refine:
  assumes "implements d c"
  shows "\<exists>d'. h_applyOperation d x = Some (d', snd (applyOperation c x)) \<and>
    implements d' (fst (applyOperation c x))"
proof -
  obtain rs where rs: "represents d rs c"
    using assms by (auto simp: implements_def)
  show ?thesis
  proof (cases x)
    case (INSERT u a v)
    then show ?thesis
      using h_applyInsert_refines [OF rs, of u a v] assms by (auto split: sum.splits)
  qed (use h_applyDelete_refines [OF rs] h_applyFormat_refines [OF rs] assms in auto)
qed

theorem heap_operations_refine_witness:
  "\<exists>d'. h_applyOperation h_new (INSERT (UID 1 ''a'') None (JStr [104])) =
      Some (d', snd (applyOperation newRGADocument (INSERT (UID 1 ''a'') None (JStr [104])))) \<and>
    implements d' (fst (applyOperation newRGADocument (INSERT (UID 1 ''a'') None (JStr [104]))))"
  by (rule heap_operations_refine [OF implements_new])

text \<open>Reading the objects - \<open>toText\<close> and \<open>serialize\<close>, loops over \<open>next\<close> that may not end on
  arbitrary pointers - returns what the list document holds.\<close>

theorem heap_reads_refine:
  assumes "implements d c"
  shows "h_toText d = Some (toText c) \<and> h_serialize d = Some (serialize c)"
proof -
  obtain rs where "represents d rs c"
    using assms by (auto simp: implements_def)
  from h_body_map [OF this] obtain ns where "h_body d = Some ns" "map strip ns = body c"
    by blast
  moreover have "map (\<lambda>n. serialize_node (strip n)) ns = map serialize_node (map strip ns)" for ns
    by simp
  ultimately show ?thesis
    by (simp add: h_toText_def toText_def h_serialize_def serialize_def del: map_map)
qed

theorem heap_reads_refine_witness:
  "h_toText h_new = Some (toText newRGADocument) \<and> h_serialize h_new = Some (serialize newRGADocument)"
  by (rule heap_reads_refine [OF implements_new])

text \<open>C34: The collection loop ends, returns the number of tombstones, and relinks the remaining
  objects into the list document without them: afterwards the pointers in both directions, the map of keys and the
  counters are those of the collected document.\<close>

theorem heap_gc_refines:
  assumes "implements d c"
  shows "\<exists>d'. h_gc d = Some (d', snd (gc c)) \<and> implements d' (fst (gc c))"
  using assms represents_gc by (auto simp: implements_def)

text \<open>Two letters, the first one deleted.\<close>

lemma example_collected:
  "\<exists>d (c :: RGADocument). implements d c \<and> snd (gc c) = 1 \<and> map node_value (toNodes c) = [JStr [98]] \<and>
    map node_uid (doc_chain (fst (gc c))) = [ROOT_UID, UID 2 ''a'']"
proof -
  let ?x = "INSERT (UID 1 ''a'') None (JStr [97])" and ?y = "INSERT (UID 2 ''a'') (Some (UID 1 ''a'')) (JStr [98])" and ?z = "DELETE (UID 1 ''a'')"
  have step: "\<exists>d'. implements d' (applyOp c x)" if H: "implements d c" "x = INSERT u a v \<or> x = DELETE u" for d and c :: RGADocument and x u a v
  proof -
    obtain rs where rs: "represents d rs c" using H(1) unfolding implements_def by (elim exE)
    show ?thesis
      using H h_applyInsert_refines [OF rs, of u a v] h_applyDelete_refines [OF rs, of u]
      by (auto simp: applyOp_def split: sum.splits)
  qed
  obtain d where d: "implements d (applyOp (applyOp (applyOp newRGADocument ?x) ?y) ?z)"
    using step [OF implements_new disjI1 [OF refl], of "UID 1 ''a''" None "JStr [97]"]
      step [OF _ disjI1 [OF refl], of _ _ "UID 2 ''a''" "Some (UID 1 ''a'')" "JStr [98]"] step [OF _ disjI2 [OF refl], of _ _ "UID 1 ''a''"]
    by (elim exE) metis
  have "snd (gc (applyOp (applyOp (applyOp newRGADocument ?x) ?y) ?z)) = 1"
    "map node_value (toNodes (applyOp (applyOp (applyOp newRGADocument ?x) ?y) ?z)) = [JStr [98]]"
    "map node_uid (doc_chain (fst (gc (applyOp (applyOp (applyOp newRGADocument ?x) ?y) ?z)))) = [ROOT_UID, UID 2 ''a'']"
    by code_simp+
  with d show ?thesis by (intro exI conjI)
qed

theorem heap_gc_refines_witness:
  "\<exists>d d' (c :: RGADocument). h_gc d = Some (d', 1) \<and> implements d' c \<and> map node_uid (doc_chain c) = [ROOT_UID, UID 2 ''a'']"
proof -
  obtain d and c :: RGADocument where c: "implements d c" "snd (gc c) = 1" "map node_uid (doc_chain (fst (gc c))) = [ROOT_UID, UID 2 ''a'']"
    using example_collected by (elim exE conjE)
  obtain d' where "h_gc d = Some (d', snd (gc c))" "implements d' (fst (gc c))" using heap_gc_refines [OF c(1)] by (elim exE conjE)
  with c(2,3) show ?thesis by (intro exI [of _ d] exI [of _ d'] exI [of _ "fst (gc c)"]) simp
qed

end
