(* ===== verification/Operation_Log.thy ===== *)
theory Operation_Log
  imports RGA_Convergence
begin

text \<open>
  \<^verbatim>\<open>src/crdt/operation-log.ts\<close>: the in-memory log that discards duplicates, applies operations
  and buffers those that arrive before their causal predecessors. The two sets and the buffer are
  fields; \<open>Date.now()\<close> is an argument, and the optional callback \<open>onCausalGapExceeded\<close> is the
  counter of its calls. The lemmas show that the retry loop ends with nothing applicable left in
  the buffer, and, through the convergence contract, that any order of delivery gives the causal
  order's document.
\<close>

section \<open>The log\<close>

record PendingOp =
  pend_envelope :: OperationEnvelope
  pend_attempts :: int
  pend_firstSeen :: int

record OperationLog =
  log_appliedSeqs :: "int set"
  log_appliedClientKeys :: "string set"
  log_buffer :: "PendingOp list"
  log_maxBufferSize :: nat
  log_maxAppliedSeq :: int
  log_gapExceeded :: nat

definition newOperationLog :: "nat \<Rightarrow> OperationLog" where
  "newOperationLog maxBufferSize = \<lparr>log_appliedSeqs = {}, log_appliedClientKeys = {}, log_buffer = [],
     log_maxBufferSize = maxBufferSize, log_maxAppliedSeq = 0, log_gapExceeded = 0\<rparr>"

definition log_clientKey :: "OperationEnvelope \<Rightarrow> string" where
  "log_clientKey e = env_sessionId e @ CHR '':'' # show_int (env_clientSeq e)"

definition recordApplied :: "OperationLog \<Rightarrow> OperationEnvelope \<Rightarrow> OperationLog" where
  "recordApplied l e =
     (let l1 = (if env_seq e > 0
          then l\<lparr>log_appliedSeqs := insert (env_seq e) (log_appliedSeqs l),
                 log_maxAppliedSeq := (if env_seq e > log_maxAppliedSeq l then env_seq e
                                       else log_maxAppliedSeq l)\<rparr>
          else l)
      in l1\<lparr>log_appliedClientKeys := insert (log_clientKey e) (log_appliedClientKeys l1)\<rparr>)"

text \<open>One pass of the retry loop over the buffer: the new log and document, the operations still
  pending and whether there was progress.\<close>

fun flush_pass :: "OperationLog \<Rightarrow> RGADocument \<Rightarrow> PendingOp list \<Rightarrow>
    OperationLog \<times> RGADocument \<times> PendingOp list \<times> bool" where
  "flush_pass l d [] = (l, d, [], False)"
| "flush_pass l d (p # ps) =
     (case applyOperation d (env_op (pend_envelope p)) of (d1, applied) \<Rightarrow>
        if applied then
          (case flush_pass (recordApplied l (pend_envelope p)) d1 ps of (l2, d2, still, _) \<Rightarrow>
             (l2, d2, still, True))
        else
          (case flush_pass l d1 ps of (l2, d2, still, progress) \<Rightarrow>
             (l2, d2, p\<lparr>pend_attempts := pend_attempts p + 1\<rparr> # still, progress)))"

abbreviation envs :: "PendingOp list \<Rightarrow> OperationEnvelope list" where
  "envs ps \<equiv> map pend_envelope ps"

abbreviation ops_of :: "OperationEnvelope list \<Rightarrow> RGAOperation list" where
  "ops_of es \<equiv> map env_op es"

lemma flush_pass_spec:
  assumes "flush_pass l d ps = (l', d', still, progress)"
  shows "\<exists>A. causal d (ops_of A) \<and> d' = applyAll d (ops_of A) \<and> l' = foldl recordApplied l A \<and>
    mset (envs still) + mset A = mset (envs ps) \<and> (progress \<longleftrightarrow> A \<noteq> []) \<and>
    (A = [] \<longrightarrow> (\<forall>p \<in> set still. \<not> op_ready d (env_op (pend_envelope p))))"
  using assms
proof (induction l d ps arbitrary: l' d' still progress rule: flush_pass.induct)
  case (1 l d)
  then show ?case by (intro exI [of _ "[]"]) simp
next
  case (2 l d p ps)
  let ?e = "pend_envelope p"
  show ?case
  proof (cases "op_ready d (env_op ?e)")
    case True
    obtain l2 d2 st pr where r: "flush_pass (recordApplied l ?e) (applyOp d (env_op ?e)) ps = (l2, d2, st, pr)"
      by (metis prod_cases4)
    then have res: "l' = l2" "d' = d2" "still = st" "progress = True"
      using 2(3) True by (auto simp: applyOperation_eq)
    obtain A where "causal (applyOp d (env_op ?e)) (ops_of A)" "d2 = applyAll (applyOp d (env_op ?e)) (ops_of A)"
      "l2 = foldl recordApplied (recordApplied l ?e) A" "mset (envs st) + mset A = mset (envs ps)"
      using 2(1) [OF applyOperation_eq [symmetric] True r] by blast
    then show ?thesis
      using True unfolding res by (intro exI [of _ "?e # A"]) simp
  next
    case False
    obtain l2 d2 st pr where r: "flush_pass l d ps = (l2, d2, st, pr)"
      by (metis prod_cases4)
    then have res: "l' = l2" "d' = d2" "still = p\<lparr>pend_attempts := pend_attempts p + 1\<rparr> # st" "progress = pr"
      using 2(3) False by (auto simp: applyOperation_eq applyOp_gap)
    obtain A where "causal d (ops_of A)" "d2 = applyAll d (ops_of A)"
      "l2 = foldl recordApplied l A" "mset (envs st) + mset A = mset (envs ps)" "pr \<longleftrightarrow> A \<noteq> []"
      "A = [] \<longrightarrow> (\<forall>p \<in> set st. \<not> op_ready d (env_op (pend_envelope p)))"
      using 2(2) [OF applyOperation_eq [symmetric] False] r False by (auto simp: applyOp_gap)
    then show ?thesis
      using False unfolding res by (intro exI [of _ A]) simp
  qed
qed

lemma flush_pass_shrinks:
  assumes "flush_pass l d ps = (l', d', still, True)"
  shows "length still < length ps"
proof -
  obtain A where "mset (envs still) + mset A = mset (envs ps)" "A \<noteq> []"
    using flush_pass_spec [OF assms] by blast
  then have "length still + length A = length ps"
    by (metis length_map size_mset size_union)
  with \<open>A \<noteq> []\<close> show ?thesis by (cases A) auto
qed

function flushBuffer :: "OperationLog \<Rightarrow> RGADocument \<Rightarrow> OperationLog \<times> RGADocument" where
  "flushBuffer l d =
     (if log_buffer l = [] then (l, d)
      else case flush_pass l d (log_buffer l) of (l1, d1, still, progress) \<Rightarrow>
        if progress then flushBuffer (l1\<lparr>log_buffer := still\<rparr>) d1
        else (l1\<lparr>log_buffer := still\<rparr>, d1))"
  by pat_completeness auto

termination
proof (relation "measure (\<lambda>(l, d). length (log_buffer l))")
  fix l d l1 y d1 z still progress
  assume "(l1, y) = flush_pass l d (log_buffer l)" "(d1, z) = y" "(still, progress) = z" "progress"
  then have "flush_pass l d (log_buffer l) = (l1, d1, still, True)"
    by (metis (full_types))
  then show "((l1\<lparr>log_buffer := still\<rparr>, d1), l, d) \<in> measure (\<lambda>(l, d). length (log_buffer l))"
    by (auto dest: flush_pass_shrinks)
qed simp

declare flushBuffer.simps [simp del]

definition forceApplyBuffer :: "OperationLog \<Rightarrow> OperationLog" where
  "forceApplyBuffer l = l\<lparr>log_buffer := [], log_gapExceeded := log_gapExceeded l + 1\<rparr>"

definition hasApplied :: "OperationLog \<Rightarrow> OperationEnvelope \<Rightarrow> bool" where
  "hasApplied l e =
     (if env_seq e > 0 \<and> env_seq e \<in> log_appliedSeqs l then True
      else log_clientKey e \<in> log_appliedClientKeys l)"

definition applyOrBuffer ::
  "OperationLog \<Rightarrow> RGADocument \<Rightarrow> OperationEnvelope \<Rightarrow> int \<Rightarrow> OperationLog \<times> RGADocument \<times> bool" where
  "applyOrBuffer l d e now =
     (if env_seq e > 0 \<and> env_seq e \<in> log_appliedSeqs l then (l, d, True)
      else if log_clientKey e \<in> log_appliedClientKeys l then (l, d, True)
      else case applyOperation d (env_op e) of (d1, applied) \<Rightarrow>
        if applied then (case flushBuffer (recordApplied l e) d1 of (l2, d2) \<Rightarrow> (l2, d2, True))
        else
          let l1 = (if length (log_buffer l) < log_maxBufferSize l
                then l\<lparr>log_buffer := log_buffer l @
                  [\<lparr>pend_envelope = e, pend_attempts = 1, pend_firstSeen = now\<rparr>]\<rparr>
                else l);
              l2 = (if length (log_buffer l1) \<ge> log_maxBufferSize l1 then forceApplyBuffer l1 else l1)
          in (l2, d1, False))"

definition getPendingOps :: "OperationLog \<Rightarrow> PendingOp list" where
  "getPendingOps l = log_buffer l"

definition getMaxAppliedSeq :: "OperationLog \<Rightarrow> int" where
  "getMaxAppliedSeq l = log_maxAppliedSeq l"

text \<open>A client that feeds every incoming envelope to the log.\<close>

definition deliver :: "OperationLog \<times> RGADocument \<Rightarrow> OperationEnvelope \<times> int \<Rightarrow> OperationLog \<times> RGADocument" where
  "deliver s x = (case applyOrBuffer (fst s) (snd s) (fst x) (snd x) of (l, d, _) \<Rightarrow> (l, d))"

section \<open>Recording\<close>

definition same_delivery :: "OperationEnvelope \<Rightarrow> OperationEnvelope \<Rightarrow> bool" where
  "same_delivery a e \<longleftrightarrow> (env_seq e > 0 \<and> env_seq e = env_seq a) \<or> log_clientKey e = log_clientKey a"

lemma log_clientKey_eq [simp]:
  "log_clientKey a = log_clientKey e \<longleftrightarrow> env_sessionId a = env_sessionId e \<and> env_clientSeq a = env_clientSeq e"
  by (simp add: log_clientKey_def split_at_last)

lemma recordApplied_simps [simp, log_simps]:
  "log_buffer (recordApplied l e) = log_buffer l"
  "log_maxBufferSize (recordApplied l e) = log_maxBufferSize l"
  "log_gapExceeded (recordApplied l e) = log_gapExceeded l"
  "recordApplied (l\<lparr>log_buffer := b\<rparr>) e = (recordApplied l e)\<lparr>log_buffer := b\<rparr>"
  by (simp_all add: recordApplied_def Let_def)

lemma recordAll_simps [simp, log_simps]:
  "log_buffer (foldl recordApplied l A) = log_buffer l"
  "log_maxBufferSize (foldl recordApplied l A) = log_maxBufferSize l"
  "log_gapExceeded (foldl recordApplied l A) = log_gapExceeded l"
  "foldl recordApplied (l\<lparr>log_buffer := b\<rparr>) A = (foldl recordApplied l A)\<lparr>log_buffer := b\<rparr>"
  by (induction A arbitrary: l) auto

lemma hasApplied_buffer [simp]: "hasApplied (l\<lparr>log_buffer := b\<rparr>) e = hasApplied l e"
  by (simp add: hasApplied_def)

lemma hasApplied_record [simp]: "hasApplied (recordApplied l a) e \<longleftrightarrow> same_delivery a e \<or> hasApplied l e"
  by (auto simp: hasApplied_def recordApplied_def same_delivery_def Let_def)

lemma hasApplied_records: "hasApplied (foldl recordApplied l A) e \<longleftrightarrow> (\<exists>a \<in> set A. same_delivery a e) \<or> hasApplied l e"
  by (induction A arbitrary: l) auto

section \<open>The retry loop\<close>

text \<open>\<open>flushBuffer\<close> returns with nothing applicable left; what left the buffer was applied, in a
  causal order, and recorded.\<close>

lemma flushBuffer_spec:
  assumes "flushBuffer l d = (l', d')"
  shows "\<exists>A. causal d (ops_of A) \<and> d' = applyAll d (ops_of A) \<and>
    l' = (foldl recordApplied l A)\<lparr>log_buffer := log_buffer l'\<rparr> \<and>
    mset (envs (log_buffer l')) + mset A = mset (envs (log_buffer l)) \<and>
    (\<forall>e \<in> set (envs (log_buffer l')). \<not> op_ready d' (env_op e))"
  using assms
proof (induction l d arbitrary: l' d' rule: flushBuffer.induct)
  case (1 l d)
  show ?case
  proof (cases "log_buffer l = []")
    case True
    with 1(2) show ?thesis by (intro exI [of _ "[]"]) (simp add: flushBuffer.simps [of l d])
  next
    case False
    obtain l1 d1 st pr where r: "flush_pass l d (log_buffer l) = (l1, d1, st, pr)"
      by (metis prod_cases4)
    obtain A where A: "causal d (ops_of A)" "d1 = applyAll d (ops_of A)" "l1 = foldl recordApplied l A"
      "mset (envs st) + mset A = mset (envs (log_buffer l))" "pr \<longleftrightarrow> A \<noteq> []"
      "A = [] \<longrightarrow> (\<forall>p \<in> set st. \<not> op_ready d (env_op (pend_envelope p)))"
      using flush_pass_spec [OF r] by blast
    show ?thesis
    proof (cases pr)
      case True
      then have "flushBuffer (l1\<lparr>log_buffer := st\<rparr>) d1 = (l', d')"
        using 1(2) False r by (simp add: flushBuffer.simps [of l d])
      from 1(1) [OF False r [symmetric] refl refl True this] obtain B where
        "causal d1 (ops_of B)" "d' = applyAll d1 (ops_of B)"
        "l' = (foldl recordApplied (l1\<lparr>log_buffer := st\<rparr>) B)\<lparr>log_buffer := log_buffer l'\<rparr>"
        "mset (envs (log_buffer l')) + mset B = mset (envs st)"
        "\<forall>e \<in> set (envs (log_buffer l')). \<not> op_ready d' (env_op e)"
        by auto
      with A show ?thesis
        by (intro exI [of _ "A @ B"]) (simp add: ac_simps flip: A(4))
    next
      case False2: False
      then have "l' = l1\<lparr>log_buffer := st\<rparr>" "d' = d1"
        using 1(2) False r by (simp_all add: flushBuffer.simps [of l d])
      with A False2 show ?thesis by (intro exI [of _ "[]"]) simp
    qed
  qed
qed

section \<open>Deliveries\<close>

lemma force_cases:
  assumes "length (log_buffer l) < log_maxBufferSize l"
  shows "length (log_buffer (fst (applyOrBuffer l d e now))) < log_maxBufferSize l \<and>
    log_maxBufferSize (fst (applyOrBuffer l d e now)) = log_maxBufferSize l"
proof (cases "hasApplied l e \<or> \<not> op_ready d (env_op e)")
  case True
  with assms show ?thesis
    by (auto simp: applyOrBuffer_def hasApplied_def applyOperation_eq forceApplyBuffer_def Let_def split: if_splits)
next
  case False
  obtain l2 d2 where f: "flushBuffer (recordApplied l e) (applyOp d (env_op e)) = (l2, d2)"
    by (metis surj_pair)
  from flushBuffer_spec [OF f] obtain A where
    A: "l2 = (foldl recordApplied (recordApplied l e) A)\<lparr>log_buffer := log_buffer l2\<rparr>"
    "mset (envs (log_buffer l2)) + mset A = mset (envs (log_buffer l))" by auto
  from A(1) have "log_maxBufferSize l2 = log_maxBufferSize l"
    by (metis OperationLog.select_convs(4) OperationLog.surjective OperationLog.update_convs(3) recordAll_simps(2) recordApplied_simps(2))
  moreover have "length (log_buffer l2) + length A = length (log_buffer l)"
    using A(2) by (metis length_map size_mset size_union)
  ultimately show ?thesis
    using assms False f by (auto simp: applyOrBuffer_def hasApplied_def applyOperation_eq split: if_splits)
qed

text \<open>What holds after delivering the envelopes \<open>zs\<close> to a new log beside the document \<open>d0\<close>, as
  long as the buffer did not overflow.\<close>

definition log_inv :: "RGADocument \<Rightarrow> OperationEnvelope list \<Rightarrow> OperationLog \<times> RGADocument \<Rightarrow> bool" where
  "log_inv d0 zs s \<longleftrightarrow> (\<exists>A. causal d0 (ops_of A) \<and> snd s = applyAll d0 (ops_of A) \<and>
     (\<forall>e. hasApplied (fst s) e \<longleftrightarrow> (\<exists>a \<in> set A. same_delivery a e)) \<and>
     set A \<union> set (envs (log_buffer (fst s))) \<subseteq> set zs \<and>
     env_op ` set zs = env_op ` (set A \<union> set (envs (log_buffer (fst s)))) \<and>
     length (log_buffer (fst s)) \<le> length zs \<and> log_gapExceeded (fst s) = 0 \<and>
     (\<forall>e \<in> set (envs (log_buffer (fst s))). \<not> op_ready (snd s) (env_op e)))"

lemma log_inv_new: "log_inv d0 [] (newOperationLog n, d0)"
  unfolding log_inv_def by (rule exI [of _ "[]"]) (simp add: newOperationLog_def hasApplied_def)

lemma deliver_cases:
  "deliver (l, d) (e, now) =
    (if hasApplied l e then (l, d)
     else if op_ready d (env_op e) then flushBuffer (recordApplied l e) (applyOp d (env_op e))
     else let l1 = (if length (log_buffer l) < log_maxBufferSize l
                then l\<lparr>log_buffer := log_buffer l @
                  [\<lparr>pend_envelope = e, pend_attempts = 1, pend_firstSeen = now\<rparr>]\<rparr>
                else l)
          in (if length (log_buffer l1) \<ge> log_maxBufferSize l1 then forceApplyBuffer l1 else l1, d))"
  by (auto simp: deliver_def applyOrBuffer_def hasApplied_def applyOperation_eq applyOp_gap Let_def
      split: prod.split)

lemma log_inv_deliver:
  assumes "log_inv d0 zs (l, d)" "length zs + 1 < log_maxBufferSize l"
    and "\<forall>a \<in> set (e # zs). \<forall>b \<in> set (e # zs). same_delivery a b \<longrightarrow> env_op a = env_op b"
  shows "log_inv d0 (zs @ [e]) (deliver (l, d) (e, now)) \<and>
    log_maxBufferSize (fst (deliver (l, d) (e, now))) = log_maxBufferSize l"
proof -
  obtain A where A: "causal d0 (ops_of A)" "d = applyAll d0 (ops_of A)"
    "\<forall>e. hasApplied l e \<longleftrightarrow> (\<exists>a \<in> set A. same_delivery a e)"
    "set A \<union> set (envs (log_buffer l)) \<subseteq> set zs"
    "env_op ` set zs = env_op ` (set A \<union> set (envs (log_buffer l)))"
    "length (log_buffer l) \<le> length zs" "log_gapExceeded l = 0"
    "\<forall>e \<in> set (envs (log_buffer l)). \<not> op_ready d (env_op e)"
    using assms(1) by (auto simp: log_inv_def)
  consider (dup) "hasApplied l e" | (applied) "\<not> hasApplied l e" "op_ready d (env_op e)"
    | (buffer) "\<not> hasApplied l e" "\<not> op_ready d (env_op e)" by blast
  then show ?thesis
  proof cases
    case dup
    then obtain a where "a \<in> set A" "same_delivery a e" using A(3) by blast
    then have "env_op e \<in> env_op ` set A" using A(4) assms(3) by (metis Un_subset_iff image_eqI insert_iff list.simps(15) subsetD)
    then have "env_op ` set (zs @ [e]) = env_op ` (set A \<union> set (envs (log_buffer l)))" using A(5) by auto
    then show ?thesis
      using A dup unfolding log_inv_def deliver_cases by (auto intro!: exI [of _ A])
  next
    case applied
    obtain l2 d2 where f: "flushBuffer (recordApplied l e) (applyOp d (env_op e)) = (l2, d2)"
      by (metis surj_pair)
    from flushBuffer_spec [OF f] obtain B where
      B: "causal (applyOp d (env_op e)) (ops_of B)" "d2 = applyAll (applyOp d (env_op e)) (ops_of B)"
      "l2 = (foldl recordApplied (recordApplied l e) B)\<lparr>log_buffer := log_buffer l2\<rparr>"
      "mset (envs (log_buffer l2)) + mset B = mset (envs (log_buffer l))"
      "\<forall>e \<in> set (envs (log_buffer l2)). \<not> op_ready d2 (env_op e)" by auto
    have set: "set (envs (log_buffer l)) = set (envs (log_buffer l2)) \<union> set B"
      using B(4) by (metis set_mset_mset set_mset_union)
    have len: "length (log_buffer l2) + length B = length (log_buffer l)"
      using B(4) by (metis length_map size_mset size_union)
    have rest: "hasApplied l2 x \<longleftrightarrow> (\<exists>a \<in> set (A @ e # B). same_delivery a x)"
      "log_gapExceeded l2 = 0" "log_maxBufferSize l2 = log_maxBufferSize l" for x
      using A(3,7) by (subst B(3), auto simp: hasApplied_records)+
    have "log_inv d0 (zs @ [e]) (l2, d2)"
      unfolding log_inv_def
      using A applied B(1,2,5) set len rest(1,2) by (intro exI [of _ "A @ e # B"]) auto
    with applied f rest(3) show ?thesis
      by (simp add: deliver_cases)
  next
    case buffer
    let ?l = "l\<lparr>log_buffer := log_buffer l @ [\<lparr>pend_envelope = e, pend_attempts = 1, pend_firstSeen = now\<rparr>]\<rparr>"
    have "deliver (l, d) (e, now) = (?l, d)"
      using buffer assms(2) A(6) by (simp add: deliver_cases)
    moreover have "log_inv d0 (zs @ [e]) (?l, d)"
      unfolding log_inv_def using A buffer by (intro exI [of _ A]) auto
    ultimately show ?thesis by simp
  qed
qed

definition deliverAll :: "OperationLog \<Rightarrow> RGADocument \<Rightarrow> (OperationEnvelope \<times> int) list \<Rightarrow>
    OperationLog \<times> RGADocument" where
  "deliverAll l d ys = foldl deliver (l, d) ys"

lemma log_inv_deliverAll:
  assumes "length ys < n" "\<forall>a \<in> set (map fst ys). \<forall>b \<in> set (map fst ys). same_delivery a b \<longrightarrow> env_op a = env_op b"
  shows "log_inv d (map fst ys) (deliverAll (newOperationLog n) d ys) \<and>
    log_maxBufferSize (fst (deliverAll (newOperationLog n) d ys)) = n"
  using assms
proof (induction ys rule: rev_induct)
  case Nil
  show ?case
    using log_inv_new [of d n] by (simp add: deliverAll_def del: One_nat_def) (simp add: newOperationLog_def)
next
  case (snoc y ys)
  obtain l d' where s: "deliverAll (newOperationLog n) d ys = (l, d')" by (metis surj_pair)
  obtain e now where y: "y = (e, now)" by (metis surj_pair)
  have len: "length ys < n"
    using snoc.prems(1) by simp
  have sub: "set (map fst ys) \<subseteq> set (map fst (ys @ [y]))" "set (e # map fst ys) = set (map fst (ys @ [y]))"
    by (auto simp: y)
  have det: "\<forall>a \<in> set (map fst ys). \<forall>b \<in> set (map fst ys). same_delivery a b \<longrightarrow> env_op a = env_op b"
    using snoc.prems(2) sub(1) by blast
  have inv: "log_inv d (map fst ys) (l, d')" "log_maxBufferSize l = n"
    using snoc.IH [OF len det] by (simp_all add: s)
  have "deliverAll (newOperationLog n) d (ys @ [y]) = deliver (l, d') (e, now)"
    using s y by (simp add: deliverAll_def)
  moreover have "log_inv d (map fst ys @ [e]) (deliver (l, d') (e, now)) \<and>
      log_maxBufferSize (fst (deliver (l, d') (e, now))) = log_maxBufferSize l"
  proof (rule log_inv_deliver [OF inv(1)])
    show "length (map fst ys) + 1 < log_maxBufferSize l"
      using snoc.prems(1) inv(2) by simp
  qed (use snoc.prems(2) sub(2) in metis)
  ultimately show ?case using inv(2) y by simp
qed

text \<open>C8: Out-of-order and duplicate delivery are harmless while they stay below the buffer's size. The envelopes of a
  causal sequence arrive in any order, any of them several times, but in all, duplicates included, fewer than the \<open>n\<close>
  places of the buffer (100 in the program); then the log ends with an empty buffer and the document of the causal order, if
  server seqs and client keys identify operations. (With more deliveries the buffer may be dropped, see
  its bound below.)\<close>

theorem any_delivery_order_converges:
  assumes "causal d (ops_of xs)" "set (map fst ys) = set xs" "length ys < n"
    and "consistent_ops (env_op ` set xs)"
    and "\<forall>a \<in> set xs. \<forall>b \<in> set xs. same_delivery a b \<longrightarrow> env_op a = env_op b"
  shows "\<exists>l. deliverAll (newOperationLog n) d ys = (l, applyAll d (ops_of xs)) \<and>
    getPendingOps l = [] \<and> log_gapExceeded l = 0"
proof -
  obtain l d' where s: "deliverAll (newOperationLog n) d ys = (l, d')" by (metis surj_pair)
  have "log_inv d (map fst ys) (l, d')"
    using log_inv_deliverAll [of ys n d] assms(3,5) s unfolding assms(2) by simp
  then obtain A where A: "causal d (ops_of A)" "d' = applyAll d (ops_of A)"
    "env_op ` set xs = env_op ` (set A \<union> set (envs (log_buffer l)))" "log_gapExceeded l = 0"
    "\<forall>e \<in> set (envs (log_buffer l)). \<not> op_ready d' (env_op e)" "set A \<subseteq> set xs"
    using assms(2) by (auto simp: log_inv_def)
  have agree: "\<forall>a \<in> set (ops_of xs) \<union> set (ops_of A). \<forall>b \<in> set (ops_of xs) \<union> set (ops_of A). op_agree a b"
    using assms(4) A(6) by (auto simp: consistent_ops_def)
  have sub: "set (ops_of xs) \<subseteq> set (ops_of A)"
  proof (rule ccontr)
    assume "\<not> ?thesis"
    from rga.missing_ready [OF _ _ agree this, of d] obtain x where
      x: "x \<in> set (ops_of xs) - set (ops_of A)" "op_ready d' x"
      using assms(1) A(1,2) by (auto simp: causal_def applyAll_def)
    then have "x \<in> env_op ` set (envs (log_buffer l))"
      using A(3) by (auto simp: image_Un)
    with x(2) A(5) show False by auto
  qed
  have "log_buffer l = []"
  proof (rule ccontr)
    assume "log_buffer l \<noteq> []"
    then obtain e where e: "e \<in> set (envs (log_buffer l))" by (cases "log_buffer l") auto
    then have "env_op e \<in> env_op ` set xs" using A(3) by blast
    then have "env_op e \<in> set (ops_of A)" using sub by auto
    then have "op_ready d' (env_op e)" using A(1,2) causal_ready_later by blast
    with e A(5) show False by auto
  qed
  moreover have "applyAll d (ops_of xs) = d'"
    unfolding A(2) using assms A(1,6) sub by (intro rga_same_set) auto
  ultimately show ?thesis
    using s A(4) by (simp add: getPendingOps_def)
qed

text \<open>Three envelopes of one session in reverse order, one of them twice.\<close>

definition env_example :: "int \<Rightarrow> RGAOperation \<Rightarrow> OperationEnvelope" where
  "env_example n x = \<lparr>env_id = ''e'' @ show_int n, env_docId = ''d'', env_sessionId = ''s'', env_userId = ''u'',
     env_op = x, env_seq = n, env_clientSeq = n, env_timestamp = ''t'', env_vectorClock = [], env_nonce = ''n''\<rparr>"

theorem any_delivery_order_converges_witness:
  "\<exists>l. deliverAll (newOperationLog 100) newRGADocument
      [(env_example 3 (DELETE uC), 0), (env_example 2 (INSERT uC (Some uA) (JStr [98])), 1),
       (env_example 3 (DELETE uC), 2), (env_example 1 (INSERT uA None (JStr [97])), 3)] =
    (l, applyAll newRGADocument (ops_of [env_example 1 (INSERT uA None (JStr [97])),
       env_example 2 (INSERT uC (Some uA) (JStr [98])), env_example 3 (DELETE uC)])) \<and>
    getPendingOps l = [] \<and> log_gapExceeded l = 0"
  by (rule any_delivery_order_converges)
     (auto simp: env_example_def uids_applyOp consistent_ops_def same_delivery_def uid_examples)

text \<open>The buffer never reaches its limit: with room for at least one operation, every sequence of
  deliveries leaves fewer operations pending than \<open>maxBufferSize\<close>; a causal gap that would fill
  the last place empties the buffer and calls \<open>onCausalGapExceeded\<close> once, without touching the
  document.\<close>

theorem log_buffer_bounded:
  assumes "0 < n"
  shows "length (getPendingOps (fst (deliverAll (newOperationLog n) d ys))) < n \<and>
    (\<forall>l e now. log_maxBufferSize l = n \<and> length (log_buffer l) + 1 = n \<and> \<not> hasApplied l e \<and> \<not> op_ready d (env_op e) \<longrightarrow>
      (\<exists>l'. deliver (l, d) (e, now) = (l', d) \<and> getPendingOps l' = [] \<and>
        log_gapExceeded l' = log_gapExceeded l + 1))"
proof
  have "length (log_buffer (fst (deliverAll (newOperationLog n) d ys))) < n \<and>
    log_maxBufferSize (fst (deliverAll (newOperationLog n) d ys)) = n"
  proof (induction ys rule: rev_induct)
    case Nil
    with assms show ?case by (simp add: deliverAll_def newOperationLog_def)
  next
    case (snoc y ys)
    then show ?case
      using force_cases [of "fst (deliverAll (newOperationLog n) d ys)"]
      by (auto simp: deliverAll_def deliver_def split: prod.split) (metis fst_conv)+
  qed
  then show "length (getPendingOps (fst (deliverAll (newOperationLog n) d ys))) < n"
    by (simp add: getPendingOps_def)
  show "\<forall>l e now. log_maxBufferSize l = n \<and> length (log_buffer l) + 1 = n \<and> \<not> hasApplied l e \<and> \<not> op_ready d (env_op e) \<longrightarrow>
      (\<exists>l'. deliver (l, d) (e, now) = (l', d) \<and> getPendingOps l' = [] \<and>
        log_gapExceeded l' = log_gapExceeded l + 1)"
    by (auto simp: deliver_cases forceApplyBuffer_def getPendingOps_def)
qed

theorem log_buffer_bounded_witness:
  "length (getPendingOps (fst (deliverAll (newOperationLog 1) newRGADocument [(env_example 1 (DELETE uA), 0)]))) < 1"
  using log_buffer_bounded [of 1 newRGADocument "[(env_example 1 (DELETE uA), 0)]"] by simp

end
