(* ===== verification/History_Manager.thy ===== *)
theory History_Manager
  imports RGA_Queries
begin

text \<open>
  \<^verbatim>\<open>src/crdt/history-manager.ts\<close>: the local undo and redo stacks of one user. The stacks are
  lists with the top at the end, as \<open>push\<close> and \<open>pop\<close> have them; the pending timer is the time at
  which it fires, and the document the manager shares with the editor is an argument. The caller,
  which the code leaves to the sync engine, gives the inverse operations fresh UIDs; \<open>restamp\<close>
  says what it has to do. The lemmas show what undoing a batch does to the visible text.
\<close>

section \<open>The manager\<close>

record HistoryManager =
  hm_undoStack :: "RGAOperation list list"
  hm_redoStack :: "RGAOperation list list"
  hm_currentBatch :: "RGAOperation list"
  hm_batchTimeout :: "int option"
  hm_localUserId :: string

definition newHistoryManager :: "string \<Rightarrow> HistoryManager" where
  "newHistoryManager localUserId = \<lparr>hm_undoStack = [], hm_redoStack = [], hm_currentBatch = [],
     hm_batchTimeout = None, hm_localUserId = localUserId\<rparr>"

definition recordLocalOperation :: "HistoryManager \<Rightarrow> RGAOperation \<Rightarrow> int \<Rightarrow> HistoryManager" where
  "recordLocalOperation m x now =
     (let m1 = m\<lparr>hm_currentBatch := hm_currentBatch m @ [x]\<rparr>;
          m2 = (if length (hm_redoStack m1) > 0 then m1\<lparr>hm_redoStack := []\<rparr> else m1)
      in m2\<lparr>hm_batchTimeout := Some (now + 500)\<rparr>)"

definition commitBatch :: "HistoryManager \<Rightarrow> HistoryManager" where
  "commitBatch m =
     (if length (hm_currentBatch m) > 0
      then m\<lparr>hm_undoStack := hm_undoStack m @ [hm_currentBatch m], hm_currentBatch := []\<rparr>
      else m)"

text \<open>The timer's callback, at time \<open>now\<close>.\<close>

definition batchTimer :: "HistoryManager \<Rightarrow> int \<Rightarrow> HistoryManager" where
  "batchTimer m now = (case hm_batchTimeout m of
      Some t \<Rightarrow> if t \<le> now then commitBatch m else m | None \<Rightarrow> m)"

text \<open>\<open>node.prev\<close> of the node with a key.\<close>

fun prev_of :: "string \<Rightarrow> RGANode list \<Rightarrow> RGANode option" where
  "prev_of k (x # y # ns) = (if node_key y = k then Some x else prev_of k (y # ns))"
| "prev_of k _ = None"

definition node_prev :: "RGADocument \<Rightarrow> RGANode \<Rightarrow> RGANode option" where
  "node_prev d n = prev_of (node_key n) (doc_chain d)"

fun inverse_op :: "RGADocument \<Rightarrow> RGAOperation \<Rightarrow> RGAOperation list" where
  "inverse_op d (INSERT u a v) = [DELETE u]"
| "inverse_op d (DELETE u) =
     (case getNode d u of None \<Rightarrow> []
      | Some n \<Rightarrow> [INSERT u (map_option node_uid (node_prev d n)) (node_value n)])"
| "inverse_op d (FORMAT u attrs) = []"
| "inverse_op d (ROLLBACK u a v) = []"

definition createInverseOps :: "RGADocument \<Rightarrow> RGAOperation list \<Rightarrow> RGAOperation list" where
  "createInverseOps d ops = concat (map (inverse_op d) (rev ops))"

definition undo :: "RGADocument \<Rightarrow> HistoryManager \<Rightarrow> HistoryManager \<times> RGAOperation list option" where
  "undo d m =
     (let m1 = commitBatch m
      in if hm_undoStack m1 = [] then (m1, None)
         else let batch = last (hm_undoStack m1);
                  m2 = m1\<lparr>hm_undoStack := butlast (hm_undoStack m1)\<rparr>;
                  inverseOps = createInverseOps d batch
              in (m2\<lparr>hm_redoStack := hm_redoStack m2 @ [batch]\<rparr>, Some inverseOps))"

definition redo :: "HistoryManager \<Rightarrow> HistoryManager \<times> RGAOperation list option" where
  "redo m =
     (let m1 = commitBatch m
      in if hm_redoStack m1 = [] then (m1, None)
         else let batch = last (hm_redoStack m1);
                  m2 = m1\<lparr>hm_redoStack := butlast (hm_redoStack m1)\<rparr>
              in (m2\<lparr>hm_undoStack := hm_undoStack m2 @ [batch]\<rparr>, Some batch))"

section \<open>The stacks\<close>

text \<open>Undo takes the newest batch - the one still open, if there is one - and redo hands exactly
  that batch back and restores the stacks; a second undo then returns the inverse of the same
  batch again. A new local operation forgets everything that could be redone.\<close>

theorem undo_redo_stacks:
  assumes "hm_undoStack (commitBatch m) = bs @ [b]"
  shows "undo d m = ((commitBatch m)\<lparr>hm_undoStack := bs, hm_redoStack := hm_redoStack m @ [b]\<rparr>,
      Some (createInverseOps d b)) \<and>
    redo (fst (undo d m)) = (commitBatch m, Some b) \<and>
    snd (undo d (fst (redo (fst (undo d m))))) = snd (undo d m) \<and>
    snd (redo (recordLocalOperation (fst (undo d m)) x now)) = None"
proof -
  have c: "hm_redoStack (commitBatch m) = hm_redoStack m" "commitBatch (commitBatch m) = commitBatch m"
    "hm_currentBatch (commitBatch m) = []"
    by (simp_all add: commitBatch_def)
  have idle: "commitBatch n = n" if "hm_currentBatch n = []" for n
    using that by (simp add: commitBatch_def)
  have u: "undo d m = ((commitBatch m)\<lparr>hm_undoStack := bs, hm_redoStack := hm_redoStack m @ [b]\<rparr>,
      Some (createInverseOps d b))"
    using assms c by (simp add: undo_def Let_def)
  have r: "redo (fst (undo d m)) = (commitBatch m, Some b)"
    using assms c unfolding u redo_def by (simp add: idle Let_def)
  have "snd (undo d (commitBatch m)) = Some (createInverseOps d b)"
    using assms c by (simp add: undo_def Let_def)
  moreover have "snd (redo (recordLocalOperation n x now)) = None" for n
    by (simp add: redo_def recordLocalOperation_def commitBatch_def Let_def)
  ultimately show ?thesis using u r by simp
qed

theorem undo_redo_stacks_witness:
  "redo (fst (undo newRGADocument (recordLocalOperation (newHistoryManager ''u'') (DELETE uA) 0))) =
     (commitBatch (recordLocalOperation (newHistoryManager ''u'') (DELETE uA) 0), Some [DELETE uA])"
proof -
  have "hm_undoStack (commitBatch (recordLocalOperation (newHistoryManager ''u'') (DELETE uA) 0)) = [] @ [[DELETE uA]]"
    by (simp add: recordLocalOperation_def newHistoryManager_def commitBatch_def)
  from undo_redo_stacks [OF this] show ?thesis by blast
qed

section \<open>Undoing what was typed\<close>

lemma inverse_inserts:
  assumes "\<forall>x \<in> set ops. \<exists>u a v. x = INSERT u a v"
  shows "createInverseOps d ops = map DELETE (rev (map op_uid ops))"
  using assms by (induction ops) (auto simp: createInverseOps_def)

text \<open>Undoing a batch of typed characters removes exactly those characters from the visible
  document, wherever the other users' edits have moved them since, and leaves every other visible
  node, in its order and with its attributes.\<close>

theorem undo_typing:
  assumes "wf_doc d" "\<forall>x \<in> set batch. (\<exists>u a v. x = INSERT u a v) \<and> not_on_root x"
  shows "toNodes (applyAll d (createInverseOps d batch)) =
    filter (\<lambda>n. node_uid n \<notin> op_uid ` set batch) (toNodes d)"
proof -
  have "createInverseOps d batch = map DELETE (rev (map op_uid batch))"
    using assms(2) by (intro inverse_inserts) auto
  moreover have "ROOT_UID \<notin> op_uid ` set batch"
    using assms(2) by (metis imageE not_on_root_def)
  ultimately show ?thesis
    using toNodes_DELETEs [OF assms(1), of "rev (map op_uid batch)"] by simp
qed

theorem undo_typing_witness:
  "toNodes (applyAll (applyAll newRGADocument [INSERT uA None (JStr [97]), INSERT uB (Some uA) (JStr [98])])
      (createInverseOps (applyAll newRGADocument [INSERT uA None (JStr [97]), INSERT uB (Some uA) (JStr [98])])
        [INSERT uA None (JStr [97])])) =
   filter (\<lambda>n. node_uid n \<notin> op_uid ` set [INSERT uA None (JStr [97])])
     (toNodes (applyAll newRGADocument [INSERT uA None (JStr [97]), INSERT uB (Some uA) (JStr [98])]))"
  by (rule undo_typing) (auto simp: not_on_root_def uid_examples intro!: wf_intros)

section \<open>Undoing a deletion\<close>

text \<open>The caller's part: a fresh UID for each restored node.\<close>

fun restamp :: "UID \<Rightarrow> RGAOperation \<Rightarrow> RGAOperation" where
  "restamp w (INSERT u a v) = INSERT w a v"
| "restamp w x = x"

text \<open>A chain with restored copies in front of tombstones: \<open>g\<close> maps the UID of a tombstone to that
  of its copy.\<close>

definition cell :: "(UID \<rightharpoonup> UID) \<Rightarrow> RGANode \<Rightarrow> RGANode list" where
  "cell g n = (case g (node_uid n) of None \<Rightarrow> [n] | Some w \<Rightarrow> [new_node w (node_value n), n])"

definition restored :: "(UID \<rightharpoonup> UID) \<Rightarrow> RGANode list \<Rightarrow> RGANode list" where
  "restored g ns = concat (map (cell g) ns)"

lemma restored_simps [simp]:
  "restored g [] = []" "restored g (n # ns) = cell g n @ restored g ns"
  "restored g (xs @ ys) = restored g xs @ restored g ys"
  by (simp_all add: restored_def)

lemma restored_empty: "restored Map.empty ns = ns"
  by (induction ns) (auto simp: cell_def)

lemma restored_root: "g ROOT_UID = None \<Longrightarrow> restored g (root_node # ns) = root_node # restored g ns"
  by (simp add: cell_def)

lemma restored_uids: "node_uid ` set (restored g ns) \<subseteq> node_uid ` set ns \<union> ran g"
  by (induction ns) (auto simp: cell_def ranI split: option.splits)

lemma restored_upd: "u \<notin> node_uid ` set ns \<Longrightarrow> restored (g(u \<mapsto> w)) ns = restored g ns"
  by (induction ns) (auto simp: cell_def)

lemma insert_after_unique:
  "k \<notin> node_key ` set xs \<Longrightarrow> node_key x = k \<Longrightarrow> node_uid y < node_uid n \<Longrightarrow>
     insert_after k n (xs @ x # y # ys) = xs @ x # n # y # ys"
  by (induction xs) auto

lemma restore_one:
  assumes "doc_chain e = restored g (p @ x # y # r)" "distinct (map node_uid (p @ x # y # r))"
    and "g (node_uid y) = None" "ran g \<inter> node_uid ` set (p @ x # y # r) = {}"
    and "\<forall>v \<in> uids e. v < w"
  shows "doc_chain (applyOp e (INSERT w (Some (node_uid x)) (node_value y))) =
    restored (g(node_uid y \<mapsto> w)) (p @ x # y # r)"
proof -
  let ?pre = "restored g p @ butlast (cell g x)"
  have cx: "cell g x = butlast (cell g x) @ [x]"
    by (simp add: cell_def split: option.split)
  have chain: "doc_chain e = ?pre @ x # y # restored g r"
    using assms(1,3) cx by (simp add: cell_def [of g y])
  have "node_uid x \<notin> node_uid ` set (restored g p)"
    using restored_uids [of g p] assms(2,4) by auto
  moreover have "node_uid x \<notin> node_uid ` set (butlast (cell g x))"
    using assms(4) by (auto simp: cell_def ranI split: option.split)
  ultimately have "uidKey (node_uid x) \<notin> node_key ` set ?pre"
    by (simp add: node_keys_image image_Un)
  moreover have "node_uid y < w" "w \<notin> uids e" "node_uid x \<in> uids e"
    using assms(5) by (auto simp: uids_def chain)
  ultimately have "doc_chain (applyOp e (INSERT w (Some (node_uid x)) (node_value y))) =
      ?pre @ x # new_node w (node_value y) # y # restored g r"
    using insert_after_unique [of _ ?pre x y "new_node w (node_value y)" "restored g r"]
    by (simp add: chain_INSERT chain)
  moreover have "restored (g(node_uid y \<mapsto> w)) (p @ x # y # r) =
      restored g p @ cell g x @ [new_node w (node_value y), y] @ restored g r"
    using assms(2) by (auto simp: restored_upd cell_def)
  ultimately show ?thesis
    using cx by (metis append.assoc append_Cons append_Nil)
qed

lemma prev_of_split:
  assumes "distinct (map node_uid ns)" "ns = p @ x # y # r"
  shows "prev_of (node_key y) ns = Some x"
  using assms
proof (induction p arbitrary: ns)
  case (Cons q p)
  then obtain z zs where "p @ x # y # r = z # zs" by (cases "p @ x # y # r") auto
  moreover from this have "node_uid z \<noteq> node_uid y"
    using Cons.prems by (cases p) auto
  ultimately show ?case
    using Cons by (auto simp: node_key_def)
qed simp

text \<open>Applying the stamped inverses to the document the undo saw: each restored copy goes directly
  in front of its tombstone.\<close>

lemma restore_all:
  assumes "length ws = length us" "distinct us" "set us \<inter> dom g = {}"
    and "\<forall>u \<in> set us. u \<in> node_uid ` set (tl (doc_chain d))" "distinct (map node_uid (doc_chain d))"
    and "doc_chain e = restored g (doc_chain d)" "ran g \<inter> uids d = {}"
    and "\<forall>w \<in> set ws. \<forall>v \<in> uids e \<union> uids d. v < w" "sorted_wrt (<) ws"
  shows "doc_chain (applyAll e (map2 restamp ws (concat (map (inverse_op d) (map DELETE us))))) =
    restored (g ++ map_of (zip us ws)) (doc_chain d)"
  using assms
proof (induction ws us arbitrary: e g rule: list_induct2)
  case (Cons w ws u us)
  obtain y where y: "y \<in> set (tl (doc_chain d))" "node_uid y = u"
    using Cons.prems(3) by auto
  then obtain q r where q: "tl (doc_chain d) = q @ y # r"
    by (meson split_list)
  moreover have "doc_chain d \<noteq> []"
    using y by auto
  ultimately obtain p x where c: "doc_chain d = p @ x # y # r"
    by (metis append_Cons append_butlast_last_id append_eq_append_conv2 list.collapse append.assoc append_Nil list.distinct(1))
  have get: "getNode d u = Some y"
    using Cons.prems(4) y(2) unfolding getNode_def index_get_def c by (induction p) (auto simp: node_key_def)
  have prev: "node_prev d y = Some x"
    using prev_of_split [OF Cons.prems(4) c] by (simp add: node_prev_def)
  have inv: "inverse_op d (DELETE u) = [INSERT u (Some (node_uid x)) (node_value y)]"
    by (simp add: get prev)
  let ?e = "applyOp e (INSERT w (Some (node_uid x)) (node_value y))" and ?g = "g(u \<mapsto> w)"
  have "doc_chain ?e = restored ?g (doc_chain d)"
    unfolding c y(2) [symmetric]
  proof (rule restore_one)
    show "doc_chain e = restored g (p @ x # y # r)" "distinct (map node_uid (p @ x # y # r))"
      using Cons.prems(4,5) by (simp_all add: c)
    show "g (node_uid y) = None"
      using Cons.prems(2) y(2) by auto
    show "ran g \<inter> node_uid ` set (p @ x # y # r) = {}" "\<forall>v \<in> uids e. v < w"
      using Cons.prems(6,7) by (auto simp: uids_def c)
  qed
  moreover have "ran ?g \<inter> uids d = {}"
    using Cons.prems(2,6,7) by (auto simp: ran_def split: if_splits)
  moreover have "\<forall>z \<in> set ws. \<forall>v \<in> uids ?e \<union> uids d. v < z"
    using Cons.prems(7,8) by (auto simp: uids_applyOp split: if_splits)
  moreover have "distinct us" "sorted_wrt (<) ws" "\<forall>v \<in> set us. v \<in> node_uid ` set (tl (doc_chain d))"
    using Cons.prems(1,3,8) by simp_all
  moreover have "set us \<inter> dom ?g = {}"
    using Cons.prems(1,2) by (simp only: dom_fun_upd) auto
  ultimately have "doc_chain (applyAll ?e (map2 restamp ws (concat (map (inverse_op d) (map DELETE us))))) =
      restored (?g ++ map_of (zip us ws)) (doc_chain d)"
    by (intro Cons.IH Cons.prems(4))
  note IH = this
  have eq: "g ++ map_of (zip (u # us) (w # ws)) = ?g ++ map_of (zip us ws)"
    using Cons.prems(1) Cons.hyps by (auto simp: fun_eq_iff map_add_def split: option.split dest: map_of_SomeD set_zip_leftD)
  show ?case
    unfolding eq using IH by (simp add: inv del: inverse_op.simps map_map)
qed simp

lemma text_parts_append [simp]: "text_parts (xs @ ys) = text_parts xs @ text_parts ys"
  by (induction xs) (auto split: json.split)

lemma text_parts_cell:
  "node_tombstoned n \<Longrightarrow> text_parts (cell g n) =
    (case g (node_uid n) of None \<Rightarrow> [] | Some w \<Rightarrow> (case node_value n of JStr s \<Rightarrow> [s] | _ \<Rightarrow> []))"
  by (auto simp: cell_def new_node_def split: option.split json.split)

lemma text_restored:
  assumes "\<forall>u. g u \<noteq> None \<longleftrightarrow> u \<in> U" "\<forall>n \<in> set ns. node_uid n \<in> U \<longrightarrow> \<not> node_tombstoned n"
  shows "text_parts (restored g (map (\<lambda>n. if node_uid n \<in> U then tombstone n else n) ns)) = text_parts ns"
  using assms(2)
proof (induction ns)
  case (Cons n ns)
  then show ?case
    using assms(1) [rule_format, of "node_uid n"]
    by (auto simp: cell_def new_node_def tombstone_def split: option.splits json.splits)
qed simp

lemma chain_DELETEs:
  assumes "wf_doc d"
  shows "doc_chain (applyAll d (map DELETE us)) =
    map (\<lambda>n. if node_uid n \<in> set us then tombstone n else n) (doc_chain d)"
proof (induction us rule: rev_induct)
  case (snoc u us)
  have "distinct (map node_uid (doc_chain (applyAll d (map DELETE us))))"
    using wf_doc_distinct [OF assms] unfolding snoc by (simp add: comp_def if_distrib cong: if_cong)
  then show ?case
    by (auto simp: chain_DELETE update_node_map snoc tombstone_def)
qed simp

text \<open>C38: Undoing a deletion brings the text back. When a user deletes visible characters, undoes it
  and the caller gives the returned inserts fresh UIDs, each newer than everything in the
  document, the visible text is what it was before, however the deleted characters were spread
  and in whatever order they were deleted.\<close>

theorem undo_deletion_restores_text:
  assumes "wf_doc d" "distinct us" "\<forall>u \<in> set us. u \<in> node_uid ` set (toNodes d)"
    and "length ws = length us" "sorted_wrt (<) ws" "\<forall>w \<in> set ws. \<forall>v \<in> uids d. v < w"
    and "d1 = applyAll d (map DELETE us)"
  shows "toText (applyAll d1 (map2 restamp ws (createInverseOps d1 (map DELETE us)))) = toText d"
proof -
  have chain: "doc_chain d1 = map (\<lambda>n. if node_uid n \<in> set us then tombstone n else n) (doc_chain d)"
    using chain_DELETEs [OF assms(1)] assms(7) by simp
  have uids: "map node_uid (doc_chain d1) = map node_uid (doc_chain d)"
    by (simp add: chain comp_def if_distrib cong: if_cong)
  then have same: "uids d1 = uids d"
    by (metis list.set_map uids_def)
  have body: "tl (doc_chain d1) = map (\<lambda>n. if node_uid n \<in> set us then tombstone n else n) (body d)"
    by (simp add: chain map_tl)
  have body_uids: "node_uid ` set (body d1) = node_uid ` set (body d)"
    using uids by (metis list.set_map map_tl)
  have root: "ROOT_UID \<notin> set us"
    using assms(3) root_notin_body [OF assms(1)] by (auto simp: set_toNodes image_iff)
  let ?g = "map_of (zip (rev us) ws)"
  have "doc_chain (applyAll d1 (map2 restamp ws (concat (map (inverse_op d1) (map DELETE (rev us)))))) =
      restored (Map.empty ++ ?g) (doc_chain d1)"
  proof (rule restore_all)
    show "\<forall>u \<in> set (rev us). u \<in> node_uid ` set (tl (doc_chain d1))"
      using assms(3) unfolding set_rev body_uids by (auto simp: set_toNodes)
    show "distinct (map node_uid (doc_chain d1))"
      using uids wf_doc_distinct [OF assms(1)] by simp
    show "doc_chain d1 = restored Map.empty (doc_chain d1)"
      by (simp add: restored_empty)
  qed (use assms same in auto)
  moreover have "concat (map (inverse_op d1) (map DELETE (rev us))) = createInverseOps d1 (map DELETE us)"
    by (simp add: createInverseOps_def rev_map)
  moreover have c1: "doc_chain d1 = root_node # body d1"
    unfolding chain by (subst (1 2) wf_doc_chain [OF assms(1)]) (simp add: root)
  moreover have "?g ROOT_UID = None"
    using root by (auto simp: map_of_eq_None_iff dest: set_zip_leftD)
  then have "restored ?g (doc_chain d1) = root_node # restored ?g (body d1)"
    by (subst c1) (rule restored_root)
  ultimately have "body (applyAll d1 (map2 restamp ws (createInverseOps d1 (map DELETE us)))) =
      restored ?g (body d1)"
    by simp
  moreover have "\<forall>u. ?g u \<noteq> None \<longleftrightarrow> u \<in> set us"
    using assms(4) by (metis domIff dom_map_of_zip length_rev set_rev)
  moreover have "\<forall>n \<in> set (body d). node_uid n \<in> set us \<longrightarrow> \<not> node_tombstoned n"
    using assms(3) uid_in_toNodes [OF assms(1)] by blast
  ultimately show ?thesis
    by (simp add: toText_def body text_restored)
qed

theorem undo_deletion_restores_text_witness:
  "toText (applyAll (applyAll (applyOp newRGADocument (INSERT uA None (JStr [97]))) (map DELETE [uA]))
     (map2 restamp [uC] (createInverseOps (applyAll (applyOp newRGADocument (INSERT uA None (JStr [97]))) (map DELETE [uA]))
       (map DELETE [uA])))) = toText (applyOp newRGADocument (INSERT uA None (JStr [97])))"
proof (rule undo_deletion_restores_text)
  show "wf_doc (applyOp newRGADocument (INSERT uA None (JStr [97])))"
    by (intro wf_intros) (simp add: not_on_root_def uid_examples)
  show "\<forall>u \<in> set [uA]. u \<in> node_uid ` set (toNodes (applyOp newRGADocument (INSERT uA None (JStr [97]))))"
    by (simp add: toNodes_def chain_INSERT) (simp add: newRGADocument_def root_node_def node_key_def new_node_def uid_examples image_iff)
qed (simp_all add: uids_applyOp uid_examples)

end
