(* ===== verification/Client_RGA.thy ===== *)
theory Client_RGA
  imports RGA_Queries
begin

text \<open>
  \<^verbatim>\<open>src/client/crdt/client-rga.ts\<close>: the browser's own copy of the CRDT, with the site's
  Lamport clock, local edits and the conversion of a text change into operations. As for the
  server's class the chain holds the nodes in list order, the sentinel first. The refinement
  \<open>srv_doc\<close> maps a client document to a server document; through it the client's operations are
  the server's, so the laws of \<^verbatim>\<open>RGA_Document\<close> and \<^verbatim>\<open>RGA_Convergence\<close> hold for browsers too.
\<close>

section \<open>The document\<close>

record ClientNode =
  c_uid :: UID
  c_value :: json
  c_tombstoned :: bool

record ClientRGADocument =
  cl_chain :: "ClientNode list"
  cl_siteId :: string
  cl_clock :: int
  cl_length :: int

definition client_root :: ClientNode where
  "client_root = \<lparr>c_uid = ROOT_UID, c_value = JStr [], c_tombstoned = False\<rparr>"

definition newClientRGADocument :: "string \<Rightarrow> int \<Rightarrow> ClientRGADocument" where
  "newClientRGADocument site initialClock =
     \<lparr>cl_chain = [client_root], cl_siteId = site, cl_clock = initialClock, cl_length = 0\<rparr>"

definition cl_key :: "ClientNode \<Rightarrow> string" where
  "cl_key n = uidKey (c_uid n)"

definition cl_index_get :: "ClientRGADocument \<Rightarrow> string \<Rightarrow> ClientNode option" where
  "cl_index_get c k = find (\<lambda>n. cl_key n = k) (cl_chain c)"

section \<open>Remote operations\<close>

fun cl_scan_insert :: "ClientNode \<Rightarrow> ClientNode list \<Rightarrow> ClientNode list" where
  "cl_scan_insert n [] = [n]"
| "cl_scan_insert n (x # xs) =
     (if compareUID (c_uid x) (c_uid n) > 0 then x # cl_scan_insert n xs else n # x # xs)"

fun cl_insert_after :: "string \<Rightarrow> ClientNode \<Rightarrow> ClientNode list \<Rightarrow> ClientNode list" where
  "cl_insert_after k n [] = []"
| "cl_insert_after k n (x # xs) =
     (if cl_key x = k then x # cl_scan_insert n xs else x # cl_insert_after k n xs)"

definition cl_applyInsert :: "ClientRGADocument \<Rightarrow> UID \<Rightarrow> UID option \<Rightarrow> json \<Rightarrow> ClientRGADocument" where
  "cl_applyInsert c u a v =
     (if cl_index_get c (uidKey u) \<noteq> None then c
      else let afterKey = (case a of Some w \<Rightarrow> uidKey w | None \<Rightarrow> uidKey ROOT_UID)
        in if cl_index_get c afterKey = None then c
           else c\<lparr>cl_clock := (if clock u > cl_clock c then clock u else cl_clock c),
                  cl_chain := cl_insert_after afterKey
                    \<lparr>c_uid = u, c_value = v, c_tombstoned = False\<rparr> (cl_chain c),
                  cl_length := cl_length c + 1\<rparr>)"

fun cl_update :: "string \<Rightarrow> (ClientNode \<Rightarrow> ClientNode) \<Rightarrow> ClientNode list \<Rightarrow> ClientNode list" where
  "cl_update k f [] = []"
| "cl_update k f (x # xs) = (if cl_key x = k then f x # xs else x # cl_update k f xs)"

definition cl_applyDelete :: "ClientRGADocument \<Rightarrow> UID \<Rightarrow> ClientRGADocument" where
  "cl_applyDelete c u =
     (case cl_index_get c (uidKey u) of None \<Rightarrow> c
      | Some n \<Rightarrow> if c_tombstoned n then c
          else c\<lparr>cl_chain := cl_update (uidKey u) (\<lambda>n. n\<lparr>c_tombstoned := True\<rparr>) (cl_chain c),
                 cl_length := cl_length c - 1\<rparr>)"

text \<open>Everything that is not an \<open>INSERT\<close> goes to \<open>applyDelete\<close>.\<close>

fun cl_applyOperation :: "ClientRGADocument \<Rightarrow> RGAOperation \<Rightarrow> ClientRGADocument" where
  "cl_applyOperation c (INSERT u a v) = cl_applyInsert c u a v"
| "cl_applyOperation c x = cl_applyDelete c (op_uid x)"

section \<open>Queries\<close>

fun cl_text_parts :: "ClientNode list \<Rightarrow> json list" where
  "cl_text_parts [] = []"
| "cl_text_parts (n # ns) = (if \<not> c_tombstoned n then c_value n # cl_text_parts ns else cl_text_parts ns)"

definition cl_toText :: "ClientRGADocument \<Rightarrow> js_text" where
  "cl_toText c = join_with [] (map js_join_part (cl_text_parts (tl (cl_chain c))))"

fun cl_indexToUID_from :: "ClientNode list \<Rightarrow> int \<Rightarrow> int \<Rightarrow> UID option" where
  "cl_indexToUID_from [] targetIdx idx = None"
| "cl_indexToUID_from (n # ns) targetIdx idx =
     (if \<not> c_tombstoned n then
        (if idx + 1 = targetIdx then Some (c_uid n) else cl_indexToUID_from ns targetIdx (idx + 1))
      else cl_indexToUID_from ns targetIdx idx)"

definition cl_indexToUID :: "ClientRGADocument \<Rightarrow> int \<Rightarrow> UID option" where
  "cl_indexToUID c targetIdx = cl_indexToUID_from (tl (cl_chain c)) targetIdx 0"

fun cl_uidToIndex_from :: "ClientNode list \<Rightarrow> string \<Rightarrow> int \<Rightarrow> int option" where
  "cl_uidToIndex_from [] key idx = None"
| "cl_uidToIndex_from (n # ns) key idx =
     (if \<not> c_tombstoned n then
        (if uidKey (c_uid n) = key then Some (idx + 1) else cl_uidToIndex_from ns key (idx + 1))
      else cl_uidToIndex_from ns key idx)"

definition cl_uidToIndex :: "ClientRGADocument \<Rightarrow> UID \<Rightarrow> int option" where
  "cl_uidToIndex c u = cl_uidToIndex_from (tl (cl_chain c)) (uidKey u) 0"

definition cl_getAfterUID :: "ClientRGADocument \<Rightarrow> int \<Rightarrow> UID option" where
  "cl_getAfterUID c index = (if index = 0 then None else cl_indexToUID c index)"

section \<open>Local operations\<close>

definition localInsert :: "ClientRGADocument \<Rightarrow> int \<Rightarrow> js_text \<Rightarrow> ClientRGADocument \<times> RGAOperation" where
  "localInsert c index ch =
     (let c1 = c\<lparr>cl_clock := cl_clock c + 1\<rparr>;
          uid = UID (cl_clock c1) (cl_siteId c1);
          after = cl_getAfterUID c1 index
      in (cl_applyInsert c1 uid after (JStr ch), INSERT uid after (JStr ch)))"

definition localDelete :: "ClientRGADocument \<Rightarrow> int \<Rightarrow> ClientRGADocument \<times> RGAOperation option" where
  "localDelete c index =
     (case cl_indexToUID c (index + 1) of None \<Rightarrow> (c, None)
      | Some uid \<Rightarrow> (cl_applyDelete c uid, Some (DELETE uid)))"

section \<open>Serialization\<close>

definition cl_serialize_node :: "ClientNode \<Rightarrow> SerializedRGANode" where
  "cl_serialize_node n = \<lparr>s_clock = clock (c_uid n), s_siteId = siteId (c_uid n),
     s_value = c_value n, s_attributes = None, s_tombstoned = c_tombstoned n\<rparr>"

definition cl_serialize :: "ClientRGADocument \<Rightarrow> SerializedRGANode list" where
  "cl_serialize c = map cl_serialize_node (tl (cl_chain c))"

definition cl_append_node :: "ClientRGADocument \<Rightarrow> SerializedRGANode \<Rightarrow> ClientRGADocument" where
  "cl_append_node c n = c\<lparr>
     cl_chain := cl_chain c @ [\<lparr>c_uid = UID (s_clock n) (s_siteId n), c_value = s_value n,
       c_tombstoned = s_tombstoned n\<rparr>],
     cl_length := (if \<not> s_tombstoned n then cl_length c + 1 else cl_length c),
     cl_clock := (if s_clock n > cl_clock c then s_clock n else cl_clock c)\<rparr>"

definition cl_deserialize :: "SerializedRGANode list \<Rightarrow> string \<Rightarrow> int \<Rightarrow> ClientRGADocument" where
  "cl_deserialize nodes site clk = foldl cl_append_node (newClientRGADocument site clk) nodes"

section \<open>Text changes to operations\<close>

function diff_prefix :: "js_text list \<Rightarrow> js_text list \<Rightarrow> nat \<Rightarrow> nat" where
  "diff_prefix beforeChars afterChars i =
     (if i < length beforeChars \<and> i < length afterChars \<and> beforeChars ! i = afterChars ! i
      then diff_prefix beforeChars afterChars (i + 1) else i)"
  by pat_completeness auto

termination
  by (relation "measure (\<lambda>(b, a, i). length b - i)") auto

function diff_suffix :: "js_text list \<Rightarrow> js_text list \<Rightarrow> nat \<Rightarrow> int \<Rightarrow> int \<Rightarrow> int \<times> int" where
  "diff_suffix beforeChars afterChars prefixLen bi ai =
     (if bi \<ge> int prefixLen \<and> ai \<ge> int prefixLen \<and> beforeChars ! nat bi = afterChars ! nat ai
      then diff_suffix beforeChars afterChars prefixLen (bi - 1) (ai - 1) else (bi, ai))"
  by pat_completeness auto

termination
  by (relation "measure (\<lambda>(b, a, p, bi, ai). nat (bi + 1))") auto

function delete_down :: "ClientRGADocument \<Rightarrow> int \<Rightarrow> int \<Rightarrow> RGAOperation list \<Rightarrow>
    ClientRGADocument \<times> RGAOperation list" where
  "delete_down c k prefixLen ops =
     (if k \<ge> prefixLen then
        (case localDelete c k of (c1, delOp) \<Rightarrow>
           delete_down c1 (k - 1) prefixLen (case delOp of Some x \<Rightarrow> ops @ [x] | None \<Rightarrow> ops))
      else (c, ops))"
  by pat_completeness auto

termination
  by (relation "measure (\<lambda>(c, k, p, ops). nat (k - p + 1))") auto

function insert_up :: "ClientRGADocument \<Rightarrow> js_text list \<Rightarrow> int \<Rightarrow> int \<Rightarrow> RGAOperation list \<Rightarrow>
    ClientRGADocument \<times> RGAOperation list" where
  "insert_up c afterChars k ai ops =
     (if k \<le> ai then
        (case localInsert c k (afterChars ! nat k) of (c1, insOp) \<Rightarrow>
           insert_up c1 afterChars (k + 1) ai (ops @ [insOp]))
      else (c, ops))"
  by pat_completeness auto

termination
  by (relation "measure (\<lambda>(c, a, k, ai, ops). nat (ai - k + 1))") auto

declare diff_prefix.simps [simp del] diff_suffix.simps [simp del]
  delete_down.simps [simp del] insert_up.simps [simp del]

definition diffToOperations :: "ClientRGADocument \<Rightarrow> js_text \<Rightarrow> js_text \<Rightarrow>
    ClientRGADocument \<times> RGAOperation list" where
  "diffToOperations c before after =
     (let beforeChars = code_points before; afterChars = code_points after;
          prefixLen = diff_prefix beforeChars afterChars 0
      in case diff_suffix beforeChars afterChars prefixLen
           (int (length beforeChars) - 1) (int (length afterChars) - 1) of (bi, ai) \<Rightarrow>
         case delete_down c bi (int prefixLen) [] of (c1, ops) \<Rightarrow>
           insert_up c1 afterChars (int prefixLen) ai ops)"

section \<open>The client refines the server's class\<close>

definition srv_node :: "ClientNode \<Rightarrow> RGANode" where
  "srv_node n = \<lparr>node_uid = c_uid n, node_value = c_value n, node_attributes = Map.empty,
     node_tombstoned = c_tombstoned n\<rparr>"

definition srv_doc :: "ClientRGADocument \<Rightarrow> RGADocument" where
  "srv_doc c = \<lparr>doc_chain = root_node # map srv_node (tl (cl_chain c)), doc_length = cl_length c,
     doc_nodeCount = int (length (tl (cl_chain c)))\<rparr>"

definition wf_client :: "ClientRGADocument \<Rightarrow> bool" where
  "wf_client c \<longleftrightarrow> cl_chain c = client_root # tl (cl_chain c) \<and> wf_doc (srv_doc c) \<and>
     (\<forall>w \<in> uids (srv_doc c). clock w \<le> cl_clock c)"

lemma srv_node_simps [simp]:
  "node_uid (srv_node n) = c_uid n" "node_key (srv_node n) = cl_key n"
  "node_tombstoned (srv_node n) = c_tombstoned n" "node_value (srv_node n) = c_value n"
  by (simp_all add: srv_node_def node_key_def cl_key_def)

lemma client_root_simps [simp]: "cl_key client_root = uidKey ROOT_UID" "c_uid client_root = ROOT_UID"
  by (simp_all add: client_root_def cl_key_def)

lemma cl_key_eq [simp]: "cl_key n = uidKey u \<longleftrightarrow> c_uid n = u"
  by (simp add: cl_key_def)

lemma cl_key_eq' [simp]: "uidKey u = cl_key n \<longleftrightarrow> c_uid n = u"
  by (metis cl_key_eq)

lemma scan_srv: "map srv_node (cl_scan_insert n xs) = scan_insert (srv_node n) (map srv_node xs)"
  by (induction xs) auto

lemma insert_after_srv: "map srv_node (cl_insert_after k n xs) = insert_after k (srv_node n) (map srv_node xs)"
  by (induction xs) (auto simp: scan_srv)

lemma update_srv:
  "(\<And>n. srv_node (f n) = g (srv_node n)) \<Longrightarrow> map srv_node (cl_update k f xs) = update_node k g (map srv_node xs)"
  by (induction xs) auto

lemma cl_insert_after_length: "k \<in> cl_key ` set xs \<Longrightarrow> length (cl_insert_after k n xs) = Suc (length xs)"
proof -
  have "length (cl_scan_insert n xs) = Suc (length xs)" for xs
    by (induction xs) auto
  then show "k \<in> cl_key ` set xs \<Longrightarrow> length (cl_insert_after k n xs) = Suc (length xs)"
    by (induction xs) auto
qed

lemma cl_update_length [simp]: "length (cl_update k f xs) = length xs"
  by (induction xs) auto

lemma cl_index_srv:
  assumes "cl_chain c = client_root # ns"
  shows "cl_index_get c (uidKey u) = None \<longleftrightarrow> u \<notin> uids (srv_doc c)"
  using assms by (auto simp: cl_index_get_def find_None_iff uids_def srv_doc_def image_image)

lemma doc_eqI:
  "doc_chain d = doc_chain e \<Longrightarrow> doc_length d = doc_length e \<Longrightarrow> doc_nodeCount d = doc_nodeCount e \<Longrightarrow>
     d = (e :: RGADocument)"
  by simp

lemma cl_applyInsert_srv:
  assumes "cl_chain c = client_root # ns"
  shows "srv_doc (cl_applyInsert c u a v) = applyOp (srv_doc c) (INSERT u a v) \<and>
    (\<exists>ms. cl_chain (cl_applyInsert c u a v) = client_root # ms)"
proof (cases "u \<in> uids (srv_doc c) \<or> anchor a \<notin> uids (srv_doc c)")
  case True
  have "(case a of Some w \<Rightarrow> uidKey w | None \<Rightarrow> uidKey ROOT_UID) = uidKey (anchor a)"
    by (simp add: anchor_def split: option.split)
  then have "cl_applyInsert c u a v = c"
    using True cl_index_srv [OF assms, of u] cl_index_srv [OF assms, of "anchor a"]
    by (auto simp: cl_applyInsert_def Let_def)
  moreover have "applyOp (srv_doc c) (INSERT u a v) = srv_doc c"
    using True by (auto simp: applyOp_def applyInsert_def)
  ultimately show ?thesis
    using assms by simp
next
  case False
  let ?n = "\<lparr>c_uid = u, c_value = v, c_tombstoned = False\<rparr>"
  have k: "(case a of Some w \<Rightarrow> uidKey w | None \<Rightarrow> uidKey ROOT_UID) = uidKey (anchor a)"
    by (simp add: anchor_def split: option.split)
  have "anchor a \<in> c_uid ` set (cl_chain c)"
    using False assms by (auto simp: uids_def srv_doc_def)
  then have key: "uidKey (anchor a) \<in> cl_key ` set (cl_chain c)"
    by (auto simp: cl_key_def)
  have new: "srv_node ?n = new_node u v"
    by (simp add: srv_node_def new_node_def)
  obtain ms where ms: "cl_insert_after (uidKey (anchor a)) ?n (cl_chain c) = client_root # ms"
    using assms by (cases "ROOT_UID = anchor a") auto
  have "map srv_node ms = tl (insert_after (uidKey (anchor a)) (new_node u v) (doc_chain (srv_doc c)))"
  proof (cases "anchor a = ROOT_UID")
    case True
    then have "ms = cl_scan_insert ?n ns" using ms assms by simp
    with True assms new show ?thesis by (simp add: srv_doc_def scan_srv)
  next
    case False2: False
    then have "ms = cl_insert_after (uidKey (anchor a)) ?n ns" using ms assms by auto
    with False2 assms new show ?thesis by (auto simp: srv_doc_def insert_after_srv)
  qed
  moreover have "length ms = Suc (length ns)"
    using cl_insert_after_length [OF key, of ?n] ms assms by simp
  moreover have "hd (insert_after (uidKey (anchor a)) (new_node u v) (doc_chain (srv_doc c))) = root_node"
    by (simp add: srv_doc_def)
  ultimately have ch: "insert_after (uidKey (anchor a)) (new_node u v) (doc_chain (srv_doc c)) =
      root_node # map srv_node ms"
    by (metis insert_after_eq_Nil list.collapse list.distinct(1) srv_doc_def RGADocument.select_convs(1))
  have "cl_index_get c (uidKey u) = None" "cl_index_get c (uidKey (anchor a)) \<noteq> None"
    using False cl_index_srv [OF assms] by auto
  then have cl: "cl_applyInsert c u a v = c\<lparr>cl_clock := (if clock u > cl_clock c then clock u else cl_clock c),
      cl_chain := client_root # ms, cl_length := cl_length c + 1\<rparr>"
    by (simp only: cl_applyInsert_def k ms Let_def if_True if_False simp_thms)
  have "applyOp (srv_doc c) (INSERT u a v) = (srv_doc c)\<lparr>doc_chain := root_node # map srv_node ms,
      doc_length := doc_length (srv_doc c) + 1, doc_nodeCount := doc_nodeCount (srv_doc c) + 1\<rparr>"
    using False by (simp add: applyOp_def applyInsert_def ch)
  then show ?thesis
    using \<open>length ms = Suc (length ns)\<close> assms by (simp add: cl srv_doc_def)
qed

lemma cl_applyDelete_srv:
  assumes "cl_chain c = client_root # ns" "u \<noteq> ROOT_UID"
  shows "srv_doc (cl_applyDelete c u) = applyOp (srv_doc c) (DELETE u) \<and>
    (\<exists>ms. cl_chain (cl_applyDelete c u) = client_root # ms)"
proof -
  have up: "map srv_node (cl_update (uidKey u) (\<lambda>n. n\<lparr>c_tombstoned := True\<rparr>) ns) =
      update_node (uidKey u) tombstone (map srv_node ns)"
    by (rule update_srv) (simp add: srv_node_def tombstone_def)
  have "find (\<lambda>n. node_key n = uidKey u) (map srv_node ns) =
      map_option srv_node (find (\<lambda>n. cl_key n = uidKey u) ns)"
    by (induction ns) auto
  then show ?thesis
    using assms up
    by (auto simp: cl_applyDelete_def applyOp_def applyDelete_def cl_index_get_def index_get_def srv_doc_def
        split: option.split)
qed

section \<open>The client's invariant\<close>

lemma srv_doc_clock [simp]: "srv_doc (c\<lparr>cl_clock := k\<rparr>) = srv_doc c"
  by (simp add: srv_doc_def)

lemma cl_applyInsert_clock:
  "cl_siteId (cl_applyInsert c u a v) = cl_siteId c" "cl_clock c \<le> cl_clock (cl_applyInsert c u a v)"
  "u \<in> uids (srv_doc c) \<or> cl_applyInsert c u a v = c \<or> clock u \<le> cl_clock (cl_applyInsert c u a v)"
  by (auto simp: cl_applyInsert_def Let_def)

lemma cl_applyDelete_clock [simp]:
  "cl_siteId (cl_applyDelete c u) = cl_siteId c" "cl_clock (cl_applyDelete c u) = cl_clock c"
  by (simp_all add: cl_applyDelete_def split: option.split)

lemma wf_clientD:
  assumes "wf_client c"
  shows "cl_chain c = client_root # tl (cl_chain c)" "wf_doc (srv_doc c)"
    "\<forall>w \<in> uids (srv_doc c). clock w \<le> cl_clock c" "0 \<le> cl_clock c"
  using assms root_in_uids [of "srv_doc c"] by (auto simp: wf_client_def ROOT_UID_def)

lemma wf_cl_insert:
  assumes "wf_client c" "u \<noteq> ROOT_UID"
  shows "wf_client (cl_applyInsert c u a v)"
proof -
  note c = wf_clientD [OF assms(1)]
  from cl_applyInsert_srv [OF c(1), of u a v] obtain ms where
    s: "srv_doc (cl_applyInsert c u a v) = applyOp (srv_doc c) (INSERT u a v)"
    "cl_chain (cl_applyInsert c u a v) = client_root # ms" by blast
  have "wf_doc (applyOp (srv_doc c) (INSERT u a v))"
    using c(2) assms(2) by (auto simp: not_on_root_def intro: wf_applyOp)
  moreover have "clock w \<le> cl_clock (cl_applyInsert c u a v)"
    if "w \<in> uids (srv_doc (cl_applyInsert c u a v))" for w
    using that c(3) cl_applyInsert_clock(2,3) [where c = c and u = u and a = a and v = v]
    by (cases "w \<in> uids (srv_doc c)") (fastforce simp: s(1) uids_applyOp split: if_splits)+
  ultimately show ?thesis
    using s by (simp add: wf_client_def)
qed

lemma wf_cl_delete:
  assumes "wf_client c" "u \<noteq> ROOT_UID"
  shows "wf_client (cl_applyDelete c u)"
proof -
  note c = wf_clientD [OF assms(1)]
  have "wf_doc (applyOp (srv_doc c) (DELETE u))"
    using c(2) assms(2) by (auto simp: not_on_root_def intro: wf_applyOp)
  then show ?thesis
    using cl_applyDelete_srv [OF c(1) assms(2)] c(3) by (auto simp: wf_client_def uids_applyOp)
qed

lemma wf_cl_operation [wf_intros]: "wf_client c \<Longrightarrow> not_on_root x \<Longrightarrow> wf_client (cl_applyOperation c x)"
  by (cases x) (auto simp: not_on_root_def intro: wf_cl_insert wf_cl_delete)

lemma wf_newClient [wf_intros]: "0 \<le> k \<Longrightarrow> wf_client (newClientRGADocument site k)"
  by (auto simp: wf_client_def newClientRGADocument_def srv_doc_def ROOT_UID_def uids_def live_def
      intro!: wf_docI [of _ "[]"])

definition plain_op :: "RGAOperation \<Rightarrow> bool" where
  "plain_op x \<longleftrightarrow> not_on_root x \<and> (case x of FORMAT _ _ \<Rightarrow> False | ROLLBACK _ _ _ \<Rightarrow> False | _ \<Rightarrow> True)"

lemma cl_applyOperation_srv:
  "wf_client c \<Longrightarrow> plain_op x \<Longrightarrow> srv_doc (cl_applyOperation c x) = applyOp (srv_doc c) x"
  using cl_applyInsert_srv [OF wf_clientD(1)] cl_applyDelete_srv [OF wf_clientD(1)]
  by (cases x) (auto simp: plain_op_def not_on_root_def)

section \<open>Positions in the client\<close>

abbreviation cl_values :: "ClientRGADocument \<Rightarrow> json list" where
  "cl_values c \<equiv> cl_text_parts (tl (cl_chain c))"

lemma cl_values_srv: "cl_values c = map node_value (toNodes (srv_doc c))"
proof -
  have "cl_text_parts ns = map node_value (live (map srv_node ns))" for ns
    by (induction ns) (auto simp: live_def)
  then show ?thesis by (simp add: toNodes_live srv_doc_def)
qed

lemma cl_indexToUID_srv: "cl_indexToUID c i = indexToUID (srv_doc c) i"
proof -
  have "cl_indexToUID_from ns i k = indexToUID_from (map srv_node ns) i k" for ns k
    by (induction ns arbitrary: k) auto
  then show ?thesis
    by (auto simp: cl_indexToUID_def indexToUID_def srv_doc_def indexToUID_from_eq)
qed

lemma cl_getAfterUID_srv: "cl_getAfterUID c i = indexToUID (srv_doc c) i"
  by (simp add: cl_getAfterUID_def cl_indexToUID_srv indexToUID_def)

lemma localInsert_effect:
  assumes "wf_client c" "localInsert c i ch = (c', x)"
  shows "wf_client c' \<and> srv_doc c' = applyOp (srv_doc c) x \<and>
    x = INSERT (UID (cl_clock c + 1) (cl_siteId c)) (indexToUID (srv_doc c) i) (JStr ch) \<and>
    op_uid x \<notin> uids (srv_doc c) \<and> plain_op x \<and> cl_clock c' = cl_clock c + 1 \<and> cl_siteId c' = cl_siteId c"
proof -
  note c = wf_clientD [OF assms(1)]
  let ?u = "UID (cl_clock c + 1) (cl_siteId c)" and ?c = "c\<lparr>cl_clock := cl_clock c + 1\<rparr>"
  have x: "x = INSERT ?u (indexToUID (srv_doc c) i) (JStr ch)"
    and c': "c' = cl_applyInsert ?c ?u (indexToUID (srv_doc c) i) (JStr ch)"
    using assms(2) by (auto simp: localInsert_def Let_def cl_getAfterUID_srv)
  have wf: "wf_client ?c"
    using c by (fastforce simp: wf_client_def)
  have "?u \<noteq> ROOT_UID" "?u \<notin> uids (srv_doc c)"
    using c by (auto simp: ROOT_UID_def)
  moreover from this have "wf_client c'"
    unfolding c' by (intro wf_cl_insert wf)
  moreover have "srv_doc c' = applyOp (srv_doc c) x"
    using cl_applyInsert_srv [OF wf_clientD(1) [OF wf]] by (simp add: c' x)
  ultimately show ?thesis
    unfolding x c' by (auto simp: plain_op_def not_on_root_def cl_applyInsert_def Let_def)
qed

lemma localInsert_values:
  assumes "wf_client c" "localInsert c i ch = (c', x)" "0 \<le> i" "i \<le> int (length (cl_values c))"
  shows "cl_values c' = take (nat i) (cl_values c) @ JStr ch # drop (nat i) (cl_values c)"
proof -
  note c = wf_clientD [OF assms(1)]
  let ?u = "UID (cl_clock c + 1) (cl_siteId c)"
  have "\<forall>w \<in> uids (srv_doc c). w < ?u"
    using c(3) by (auto intro: less_UID_clock)
  then have "toNodes (applyOp (srv_doc c) x) =
      take (nat i) (toNodes (srv_doc c)) @ new_node ?u (JStr ch) # drop (nat i) (toNodes (srv_doc c))"
    using insert_at_index [OF c(2), of ?u i "JStr ch"] localInsert_effect [OF assms(1,2)] assms(3,4)
    by (simp add: cl_values_srv)
  then show ?thesis
    using localInsert_effect [OF assms(1,2)] by (simp add: cl_values_srv take_map drop_map new_node_def)
qed

lemma localDelete_effect:
  assumes "wf_client c" "0 \<le> i" "i < int (length (cl_values c))"
  shows "\<exists>c' u. localDelete c i = (c', Some (DELETE u)) \<and> wf_client c' \<and> plain_op (DELETE u) \<and>
    srv_doc c' = applyOp (srv_doc c) (DELETE u) \<and>
    cl_values c' = take (nat i) (cl_values c) @ drop (nat i + 1) (cl_values c) \<and>
    cl_clock c' = cl_clock c \<and> cl_siteId c' = cl_siteId c"
proof -
  note c = wf_clientD [OF assms(1)]
  obtain u where u: "indexToUID (srv_doc c) (i + 1) = Some u" "u \<noteq> ROOT_UID"
    "toNodes (applyOp (srv_doc c) (DELETE u)) =
      take (nat i) (toNodes (srv_doc c)) @ drop (nat i + 1) (toNodes (srv_doc c))"
    using delete_at_index [OF c(2) assms(2)] assms(3) by (auto simp: cl_values_srv)
  have s: "srv_doc (cl_applyDelete c u) = applyOp (srv_doc c) (DELETE u)"
    using cl_applyDelete_srv [OF c(1) u(2)] by blast
  have "cl_values (cl_applyDelete c u) = take (nat i) (cl_values c) @ drop (nat i + 1) (cl_values c)"
    unfolding cl_values_srv s u(3) by (simp add: take_map drop_map)
  moreover have "localDelete c i = (cl_applyDelete c u, Some (DELETE u))"
    by (simp add: localDelete_def cl_indexToUID_srv u(1))
  ultimately show ?thesis
    using s wf_cl_delete [OF assms(1) u(2)] u(2) by (simp add: plain_op_def not_on_root_def)
qed

section \<open>The diff loops\<close>

lemma diff_prefix_spec:
  assumes "take i b = take i a" "i \<le> length b" "i \<le> length a"
  shows "i \<le> diff_prefix b a i \<and> diff_prefix b a i \<le> length b \<and> diff_prefix b a i \<le> length a \<and>
    take (diff_prefix b a i) b = take (diff_prefix b a i) a"
  using assms
proof (induction b a i rule: diff_prefix.induct)
  case (1 b a i)
  show ?case
  proof (cases "i < length b \<and> i < length a \<and> b ! i = a ! i")
    case True
    then have "take (i + 1) b = take (i + 1) a"
      using 1(2) by (simp add: take_Suc_conv_app_nth)
    with True 1(1) show ?thesis
      by (subst (1 2 3 4 5) diff_prefix.simps) simp
  next
    case False
    with 1 show ?thesis
      by (subst (1 2 3 4 5) diff_prefix.simps) auto
  qed
qed

lemma diff_suffix_spec:
  assumes "drop (nat (bi + 1)) b = drop (nat (ai + 1)) a" "int p - 1 \<le> bi" "int p - 1 \<le> ai"
    and "bi < int (length b)" "ai < int (length a)" "diff_suffix b a p bi ai = (bi', ai')"
  shows "drop (nat (bi' + 1)) b = drop (nat (ai' + 1)) a \<and> int p - 1 \<le> bi' \<and> int p - 1 \<le> ai' \<and>
    bi' \<le> bi \<and> ai' \<le> ai"
  using assms
proof (induction b a p bi ai rule: diff_suffix.induct)
  case (1 b a p bi ai)
  show ?case
  proof (cases "bi \<ge> int p \<and> ai \<ge> int p \<and> b ! nat bi = a ! nat ai")
    case True
    then have n: "nat (bi + 1) = Suc (nat bi)" "nat (ai + 1) = Suc (nat ai)" "nat bi < length b" "nat ai < length a"
      using 1(5,6) by linarith+
    then have "drop (nat (bi - 1 + 1)) b = drop (nat (ai - 1 + 1)) a"
      using True 1(2) by (simp add: Cons_nth_drop_Suc [symmetric])
    moreover have "diff_suffix b a p (bi - 1) (ai - 1) = (bi', ai')"
      using True 1(7) by (subst (asm) diff_suffix.simps) simp
    ultimately show ?thesis
      using True 1(1) 1(5,6) by fastforce
  next
    case False
    then have "bi' = bi" "ai' = ai"
      using 1(7) by (subst (asm) diff_suffix.simps, auto)+
    with 1 show ?thesis by simp
  qed
qed

lemma delete_down_spec:
  assumes "wf_client c" "k < int (length (cl_values c))" "p \<le> k + 1" "0 \<le> p"
  shows "\<exists>c' ds. delete_down c k p ops = (c', ops @ ds) \<and> wf_client c' \<and> list_all plain_op ds \<and>
    srv_doc c' = applyAll (srv_doc c) ds \<and>
    cl_values c' = take (nat p) (cl_values c) @ drop (nat (k + 1)) (cl_values c)"
  using assms
proof (induction c k p ops rule: delete_down.induct)
  case (1 c k p ops)
  show ?case
  proof (cases "k \<ge> p")
    case True
    let ?L = "cl_values c"
    obtain c1 u where d: "localDelete c k = (c1, Some (DELETE u))" "wf_client c1" "plain_op (DELETE u)"
      "srv_doc c1 = applyOp (srv_doc c) (DELETE u)" "cl_values c1 = take (nat k) ?L @ drop (nat k + 1) ?L"
      using localDelete_effect [OF 1(2), of k] True 1(3,5) by auto
    have n: "nat (k + 1) = nat k + 1" "nat p \<le> nat k" "nat k < length ?L" "nat (k - 1 + 1) = nat k"
      using True 1(3,5) by linarith+
    have "k - 1 < int (length (cl_values c1))" "p \<le> k - 1 + 1"
      using True n by (simp_all add: d(5))
    from 1(1) [OF True d(1) [symmetric] d(2) this 1(5)] obtain c' ds where
      r: "delete_down c1 (k - 1) p (ops @ [DELETE u]) = (c', (ops @ [DELETE u]) @ ds)" "wf_client c'"
      "list_all plain_op ds" "srv_doc c' = applyAll (srv_doc c1) ds"
      "cl_values c' = take (nat p) (cl_values c1) @ drop (nat (k - 1 + 1)) (cl_values c1)"
      by auto
    have "take (nat p) (take (nat k) ?L @ drop (nat k + 1) ?L) @ drop (nat k) (take (nat k) ?L @ drop (nat k + 1) ?L) =
        take (nat p) ?L @ drop (nat k + 1) ?L"
      using n(2,3) by (simp add: min_def)
    then have "cl_values c' = take (nat p) ?L @ drop (nat (k + 1)) ?L"
      using r(5) n(1,4) by (simp add: d(5))
    moreover have "delete_down c k p ops = (c', ops @ DELETE u # ds)"
      using True d(1) r(1) by (subst delete_down.simps) simp
    ultimately show ?thesis
      using r(2-4) d(3,4) by - (rule exI [of _ c'], rule exI [of _ "DELETE u # ds"], simp)
  next
    case False
    then have "nat (k + 1) = nat p" using 1(4) by simp
    with False 1(2) show ?thesis
      by (intro exI [of _ c] exI [of _ "[]"]) (subst delete_down.simps, simp)
  qed
qed

lemma insert_up_spec:
  assumes "wf_client c" "0 \<le> k" "k \<le> int (length (cl_values c))" "ai < int (length a)" "k \<le> ai + 1"
  shows "\<exists>c' is. insert_up c a k ai ops = (c', ops @ is) \<and> wf_client c' \<and> list_all plain_op is \<and>
    srv_doc c' = applyAll (srv_doc c) is \<and>
    cl_values c' = take (nat k) (cl_values c) @ map JStr (take (nat (ai + 1 - k)) (drop (nat k) a)) @
      drop (nat k) (cl_values c)"
  using assms
proof (induction c a k ai ops rule: insert_up.induct)
  case (1 c a k ai ops)
  show ?case
  proof (cases "k \<le> ai")
    case True
    let ?L = "cl_values c" and ?ch = "a ! nat k"
    obtain c1 x where d: "localInsert c k ?ch = (c1, x)" by (metis surj_pair)
    note e = localInsert_effect [OF 1(2) d] and v = localInsert_values [OF 1(2) d 1(3,4)]
    have n: "nat (k + 1) = Suc (nat k)" "nat k < length a" "nat (ai + 1 - k) = Suc (nat (ai + 1 - (k + 1)))"
      "nat k \<le> length ?L"
      using True 1(3-5) by linarith+
    have "wf_client c1" "0 \<le> k + 1" "k + 1 \<le> int (length (cl_values c1))" "k + 1 \<le> ai + 1"
      using e n 1(3,4) True by (simp_all add: v)
    from 1(1) [OF True d [symmetric] this(1-3) 1(5) this(4)] obtain c' ins where
      r: "insert_up c1 a (k + 1) ai (ops @ [x]) = (c', (ops @ [x]) @ ins)" "wf_client c'"
      "list_all plain_op ins" "srv_doc c' = applyAll (srv_doc c1) ins"
      "cl_values c' = take (nat (k + 1)) (cl_values c1) @
         map JStr (take (nat (ai + 1 - (k + 1))) (drop (nat (k + 1)) a)) @ drop (nat (k + 1)) (cl_values c1)"
      by blast
    have len: "length (take (nat k) ?L) = nat k" using n(4) by simp
    have "cl_values c' = take (nat k) ?L @ map JStr (take (nat (ai + 1 - k)) (drop (nat k) a)) @ drop (nat k) ?L"
      using r(5) len unfolding v n(1,3) Cons_nth_drop_Suc [OF n(2), symmetric] by simp
    moreover have "insert_up c a k ai ops = (c', ops @ x # ins)"
      using True d r(1) by (subst insert_up.simps) simp
    moreover have "plain_op x" "srv_doc c1 = applyOp (srv_doc c) x"
      using e by blast+
    ultimately show ?thesis
      using r(2-4) by - (rule exI [of _ c'], rule exI [of _ "x # ins"], simp)
  next
    case False
    with 1(2,6) show ?thesis
      by (intro exI [of _ c] exI [of _ "[]"]) (subst insert_up.simps, simp)
  qed
qed

section \<open>What the client promises\<close>

lemma client_run_srv:
  assumes "wf_client c" "list_all plain_op ops"
  shows "srv_doc (foldl cl_applyOperation c ops) = applyAll (srv_doc c) ops \<and>
    wf_client (foldl cl_applyOperation c ops)"
  using assms
proof (induction ops arbitrary: c)
  case (Cons x ops)
  then have "wf_client (cl_applyOperation c x)"
    by (auto simp: plain_op_def intro: wf_cl_operation)
  with Cons show ?case
    by (simp add: cl_applyOperation_srv)
qed simp

text \<open>C2: Browser and server converge. A browser and a server replica that start from the same
  document and apply the same inserts and deletes, each in a causal order of its own and with
  any duplicates, hold the same document; the browser's invariant (sentinel, distinct UIDs, a
  correct length, a clock no UID exceeds) is kept.\<close>

theorem client_server_converge:
  assumes "wf_client c" "list_all plain_op xs" "causal (srv_doc c) xs" "causal (srv_doc c) ys"
    and "set xs = set ys" "consistent_ops (set xs)"
  shows "srv_doc (foldl cl_applyOperation c xs) = applyAll (srv_doc c) ys \<and>
    wf_client (foldl cl_applyOperation c xs)"
  using client_run_srv [OF assms(1,2)] rga_same_set [OF assms(3-6)] by simp

theorem client_server_converge_witness:
  "srv_doc (foldl cl_applyOperation (newClientRGADocument ''a'' 0)
      [INSERT uA None (JStr [97]), INSERT uB None (JStr [98]), DELETE uA]) =
    applyAll (srv_doc (newClientRGADocument ''a'' 0))
      [INSERT uB None (JStr [98]), INSERT uA None (JStr [97]), DELETE uA, DELETE uA] \<and>
   wf_client (foldl cl_applyOperation (newClientRGADocument ''a'' 0)
      [INSERT uA None (JStr [97]), INSERT uB None (JStr [98]), DELETE uA])"
proof (rule client_server_converge)
  have "srv_doc (newClientRGADocument ''a'' 0) = newRGADocument"
    by (simp add: srv_doc_def newClientRGADocument_def newRGADocument_def)
  then show "causal (srv_doc (newClientRGADocument ''a'' 0))
      [INSERT uA None (JStr [97]), INSERT uB None (JStr [98]), DELETE uA]"
    "causal (srv_doc (newClientRGADocument ''a'' 0))
      [INSERT uB None (JStr [98]), INSERT uA None (JStr [97]), DELETE uA, DELETE uA]"
    by (simp_all add: uids_applyOp)
qed (auto simp: plain_op_def not_on_root_def consistent_ops_def uid_examples intro: wf_newClient)

text \<open>Typing at position \<open>i\<close> shows the character at position \<open>i\<close> and moves nothing else; the
  operation returned carries a UID nobody has, above everything the site has seen, and its
  effect on the browser is what every replica of the same state computes from it. Deleting at
  \<open>i\<close> removes exactly the character at \<open>i\<close>.\<close>

theorem local_edits_at_position:
  assumes "wf_client c" "0 \<le> i" "i \<le> int (length (cl_values c))" "localInsert c i ch = (c', x)"
  shows "cl_values c' = take (nat i) (cl_values c) @ JStr ch # drop (nat i) (cl_values c) \<and>
    wf_client c' \<and> srv_doc c' = applyOp (srv_doc c) x \<and>
    (\<forall>w \<in> uids (srv_doc c). w < op_uid x) \<and> cl_clock c' = clock (op_uid x) \<and>
    (\<exists>u. localDelete c' i = (fst (localDelete c' i), Some (DELETE u)) \<and>
       cl_values (fst (localDelete c' i)) = cl_values c)"
proof -
  note e = localInsert_effect [OF assms(1,4)] and v = localInsert_values [OF assms(1,4,2,3)]
  have "\<forall>w \<in> uids (srv_doc c). w < UID (cl_clock c + 1) (cl_siteId c)"
    using wf_clientD(3) [OF assms(1)] by (auto intro: less_UID_clock)
  moreover have "i < int (length (cl_values c'))"
    using assms(2,3) by (simp add: v)
  then obtain c2 u where "localDelete c' i = (c2, Some (DELETE u))"
    "cl_values c2 = take (nat i) (cl_values c') @ drop (nat i + 1) (cl_values c')"
    using localDelete_effect [of c' i] e assms(2) by blast
  moreover have "nat i \<le> length (cl_values c)"
    using assms(2,3) by simp
  ultimately show ?thesis
    using e v by (auto simp: min_def)
qed

theorem local_edits_at_position_witness:
  "cl_values (fst (localInsert (newClientRGADocument ''a'' 0) 0 [97])) = [JStr [97]]"
proof -
  have "cl_values (newClientRGADocument ''a'' 0) = []"
    by (simp add: newClientRGADocument_def)
  then show ?thesis
    using local_edits_at_position [of "newClientRGADocument ''a'' 0" 0 "[97]"
        "fst (localInsert (newClientRGADocument ''a'' 0) 0 [97])"
        "snd (localInsert (newClientRGADocument ''a'' 0) 0 [97])"]
    by (simp add: wf_newClient)
qed

lemma diff_effect:
  assumes "wf_client c" "cl_values c = map JStr (code_points before)"
    and "diffToOperations c before after = (c', ops)"
  shows "cl_values c' = map JStr (code_points after) \<and> srv_doc c' = applyAll (srv_doc c) ops \<and>
    wf_client c' \<and> list_all plain_op ops"
proof -
  let ?b = "code_points before" and ?a = "code_points after"
  define p where "p = diff_prefix ?b ?a 0"
  have p: "p \<le> length ?b" "p \<le> length ?a" "take p ?b = take p ?a"
    using diff_prefix_spec [of 0 ?b ?a] by (simp_all add: p_def)
  obtain bi ai where s: "diff_suffix ?b ?a p (int (length ?b) - 1) (int (length ?a) - 1) = (bi, ai)"
    by (metis surj_pair)
  have m: "drop (nat (bi + 1)) ?b = drop (nat (ai + 1)) ?a" "int p - 1 \<le> bi" "int p - 1 \<le> ai"
    "bi < int (length ?b)" "ai < int (length ?a)"
    using diff_suffix_spec [OF _ _ _ _ _ s] p by auto
  have len: "length (cl_values c) = length ?b"
    by (simp add: assms(2))
  obtain c1 ds where d: "delete_down c bi (int p) [] = (c1, ds)" "wf_client c1" "list_all plain_op ds"
    "srv_doc c1 = applyAll (srv_doc c) ds"
    "cl_values c1 = take p (cl_values c) @ drop (nat (bi + 1)) (cl_values c)"
    using delete_down_spec [OF assms(1), of bi "int p" "[]"] m len by auto
  have l1: "int p \<le> int (length (cl_values c1))"
    using p(1) len by (simp add: d(5))
  obtain c2 ins where u: "insert_up c1 ?a (int p) ai ds = (c2, ds @ ins)" "wf_client c2" "list_all plain_op ins"
    "srv_doc c2 = applyAll (srv_doc c1) ins"
    "cl_values c2 = take p (cl_values c1) @ map JStr (take (nat (ai + 1 - int p)) (drop p ?a)) @ drop p (cl_values c1)"
    using insert_up_spec [OF d(2), of "int p" ai ?a ds] m l1 by auto
  have c': "c' = c2" "ops = ds @ ins"
    using assms(3) s d(1) u(1) by (simp_all add: diffToOperations_def Let_def p_def)
  have "nat (ai + 1) = p + nat (ai + 1 - int p)"
    using m(3) by simp
  then have "?a = take p ?a @ take (nat (ai + 1 - int p)) (drop p ?a) @ drop (nat (ai + 1)) ?a"
    by (metis append_take_drop_id drop_drop add.commute)
  moreover have "cl_values c2 = map JStr (take p ?b @ take (nat (ai + 1 - int p)) (drop p ?a) @ drop (nat (bi + 1)) ?b)"
    using p(1) by (simp add: u(5) d(5) assms(2) take_map drop_map)
  ultimately have "cl_values c2 = map JStr ?a"
    using m(1) p(3) by simp
  then show ?thesis
    using d(3,4) u(2-4) by (simp add: c')
qed

text \<open>The text diff is right: applied to a document that shows the characters of \<open>before\<close>, it
  leaves the document showing the characters of \<open>after\<close>, and replaying the returned operations
  on any replica of the old state gives the new state.\<close>

theorem diff_reaches_target:
  assumes "wf_client c" "cl_values c = map JStr (code_points before)"
    and "diffToOperations c before after = (c', ops)"
  shows "cl_values c' = map JStr (code_points after) \<and> srv_doc c' = applyAll (srv_doc c) ops \<and>
    wf_client c' \<and> list_all plain_op ops"
  by (rule diff_effect [OF assms])

theorem diff_reaches_target_witness:
  "cl_values (fst (diffToOperations (newClientRGADocument ''a'' 0) [] [104, 105])) = map JStr [[104], [105]]"
proof -
  have "cl_values (newClientRGADocument ''a'' 0) = map JStr (code_points [])"
    by (simp add: newClientRGADocument_def)
  from diff_reaches_target [OF wf_newClient this, of "[104, 105]"] show ?thesis
    by (simp add: is_high_surrogate_def) (metis prod.collapse)
qed

text \<open>A position outside the document is not refused: with no character before it the insert
  falls back to the sentinel, so typing beyond the end puts the character at the very start.\<close>

theorem insert_beyond_end_prepends:
  assumes "wf_client c" "i > int (length (cl_values c)) \<or> i < 0" "localInsert c i ch = (c', x)"
  shows "cl_values c' = JStr ch # cl_values c \<and> op_after x = None"
proof -
  have "indexToUID (srv_doc c) i = None" "indexToUID (srv_doc c) 0 = None"
    using assms(2) by (auto simp: indexToUID_eq cl_values_srv)
  then have "localInsert c i ch = localInsert c 0 ch"
    by (simp add: localInsert_def cl_getAfterUID_srv Let_def)
  moreover have "0 \<le> int (length (cl_values c))"
    by simp
  ultimately show ?thesis
    using localInsert_values [OF assms(1), of 0 ch c' x] localInsert_effect [OF assms(1,3)]
      \<open>indexToUID (srv_doc c) i = None\<close> assms(3) by simp
qed

theorem insert_beyond_end_prepends_witness:
  "cl_values (fst (localInsert (fst (localInsert (newClientRGADocument ''a'' 0) 0 [97])) 7 [98])) =
     [JStr [98], JStr [97]]"
proof -
  obtain c x where c: "localInsert (newClientRGADocument ''a'' 0) 0 [97] = (c, x)" by (metis surj_pair)
  have v: "cl_values c = [JStr [97]]"
    using localInsert_values [OF wf_newClient c] by (simp add: newClientRGADocument_def)
  obtain c' y where c': "localInsert c 7 [98] = (c', y)" by (metis surj_pair)
  have "wf_client c"
    using localInsert_effect [OF wf_newClient c] by simp
  from insert_beyond_end_prepends [OF this _ c'] show ?thesis
    by (simp add: c c' v)
qed

section \<open>Joining with a snapshot\<close>

definition forget_attributes :: "RGANode \<Rightarrow> RGANode" where
  "forget_attributes n = n\<lparr>node_attributes := Map.empty\<rparr>"

lemma cl_deserialize_foldl:
  "cl_chain (foldl cl_append_node c ns) = cl_chain c @
      map (\<lambda>n. \<lparr>c_uid = UID (s_clock n) (s_siteId n), c_value = s_value n, c_tombstoned = s_tombstoned n\<rparr>) ns \<and>
   cl_length (foldl cl_append_node c ns) = cl_length c + int (length (filter (\<lambda>n. \<not> s_tombstoned n) ns)) \<and>
   cl_clock (foldl cl_append_node c ns) = foldl max (cl_clock c) (map s_clock ns)"
  by (induction ns arbitrary: c) (auto simp: cl_append_node_def max_def)

text \<open>A browser that joins with a snapshot of a server document shows what the server shows: the
  same nodes, tombstones and positions, without the attributes (which the client does not
  keep), and it is well-formed, its clock at or above every UID it received.\<close>

theorem join_snapshot:
  assumes "wf_doc d" "0 \<le> clk" "c = cl_deserialize (serialize d) site clk"
  shows "doc_chain (srv_doc c) = root_node # map forget_attributes (body d) \<and>
    cl_values c = map node_value (toNodes d) \<and> cl_indexToUID c i = indexToUID d i \<and>
    cl_length c = doc_length d \<and> wf_client c"
proof -
  let ?f = "\<lambda>n. \<lparr>c_uid = UID (s_clock n) (s_siteId n), c_value = s_value n, c_tombstoned = s_tombstoned n\<rparr>"
  have c: "cl_chain c = client_root # map ?f (serialize d)"
    "cl_length c = int (length (filter (\<lambda>n. \<not> s_tombstoned n) (serialize d)))"
    "cl_clock c = foldl max clk (map s_clock (serialize d))"
    using cl_deserialize_foldl [of "newClientRGADocument site clk" "serialize d"] assms(3)
    by (simp_all add: cl_deserialize_def newClientRGADocument_def)
  have "srv_node (?f (serialize_node n)) = forget_attributes n" for n
    by (simp add: srv_node_def serialize_node_def forget_attributes_def)
  then have body: "map srv_node (tl (cl_chain c)) = map forget_attributes (body d)"
    by (simp add: c(1) serialize_def comp_def)
  then have chain: "doc_chain (srv_doc c) = root_node # map forget_attributes (body d)"
    by (simp add: srv_doc_def)
  have forget: "node_uid (forget_attributes n) = node_uid n" "node_tombstoned (forget_attributes n) = node_tombstoned n"
    "node_value (forget_attributes n) = node_value n" for n
    by (simp_all add: forget_attributes_def)
  have live: "live (map forget_attributes ns) = map forget_attributes (live ns)" for ns
    by (simp add: live_def filter_map comp_def forget)
  have nodes: "toNodes (srv_doc c) = map forget_attributes (toNodes d)"
    by (simp add: toNodes_live chain live)
  have len: "cl_length c = doc_length d"
    using assms(1) by (simp add: c(2) serialize_def filter_map comp_def serialize_node_def wf_doc_def live_def)
  have clocks: "\<forall>k \<in> set (map s_clock (serialize d)). k \<le> cl_clock c" "clk \<le> cl_clock c"
    using foldl_max_ge [of clk "map s_clock (serialize d)"] by (simp_all add: c(3))
  have "wf_doc (srv_doc c)"
  proof (rule wf_docI [OF chain])
    show "distinct (ROOT_UID # map node_uid (map forget_attributes (body d)))"
      using wf_body_distinct [OF assms(1)] root_notin_body [OF assms(1)] by (simp add: comp_def forget image_image)
    show "doc_length (srv_doc c) = int (length (live (map forget_attributes (body d))))"
      "doc_nodeCount (srv_doc c) = int (length (map forget_attributes (body d)))"
      using len assms(1) by (simp_all add: srv_doc_def live wf_doc_def c(1) serialize_def)
  qed
  moreover have "clock w \<le> cl_clock c" if "w \<in> uids (srv_doc c)" for w
    using that clocks assms(2)
    by (auto simp: uids_def chain forget serialize_def serialize_node_def ROOT_UID_def)
  ultimately have "wf_client c"
    by (simp add: wf_client_def c(1))
  moreover have "indexToUID (srv_doc c) i = indexToUID d i"
    by (auto simp: indexToUID_eq nodes forget nat_less_iff)
  ultimately show ?thesis
    using chain len by (simp add: cl_values_srv nodes forget cl_indexToUID_srv)
qed

theorem join_snapshot_witness:
  "cl_values (cl_deserialize (serialize (applyOp newRGADocument (INSERT uA None (JStr [97])))) ''b'' 0) =
     map node_value (toNodes (applyOp newRGADocument (INSERT uA None (JStr [97]))))"
proof -
  have "wf_doc (applyOp newRGADocument (INSERT uA None (JStr [97])))"
    by (intro wf_intros) (simp add: not_on_root_def uid_examples)
  from join_snapshot [OF this _ refl] show ?thesis by simp
qed

text \<open>A browser deletes what the server formats: \<open>applyOperation\<close> of the client sends every
  operation that is not an insert to \<open>applyDelete\<close>, so a broadcast \<open>FORMAT\<close> takes a visible
  character out of the browser's document, while the server keeps showing it.\<close>

theorem client_format_deletes:
  assumes "wf_client c" "u \<in> node_uid ` set (toNodes (srv_doc c))"
  shows "u \<notin> node_uid ` set (toNodes (srv_doc (cl_applyOperation c (FORMAT u m)))) \<and>
    u \<in> node_uid ` set (toNodes (applyOp (srv_doc c) (FORMAT u m)))"
proof
  have wf: "wf_doc (srv_doc c)" by (rule wf_clientD) fact
  have u: "u \<noteq> ROOT_UID"
    using assms(2) root_notin_body [OF wf] by (metis (no_types) imageE image_eqI set_toNodes)
  have "srv_doc (cl_applyOperation c (FORMAT u m)) = applyOp (srv_doc c) (DELETE u)"
    using cl_applyDelete_srv [OF wf_clientD(1) [OF assms(1)] u] by simp
  then show "u \<notin> node_uid ` set (toNodes (srv_doc (cl_applyOperation c (FORMAT u m))))"
    by (auto simp: toNodes_DELETE [OF wf u])
  have "u \<noteq> ROOT_UID \<Longrightarrow> body (applyOp (srv_doc c) (FORMAT u m)) =
      update_node (uidKey u) (merge_attributes m) (body (srv_doc c))"
    by (simp add: chain_FORMAT srv_doc_def)
  then have "node_uid ` set (live (body (applyOp (srv_doc c) (FORMAT u m)))) = node_uid ` set (live (body (srv_doc c)))"
  proof -
    have "node_uid ` set (live (update_node k (merge_attributes m) ns)) = node_uid ` set (live ns)" for k ns
    proof -
      let ?g = "\<lambda>n. (node_uid n, node_tombstoned n)"
      have L: "node_uid ` set (live ms) = {w. (w, False) \<in> set (map ?g ms)}" for ms
        by (auto simp: live_def image_iff)
      have "map ?g (update_node k (merge_attributes m) ns) = map ?g ns"
        by (rule map_update_node) (simp add: merge_attributes_def)
      then show ?thesis unfolding L by simp
    qed
    then show ?thesis using u by (simp add: chain_FORMAT srv_doc_def)
  qed
  with assms(2) show "u \<in> node_uid ` set (toNodes (applyOp (srv_doc c) (FORMAT u m)))"
    by (simp add: toNodes_live)
qed

theorem client_format_deletes_witness:
  "uA \<notin> node_uid ` set (toNodes (srv_doc (cl_applyOperation
     (cl_applyOperation (newClientRGADocument ''b'' 0) (INSERT uA None (JStr [97]))) (FORMAT uA Map.empty))))"
proof -
  let ?c = "cl_applyOperation (newClientRGADocument ''b'' 0) (INSERT uA None (JStr [97]))"
  have wf: "wf_client ?c"
    by (intro wf_intros) (simp_all add: not_on_root_def uid_examples)
  have "srv_doc ?c = applyOp (srv_doc (newClientRGADocument ''b'' 0)) (INSERT uA None (JStr [97]))"
    by (rule cl_applyOperation_srv) (auto intro: wf_newClient simp: plain_op_def not_on_root_def uid_examples)
  then have "uA \<in> node_uid ` set (toNodes (srv_doc ?c))"
    by (simp add: toNodes_def chain_INSERT)
       (simp add: newClientRGADocument_def srv_doc_def uids_def root_node_def node_key_def new_node_def uid_examples image_iff)
  from client_format_deletes [OF wf this] show ?thesis by blast
qed

text \<open>A site can issue one UID twice. Its Lamport clock is rebuilt from the nodes of the snapshot;
  when the server has collected the tombstones of the site's last characters, the rejoined
  browser starts below them, and a replica that still has the tombstones drops the new
  character, which everyone else sees.\<close>

theorem rejoin_reuses_uid:
  "\<exists>server other ch. wf_doc server \<and> other = server \<and>
    (let (c, x) = localInsert (cl_deserialize (serialize (fst (gc server))) ''a'' 0) 0 ch
     in cl_toText c = ch \<and> toText (applyOp (fst (gc server)) x) = ch \<and> op_uid x \<in> uids other \<and>
        toText (applyOp other x) = [] \<and> ch \<noteq> [])"
proof -
  define s where "s = applyAll newRGADocument [INSERT (UID 1 ''a'') None (JStr [120]), DELETE (UID 1 ''a'')]"
  have wf: "wf_doc s"
    unfolding s_def by (intro wf_intros) (simp_all add: not_on_root_def ROOT_UID_def)
  have chain: "doc_chain s = [root_node, tombstone (new_node (UID 1 ''a'') (JStr [120]))]"
    by (simp add: s_def chain_DELETE chain_INSERT ROOT_UID_def uid_examples)
       (simp add: newRGADocument_def node_key_def root_node_def ROOT_UID_def new_node_def)
  have g: "doc_chain (fst (gc s)) = [root_node]"
    by (simp add: gc_def chain gc_nodes_eq live_def tombstone_def)
  then have ser: "serialize (fst (gc s)) = []"
    by (simp add: serialize_def)
  have loc: "localInsert (cl_deserialize [] ''a'' 0) 0 [121] =
      (cl_applyInsert \<lparr>cl_chain = [client_root], cl_siteId = ''a'', cl_clock = 1, cl_length = 0\<rparr>
        (UID 1 ''a'') None (JStr [121]), INSERT (UID 1 ''a'') None (JStr [121]))"
    by (simp add: localInsert_def cl_deserialize_def newClientRGADocument_def cl_getAfterUID_def Let_def)
  have "UID 1 ''a'' \<in> uids s" "uids (fst (gc s)) = {ROOT_UID}"
    by (auto simp: uids_def chain g)
  then show ?thesis
    using wf loc
    by - (rule exI [of _ s], rule exI [of _ s], rule exI [of _ "[121]"],
      simp add: ser toText_def chain chain_INSERT g,
      simp add: cl_applyInsert_def cl_toText_def cl_index_get_def client_root_def cl_key_def ROOT_UID_def
        node_key_def root_node_def tombstone_def new_node_def Let_def)
qed

end
