(* ===== verification/Offline_Queue.thy ===== *)
theory Offline_Queue
  imports Shared_Types
begin

text \<open>
  \<^verbatim>\<open>src/client/crdt/offline-queue.ts\<close>: the queue of operations without an acknowledgement and
  its copy in the browser's \<open>localStorage\<close>. The storage is a map from keys to what parsing the
  stored string gives; whether \<open>setItem\<close> finds room is an argument of each operation. The lemmas
  show what survives a page refresh.
\<close>

section \<open>The queue\<close>

record QueuedOperation =
  q_clientSeq :: int
  q_op :: RGAOperation
  q_nonce :: string
  q_timestamp :: int
  q_attempts :: int

datatype stored = Parsed "QueuedOperation list" | Malformed

type_synonym local_storage = "string \<rightharpoonup> stored"

record OfflineQueue =
  oq_queue :: "QueuedOperation list"
  oq_docId :: string
  oq_useStorage :: bool

definition STORAGE_KEY :: string where
  "STORAGE_KEY = ''sync-engine:offline-queue''"

definition storageKey :: "OfflineQueue \<Rightarrow> string" where
  "storageKey q = STORAGE_KEY @ CHR '':'' # oq_docId q"

definition load :: "OfflineQueue \<Rightarrow> local_storage \<Rightarrow> OfflineQueue" where
  "load q st =
     (if \<not> oq_useStorage q then q
      else case st (storageKey q) of
          None \<Rightarrow> q
        | Some (Parsed ops) \<Rightarrow> q\<lparr>oq_queue := ops\<rparr>
        | Some Malformed \<Rightarrow> q\<lparr>oq_queue := []\<rparr>)"

definition newOfflineQueue :: "string \<Rightarrow> bool \<Rightarrow> local_storage \<Rightarrow> OfflineQueue" where
  "newOfflineQueue docId available st =
     load \<lparr>oq_queue = [], oq_docId = docId, oq_useStorage = available\<rparr> st"

definition persist :: "OfflineQueue \<Rightarrow> local_storage \<Rightarrow> bool \<Rightarrow> local_storage" where
  "persist q st room =
     (if \<not> oq_useStorage q then st
      else if room then st(storageKey q \<mapsto> Parsed (oq_queue q)) else st)"

definition enqueue :: "OfflineQueue \<Rightarrow> local_storage \<Rightarrow> bool \<Rightarrow> QueuedOperation \<Rightarrow> OfflineQueue \<times> local_storage" where
  "enqueue q st room x = (let q' = q\<lparr>oq_queue := oq_queue q @ [x]\<rparr> in (q', persist q' st room))"

definition acknowledge :: "OfflineQueue \<Rightarrow> local_storage \<Rightarrow> bool \<Rightarrow> int \<Rightarrow> OfflineQueue \<times> local_storage" where
  "acknowledge q st room clientSeq =
     (let q' = q\<lparr>oq_queue := filter (\<lambda>x. q_clientSeq x \<noteq> clientSeq) (oq_queue q)\<rparr>
      in (q', persist q' st room))"

definition getAll :: "OfflineQueue \<Rightarrow> QueuedOperation list" where
  "getAll q = oq_queue q"

definition queue_size :: "OfflineQueue \<Rightarrow> nat" where
  "queue_size q = length (oq_queue q)"

definition clear :: "OfflineQueue \<Rightarrow> local_storage \<Rightarrow> OfflineQueue \<times> local_storage" where
  "clear q st = (let q' = q\<lparr>oq_queue := []\<rparr>
     in (q', if oq_useStorage q' then st(storageKey q' := None) else st))"

fun bump_first :: "int \<Rightarrow> QueuedOperation list \<Rightarrow> QueuedOperation list" where
  "bump_first s [] = []"
| "bump_first s (x # xs) =
     (if q_clientSeq x = s then x\<lparr>q_attempts := q_attempts x + 1\<rparr> # xs else x # bump_first s xs)"

definition incrementAttempts :: "OfflineQueue \<Rightarrow> int \<Rightarrow> OfflineQueue" where
  "incrementAttempts q clientSeq = q\<lparr>oq_queue := bump_first clientSeq (oq_queue q)\<rparr>"

section \<open>Persistence\<close>

text \<open>A queue and its stored copy agree: what a refresh would load is what is there.\<close>

definition in_sync :: "OfflineQueue \<Rightarrow> local_storage \<Rightarrow> bool" where
  "in_sync q st \<longleftrightarrow> newOfflineQueue (oq_docId q) (oq_useStorage q) st = q"

lemma storageKey_eq [simp]: "storageKey q = storageKey r \<longleftrightarrow> oq_docId q = oq_docId r"
  by (simp add: storageKey_def)

lemma oq_docId_ops [simp]:
  "oq_docId (fst (enqueue q st r x)) = oq_docId q" "oq_docId (fst (acknowledge q st r s)) = oq_docId q"
  "oq_useStorage (fst (enqueue q st r x)) = oq_useStorage q"
  "oq_useStorage (fst (acknowledge q st r s)) = oq_useStorage q"
  by (simp_all add: enqueue_def acknowledge_def Let_def)

lemma in_sync_persist:
  "oq_useStorage q \<Longrightarrow> in_sync q (persist q st True)"
  by (simp add: in_sync_def newOfflineQueue_def load_def persist_def storageKey_def)

text \<open>The queue survives a page refresh: while the storage has room, after every \<open>enqueue\<close> and
  \<open>acknowledge\<close> a queue newly constructed for the document holds the same operations in the same
  order, and the stored queues of other documents are untouched.\<close>

theorem queue_survives_refresh:
  assumes "oq_useStorage q"
  shows "newOfflineQueue (oq_docId q) True (snd (enqueue q st True x)) = fst (enqueue q st True x) \<and>
    getAll (fst (enqueue q st True x)) = getAll q @ [x] \<and>
    newOfflineQueue (oq_docId q) True (snd (acknowledge q st True s)) = fst (acknowledge q st True s) \<and>
    getAll (fst (acknowledge q st True s)) = filter (\<lambda>x. q_clientSeq x \<noteq> s) (getAll q) \<and>
    (d \<noteq> oq_docId q \<longrightarrow>
      newOfflineQueue d True (snd (enqueue q st True x)) = newOfflineQueue d True st \<and>
      newOfflineQueue d True (snd (acknowledge q st True s)) = newOfflineQueue d True st)"
  using in_sync_persist [of "q\<lparr>oq_queue := oq_queue q @ [x]\<rparr>" st]
    in_sync_persist [of "q\<lparr>oq_queue := filter (\<lambda>x. q_clientSeq x \<noteq> s) (oq_queue q)\<rparr>" st] assms
  by (auto simp: enqueue_def acknowledge_def Let_def in_sync_def getAll_def newOfflineQueue_def load_def
      persist_def storageKey_def)

theorem queue_survives_refresh_witness:
  "newOfflineQueue ''d'' True (snd (enqueue (newOfflineQueue ''d'' True Map.empty) Map.empty True
      \<lparr>q_clientSeq = 1, q_op = DELETE ROOT_UID, q_nonce = ''n'', q_timestamp = 0, q_attempts = 1\<rparr>)) =
    fst (enqueue (newOfflineQueue ''d'' True Map.empty) Map.empty True
      \<lparr>q_clientSeq = 1, q_op = DELETE ROOT_UID, q_nonce = ''n'', q_timestamp = 0, q_attempts = 1\<rparr>)"
proof -
  have "oq_useStorage (newOfflineQueue ''d'' True Map.empty)" "oq_docId (newOfflineQueue ''d'' True Map.empty) = ''d''"
    by (simp_all add: newOfflineQueue_def load_def)
  with queue_survives_refresh [OF this(1)] show ?thesis by metis
qed

end
