(* ===== verification/Client_Session.thy ===== *)
theory Client_Session
  imports Client_RGA Offline_Queue
begin

text \<open>
  \<^verbatim>\<open>src/client/hooks/useCollaborativeDoc.ts\<close>: the state of one open editor - the hook's
  refs and React states in one record - and its callbacks. Messages sent are results, the
  \<open>localStorage\<close> is passed through, and times and UUIDs are arguments. The lemmas show that the
  text on screen is always the document's, that an unacknowledged edit stays queued until its
  acknowledgement and is sent again on every join, how long reconnecting waits, and what a join
  does to the local document.
\<close>

section \<open>The session\<close>

datatype ConnectionStatus = Connecting | Connected | Disconnected | ErrorStatus

datatype ready_state = CONNECTING | OPEN | CLOSED

record ClientSession =
  cs_docId :: string
  cs_token :: string
  cs_text :: js_text
  cs_status :: ConnectionStatus
  cs_presence :: "UserPresence list"
  cs_sessionId :: "string option"
  cs_doc :: "ClientRGADocument option"
  cs_ws :: "ready_state option"
  cs_queue :: OfflineQueue
  cs_clientSeq :: int
  cs_lastSeq :: int
  cs_reconnectTimer :: "int option"
  cs_reconnectAttempts :: nat
  cs_clientId :: string

definition openSession :: "string \<Rightarrow> string \<Rightarrow> string \<Rightarrow> bool \<Rightarrow> local_storage \<Rightarrow> ClientSession" where
  "openSession docId token clientId available st =
     \<lparr>cs_docId = docId, cs_token = token, cs_text = [], cs_status = Connecting, cs_presence = [],
      cs_sessionId = None, cs_doc = None, cs_ws = None, cs_queue = newOfflineQueue docId available st,
      cs_clientSeq = 0, cs_lastSeq = 0, cs_reconnectTimer = None, cs_reconnectAttempts = 0,
      cs_clientId = clientId\<rparr>"

definition send :: "ClientSession \<Rightarrow> ClientMessage \<Rightarrow> ClientMessage list" where
  "send s msg = (if cs_ws s = Some OPEN then [msg] else [])"

section \<open>The connection\<close>

definition connect :: "ClientSession \<Rightarrow> ClientSession" where
  "connect s = (if cs_ws s = Some OPEN then s
     else s\<lparr>cs_status := Connecting, cs_ws := Some CONNECTING\<rparr>)"

text \<open>The socket's \<open>onopen\<close>; its state has just become \<open>OPEN\<close>.\<close>

definition onopen :: "ClientSession \<Rightarrow> ClientSession \<times> ClientMessage list" where
  "onopen s =
     (let s1 = s\<lparr>cs_ws := Some OPEN, cs_reconnectAttempts := 0\<rparr>
      in (s1, send s1 (JOIN \<lparr>join_docId = Some (cs_docId s1), join_token = cs_token s1,
            join_lastSeq = cs_lastSeq s1, join_clientId = cs_clientId s1\<rparr>)))"

definition reconnectDelay :: "nat \<Rightarrow> int" where
  "reconnectDelay attempts = min 30000 (1000 * 2 ^ attempts)"

definition scheduleReconnect :: "ClientSession \<Rightarrow> int \<Rightarrow> ClientSession" where
  "scheduleReconnect s now =
     (let delay = reconnectDelay (cs_reconnectAttempts s)
      in s\<lparr>cs_reconnectAttempts := cs_reconnectAttempts s + 1, cs_reconnectTimer := Some (now + delay)\<rparr>)"

definition onclose :: "ClientSession \<Rightarrow> int \<Rightarrow> int \<Rightarrow> ClientSession" where
  "onclose s code now =
     (let s1 = s\<lparr>cs_ws := Some CLOSED, cs_status := Disconnected\<rparr>
      in if code = 4001 \<or> code = 4003 then s1\<lparr>cs_status := ErrorStatus\<rparr>
         else scheduleReconnect s1 now)"

definition onerror :: "ClientSession \<Rightarrow> ClientSession" where
  "onerror s = s\<lparr>cs_status := ErrorStatus\<rparr>"

section \<open>Messages from the server\<close>

definition resend :: "ClientSession \<Rightarrow> QueuedOperation \<Rightarrow> ClientMessage list" where
  "resend s qOp = send s (OPERATION \<lparr>msg_docId = cs_docId s, msg_clientSeq = q_clientSeq qOp,
     msg_op = q_op qOp, msg_vectorClock = [], msg_nonce = q_nonce qOp\<rparr>)"

fun handleServerMessage ::
  "ClientSession \<Rightarrow> local_storage \<Rightarrow> bool \<Rightarrow> ServerMessage \<Rightarrow> ClientSession \<times> local_storage \<times> ClientMessage list" where
  "handleServerMessage s st room (JOIN_ACK ack) =
     (let s1 = s\<lparr>cs_sessionId := Some (ack_sessionId ack)\<rparr>;
          doc0 = cl_deserialize (ack_nodes (ack_snapshot ack)) (ack_siteId ack) 0;
          doc = foldl (\<lambda>d env. cl_applyOperation d (env_op env)) doc0 (ack_missedOps ack);
          lastSeq = foldl max (cs_lastSeq s1) (map env_seq (ack_missedOps ack));
          sent = concat (map (resend s1) (getAll (cs_queue s1)))
      in (s1\<lparr>cs_doc := Some doc, cs_lastSeq := lastSeq, cs_presence := ack_presence ack,
             cs_text := cl_toText doc, cs_status := Connected\<rparr>, st, sent))"
| "handleServerMessage s st room (OP_ACK clientSeq serverSeq timestamp) =
     (case acknowledge (cs_queue s) st room clientSeq of (q, st') \<Rightarrow>
        (s\<lparr>cs_queue := q, cs_lastSeq := max (cs_lastSeq s) serverSeq\<rparr>, st', []))"
| "handleServerMessage s st room (BROADCAST envelope) =
     (let s1 = s\<lparr>cs_lastSeq := max (cs_lastSeq s) (env_seq envelope)\<rparr>
      in (case cs_doc s1 of None \<Rightarrow> (s1, st, [])
          | Some d \<Rightarrow> let d' = cl_applyOperation d (env_op envelope)
              in (s1\<lparr>cs_doc := Some d', cs_text := cl_toText d'\<rparr>, st, [])))"
| "handleServerMessage s st room (PRESENCE_UPDATE p) =
     (s\<lparr>cs_presence := filter (\<lambda>u. p_sessionId u \<noteq> p_sessionId p) (cs_presence s) @ [p]\<rparr>, st, [])"
| "handleServerMessage s st room (USER_LEFT sid uid) =
     (s\<lparr>cs_presence := filter (\<lambda>u. p_sessionId u \<noteq> sid) (cs_presence s)\<rparr>, st, [])"
| "handleServerMessage s st room msg = (s, st, [])"

section \<open>Local edits\<close>

text \<open>\<open>enqueue\<close> and \<open>send\<close> of one operation, under the next client seq.\<close>

definition submit ::
  "ClientSession \<Rightarrow> local_storage \<Rightarrow> bool \<Rightarrow> RGAOperation \<Rightarrow> string \<Rightarrow> int \<Rightarrow>
     ClientSession \<times> local_storage \<times> ClientMessage list" where
  "submit s st room x nonce now =
     (case enqueue (cs_queue s) st room \<lparr>q_clientSeq = cs_clientSeq s, q_op = x, q_nonce = nonce,
          q_timestamp = now, q_attempts = 1\<rparr> of (q, st') \<Rightarrow>
        let s1 = s\<lparr>cs_queue := q\<rparr>
        in (s1, st', send s1 (OPERATION \<lparr>msg_docId = cs_docId s1, msg_clientSeq = cs_clientSeq s1,
              msg_op = x, msg_vectorClock = [], msg_nonce = nonce\<rparr>)))"

definition cs_localInsert ::
  "ClientSession \<Rightarrow> local_storage \<Rightarrow> bool \<Rightarrow> int \<Rightarrow> js_text \<Rightarrow> string \<Rightarrow> int \<Rightarrow>
     ClientSession \<times> local_storage \<times> ClientMessage list" where
  "cs_localInsert s st room index ch nonce now =
     (case cs_doc s of None \<Rightarrow> (s, st, [])
      | Some d \<Rightarrow>
          (case localInsert d index ch of (d', x) \<Rightarrow>
            (case submit (s\<lparr>cs_clientSeq := cs_clientSeq s + 1, cs_doc := Some d'\<rparr>) st room x nonce now of
               (s1, st', out) \<Rightarrow> (s1\<lparr>cs_text := cl_toText d'\<rparr>, st', out))))"

definition cs_localDelete ::
  "ClientSession \<Rightarrow> local_storage \<Rightarrow> bool \<Rightarrow> int \<Rightarrow> string \<Rightarrow> int \<Rightarrow>
     ClientSession \<times> local_storage \<times> ClientMessage list" where
  "cs_localDelete s st room index nonce now =
     (case cs_doc s of None \<Rightarrow> (s, st, [])
      | Some d \<Rightarrow>
          (let s0 = s\<lparr>cs_clientSeq := cs_clientSeq s + 1\<rparr>
           in case localDelete d index of
              (d', None) \<Rightarrow> (s0\<lparr>cs_doc := Some d'\<rparr>, st, [])
            | (d', Some x) \<Rightarrow>
                (case submit (s0\<lparr>cs_doc := Some d'\<rparr>) st room x nonce now of
                   (s1, st', out) \<Rightarrow> (s1\<lparr>cs_text := cl_toText d'\<rparr>, st', out))))"

fun submit_all ::
  "ClientSession \<Rightarrow> local_storage \<Rightarrow> bool \<Rightarrow> (RGAOperation \<times> string) list \<Rightarrow> int \<Rightarrow>
     ClientSession \<times> local_storage \<times> ClientMessage list" where
  "submit_all s st room [] now = (s, st, [])"
| "submit_all s st room ((x, nonce) # xs) now =
     (case submit (s\<lparr>cs_clientSeq := cs_clientSeq s + 1\<rparr>) st room x nonce now of (s1, st1, out1) \<Rightarrow>
        case submit_all s1 st1 room xs now of (s2, st2, out2) \<Rightarrow> (s2, st2, out1 @ out2))"

definition localBatchEdit ::
  "ClientSession \<Rightarrow> local_storage \<Rightarrow> bool \<Rightarrow> js_text \<Rightarrow> js_text \<Rightarrow> (nat \<Rightarrow> string) \<Rightarrow> int \<Rightarrow>
     ClientSession \<times> local_storage \<times> ClientMessage list" where
  "localBatchEdit s st room before after nonces now =
     (case cs_doc s of None \<Rightarrow> (s, st, [])
      | Some d \<Rightarrow>
          (case diffToOperations d before after of (d', ops) \<Rightarrow>
            (case submit_all (s\<lparr>cs_doc := Some d'\<rparr>) st room (zip ops (map nonces [0..<length ops])) now of
               (s1, st', out) \<Rightarrow> (s1\<lparr>cs_text := cl_toText d'\<rparr>, st', out))))"

definition sendCursor :: "ClientSession \<Rightarrow> int option \<Rightarrow> ClientMessage list" where
  "sendCursor s afterIndex =
     (let uid = (case (afterIndex, cs_doc s) of (Some i, Some d) \<Rightarrow> cl_getAfterUID d i | _ \<Rightarrow> None)
      in send s (PRESENCE \<lparr>pm_docId = cs_docId s, pm_update =
           \<lparr>u_sessionId = (case cs_sessionId s of Some i \<Rightarrow> i | None \<Rightarrow> []),
            u_cursor = Some \<lparr>afterUid = uid, anchorUid = None\<rparr>, u_isTyping = False\<rparr>\<rparr>))"

definition cs_uidToIndex :: "ClientSession \<Rightarrow> UID \<Rightarrow> int option" where
  "cs_uidToIndex s u = (case cs_doc s of None \<Rightarrow> None | Some d \<Rightarrow> cl_uidToIndex d u)"

text \<open>The effect's cleanup: the timer is cleared and the socket closed.\<close>

definition unmount :: "ClientSession \<Rightarrow> ClientSession" where
  "unmount s = s\<lparr>cs_reconnectTimer := None, cs_ws := map_option (\<lambda>_. CLOSED) (cs_ws s)\<rparr>"

text \<open>The timer's callback, \<open>connect\<close>, at time \<open>now\<close>.\<close>

definition reconnect :: "ClientSession \<Rightarrow> int \<Rightarrow> ClientSession" where
  "reconnect s now = (case cs_reconnectTimer s of
      Some t \<Rightarrow> if t \<le> now then connect (s\<lparr>cs_reconnectTimer := None\<rparr>) else s
    | None \<Rightarrow> s)"

section \<open>The session as a state machine\<close>

datatype client_event =
    Connect | Opened | Closed int int | Failed | Timer int
  | Received ServerMessage bool
  | TypeChar int js_text string int bool
  | EraseChar int string int bool
  | BatchEdit js_text js_text "nat \<Rightarrow> string" int bool
  | Unmount

type_synonym client_state = "ClientSession \<times> local_storage"

fun client_step :: "client_state \<Rightarrow> client_event \<Rightarrow> client_state \<times> ClientMessage list" where
  "client_step (s, st) Connect = ((connect s, st), [])"
| "client_step (s, st) Opened = (case onopen s of (s', out) \<Rightarrow> ((s', st), out))"
| "client_step (s, st) (Closed code now) = ((onclose s code now, st), [])"
| "client_step (s, st) Failed = ((onerror s, st), [])"
| "client_step (s, st) (Timer now) = ((reconnect s now, st), [])"
| "client_step (s, st) (Received msg room) =
     (case handleServerMessage s st room msg of (s', st', out) \<Rightarrow> ((s', st'), out))"
| "client_step (s, st) (TypeChar i ch nonce now room) =
     (case cs_localInsert s st room i ch nonce now of (s', st', out) \<Rightarrow> ((s', st'), out))"
| "client_step (s, st) (EraseChar i nonce now room) =
     (case cs_localDelete s st room i nonce now of (s', st', out) \<Rightarrow> ((s', st'), out))"
| "client_step (s, st) (BatchEdit b a nonces now room) =
     (case localBatchEdit s st room b a nonces now of (s', st', out) \<Rightarrow> ((s', st'), out))"
| "client_step (s, st) Unmount = ((unmount s, st), [])"

definition client_run :: "client_state \<Rightarrow> client_event list \<Rightarrow> client_state" where
  "client_run s evs = foldl (\<lambda>s e. fst (client_step s e)) s evs"

inductive client_reach :: "client_state \<Rightarrow> client_state \<Rightarrow> bool" for s0 where
  start: "client_reach s0 s0"
| step: "client_reach s0 s \<Longrightarrow> client_step s e = (s', out) \<Longrightarrow> client_reach s0 s'"

lemma client_reach_run: "client_reach s0 s \<Longrightarrow> client_reach s0 (client_run s evs)"
proof (induction evs arbitrary: s)
  case (Cons e evs)
  have "client_reach s0 (fst (client_step s e))"
    using Cons.prems by (metis client_reach.step prod.collapse)
  with Cons.IH show ?case by (simp add: client_run_def)
qed (simp add: client_run_def)

text \<open>How one event changes the queue: it may drop what is acknowledged and add operations with the
  next client seqs.\<close>

lemma submit_eq:
  "submit s st room x nonce now =
    (let y = \<lparr>q_clientSeq = cs_clientSeq s, q_op = x, q_nonce = nonce, q_timestamp = now, q_attempts = 1\<rparr>
     in (s\<lparr>cs_queue := (cs_queue s)\<lparr>oq_queue := oq_queue (cs_queue s) @ [y]\<rparr>\<rparr>,
         persist ((cs_queue s)\<lparr>oq_queue := oq_queue (cs_queue s) @ [y]\<rparr>) st room,
         send s (OPERATION \<lparr>msg_docId = cs_docId s, msg_clientSeq = cs_clientSeq s, msg_op = x,
           msg_vectorClock = [], msg_nonce = nonce\<rparr>)))"
  by (simp add: submit_def enqueue_def Let_def send_def)

definition seqs_ok :: "ClientSession \<Rightarrow> bool" where
  "seqs_ok s \<longleftrightarrow> distinct (map q_clientSeq (getAll (cs_queue s))) \<and>
     (\<forall>x \<in> set (getAll (cs_queue s)). q_clientSeq x \<le> cs_clientSeq s)"

definition keeps :: "ClientSession \<Rightarrow> ClientSession \<Rightarrow> bool" where
  "keeps s s' \<longleftrightarrow> (seqs_ok s \<longrightarrow> seqs_ok s') \<and> set (getAll (cs_queue s)) \<subseteq> set (getAll (cs_queue s'))"

lemma keeps_trans: "keeps s s1 \<Longrightarrow> keeps s1 s2 \<Longrightarrow> keeps s s2"
  by (auto simp: keeps_def)

lemma keeps_same: "cs_queue s' = cs_queue s \<Longrightarrow> cs_clientSeq s \<le> cs_clientSeq s' \<Longrightarrow> keeps s s'"
  by (auto simp: keeps_def seqs_ok_def)

lemma keeps_snoc:
  assumes "getAll (cs_queue s') = getAll (cs_queue s) @ [y]" "q_clientSeq y = cs_clientSeq s + 1"
    and "cs_clientSeq s' = cs_clientSeq s + 1"
  shows "keeps s s'"
proof -
  have "seqs_ok s'" if "seqs_ok s"
  proof -
    have "q_clientSeq x \<noteq> cs_clientSeq s + 1" if "x \<in> set (getAll (cs_queue s))" for x
      using \<open>seqs_ok s\<close> that by (fastforce simp: seqs_ok_def)
    with that assms show ?thesis by (fastforce simp: seqs_ok_def)
  qed
  with assms show ?thesis by (auto simp: keeps_def)
qed

lemma keeps_submit:
  assumes "submit (s\<lparr>cs_clientSeq := cs_clientSeq s + 1, cs_doc := d\<rparr>) st room x nonce now = (s1, st1, out)"
  shows "keeps s (s1\<lparr>cs_text := t\<rparr>) \<and> keeps s s1 \<and> cs_doc s1 = d \<and>
    (\<exists>y. getAll (cs_queue s1) = getAll (cs_queue s) @ [y] \<and> q_op y = x \<and> q_clientSeq y = cs_clientSeq s + 1)"
proof -
  let ?y = "\<lparr>q_clientSeq = cs_clientSeq s + 1, q_op = x, q_nonce = nonce, q_timestamp = now, q_attempts = 1\<rparr>"
  have s1: "s1 = s\<lparr>cs_clientSeq := cs_clientSeq s + 1, cs_doc := d,
      cs_queue := (cs_queue s)\<lparr>oq_queue := oq_queue (cs_queue s) @ [?y]\<rparr>\<rparr>"
    using assms by (simp add: submit_eq Let_def)
  then have "getAll (cs_queue s1) = getAll (cs_queue s) @ [?y]" "cs_clientSeq s1 = cs_clientSeq s + 1" "cs_doc s1 = d"
    by (simp_all add: getAll_def)
  moreover from this keeps_snoc [of s1 s ?y] keeps_snoc [of "s1\<lparr>cs_text := t\<rparr>" s ?y]
  have "keeps s s1" "keeps s (s1\<lparr>cs_text := t\<rparr>)" by simp_all
  ultimately show ?thesis by simp
qed

lemma submit_all_keeps:
  assumes "submit_all s st room xs now = (s1, st1, out)"
  shows "keeps s s1 \<and> cs_doc s1 = cs_doc s"
  using assms
proof (induction s st room xs now arbitrary: s1 st1 out rule: submit_all.induct)
  case (1 s st room now)
  then show ?case by (simp add: keeps_same)
next
  case (2 s st room x nonce xs now)
  obtain sa sta outa where a: "submit (s\<lparr>cs_clientSeq := cs_clientSeq s + 1\<rparr>) st room x nonce now = (sa, sta, outa)"
    by (metis prod_cases3)
  obtain sb stb outb where b: "submit_all sa sta room xs now = (sb, stb, outb)"
    by (metis prod_cases3)
  have "s\<lparr>cs_clientSeq := cs_clientSeq s + 1\<rparr> = s\<lparr>cs_clientSeq := cs_clientSeq s + 1, cs_doc := cs_doc s\<rparr>"
    by simp
  then have "keeps s sa \<and> cs_doc sa = cs_doc s"
    using keeps_submit a by metis
  moreover have "keeps sa sb \<and> cs_doc sb = cs_doc sa"
    using 2(1) [OF a [symmetric] refl b] by simp
  ultimately show ?case
    using 2(2) a b keeps_trans by auto
qed

definition text_ok :: "ClientSession \<Rightarrow> bool" where
  "text_ok s \<longleftrightarrow> (\<forall>d. cs_doc s = Some d \<longrightarrow> cs_text s = cl_toText d)"

lemma connection_keeps [simp]:
  "keeps s (connect s)" "keeps s (fst (onopen s))" "keeps s (onclose s code now)" "keeps s (onerror s)"
  "keeps s (reconnect s now)" "keeps s (unmount s)"
  by (auto intro!: keeps_same simp: connect_def onopen_def onclose_def scheduleReconnect_def onerror_def
      reconnect_def unmount_def Let_def split: option.split)

lemma connection_text [simp]:
  "text_ok (connect s) = text_ok s" "text_ok (fst (onopen s)) = text_ok s" "text_ok (onclose s code now) = text_ok s"
  "text_ok (onerror s) = text_ok s" "text_ok (reconnect s now) = text_ok s" "text_ok (unmount s) = text_ok s"
  by (auto simp: text_ok_def connect_def onopen_def onclose_def scheduleReconnect_def onerror_def
      reconnect_def unmount_def Let_def split: option.split)

lemma TypeChar_keeps:
  assumes "cs_localInsert s st room i ch nonce now = (s', st', out)"
  shows "keeps s s' \<and> (text_ok s \<longrightarrow> text_ok s')"
proof (cases "cs_doc s")
  case None
  with assms show ?thesis by (simp add: cs_localInsert_def keeps_same)
next
  case (Some d)
  obtain d' x where l: "localInsert d i ch = (d', x)" by (metis surj_pair)
  obtain s1 st1 o1 where u:
    "submit (s\<lparr>cs_clientSeq := cs_clientSeq s + 1, cs_doc := Some d'\<rparr>) st room x nonce now = (s1, st1, o1)"
    by (metis prod_cases3)
  have "s' = s1\<lparr>cs_text := cl_toText d'\<rparr>"
    using assms Some l u by (simp add: cs_localInsert_def)
  with keeps_submit [OF u] show ?thesis by (auto simp: text_ok_def)
qed

lemma EraseChar_keeps:
  assumes "cs_localDelete s st room i nonce now = (s', st', out)"
  shows "keeps s s' \<and> (text_ok s \<longrightarrow> text_ok s')"
proof (cases "cs_doc s")
  case None
  with assms show ?thesis by (simp add: cs_localDelete_def keeps_same)
next
  case (Some d)
  obtain d' y where l: "localDelete d i = (d', y)" by (metis surj_pair)
  show ?thesis
  proof (cases y)
    case None
    then have "d' = d"
      using l by (auto simp: localDelete_def split: option.splits)
    with None have "s' = s\<lparr>cs_clientSeq := cs_clientSeq s + 1, cs_doc := Some d\<rparr>"
      using assms Some l by (simp add: cs_localDelete_def)
    with Some show ?thesis by (auto simp: text_ok_def intro: keeps_same)
  next
    case x: (Some x)
    obtain s1 st1 o1 where u:
      "submit (s\<lparr>cs_clientSeq := cs_clientSeq s + 1, cs_doc := Some d'\<rparr>) st room x nonce now = (s1, st1, o1)"
      by (metis prod_cases3)
    have "s' = s1\<lparr>cs_text := cl_toText d'\<rparr>"
      using assms Some l u x by (simp add: cs_localDelete_def)
    with keeps_submit [OF u] show ?thesis by (auto simp: text_ok_def)
  qed
qed

lemma BatchEdit_keeps:
  assumes "localBatchEdit s st room b a nonces now = (s', st', out)"
  shows "keeps s s' \<and> (text_ok s \<longrightarrow> text_ok s')"
proof (cases "cs_doc s")
  case None
  with assms show ?thesis by (simp add: localBatchEdit_def keeps_same)
next
  case (Some d)
  obtain d' ops where l: "diffToOperations d b a = (d', ops)" by (metis surj_pair)
  obtain s1 st1 o1 where u:
    "submit_all (s\<lparr>cs_doc := Some d'\<rparr>) st room (zip ops (map nonces [0..<length ops])) now = (s1, st1, o1)"
    by (metis prod_cases3)
  have s': "s' = s1\<lparr>cs_text := cl_toText d'\<rparr>"
    using assms Some l u by (simp add: localBatchEdit_def)
  have "keeps s (s\<lparr>cs_doc := Some d'\<rparr>)" "keeps s1 s'"
    by (rule keeps_same; simp add: s')+
  with submit_all_keeps [OF u] show ?thesis
    by (auto simp: s' text_ok_def intro: keeps_trans)
qed

lemma Received_keeps:
  assumes "handleServerMessage s st room msg = (s', st', out)"
  shows "(if \<exists>n m t. msg = OP_ACK n m t
      then (\<exists>n m t. msg = OP_ACK n m t \<and> getAll (cs_queue s') = filter (\<lambda>x. q_clientSeq x \<noteq> n) (getAll (cs_queue s))) \<and>
        cs_clientSeq s' = cs_clientSeq s
      else keeps s s') \<and> (text_ok s \<longrightarrow> text_ok s')"
proof (cases msg)
  case (OP_ACK n m t)
  with assms show ?thesis
    by (auto simp: acknowledge_def Let_def getAll_def text_ok_def)
next
  case (BROADCAST e)
  with assms show ?thesis
    by (auto simp: Let_def text_ok_def intro!: keeps_same split: option.splits)
next
  case (JOIN_ACK ack)
  with assms show ?thesis
    by (auto simp: Let_def text_ok_def intro!: keeps_same)
qed (use assms in \<open>auto simp: text_ok_def intro!: keeps_same\<close>)

text \<open>One event: unless it is the acknowledgement of \<open>n\<close>, what is queued under \<open>n\<close> stays queued; the
  client seqs stay distinct and the text stays the document's.\<close>

lemma client_step_keeps:
  assumes "client_step (s, st) e = ((s', st'), out)"
  shows "(seqs_ok s \<longrightarrow> seqs_ok s') \<and> (text_ok s \<longrightarrow> text_ok s') \<and>
    {x \<in> set (getAll (cs_queue s)). \<forall>m t room. e \<noteq> Received (OP_ACK (q_clientSeq x) m t) room}
      \<subseteq> set (getAll (cs_queue s'))"
proof -
  have K: ?thesis if "keeps s s' \<and> (text_ok s \<longrightarrow> text_ok s')"
    using that by (auto simp: keeps_def)
  show ?thesis
  proof (cases e)
    case (Received msg room)
    then have r: "handleServerMessage s st room msg = (s', st', out)"
      using assms by (auto split: prod.splits)
    show ?thesis
    proof (cases "\<exists>n m t. msg = OP_ACK n m t")
      case True
      with Received_keeps [OF r] obtain n m t where "msg = OP_ACK n m t"
        "getAll (cs_queue s') = filter (\<lambda>x. q_clientSeq x \<noteq> n) (getAll (cs_queue s))"
        "cs_clientSeq s' = cs_clientSeq s" "text_ok s \<longrightarrow> text_ok s'" by auto
      then show ?thesis
        using Received by (auto simp: seqs_ok_def distinct_map_filter)
    next
      case False
      then show ?thesis using Received_keeps [OF r] by (intro K) auto
    qed
  next
    case (TypeChar i ch nonce now room)
    then have "cs_localInsert s st room i ch nonce now = (s', st', out)"
      using assms by (auto split: prod.splits)
    then show ?thesis by (intro K TypeChar_keeps)
  next
    case (EraseChar i nonce now room)
    then have "cs_localDelete s st room i nonce now = (s', st', out)"
      using assms by (auto split: prod.splits)
    then show ?thesis by (intro K EraseChar_keeps)
  next
    case (BatchEdit b a nonces now room)
    then have "localBatchEdit s st room b a nonces now = (s', st', out)"
      using assms by (auto split: prod.splits)
    then show ?thesis by (intro K BatchEdit_keeps)
  next
    case Opened
    then have "s' = fst (onopen s)" using assms by (auto split: prod.splits)
    then show ?thesis by (intro K) simp
  qed ((rule K, use assms in force)+)
qed

lemma client_reach_inv:
  assumes "client_reach s0 s" "seqs_ok (fst s0)" "text_ok (fst s0)"
  shows "seqs_ok (fst s) \<and> text_ok (fst s)"
  using assms(1)
proof induction
  case (step s e s' out)
  then show ?case
    using client_step_keeps [of "fst s" "snd s" e "fst s'" "snd s'" out] assms by simp
qed (use assms in simp)

section \<open>What the session promises\<close>

lemma fresh_session_ok:
  "st (STORAGE_KEY @ CHR '':'' # docId) = None \<Longrightarrow> seqs_ok (openSession docId token clientId av st) \<and>
     text_ok (openSession docId token clientId av st)"
  by (auto simp: openSession_def seqs_ok_def text_ok_def newOfflineQueue_def load_def storageKey_def getAll_def)

text \<open>The screen shows the document: in every state a session can reach, by any interleaving of
  connection events, server messages, typing, deleting and pasting, the text in the React state
  is the text of the CRDT document.\<close>

theorem screen_shows_document:
  assumes "client_reach (openSession docId token clientId av st, st) s" "cs_doc (fst s) = Some d"
  shows "cs_text (fst s) = cl_toText d"
proof -
  have "text_ok (fst s)"
    using assms(1)
  proof induction
    case start
    show ?case by (simp add: text_ok_def openSession_def)
  next
    case (step s e s' out)
    then show ?case
      using client_step_keeps [of "fst s" "snd s" e "fst s'" "snd s'" out] by simp
  qed
  with assms(2) show ?thesis by (simp add: text_ok_def)
qed

definition example_ack :: ServerMessage where
  "example_ack = JOIN_ACK \<lparr>ack_sessionId = ''s'', ack_siteId = ''a'',
     ack_snapshot = \<lparr>ack_seq = 0, ack_nodes = []\<rparr>, ack_missedOps = [], ack_presence = []\<rparr>"

definition example_start :: client_state where
  "example_start = (openSession ''d'' ''jwt'' ''a'' True Map.empty, Map.empty)"

theorem screen_shows_document_witness:
  "cs_text (fst (client_run example_start [Received example_ack True, TypeChar 0 [104] ''n'' 0 True])) =
     cl_toText (the (cs_doc (fst (client_run example_start [Received example_ack True, TypeChar 0 [104] ''n'' 0 True]))))"
proof (rule screen_shows_document)
  show "client_reach (openSession ''d'' ''jwt'' ''a'' True Map.empty, Map.empty)
      (client_run example_start [Received example_ack True, TypeChar 0 [104] ''n'' 0 True])"
    unfolding example_start_def by (rule client_reach_run) (rule client_reach.start)
  show "cs_doc (fst (client_run example_start [Received example_ack True, TypeChar 0 [104] ''n'' 0 True])) =
      Some (the (cs_doc (fst (client_run example_start [Received example_ack True, TypeChar 0 [104] ''n'' 0 True]))))"
    by (simp add: client_run_def example_start_def example_ack_def openSession_def cs_localInsert_def submit_eq Let_def
        split: prod.split)
qed

text \<open>C12: No edit is lost while offline. In a session that started without a stored queue, each queued
  edit has its own client seq, so an acknowledgement takes exactly that edit off the queue;
  whatever else happens, an edit stays queued until its acknowledgement comes, and every join
  sends all queued edits again, in order and with the nonces they had.\<close>

theorem unacknowledged_edits_resent:
  assumes "client_reach s0 s" "seqs_ok (fst s0)" "text_ok (fst s0)" "x \<in> set (getAll (cs_queue (fst s)))"
    and "\<forall>e \<in> set evs. \<forall>m t room. e \<noteq> Received (OP_ACK (q_clientSeq x) m t) room"
  shows "x \<in> set (getAll (cs_queue (fst (client_run s evs)))) \<and>
    (\<forall>y \<in> set (getAll (cs_queue (fst s))). q_clientSeq y = q_clientSeq x \<longrightarrow> y = x) \<and>
    (cs_ws (fst s) = Some OPEN \<longrightarrow>
      snd (client_step s (Received (JOIN_ACK ack) room)) =
        map (\<lambda>y. OPERATION \<lparr>msg_docId = cs_docId (fst s), msg_clientSeq = q_clientSeq y, msg_op = q_op y,
           msg_vectorClock = [], msg_nonce = q_nonce y\<rparr>) (getAll (cs_queue (fst s))))"
proof (intro conjI impI ballI)
  show "x \<in> set (getAll (cs_queue (fst (client_run s evs))))"
    using assms(4,5)
  proof (induction evs arbitrary: s)
    case Nil
    then show ?case by (simp add: client_run_def)
  next
    case (Cons e evs)
    obtain s1 out where e: "client_step s e = (s1, out)" by (metis surj_pair)
    have "x \<in> set (getAll (cs_queue (fst s1)))"
      using client_step_keeps [of "fst s" "snd s" e "fst s1" "snd s1" out] e Cons.prems by auto
    with Cons.IH [of s1] Cons.prems show ?case by (simp add: client_run_def e)
  qed
  have "distinct (map q_clientSeq (getAll (cs_queue (fst s))))"
    using client_reach_inv [OF assms(1-3)] by (simp add: seqs_ok_def)
  then show "y = x" if "y \<in> set (getAll (cs_queue (fst s)))" "q_clientSeq y = q_clientSeq x" for y
    using that assms(4) by (auto simp: distinct_map dest: inj_onD)
  have "concat (map (\<lambda>q. [f q]) qs) = map f qs" for f :: "QueuedOperation \<Rightarrow> ClientMessage" and qs
    by (induction qs) auto
  then show "snd (client_step s (Received (JOIN_ACK ack) room)) =
      map (\<lambda>y. OPERATION \<lparr>msg_docId = cs_docId (fst s), msg_clientSeq = q_clientSeq y, msg_op = q_op y,
         msg_vectorClock = [], msg_nonce = q_nonce y\<rparr>) (getAll (cs_queue (fst s)))" if "cs_ws (fst s) = Some OPEN"
    using that by (cases s) (simp add: Let_def resend_def [abs_def] send_def cong: if_cong)
qed

theorem unacknowledged_edits_resent_witness:
  "\<exists>x. x \<in> set (getAll (cs_queue (fst (client_run
      (client_run example_start [Received example_ack True, TypeChar 0 [104] ''n'' 0 True])
      [Closed 1006 5, Timer 1005, Opened]))))"
proof -
  let ?s = "client_run example_start [Received example_ack True, TypeChar 0 [104] ''n'' 0 True]"
  have reach: "client_reach example_start ?s"
    by (rule client_reach_run) (rule client_reach.start)
  have ok: "seqs_ok (fst example_start)" "text_ok (fst example_start)"
    using fresh_session_ok [of Map.empty "''d''" "''jwt''" "''a''" True] by (simp_all add: example_start_def)
  have "getAll (cs_queue (fst ?s)) \<noteq> []"
    by (simp add: client_run_def example_start_def example_ack_def openSession_def cs_localInsert_def submit_eq
        getAll_def Let_def split: prod.split)
  then obtain x where "x \<in> set (getAll (cs_queue (fst ?s)))"
    by (meson list.set_sel(1))
  from unacknowledged_edits_resent [OF reach ok this, of "[Closed 1006 5, Timer 1005, Opened]"] show ?thesis
    by auto
qed

text \<open>A page refresh breaks that. The queue comes back from the storage but the client seq
  restarts at 0, so the next edit takes the client seq of a queued one, and a single
  acknowledgement removes both: an edit the server never acknowledged leaves the queue.\<close>

theorem refresh_reuses_client_seq:
  "\<exists>evs x y. let s1 = client_run example_start evs;
        r = client_run (openSession ''d'' ''jwt'' ''a'' True (snd s1), snd s1)
              [Opened, Received example_ack True, TypeChar 0 [105] ''n2'' 1 True]
    in getAll (cs_queue (fst r)) = [x, y] \<and> q_op x \<noteq> q_op y \<and> q_nonce x \<noteq> q_nonce y \<and>
       (\<forall>m t. getAll (cs_queue (fst (fst (client_step r (Received (OP_ACK (q_clientSeq y) m t) True))))) = [])"
proof -
  let ?x = "\<lparr>q_clientSeq = 1, q_op = INSERT (UID 1 ''a'') None (JStr [104]), q_nonce = ''n'', q_timestamp = 0,
    q_attempts = 1\<rparr>"
  let ?y = "\<lparr>q_clientSeq = 1, q_op = INSERT (UID 1 ''a'') None (JStr [105]), q_nonce = ''n2'', q_timestamp = 1,
    q_attempts = 1\<rparr>"
  let ?evs = "[Received example_ack True, TypeChar 0 [104] ''n'' 0 True]"
  define f where "f = (\<lambda>ch. fst (localInsert (cl_deserialize [] ''a'' 0) 0 ch))"
  have "snd (localInsert (cl_deserialize [] ''a'' 0) 0 ch) = INSERT (UID 1 ''a'') None (JStr ch)" for ch
    by (simp add: localInsert_def cl_deserialize_def newClientRGADocument_def cl_getAfterUID_def Let_def)
  then have loc: "localInsert (cl_deserialize [] ''a'' 0) 0 ch = (f ch, INSERT (UID 1 ''a'') None (JStr ch))" for ch
    by (metis f_def prod.collapse)
  have s1: "snd (client_run example_start ?evs) = [''sync-engine:offline-queue:d'' \<mapsto> Parsed [?x]]"
    by (simp add: client_run_def example_start_def example_ack_def openSession_def cs_localInsert_def submit_eq
        Let_def loc newOfflineQueue_def load_def persist_def storageKey_def STORAGE_KEY_def getAll_def)
  let ?s1 = "client_run example_start ?evs"
  let ?r = "client_run (openSession ''d'' ''jwt'' ''a'' True (snd ?s1), snd ?s1)
      [Opened, Received example_ack True, TypeChar 0 [105] ''n2'' 1 True]"
  have r: "getAll (cs_queue (fst ?r)) = [?x, ?y]"
    unfolding s1
    by (simp add: client_run_def example_ack_def openSession_def onopen_def cs_localInsert_def submit_eq
        Let_def loc newOfflineQueue_def load_def storageKey_def STORAGE_KEY_def getAll_def)
  then have "getAll (cs_queue (fst (fst (client_step ?r (Received (OP_ACK 1 m t) True))))) = []" for m t
    by (cases ?r) (simp add: acknowledge_def getAll_def Let_def)
  then show ?thesis
    using r by - (rule exI [of _ ?evs], rule exI [of _ ?x], rule exI [of _ ?y], simp add: Let_def)
qed

text \<open>Reconnecting backs off exponentially within bounds: after a close the next attempt comes
  between one and thirty seconds later, each failure in a row doubles the delay until the cap,
  and a successful open starts over; after an authentication or permission close no new attempt
  is scheduled.\<close>

theorem reconnect_backoff:
  "(if code = 4001 \<or> code = 4003
    then cs_reconnectTimer (onclose s code now) = cs_reconnectTimer s \<and> cs_status (onclose s code now) = ErrorStatus
    else cs_reconnectTimer (onclose s code now) = Some (now + reconnectDelay (cs_reconnectAttempts s)) \<and>
      cs_reconnectAttempts (onclose s code now) = cs_reconnectAttempts s + 1) \<and>
   1000 \<le> reconnectDelay n \<and> reconnectDelay n \<le> 30000 \<and>
   (if n < 4 then reconnectDelay (n + 1) = 2 * reconnectDelay n else reconnectDelay (n + 1) = 30000) \<and>
   cs_reconnectAttempts (fst (onopen s)) = 0"
proof (intro conjI)
  show "(if code = 4001 \<or> code = 4003
    then cs_reconnectTimer (onclose s code now) = cs_reconnectTimer s \<and> cs_status (onclose s code now) = ErrorStatus
    else cs_reconnectTimer (onclose s code now) = Some (now + reconnectDelay (cs_reconnectAttempts s)) \<and>
      cs_reconnectAttempts (onclose s code now) = cs_reconnectAttempts s + 1)"
    by (auto simp: onclose_def scheduleReconnect_def Let_def)
  have "(1::int) \<le> 2 ^ n" by simp
  then show "1000 \<le> reconnectDelay n" "reconnectDelay n \<le> 30000"
    by (simp_all add: reconnectDelay_def)
  show "if n < 4 then reconnectDelay (n + 1) = 2 * reconnectDelay n else reconnectDelay (n + 1) = 30000"
  proof (cases "n < 4")
    case True
    then have "n = 0 \<or> n = 1 \<or> n = 2 \<or> n = 3" by arith
    then show ?thesis by (elim disjE) (simp_all add: reconnectDelay_def)
  next
    case False
    then have "(2::int) ^ 5 \<le> 2 ^ (n + 1)"
      by (intro power_increasing) auto
    then have "30000 \<le> 1000 * (2::int) ^ (n + 1)" by simp
    then have "reconnectDelay (n + 1) = 30000"
      unfolding reconnectDelay_def by (rule min_absorb1)
    with False show ?thesis by simp
  qed
  show "cs_reconnectAttempts (fst (onopen s)) = 0"
    by (simp add: onopen_def Let_def)
qed

text \<open>A join replaces the local document: it is rebuilt from the snapshot and the missed
  operations of the message alone, so what the browser held before - edits still in the queue
  included - is off the screen; built from no nodes at all, the document shows nothing.\<close>

theorem join_replaces_document:
  "\<exists>d. cs_doc (fst (handleServerMessage s st room (JOIN_ACK ack))) = Some d \<and>
     (\<forall>s' st' room'. cs_doc (fst (handleServerMessage s' st' room' (JOIN_ACK ack))) = Some d \<and>
        cs_text (fst (handleServerMessage s' st' room' (JOIN_ACK ack))) = cl_toText d) \<and>
     cl_toText (cl_deserialize [] site 0) = []"
  by (simp add: Let_def) (simp add: cl_deserialize_def newClientRGADocument_def cl_toText_def)

end
