(* ===== verification/Log_Interface.thy ===== *)
theory Log_Interface
  imports RGA_Convergence
begin

text \<open>
  The interface between the document cache and the event store: a log of operations per document
  with a base to replay it from. The server rebuilds a document as the base (its latest snapshot,
  or the empty document) with the later operations applied; the locale states what the store
  promises about the base and the log when an operation is appended and when a snapshot of the
  newest state is saved, and what follows for the rebuilt document.
\<close>

locale event_log =
  fixes ok :: "'db \<Rightarrow> bool"
    and base :: "'db \<Rightarrow> string \<Rightarrow> RGADocument \<times> int"
    and after :: "'db \<Rightarrow> string \<Rightarrow> int \<Rightarrow> RGAOperation list"
    and top :: "'db \<Rightarrow> string \<Rightarrow> int"
    and appended :: "'db \<Rightarrow> string \<Rightarrow> RGAOperation \<Rightarrow> 'db \<Rightarrow> bool"
    and saved :: "'db \<Rightarrow> string \<Rightarrow> RGADocument \<Rightarrow> 'db \<Rightarrow> bool"
  assumes base_range: "ok db \<Longrightarrow> 0 \<le> snd (base db d) \<and> snd (base db d) \<le> top db d"
    and length_after: "ok db \<Longrightarrow> 0 \<le> a \<Longrightarrow> length (after db d a) = nat (top db d - a)"
    and after_split: "ok db \<Longrightarrow> 0 \<le> a \<Longrightarrow> a \<le> b \<Longrightarrow> b \<le> top db d \<Longrightarrow>
      \<exists>xs. after db d a = xs @ after db d b \<and> int (length xs) = b - a"
    and append_ok: "ok db \<Longrightarrow> appended db d x db' \<Longrightarrow> ok db' \<and> base db' e = base db e"
    and append_after: "ok db \<Longrightarrow> appended db d x db' \<Longrightarrow> 0 \<le> a \<Longrightarrow> a \<le> top db e \<Longrightarrow>
      after db' e a = after db e a @ (if e = d then [x] else [])"
    and save_ok: "ok db \<Longrightarrow> saved db d D db' \<Longrightarrow> ok db' \<and> top db' e = top db e \<and>
      after db' e a = after db e a \<and> base db' e = (if e = d then (D, top db d) else base db e)"
begin

definition replica :: "'db \<Rightarrow> string \<Rightarrow> RGADocument" where
  "replica db d = applyAll (fst (base db d)) (after db d (snd (base db d)))"

definition pending :: "'db \<Rightarrow> string \<Rightarrow> int" where
  "pending db d = top db d - snd (base db d)"

lemma pending_nonneg: "ok db \<Longrightarrow> 0 \<le> pending db d"
  using base_range by (simp add: pending_def)

lemma length_pending: "ok db \<Longrightarrow> int (length (after db d (snd (base db d)))) = pending db d"
  using base_range by (simp add: pending_def length_after)

lemma top_nonneg: "ok db \<Longrightarrow> 0 \<le> top db d"
  using base_range by (metis order_trans)

lemma top_append: "ok db \<Longrightarrow> appended db d x db' \<Longrightarrow> top db' e = top db e + (if e = d then 1 else 0)"
proof -
  assume a: "ok db" "appended db d x db'"
  then have ok': "ok db'" using append_ok by blast
  have "length (after db' e 0) = length (after db e 0) + (if e = d then 1 else 0)"
    using append_after [OF a, of 0 e] top_nonneg [OF a(1)] by simp
  then have "nat (top db' e) = nat (top db e) + (if e = d then 1 else 0)"
    using length_after [OF ok', of 0] length_after [OF a(1), of 0] by simp
  then show ?thesis
    using top_nonneg [OF a(1), of e] top_nonneg [OF ok', of e] by (simp split: if_splits)
qed

lemma after_top: "ok db \<Longrightarrow> after db d (top db d) = []"
  using length_after [of db "top db d" d] top_nonneg by simp

lemma replica_append:
  assumes "ok db" "appended db d x db'"
  shows "replica db' e = (if e = d then applyOp (replica db e) x else replica db e)"
    and "pending db' e = pending db e + (if e = d then 1 else 0)"
proof -
  have b: "base db' e = base db e" using append_ok assms by blast
  show "replica db' e = (if e = d then applyOp (replica db e) x else replica db e)"
    using append_after [OF assms, of "snd (base db e)" e] base_range [OF assms(1), of e] by (simp add: replica_def b)
  show "pending db' e = pending db e + (if e = d then 1 else 0)"
    using top_append [OF assms] by (simp add: pending_def b)
qed

lemma replica_save:
  assumes "ok db" "saved db d D db'"
  shows "replica db' e = (if e = d then D else replica db e)"
    and "pending db' e = (if e = d then 0 else pending db e)"
  using save_ok [OF assms] after_top [OF assms(1)] by (auto simp: replica_def pending_def)

text \<open>A replica that stands at a seq is brought up to date by the operations after it.\<close>

lemma replica_catch_up:
  assumes "ok db" "snd (base db d) \<le> s" "s \<le> top db d"
  shows "\<exists>xs. int (length xs) = s - snd (base db d) \<and>
    replica db d = applyAll (applyAll (fst (base db d)) xs) (after db d s)"
proof -
  obtain xs where "after db d (snd (base db d)) = xs @ after db d s" "int (length xs) = s - snd (base db d)"
    using after_split [OF assms(1) _ assms(2,3)] base_range [OF assms(1)] by blast
  then show ?thesis by (auto simp: replica_def)
qed

end

text \<open>A store that drops old snapshots, but never the base.\<close>

locale compacting_log = event_log +
  fixes pruned :: "'a \<Rightarrow> string \<Rightarrow> 'a \<Rightarrow> bool"
  assumes prune_ok: "ok db \<Longrightarrow> pruned db d db' \<Longrightarrow>
    ok db' \<and> top db' e = top db e \<and> after db' e a = after db e a \<and> base db' e = base db e"
begin

lemma replica_prune:
  assumes "ok db" "pruned db d db'"
  shows "replica db' e = replica db e" "pending db' e = pending db e"
  using prune_ok [OF assms] by (simp_all add: replica_def pending_def)

lemma replica_compact:
  assumes "ok db" "saved db d D db1" "pruned db1 d db'"
  shows "ok db'" "top db' e = top db e" "replica db' e = (if e = d then D else replica db e)"
    "pending db' e = (if e = d then 0 else pending db e)"
  using save_ok [OF assms(1,2)] prune_ok [OF _ assms(3)] replica_save [OF assms(1,2)] replica_prune [OF _ assms(3)]
  by simp_all

end

end
