(* ===== verification/Event_Store.thy ===== *)
theory Event_Store
  imports RGA_Queries Log_Interface
begin

text \<open>
  The event store: \<^verbatim>\<open>src/server/persistence/operation-store.ts\<close>, \<^verbatim>\<open>snapshot-store.ts\<close> and the
  parts of \<^verbatim>\<open>schema.sql\<close> they use (the tables, their constraints, \<open>next_doc_seq\<close>). A table is
  the list of its rows, a query is a list function, and a statement that violates a constraint
  leaves the database as it was. Generated UUIDs, times and the SHA-256 digest are arguments;
  a \<open>BIGINT\<close> column reaches the code as decimal text. The lemmas show that a document's sequence
  numbers are gapless, that loading returns the log in order, and what a snapshot holds.
\<close>

section \<open>Tables\<close>

record OperationRow =
  row_id :: string
  row_doc_id :: string
  row_session_id :: string
  row_user_id :: string
  row_seq :: int
  row_client_seq :: int
  row_op_type :: string
  row_op_data :: RGAOperation
  row_vector_clock :: VectorClock
  row_nonce :: string
  row_created_at :: string

record SnapshotRow =
  srow_id :: string
  srow_doc_id :: string
  srow_seq :: int
  srow_data :: "SerializedRGANode list"
  srow_text_hash :: string
  srow_node_count :: nat
  srow_char_count :: nat
  srow_created_at :: string

record RevisionRow =
  rrow_id :: string
  rrow_doc_id :: string
  rrow_seq :: int
  rrow_label :: "string option"
  rrow_created_by :: string
  rrow_created_at :: string

record AuditRow =
  aud_doc_id :: string
  aud_user_id :: string
  aud_action :: string
  aud_targetSeq :: int
  aud_newSeq :: int

record UserRow =
  usr_id :: string
  usr_display_name :: string
  usr_color :: string

record Database =
  db_users :: "UserRow list"
  db_documents :: "(string \<times> string) list"
  db_operations :: "OperationRow list"
  db_sequences :: "string \<rightharpoonup> int"
  db_snapshots :: "SnapshotRow list"
  db_revisions :: "RevisionRow list"
  db_audit :: "AuditRow list"

datatype db_error = CheckViolation | UniqueViolation | ForeignKeyViolation | SnapshotConflict
  | CommitFailed | ConnectionLost | PublishFailed | NotNullViolation | InvalidParameter
  | InFailedTransaction

definition document_exists :: "Database \<Rightarrow> string \<Rightarrow> bool" where
  "document_exists db d \<longleftrightarrow> d \<in> fst ` set (db_documents db)"

definition user_exists :: "Database \<Rightarrow> string \<Rightarrow> bool" where
  "user_exists db u \<longleftrightarrow> u \<in> usr_id ` set (db_users db)"

definition next_doc_seq :: "Database \<Rightarrow> string \<Rightarrow> Database \<times> int" where
  "next_doc_seq db d =
     (let seqs = (if db_sequences db d = None then (db_sequences db)(d \<mapsto> 0) else db_sequences db);
          v = the (seqs d) + 1
      in (db\<lparr>db_sequences := seqs(d \<mapsto> v)\<rparr>, v))"

section \<open>The operation store\<close>

definition rowToEnvelope :: "OperationRow \<Rightarrow> OperationEnvelope" where
  "rowToEnvelope r = \<lparr>env_id = row_id r, env_docId = row_doc_id r, env_sessionId = row_session_id r,
     env_userId = row_user_id r, env_op = row_op_data r, env_seq = parseInt (show_int (row_seq r)),
     env_clientSeq = parseInt (show_int (row_client_seq r)), env_timestamp = row_created_at r,
     env_vectorClock = row_vector_clock r, env_nonce = row_nonce r\<rparr>"

record AppendParams =
  ap_docId :: string
  ap_sessionId :: string
  ap_userId :: string
  ap_clientSeq :: int
  ap_op :: RGAOperation
  ap_vectorClock :: VectorClock
  ap_nonce :: string

definition appendOperation ::
  "Database \<Rightarrow> AppendParams \<Rightarrow> string \<Rightarrow> string \<Rightarrow> db_error + Database \<times> OperationEnvelope" where
  "appendOperation db ps uuid now =
     (if op_type (ap_op ps) \<notin> {''INSERT'', ''DELETE'', ''ROLLBACK''} then Inl CheckViolation
      else if \<not> document_exists db (ap_docId ps) then Inl ForeignKeyViolation
      else if \<not> user_exists db (ap_userId ps) then Inl ForeignKeyViolation
      else case next_doc_seq db (ap_docId ps) of (db1, seq) \<Rightarrow>
        if (\<exists>r \<in> set (db_operations db1). row_doc_id r = ap_docId ps \<and> row_seq r = seq) then Inl UniqueViolation
        else let row = \<lparr>row_id = uuid, row_doc_id = ap_docId ps, row_session_id = ap_sessionId ps,
                   row_user_id = ap_userId ps, row_seq = seq, row_client_seq = ap_clientSeq ps,
                   row_op_type = op_type (ap_op ps), row_op_data = ap_op ps,
                   row_vector_clock = ap_vectorClock ps, row_nonce = ap_nonce ps, row_created_at = now\<rparr>
             in Inr (db1\<lparr>db_operations := db_operations db1 @ [row]\<rparr>, rowToEnvelope row))"

text \<open>\<open>WHERE doc_id = $1\<close> and \<open>ORDER BY seq ASC\<close>.\<close>

definition doc_rows :: "Database \<Rightarrow> string \<Rightarrow> OperationRow list" where
  "doc_rows db d = filter (\<lambda>r. row_doc_id r = d) (db_operations db)"

definition loadOperationsAfterSeq :: "Database \<Rightarrow> string \<Rightarrow> int \<Rightarrow> nat \<Rightarrow> OperationEnvelope list" where
  "loadOperationsAfterSeq db d afterSeq limit =
     map rowToEnvelope (take limit (sort_key row_seq (filter (\<lambda>r. row_seq r > afterSeq) (doc_rows db d))))"

definition defaultLoadLimit :: nat where
  "defaultLoadLimit = 10000"

definition loadOperationsInRange :: "Database \<Rightarrow> string \<Rightarrow> int \<Rightarrow> int \<Rightarrow> OperationEnvelope list" where
  "loadOperationsInRange db d fromSeq toSeq =
     map rowToEnvelope (sort_key row_seq (filter (\<lambda>r. row_seq r \<ge> fromSeq \<and> row_seq r \<le> toSeq) (doc_rows db d)))"

definition max_seq :: "int list \<Rightarrow> int option" where
  "max_seq xs = (case xs of [] \<Rightarrow> None | x # ys \<Rightarrow> Some (foldl max x ys))"

definition getMaxSeq :: "Database \<Rightarrow> string \<Rightarrow> int" where
  "getMaxSeq db d = parseInt (case max_seq (map row_seq (doc_rows db d)) of
      Some m \<Rightarrow> show_int m | None \<Rightarrow> ''0'')"

definition nonceExists :: "Database \<Rightarrow> string \<Rightarrow> bool" where
  "nonceExists db nonce =
     (parseInt (show_int (int (length (filter (\<lambda>r. row_nonce r = nonce) (db_operations db))))) > 0)"

text \<open>The inner join with \<open>users\<close> and \<open>LIMIT ... OFFSET ...\<close>, newest first.\<close>

definition user_of :: "Database \<Rightarrow> string \<Rightarrow> UserRow option" where
  "user_of db u = find (\<lambda>r. usr_id r = u) (db_users db)"

definition history_rows :: "Database \<Rightarrow> string \<Rightarrow> nat \<Rightarrow> nat \<Rightarrow> OperationRow list" where
  "history_rows db d page pageSize =
     take pageSize (drop (page * pageSize)
       (rev (sort_key row_seq (filter (\<lambda>r. user_of db (row_user_id r) \<noteq> None) (doc_rows db d)))))"

definition queryHistory :: "Database \<Rightarrow> string \<Rightarrow> nat \<Rightarrow> nat \<Rightarrow> OperationEnvelope list \<times> int" where
  "queryHistory db d page pageSize =
     (map rowToEnvelope (history_rows db d page pageSize),
      parseInt (show_int (int (length (doc_rows db d)))))"

section \<open>The snapshot store\<close>

definition rowToRecord :: "SnapshotRow \<Rightarrow> SnapshotRecord" where
  "rowToRecord r = \<lparr>snap_id = srow_id r, snap_docId = srow_doc_id r,
     snap_seq = parseInt (show_int (srow_seq r)), snap_data = srow_data r,
     snap_textHash = srow_text_hash r, snap_createdAt = srow_created_at r\<rparr>"

definition doc_snapshots :: "Database \<Rightarrow> string \<Rightarrow> SnapshotRow list" where
  "doc_snapshots db d = filter (\<lambda>r. srow_doc_id r = d) (db_snapshots db)"

text \<open>\<open>ORDER BY seq DESC LIMIT 1\<close>.\<close>

definition newest :: "SnapshotRow list \<Rightarrow> SnapshotRow option" where
  "newest rs = (case rev (sort_key srow_seq rs) of [] \<Rightarrow> None | r # _ \<Rightarrow> Some r)"

definition loadLatestSnapshot :: "Database \<Rightarrow> string \<Rightarrow> SnapshotRecord option" where
  "loadLatestSnapshot db d = map_option rowToRecord (newest (doc_snapshots db d))"

definition loadSnapshotBefore :: "Database \<Rightarrow> string \<Rightarrow> int \<Rightarrow> SnapshotRecord option" where
  "loadSnapshotBefore db d targetSeq =
     map_option rowToRecord (newest (filter (\<lambda>r. srow_seq r \<le> targetSeq) (doc_snapshots db d)))"

definition listSnapshots :: "Database \<Rightarrow> string \<Rightarrow> SnapshotRecord list" where
  "listSnapshots db d =
     map (\<lambda>r. (rowToRecord r)\<lparr>snap_data := []\<rparr>) (rev (sort_key srow_seq (doc_snapshots db d)))"

definition saveSnapshot ::
  "(js_text \<Rightarrow> string) \<Rightarrow> Database \<Rightarrow> string \<Rightarrow> RGADocument \<Rightarrow> int \<Rightarrow> string \<Rightarrow> string \<Rightarrow>
     db_error + Database \<times> SnapshotRecord" where
  "saveSnapshot sha256 db d doc seq uuid now =
     (let nodes = serialize doc; txt = toText doc; textHash = sha256 txt
      in if \<not> document_exists db d then Inl ForeignKeyViolation
         else if (\<exists>r \<in> set (doc_snapshots db d). srow_seq r = seq) then
           (case loadLatestSnapshot db d of
              Some existing \<Rightarrow> if snap_seq existing = seq then Inr (db, existing) else Inl SnapshotConflict
            | None \<Rightarrow> Inl SnapshotConflict)
         else
           let row = \<lparr>srow_id = uuid, srow_doc_id = d, srow_seq = seq, srow_data = nodes,
                 srow_text_hash = textHash, srow_node_count = length nodes, srow_char_count = length txt,
                 srow_created_at = now\<rparr>
           in Inr (db\<lparr>db_snapshots := db_snapshots db @ [row]\<rparr>, rowToRecord row))"

definition verifySnapshot :: "(js_text \<Rightarrow> string) \<Rightarrow> SnapshotRecord \<Rightarrow> bool" where
  "verifySnapshot sha256 snapshot =
     (let doc = deserialize (snap_data snapshot); txt = toText doc
      in sha256 txt = snap_textHash snapshot)"

section \<open>The log is gapless\<close>

definition log_ok :: "Database \<Rightarrow> string \<Rightarrow> bool" where
  "log_ok db d \<longleftrightarrow> map row_seq (doc_rows db d) = [1..int (length (doc_rows db d))] \<and>
     (case db_sequences db d of None \<Rightarrow> 0 | Some v \<Rightarrow> v) = int (length (doc_rows db d)) \<and>
     distinct (map srow_seq (doc_snapshots db d))"

definition wf_db :: "Database \<Rightarrow> bool" where
  "wf_db db \<longleftrightarrow> (\<forall>d. log_ok db d) \<and> (\<forall>r \<in> set (db_operations db). user_exists db (row_user_id r))"

lemma upto_snoc: "0 \<le> n \<Longrightarrow> [1..n + 1] = [1..n] @ [n + 1 :: int]"
  using upto_rec2 [of 1 "n + 1"] by simp

lemma keys_snoc:
  assumes "map f (xs @ [x]) = [1..int (length (xs @ [x]))]"
  shows "map f xs = [1..int (length xs)]" "f x = int (length xs) + 1"
proof -
  have "int (length (xs @ [x])) = int (length xs) + 1" by simp
  then have "map f xs @ [f x] = [1..int (length xs)] @ [int (length xs) + 1]"
    using assms upto_snoc [of "int (length xs)"] by (simp del: length_append)
  then show "map f xs = [1..int (length xs)]" "f x = int (length xs) + 1" by simp_all
qed

lemma filter_after:
  assumes "map f xs = [1..int (length xs)]" "0 \<le> a"
  shows "filter (\<lambda>r. f r > a) xs = drop (nat a) xs"
  using assms(1)
proof (induction xs rule: rev_induct)
  case (snoc x xs)
  note k = keys_snoc [OF snoc.prems]
  show ?case
  proof (cases "nat a \<le> length xs")
    case True
    then show ?thesis using snoc.IH [OF k(1)] k(2) assms(2) by simp
  next
    case False
    then show ?thesis using snoc.IH [OF k(1)] k(2) assms(2) by simp
  qed
qed simp

lemma filter_upto:
  assumes "map f xs = [1..int (length xs)]"
  shows "filter (\<lambda>r. f r \<le> b) xs = take (nat b) xs"
  using assms
proof (induction xs rule: rev_induct)
  case (snoc x xs)
  note k = keys_snoc [OF snoc.prems]
  then show ?case
    using snoc.IH [OF k(1)] by (cases "int (length xs) + 1 \<le> b") auto
qed simp

lemma keys_take:
  assumes "map f xs = [1..int (length xs)]"
  shows "map f (take m xs) = [1..int (length (take m xs))]"
  using assms
proof (induction xs rule: rev_induct)
  case (snoc x xs)
  show ?case
  proof (cases "m \<le> length xs")
    case True
    then show ?thesis using snoc.IH [OF keys_snoc(1) [OF snoc.prems]] by simp
  next
    case False
    then show ?thesis using snoc.prems by simp
  qed
qed simp

lemma sort_key_id: "sorted (map f xs) \<Longrightarrow> sort_key f xs = xs"
  by (induction xs) (auto simp: insort_is_Cons)

lemma sorted_seqs:
  assumes "map row_seq rs = [1..int (length rs)]"
  shows "sorted (map row_seq rs)"
  unfolding assms by simp

lemma sorted_seqs_filter:
  assumes "map row_seq rs = [1..int (length rs)]"
  shows "sort_key row_seq (filter P rs) = filter P rs"
  using sorted_seqs [OF assms] by (intro sort_key_id) (simp add: sorted_filter)

lemma log_okD: "wf_db db \<Longrightarrow> map row_seq (doc_rows db d) = [1..int (length (doc_rows db d))]"
  by (simp add: wf_db_def log_ok_def)

lemma rowToEnvelope_simps [simp, store_simps]:
  "env_seq (rowToEnvelope r) = row_seq r" "env_op (rowToEnvelope r) = row_op_data r"
  "env_nonce (rowToEnvelope r) = row_nonce r" "env_docId (rowToEnvelope r) = row_doc_id r"
  by (simp_all add: rowToEnvelope_def)

lemma load_after [store_simps]:
  assumes "wf_db db" "0 \<le> a"
  shows "loadOperationsAfterSeq db d a limit = map rowToEnvelope (take limit (drop (nat a) (doc_rows db d)))"
  unfolding loadOperationsAfterSeq_def sorted_seqs_filter [OF log_okD [OF assms(1)]]
  unfolding filter_after [OF log_okD [OF assms(1)] assms(2)] ..

lemma load_range [store_simps]:
  assumes "wf_db db" "1 \<le> a" "a - 1 \<le> b"
  shows "loadOperationsInRange db d a b = map rowToEnvelope (take (nat (b - a + 1)) (drop (nat (a - 1)) (doc_rows db d)))"
proof -
  let ?rs = "doc_rows db d"
  note k = log_okD [OF assms(1), of d]
  have "filter (\<lambda>r. row_seq r \<ge> a \<and> row_seq r \<le> b) ?rs = filter (\<lambda>r. row_seq r > a - 1) (filter (\<lambda>r. row_seq r \<le> b) ?rs)"
    by (simp add: filter_filter) (intro filter_cong; auto)
  also have "\<dots> = filter (\<lambda>r. row_seq r > a - 1) (take (nat b) ?rs)"
    by (simp add: filter_upto [OF k])
  also have "\<dots> = drop (nat (a - 1)) (take (nat b) ?rs)"
  proof (rule filter_after)
    show "map row_seq (take (nat b) ?rs) = [1..int (length (take (nat b) ?rs))]"
      by (rule keys_take) (rule k)
  qed (use assms(2) in simp)
  also have "\<dots> = take (nat (b - a + 1)) (drop (nat (a - 1)) ?rs)"
  proof -
    have "nat b - nat (a - 1) = nat (b - a + 1)" using assms(2,3) by simp
    then show ?thesis by (simp add: take_drop [symmetric] drop_take)
  qed
  finally show ?thesis
    unfolding loadOperationsInRange_def sorted_seqs_filter [OF k] by simp
qed

lemma foldl_max_upto: "xs = [1..n] \<Longrightarrow> max_seq xs = (if n \<le> 0 then None else Some n)"
proof -
  have "foldl max m [m + 1..k] = max m k" for m k :: int
  proof (induction "nat (k - m)" arbitrary: m)
    case 0
    then show ?case by (simp add: max_def)
  next
    case (Suc j)
    then have "[m + 1..k] = (m + 1) # [m + 1 + 1..k]" "j = nat (k - (m + 1))"
      by (simp_all add: upto_rec1)
    with Suc(1) [of "m + 1"] Suc(2) show ?case by (simp add: max_def)
  qed
  from this [of 1 n] show "xs = [1..n] \<Longrightarrow> max_seq xs = (if n \<le> 0 then None else Some n)"
    by (auto simp: max_seq_def upto_rec1 [of 1 n])
qed

lemma parseInt_zero: "parseInt ''0'' = 0"
  by (simp add: parse_digits_def)

lemma getMaxSeq_length [store_simps]: "wf_db db \<Longrightarrow> getMaxSeq db d = int (length (doc_rows db d))"
  using foldl_max_upto [OF log_okD [of db d]] parseInt_zero
  by (simp add: getMaxSeq_def del: parseInt.simps)

definition valid_params :: "Database \<Rightarrow> AppendParams \<Rightarrow> bool" where
  "valid_params db ps \<longleftrightarrow> op_type (ap_op ps) \<in> {''INSERT'', ''DELETE'', ''ROLLBACK''} \<and>
     document_exists db (ap_docId ps) \<and> user_exists db (ap_userId ps)"

text \<open>What a successful append does, as one equation.\<close>

lemma append_result:
  assumes "wf_db db" "valid_params db ps"
  shows "\<exists>db' row. appendOperation db ps uuid now = Inr (db', rowToEnvelope row) \<and> wf_db db' \<and>
    row_seq row = int (length (doc_rows db (ap_docId ps))) + 1 \<and> row_op_data row = ap_op ps \<and>
    row_doc_id row = ap_docId ps \<and> row_user_id row = ap_userId ps \<and> row_nonce row = ap_nonce ps \<and>
    row_op_type row = op_type (ap_op ps) \<and>
    db_operations db' = db_operations db @ [row] \<and> db_snapshots db' = db_snapshots db \<and>
    db_users db' = db_users db \<and> db_documents db' = db_documents db \<and>
    db_revisions db' = db_revisions db \<and> db_audit db' = db_audit db"
proof -
  let ?d = "ap_docId ps" and ?n = "int (length (doc_rows db (ap_docId ps)))"
  have ok: "log_ok db d" for d using assms(1) by (simp add: wf_db_def)
  obtain db1 seq where s: "next_doc_seq db ?d = (db1, seq)" by (metis surj_pair)
  have seq: "seq = ?n + 1" and db1: "db1 = db\<lparr>db_sequences := (db_sequences db)(?d \<mapsto> ?n + 1)\<rparr>"
    using s ok [of ?d] by (auto simp: next_doc_seq_def Let_def log_ok_def split: if_splits option.splits)
  define row where "row = \<lparr>row_id = uuid, row_doc_id = ap_docId ps, row_session_id = ap_sessionId ps,
    row_user_id = ap_userId ps, row_seq = seq, row_client_seq = ap_clientSeq ps,
    row_op_type = op_type (ap_op ps), row_op_data = ap_op ps,
    row_vector_clock = ap_vectorClock ps, row_nonce = ap_nonce ps, row_created_at = now\<rparr>"
  have "row_seq r \<in> set [1..?n]" if "r \<in> set (doc_rows db ?d)" for r
    using ok [of ?d] that by (metis image_eqI list.set_map log_ok_def)
  then have fresh: "\<not> (\<exists>r \<in> set (db_operations db1). row_doc_id r = ?d \<and> row_seq r = seq)"
    by (fastforce simp: db1 seq doc_rows_def)
  let ?db = "db1\<lparr>db_operations := db_operations db1 @ [row]\<rparr>"
  have "appendOperation db ps uuid now = Inr (?db, rowToEnvelope row)"
    using assms(2) s fresh unfolding valid_params_def
    by (simp add: appendOperation_def Let_def row_def)
  moreover have "log_ok ?db d" for d
    using ok [of d] upto_snoc [of ?n] seq
    by (auto simp: log_ok_def doc_rows_def doc_snapshots_def db1 row_def)
  then have "wf_db ?db"
    using assms by (auto simp: wf_db_def user_exists_def db1 row_def valid_params_def)
  ultimately show ?thesis
    using seq by - (rule exI [of _ ?db], rule exI [of _ row], simp add: row_def db1)
qed

text \<open>C15: The server's sequence numbers are gapless. Appending an operation to a document whose log
  is \<open>1, ..., n\<close> never fails on a constraint and gives it \<open>n + 1\<close>, whatever is appended to other
  documents; the log only grows, and asking for what came after \<open>n\<close> returns exactly the new
  operation.\<close>

theorem append_is_gapless:
  assumes "wf_db db" "valid_params db ps" "0 < limit"
  shows "\<exists>db' env. appendOperation db ps uuid now = Inr (db', env) \<and> wf_db db' \<and>
    env_seq env = getMaxSeq db (ap_docId ps) + 1 \<and> env_op env = ap_op ps \<and>
    loadOperationsAfterSeq db' (ap_docId ps) (getMaxSeq db (ap_docId ps)) limit = [env] \<and>
    loadOperationsInRange db' (ap_docId ps) 1 (getMaxSeq db' (ap_docId ps)) =
      loadOperationsInRange db (ap_docId ps) 1 (getMaxSeq db (ap_docId ps)) @ [env] \<and>
    (if d = ap_docId ps then True else doc_rows db' d = doc_rows db d)"
proof -
  let ?d = "ap_docId ps"
  obtain db' row where r: "appendOperation db ps uuid now = Inr (db', rowToEnvelope row)" "wf_db db'"
    "row_seq row = int (length (doc_rows db ?d)) + 1" "row_op_data row = ap_op ps" "row_doc_id row = ?d"
    "db_operations db' = db_operations db @ [row]"
    using append_result [OF assms(1,2)] by metis
  then have rows: "doc_rows db' e = doc_rows db e @ (if e = ?d then [row] else [])" for e
    by (simp add: doc_rows_def)
  show ?thesis
    using r assms(1,3) by - (rule exI [of _ db'], rule exI [of _ "rowToEnvelope row"], simp add: store_simps rows)
qed

definition example_db :: Database where
  "example_db = \<lparr>db_users = [\<lparr>usr_id = ''u'', usr_display_name = ''U'', usr_color = ''#000000''\<rparr>],
     db_documents = [(''d'', ''u'')], db_operations = [], db_sequences = Map.empty, db_snapshots = [],
     db_revisions = [], db_audit = []\<rparr>"

definition example_params :: "RGAOperation \<Rightarrow> AppendParams" where
  "example_params x = \<lparr>ap_docId = ''d'', ap_sessionId = ''s'', ap_userId = ''u'', ap_clientSeq = 1, ap_op = x,
     ap_vectorClock = [], ap_nonce = ''n''\<rparr>"

lemma example_db_ok: "wf_db example_db" "valid_params example_db (example_params (DELETE uA))"
  "valid_params example_db (example_params (INSERT u a v))"
  by (simp_all add: wf_db_def log_ok_def example_db_def doc_rows_def doc_snapshots_def valid_params_def
      example_params_def document_exists_def user_exists_def)

theorem append_is_gapless_witness:
  "\<exists>db' env. appendOperation example_db (example_params (DELETE uA)) ''id'' ''t'' = Inr (db', env) \<and>
    env_seq env = getMaxSeq example_db ''d'' + 1"
  using append_is_gapless [OF example_db_ok(1,2), of 1 "''id''" "''t''" "''d''"]
  by (auto simp: example_params_def)

section \<open>Snapshots\<close>

lemma newest_None [simp]: "newest rs = None \<longleftrightarrow> rs = []"
  by (auto simp: newest_def split: list.split) (metis length_0_conv length_rev length_sort list.size(3))

lemma newest_Nil [simp]: "newest [] = None"
  by simp

lemma newest_Some:
  assumes "newest rs = Some r"
  shows "r \<in> set rs \<and> (\<forall>q \<in> set rs. srow_seq q \<le> srow_seq r)"
proof -
  obtain xs where xs: "rev (sort_key srow_seq rs) = r # xs"
    using assms by (auto simp: newest_def split: list.splits)
  then have s: "sort_key srow_seq rs = rev xs @ [r]"
    by (metis rev.simps(2) rev_rev_ident)
  have "sorted (map srow_seq (rev xs @ [r]))"
    using sorted_sort_key [of srow_seq rs] unfolding s .
  moreover have "set rs = set (rev xs @ [r])"
    using s by (metis set_sort)
  ultimately show ?thesis by (auto simp: sorted_append)
qed

lemma newest_unique:
  assumes "distinct (map srow_seq rs)" "r \<in> set rs" "\<forall>q \<in> set rs. srow_seq q \<le> srow_seq r"
  shows "newest rs = Some r"
proof -
  obtain s where s: "newest rs = Some s"
    using assms(2) by (cases "newest rs") auto
  then have "srow_seq s = srow_seq r" "s \<in> set rs"
    using newest_Some [OF s] assms(2,3) by (auto intro: antisym)
  then show ?thesis
    using s assms(1,2) by (metis distinct_map inj_onD)
qed

lemma rowToRecord_simps [simp, store_simps]:
  "snap_seq (rowToRecord r) = srow_seq r" "snap_data (rowToRecord r) = srow_data r"
  "snap_textHash (rowToRecord r) = srow_text_hash r"
  by (simp_all add: rowToRecord_def)

lemma wf_db_add_snapshot:
  assumes "wf_db db" "srow_seq s \<notin> srow_seq ` set (doc_snapshots db (srow_doc_id s))"
    and "db_operations db' = db_operations db" "db_sequences db' = db_sequences db" "db_users db' = db_users db"
    and "db_snapshots db' = db_snapshots db @ [s]"
  shows "wf_db db'"
proof -
  have "doc_rows db' d = doc_rows db d" for d
    by (simp add: doc_rows_def assms(3))
  moreover have "distinct (map srow_seq (doc_snapshots db' d))" for d
  proof -
    have "distinct (map srow_seq (doc_snapshots db d))"
      using assms(1) by (simp add: wf_db_def log_ok_def)
    moreover have "doc_snapshots db' d = doc_snapshots db d @ (if srow_doc_id s = d then [s] else [])"
      by (simp add: doc_snapshots_def assms(6))
    ultimately show ?thesis using assms(2) by (cases "srow_doc_id s = d") simp_all
  qed
  ultimately show ?thesis
    using assms(1,3-5) by (simp add: wf_db_def log_ok_def user_exists_def)
qed

text \<open>A save under a new seq adds one row.\<close>

lemma save_result:
  assumes "wf_db db" "document_exists db d" "\<forall>r \<in> set (doc_snapshots db d). srow_seq r \<noteq> seq"
  shows "\<exists>db' row. saveSnapshot sha256 db d doc seq uuid now = Inr (db', rowToRecord row) \<and> wf_db db' \<and>
    db' = db\<lparr>db_snapshots := db_snapshots db @ [row]\<rparr> \<and> srow_doc_id row = d \<and> srow_seq row = seq \<and>
    srow_data row = serialize doc \<and> srow_text_hash row = sha256 (toText doc)"
proof -
  define row where "row = \<lparr>srow_id = uuid, srow_doc_id = d, srow_seq = seq, srow_data = serialize doc,
    srow_text_hash = sha256 (toText doc), srow_node_count = length (serialize doc),
    srow_char_count = length (toText doc), srow_created_at = now\<rparr>"
  let ?db = "db\<lparr>db_snapshots := db_snapshots db @ [row]\<rparr>"
  have "saveSnapshot sha256 db d doc seq uuid now = Inr (?db, rowToRecord row)"
    using assms(2,3) by (auto simp: saveSnapshot_def Let_def row_def)
  moreover have "wf_db ?db"
    using assms(1,3) unfolding wf_db_def log_ok_def
    by (auto simp: doc_rows_def doc_snapshots_def row_def user_exists_def)
  ultimately show ?thesis
    by - (rule exI [of _ ?db], rule exI [of _ row], simp add: row_def)
qed

text \<open>A saved snapshot holds the document: the latest snapshot after saving a well-formed document
  under a new highest seq deserializes to exactly that document and passes the integrity check;
  and, if the digest tells the two texts apart, the check fails when the stored nodes spell
  another text.\<close>

theorem snapshot_holds_document:
  assumes "wf_db db" "document_exists db d" "wf_doc doc"
    and "\<forall>r \<in> set (doc_snapshots db d). srow_seq r < seq"
  shows "\<exists>db' s. saveSnapshot sha256 db d doc seq uuid now = Inr (db', s) \<and> wf_db db' \<and>
    loadLatestSnapshot db' d = Some s \<and> snap_seq s = seq \<and> deserialize (snap_data s) = doc \<and>
    verifySnapshot sha256 s \<and>
    (\<forall>nodes. sha256 (toText (deserialize nodes)) \<noteq> sha256 (toText doc) \<longrightarrow>
      \<not> verifySnapshot sha256 (s\<lparr>snap_data := nodes\<rparr>))"
proof -
  have "\<forall>r \<in> set (doc_snapshots db d). srow_seq r \<noteq> seq"
    using assms(4) by auto
  then obtain db' row where r: "saveSnapshot sha256 db d doc seq uuid now = Inr (db', rowToRecord row)" "wf_db db'"
    "db' = db\<lparr>db_snapshots := db_snapshots db @ [row]\<rparr>" "srow_doc_id row = d" "srow_seq row = seq"
    "srow_data row = serialize doc" "srow_text_hash row = sha256 (toText doc)"
    using save_result [OF assms(1,2)] by metis
  have snaps: "doc_snapshots db' d = doc_snapshots db d @ [row]"
    using r(3,4) by (simp add: doc_snapshots_def)
  have "distinct (map srow_seq (doc_snapshots db' d))"
    using r(2) by (simp add: wf_db_def log_ok_def)
  then have "newest (doc_snapshots db' d) = Some row"
    by (rule newest_unique) (use r(5) assms(4) in \<open>auto simp: snaps\<close>)
  then show ?thesis
    using r serialize_deserialize [OF assms(3)]
    by - (rule exI [of _ db'], rule exI [of _ "rowToRecord row"], simp add: loadLatestSnapshot_def verifySnapshot_def)
qed

theorem snapshot_holds_document_witness:
  "\<exists>db' s. saveSnapshot (map (\<lambda>u. char_of (unat u))) example_db ''d'' newRGADocument 1 ''id'' ''t'' = Inr (db', s) \<and>
     verifySnapshot (map (\<lambda>u. char_of (unat u))) s"
  using snapshot_holds_document [OF example_db_ok(1), of "''d''" newRGADocument 1
      "map (\<lambda>u. char_of (unat u))" "''id''" "''t''"]
  by (auto simp: example_db_def document_exists_def doc_snapshots_def)

section \<open>The store as a log with a base\<close>

definition log_base :: "Database \<Rightarrow> string \<Rightarrow> RGADocument \<times> int" where
  "log_base db d = (case newest (doc_snapshots db d) of
     Some s \<Rightarrow> (deserialize (srow_data s), srow_seq s) | None \<Rightarrow> (newRGADocument, 0))"

definition log_after :: "Database \<Rightarrow> string \<Rightarrow> int \<Rightarrow> RGAOperation list" where
  "log_after db d a = map row_op_data (drop (nat a) (doc_rows db d))"

text \<open>No snapshot is newer than the log.\<close>

definition store_ok :: "Database \<Rightarrow> bool" where
  "store_ok db \<longleftrightarrow> wf_db db \<and> (\<forall>s \<in> set (db_snapshots db). 1 \<le> srow_seq s \<and> srow_seq s \<le> getMaxSeq db (srow_doc_id s))"

definition row_appended :: "Database \<Rightarrow> string \<Rightarrow> RGAOperation \<Rightarrow> Database \<Rightarrow> bool" where
  "row_appended db d x db' \<longleftrightarrow> wf_db db' \<and> db_snapshots db' = db_snapshots db \<and>
     (\<exists>row. db_operations db' = db_operations db @ [row] \<and> row_doc_id row = d \<and> row_op_data row = x)"

definition row_saved :: "Database \<Rightarrow> string \<Rightarrow> RGADocument \<Rightarrow> Database \<Rightarrow> bool" where
  "row_saved db d D db' \<longleftrightarrow> wf_doc D \<and> snd (log_base db d) < getMaxSeq db d \<and>
     db_operations db' = db_operations db \<and> db_sequences db' = db_sequences db \<and> db_users db' = db_users db \<and>
     (\<exists>row. db_snapshots db' = db_snapshots db @ [row] \<and> srow_doc_id row = d \<and> srow_seq row = getMaxSeq db d \<and>
        srow_data row = serialize D)"

lemma store_okD: "store_ok db \<Longrightarrow> wf_db db"
  "store_ok db \<Longrightarrow> s \<in> set (doc_snapshots db d) \<Longrightarrow> 1 \<le> srow_seq s \<and> srow_seq s \<le> getMaxSeq db d"
  by (auto simp: store_ok_def doc_snapshots_def)

lemma log_base_newest:
  assumes "store_ok db"
  shows "0 \<le> snd (log_base db d) \<and> snd (log_base db d) \<le> getMaxSeq db d \<and>
    (\<forall>s \<in> set (doc_snapshots db d). srow_seq s \<le> snd (log_base db d))"
proof (cases "newest (doc_snapshots db d)")
  case None
  then show ?thesis by (simp add: log_base_def getMaxSeq_length store_okD assms)
next
  case (Some s)
  then show ?thesis
    using newest_Some [OF Some] store_okD(2) [OF assms, of s d] by (simp add: log_base_def)
qed

lemma store_append:
  assumes "store_ok db" "row_appended db d x db'"
  shows "store_ok db'" "log_base db' e = log_base db e"
    and "0 \<le> a \<Longrightarrow> a \<le> getMaxSeq db e \<Longrightarrow> log_after db' e a = log_after db e a @ (if e = d then [x] else [])"
proof -
  obtain row where row: "db_operations db' = db_operations db @ [row]" "row_doc_id row = d" "row_op_data row = x"
    using assms(2) by (auto simp: row_appended_def)
  have snaps: "db_snapshots db' = db_snapshots db" and wf: "wf_db db'"
    using assms(2) by (simp_all add: row_appended_def)
  have rows: "doc_rows db' e = doc_rows db e @ (if e = d then [row] else [])" for e
    using row(1,2) by (simp add: doc_rows_def)
  have max: "getMaxSeq db e \<le> getMaxSeq db' e" for e
    by (simp add: getMaxSeq_length wf store_okD(1) [OF assms(1)] rows)
  show "store_ok db'"
    unfolding store_ok_def
  proof (intro conjI ballI)
    fix s assume s: "s \<in> set (db_snapshots db')"
    then show "1 \<le> srow_seq s"
      using assms(1) snaps by (simp add: store_ok_def)
    have "srow_seq s \<le> getMaxSeq db (srow_doc_id s)"
      using assms(1) s snaps by (simp add: store_ok_def)
    then show "srow_seq s \<le> getMaxSeq db' (srow_doc_id s)"
      using max by (rule order_trans)
  qed (rule wf)
  show "log_base db' e = log_base db e"
    by (simp add: log_base_def doc_snapshots_def snaps)
  assume "0 \<le> a" "a \<le> getMaxSeq db e"
  then have "nat a \<le> length (doc_rows db e)"
    by (simp add: getMaxSeq_length store_okD(1) [OF assms(1)])
  then show "log_after db' e a = log_after db e a @ (if e = d then [x] else [])"
    using row(3) by (simp add: log_after_def rows)
qed

lemma store_save:
  assumes "store_ok db" "row_saved db d D db'"
  shows "store_ok db'" "getMaxSeq db' e = getMaxSeq db e" "log_after db' e a = log_after db e a"
    and "log_base db' e = (if e = d then (D, getMaxSeq db d) else log_base db e)"
proof -
  obtain row where row: "db_snapshots db' = db_snapshots db @ [row]" "srow_doc_id row = d"
    "srow_seq row = getMaxSeq db d" "srow_data row = serialize D"
    using assms(2) by (auto simp: row_saved_def)
  have D: "wf_doc D" "snd (log_base db d) < getMaxSeq db d" "db_operations db' = db_operations db"
    "db_sequences db' = db_sequences db" "db_users db' = db_users db"
    using assms(2) by (simp_all add: row_saved_def)
  note nb = log_base_newest [OF assms(1), of d]
  have rows: "doc_rows db' e = doc_rows db e" for e
    by (simp add: doc_rows_def D)
  have "srow_seq row \<notin> srow_seq ` set (doc_snapshots db (srow_doc_id row))"
    using nb D(2) row(2,3) by force
  then have wf: "wf_db db'"
    using row(1) D by (intro wf_db_add_snapshot [OF store_okD(1) [OF assms(1)]])
  show max: "getMaxSeq db' e = getMaxSeq db e" for e
    by (simp add: getMaxSeq_def rows)
  show "log_after db' e a = log_after db e a"
    by (simp add: log_after_def rows)
  have "1 \<le> getMaxSeq db d" using nb D(2) by linarith
  then show "store_ok db'"
    using assms(1) wf row(1-3) by (auto simp: store_ok_def max)
  have snaps: "doc_snapshots db' e = doc_snapshots db e @ (if e = d then [row] else [])"
    using row(1,2) by (simp add: doc_snapshots_def)
  show "log_base db' e = (if e = d then (D, getMaxSeq db d) else log_base db e)"
  proof (cases "e = d")
    case True
    have "distinct (map srow_seq (doc_snapshots db' d))"
      using wf by (simp add: wf_db_def log_ok_def)
    then have "newest (doc_snapshots db' d) = Some row"
      by (rule newest_unique) (use True snaps nb D(2) row(3) in force)+
    then show ?thesis
      using True row(3,4) serialize_deserialize [OF D(1)] by (simp add: log_base_def)
  qed (simp add: log_base_def snaps)
qed

interpretation pg: event_log store_ok log_base log_after getMaxSeq row_appended row_saved
proof (unfold_locales, goal_cases)
  case (1 db d)
  then show ?case using log_base_newest by blast
next
  case (2 db a d)
  then have "getMaxSeq db d = int (length (doc_rows db d))" by (simp add: getMaxSeq_length store_okD(1))
  with 2 show ?case by (simp add: log_after_def nat_diff_distrib)
next
  case (3 db a b d)
  let ?rs = "doc_rows db d"
  have len: "getMaxSeq db d = int (length ?rs)" using 3 by (simp add: getMaxSeq_length store_okD(1))
  have nat: "nat b = nat (b - a) + nat a" using 3 by simp
  have "log_after db d a = map row_op_data (take (nat (b - a)) (drop (nat a) ?rs)) @ log_after db d b"
    unfolding log_after_def nat drop_drop [symmetric] map_append [symmetric] append_take_drop_id ..
  moreover have "int (length (map row_op_data (take (nat (b - a)) (drop (nat a) ?rs)))) = b - a"
    using 3 len by simp
  ultimately show ?case by (rule exI [of _ "map row_op_data (take (nat (b - a)) (drop (nat a) ?rs))", OF conjI])
next
  case (4 db d x db' e)
  then show ?case using store_append(1,2) by blast
next
  case (5 db d x db' a e)
  then show ?case using store_append(3) by blast
next
  case (6 db d D db' e a)
  then show ?case using store_save by metis
qed

text \<open>The store's own operations are such steps.\<close>

lemma append_is_append:
  assumes "store_ok db" "valid_params db ps"
  shows "\<exists>db' row. appendOperation db ps uuid now = Inr (db', rowToEnvelope row) \<and>
    row_appended db (ap_docId ps) (ap_op ps) db' \<and> row_seq row = getMaxSeq db (ap_docId ps) + 1 \<and>
    row_op_data row = ap_op ps \<and> row_doc_id row = ap_docId ps \<and> row_nonce row = ap_nonce ps \<and>
    db_users db' = db_users db \<and> db_documents db' = db_documents db \<and>
    db_operations db' = db_operations db @ [row]"
proof -
  obtain db' row where r: "appendOperation db ps uuid now = Inr (db', rowToEnvelope row)" "wf_db db'"
    "row_seq row = int (length (doc_rows db (ap_docId ps))) + 1" "row_op_data row = ap_op ps"
    "row_doc_id row = ap_docId ps" "row_nonce row = ap_nonce ps" "db_operations db' = db_operations db @ [row]"
    "db_snapshots db' = db_snapshots db" "db_users db' = db_users db" "db_documents db' = db_documents db"
    using append_result [OF store_okD(1) [OF assms(1)] assms(2)] by metis
  then show ?thesis
    by - (rule exI [of _ db'], rule exI [of _ row], simp add: row_appended_def getMaxSeq_length store_okD assms(1))
qed

lemma save_is_save:
  assumes "store_ok db" "document_exists db d" "wf_doc D" "snd (log_base db d) < getMaxSeq db d"
  shows "\<exists>db' row. saveSnapshot hash db d D (getMaxSeq db d) uuid now = Inr (db', rowToRecord row) \<and>
    row_saved db d D db' \<and> db' = db\<lparr>db_snapshots := db_snapshots db @ [row]\<rparr>"
proof -
  have "\<forall>r \<in> set (doc_snapshots db d). srow_seq r \<noteq> getMaxSeq db d"
    using log_base_newest [OF assms(1), of d] assms(4) by force
  then obtain db' row where r: "saveSnapshot hash db d D (getMaxSeq db d) uuid now = Inr (db', rowToRecord row)"
    "db' = db\<lparr>db_snapshots := db_snapshots db @ [row]\<rparr>" "srow_doc_id row = d" "srow_seq row = getMaxSeq db d"
    "srow_data row = serialize D"
    using save_result [OF store_okD(1) [OF assms(1)] assms(2)] by metis
  then show ?thesis
    using assms(3,4) by - (rule exI [of _ db'], rule exI [of _ row], simp add: row_saved_def)
qed

end
