(* ===== verification/History_Service.thy ===== *)
theory History_Service
  imports Event_Store
begin

text \<open>
  \<^verbatim>\<open>src/server/persistence/history-service.ts\<close> over the event store: reconstructing a document at
  a sequence number, restoring a revision, the paged history and revision tags. UUIDs, the nonce
  and times are arguments, and so is whether the final \<open>COMMIT\<close> of the restore succeeds. The
  lemmas say what a reconstruction depends on, what a restore leaves of the store, and that paging
  lists every operation once.
\<close>

section \<open>Reconstruction and restore\<close>

definition reconstructAtSeq :: "Database \<Rightarrow> string \<Rightarrow> int \<Rightarrow> RGADocument \<times> SnapshotRecord option" where
  "reconstructAtSeq db d targetSeq =
     (let snapshot = loadSnapshotBefore db d targetSeq
      in case (case snapshot of
            Some s \<Rightarrow> (deserialize (snap_data s), snap_seq s + 1)
          | None \<Rightarrow> (newRGADocument, 1)) of (doc, fromSeq) \<Rightarrow>
        if fromSeq \<le> targetSeq
        then (foldl (\<lambda>doc env. fst (applyOperation doc (env_op env))) doc
                (loadOperationsInRange db d fromSeq targetSeq), snapshot)
        else (doc, snapshot))"

definition nilUUID :: string where
  "nilUUID = ''00000000-0000-0000-0000-000000000000''"

definition rollbackSentinelOp :: RGAOperation where
  "rollbackSentinelOp = ROLLBACK (UID 0 nilUUID) None (JStr [])"

record RestoreParams =
  rp_docId :: string
  rp_targetSeq :: int
  rp_userId :: string
  rp_sessionId :: string

text \<open>The append and the audit row belong to the transaction; \<open>saveSnapshot\<close> runs on a connection of
  its own and is durable at once. Without the \<open>COMMIT\<close> only the snapshot is left.\<close>

definition restoreToRevision ::
  "(js_text \<Rightarrow> string) \<Rightarrow> bool \<Rightarrow> Database \<Rightarrow> RestoreParams \<Rightarrow> string \<Rightarrow> string \<Rightarrow> string \<Rightarrow> string \<Rightarrow>
     Database \<times> (db_error + OperationEnvelope \<times> js_text \<times> int)" where
  "restoreToRevision sha256 commits db ps opId nonce snapId now =
     (let d = rp_docId ps;
          doc = fst (reconstructAtSeq db d (rp_targetSeq ps));
          restoredText = toText doc
      in case appendOperation db \<lparr>ap_docId = d, ap_sessionId = rp_sessionId ps, ap_userId = rp_userId ps,
             ap_clientSeq = 0, ap_op = rollbackSentinelOp, ap_vectorClock = [], ap_nonce = nonce\<rparr> opId now of
           Inl e \<Rightarrow> (db, Inl e)
         | Inr (db1, envelope) \<Rightarrow>
             (case saveSnapshot sha256 db d doc (env_seq envelope) snapId now of
                Inl e \<Rightarrow> (db, Inl e)
              | Inr (db2, _) \<Rightarrow>
                  if commits then
                    (db1\<lparr>db_snapshots := db_snapshots db2,
                         db_audit := db_audit db1 @ [\<lparr>aud_doc_id = d, aud_user_id = rp_userId ps,
                           aud_action = ''restore'', aud_targetSeq = rp_targetSeq ps,
                           aud_newSeq = env_seq envelope\<rparr>]\<rparr>,
                     Inr (envelope, restoredText, env_seq envelope))
                  else (db2, Inl CommitFailed)))"

section \<open>The history API\<close>

definition buildPreview :: "string \<Rightarrow> RGAOperation \<Rightarrow> js_text" where
  "buildPreview opType opData =
     (if opType = ''INSERT'' then
        ascii ''Inserted \"'' @
        (case opData of INSERT _ _ v \<Rightarrow> js_join_part v | ROLLBACK _ _ v \<Rightarrow> js_join_part v | _ \<Rightarrow> []) @
        ascii ''\"''
      else if opType = ''DELETE'' then ascii ''Deleted character''
      else ascii opType)"

definition summarize :: "Database \<Rightarrow> OperationRow \<Rightarrow> OperationSummary" where
  "summarize db r = \<lparr>sum_seq = parseInt (show_int (row_seq r)), sum_userId = row_user_id r,
     sum_displayName = (case user_of db (row_user_id r) of Some u \<Rightarrow> usr_display_name u | None \<Rightarrow> []),
     sum_opType = row_op_type r, sum_preview = buildPreview (row_op_type r) (row_op_data r),
     sum_timestamp = row_created_at r\<rparr>"

definition getHistory :: "Database \<Rightarrow> string \<Rightarrow> nat \<Rightarrow> nat \<Rightarrow> HistoryPage" where
  "getHistory db d page pageSize =
     (let total = parseInt (show_int (int (length (doc_rows db d))))
      in \<lparr>page_ops = map (summarize db) (history_rows db d page pageSize),
          page_total = total,
          page_from = int page * int pageSize,
          page_to = min ((int page + 1) * int pageSize) total\<rparr>)"

definition createRevisionTag ::
  "Database \<Rightarrow> string \<Rightarrow> string \<Rightarrow> string option \<Rightarrow> string \<Rightarrow> string \<Rightarrow> db_error + Database" where
  "createRevisionTag db d userId label uuid now =
     (let seq = getMaxSeq db d
      in if \<not> document_exists db d \<or> \<not> user_exists db userId then Inl ForeignKeyViolation
         else if uuid \<in> rrow_id ` set (db_revisions db) then Inl UniqueViolation
         else Inr (db\<lparr>db_revisions := db_revisions db @ [\<lparr>rrow_id = uuid, rrow_doc_id = d, rrow_seq = seq,
                rrow_label = label, rrow_created_by = userId, rrow_created_at = now\<rparr>]\<rparr>))"

text \<open>The rows go to the caller as \<open>pg\<close> delivers them: the \<open>BIGINT\<close> column \<open>seq\<close> as decimal text.\<close>

record ListedRevision =
  lr_id :: string
  lr_seq :: json
  lr_label :: "string option"
  lr_created_by :: string
  lr_display_name :: string
  lr_created_at :: string

definition listRevisions :: "Database \<Rightarrow> string \<Rightarrow> ListedRevision list" where
  "listRevisions db d =
     concat (map (\<lambda>r. case user_of db (rrow_created_by r) of
          Some u \<Rightarrow> [\<lparr>lr_id = rrow_id r, lr_seq = JStr (ascii (show_int (rrow_seq r))), lr_label = rrow_label r,
             lr_created_by = rrow_created_by r, lr_display_name = usr_display_name u, lr_created_at = rrow_created_at r\<rparr>]
        | None \<Rightarrow> [])
       (rev (sort_key rrow_seq (filter (\<lambda>r. rrow_doc_id r = d) (db_revisions db)))))"

section \<open>What a reconstruction depends on\<close>

text \<open>The newest snapshot and the operations up to its seq.\<close>

lemma reconstruct_cong:
  assumes "newest (filter (\<lambda>r. srow_seq r \<le> t) (doc_snapshots db' d)) = newest (filter (\<lambda>r. srow_seq r \<le> t) (doc_snapshots db d))"
    and "filter (\<lambda>r. row_seq r \<le> t) (doc_rows db' d) = filter (\<lambda>r. row_seq r \<le> t) (doc_rows db d)"
  shows "reconstructAtSeq db' d t = reconstructAtSeq db d t"
proof -
  have rows: "filter (\<lambda>r. a \<le> row_seq r \<and> row_seq r \<le> t) xs = filter (\<lambda>r. a \<le> row_seq r) (filter (\<lambda>r. row_seq r \<le> t) xs)"
    for a xs by (simp add: conj_commute)
  have "loadOperationsInRange db' d a t = loadOperationsInRange db d a t" for a
    unfolding loadOperationsInRange_def rows assms(2) ..
  then show ?thesis unfolding reconstructAtSeq_def loadSnapshotBefore_def assms(1) Let_def by presburger
qed

lemma upto_drop_take:
  "0 \<le> a \<Longrightarrow> a \<le> b \<Longrightarrow> b \<le> n \<Longrightarrow> drop (nat a) (take (nat b) [1..n]) = [a + 1..b :: int]"
proof -
  assume ab: "0 \<le> a" "a \<le> b" "b \<le> n"
  have "take (nat b) [1..n] = [1..b]"
    using keys_take [of "\<lambda>x. x" "[1..n]" "nat b"] ab by (cases "b = n") (auto simp: min_def)
  moreover have "drop (nat a) [1..b] = [a + 1..b]"
    using ab upto_split2 [of 1 a b] by (cases "a = 0") auto
  ultimately show "drop (nat a) (take (nat b) [1..n]) = [a + 1..b]"
    by simp
qed

lemma rows_between:
  assumes "wf_db db" "0 \<le> a" "a \<le> b" "b \<le> getMaxSeq db d"
  shows "loadOperationsInRange db d (a + 1) b = map rowToEnvelope (drop (nat a) (take (nat b) (doc_rows db d)))"
    and "map row_seq (drop (nat a) (take (nat b) (doc_rows db d))) = [a + 1..b]"
proof -
  have "nat b - nat a = nat (b - a)" using assms by simp
  then show "loadOperationsInRange db d (a + 1) b = map rowToEnvelope (drop (nat a) (take (nat b) (doc_rows db d)))"
    using assms by (simp add: store_simps drop_take)
  have "map row_seq (drop (nat a) (take (nat b) (doc_rows db d))) =
      drop (nat a) (take (nat b) (map row_seq (doc_rows db d)))"
    by (simp add: drop_map take_map)
  then show "map row_seq (drop (nat a) (take (nat b) (doc_rows db d))) = [a + 1..b]"
    using assms by (simp add: log_okD store_simps upto_drop_take)
qed

text \<open>With the newest snapshot at or before the seq at hand.\<close>

lemma reconstruct_at_snapshot:
  assumes "newest (filter (\<lambda>r. srow_seq r \<le> t) (doc_snapshots db d)) = Some s" "srow_seq s = t"
  shows "fst (reconstructAtSeq db d t) = deserialize (srow_data s)"
  using assms by (simp add: reconstructAtSeq_def loadSnapshotBefore_def)

text \<open>At the last seq: the document a load returns.\<close>

lemma reconstruct_top:
  assumes "store_ok db"
  shows "fst (reconstructAtSeq db d (getMaxSeq db d)) = pg.replica db d"
proof -
  let ?t = "getMaxSeq db d"
  have wf: "wf_db db" by (rule store_okD [OF assms])
  have all: "filter (\<lambda>r. srow_seq r \<le> ?t) (doc_snapshots db d) = doc_snapshots db d"
    using store_okD(2) [OF assms] by (intro filter_True) blast
  have start: "(case loadSnapshotBefore db d ?t of Some s \<Rightarrow> (deserialize (snap_data s), snap_seq s + 1) | None \<Rightarrow> (newRGADocument, 1)) =
      (fst (log_base db d), snd (log_base db d) + 1)"
    by (simp add: loadSnapshotBefore_def all log_base_def split: option.split)
  note a = pg.base_range [OF assms, of d]
  have rows: "loadOperationsInRange db d (snd (log_base db d) + 1) ?t = map rowToEnvelope (drop (nat (snd (log_base db d))) (doc_rows db d))"
    using a by (simp add: rows_between [OF wf] getMaxSeq_length [OF wf])
  have run: "foldl (\<lambda>d env. fst (applyOperation d (env_op env))) D (map rowToEnvelope rs) = applyAll D (map row_op_data rs)" for D rs
    by (induction rs arbitrary: D) (simp_all add: applyOp_def)
  show ?thesis
  proof (cases "snd (log_base db d) < ?t")
    case True
    then show ?thesis
      by (simp add: reconstructAtSeq_def Let_def start rows run pg.replica_def log_after_def)
  next
    case False
    then have "snd (log_base db d) = ?t" using a by simp
    then have "log_after db d (snd (log_base db d)) = []" by (simp add: pg.after_top [OF assms])
    then show ?thesis
      using False by (simp add: reconstructAtSeq_def Let_def start pg.replica_def)
  qed
qed

section \<open>Restoring\<close>

definition restore_params :: "RestoreParams \<Rightarrow> string \<Rightarrow> AppendParams" where
  "restore_params ps nonce = \<lparr>ap_docId = rp_docId ps, ap_sessionId = rp_sessionId ps, ap_userId = rp_userId ps,
     ap_clientSeq = 0, ap_op = rollbackSentinelOp, ap_vectorClock = [], ap_nonce = nonce\<rparr>"

lemma restore_steps:
  assumes "wf_db db" "d = rp_docId ps" "document_exists db d" "user_exists db (rp_userId ps)"
    and "\<forall>s \<in> set (doc_snapshots db d). srow_seq s \<le> getMaxSeq db d"
    and "doc = fst (reconstructAtSeq db d (rp_targetSeq ps))"
  shows "\<exists>db1 row srow. appendOperation db (restore_params ps nonce) opId now = Inr (db1, rowToEnvelope row) \<and> wf_db db1 \<and>
    row_seq row = getMaxSeq db d + 1 \<and> row_op_data row = rollbackSentinelOp \<and> row_op_type row = ''ROLLBACK'' \<and>
    doc_rows db1 d = doc_rows db d @ [row] \<and> db_snapshots db1 = db_snapshots db \<and> srow_doc_id srow = d \<and>
    srow_seq srow = getMaxSeq db d + 1 \<and> srow_data srow = serialize doc \<and>
    restoreToRevision hash commits db ps opId nonce snapId now =
      (if commits then
         (db1\<lparr>db_snapshots := db_snapshots db @ [srow],
              db_audit := db_audit db1 @ [\<lparr>aud_doc_id = d, aud_user_id = rp_userId ps, aud_action = ''restore'',
                aud_targetSeq = rp_targetSeq ps, aud_newSeq = getMaxSeq db d + 1\<rparr>]\<rparr>,
          Inr (rowToEnvelope row, toText doc, getMaxSeq db d + 1))
       else (db\<lparr>db_snapshots := db_snapshots db @ [srow]\<rparr>, Inl CommitFailed))"
proof -
  have v: "valid_params db (restore_params ps nonce)"
    using assms(2-4) by (simp add: valid_params_def restore_params_def rollbackSentinelOp_def)
  obtain db1 row where r: "appendOperation db (restore_params ps nonce) opId now = Inr (db1, rowToEnvelope row)"
    "wf_db db1" "row_seq row = int (length (doc_rows db (ap_docId (restore_params ps nonce)))) + 1"
    "row_op_data row = ap_op (restore_params ps nonce)" "row_doc_id row = ap_docId (restore_params ps nonce)"
    "row_op_type row = op_type (ap_op (restore_params ps nonce))"
    "db_operations db1 = db_operations db @ [row]" "db_snapshots db1 = db_snapshots db"
    using append_result [OF assms(1) v] by metis
  have seq: "row_seq row = getMaxSeq db d + 1"
    using r(3) assms(1,2) by (simp add: restore_params_def store_simps)
  have "\<forall>s \<in> set (doc_snapshots db d). srow_seq s \<noteq> getMaxSeq db d + 1"
    using assms(5) by force
  then obtain db2 srow where s: "saveSnapshot hash db d doc (getMaxSeq db d + 1) snapId now = Inr (db2, rowToRecord srow)"
    "db2 = db\<lparr>db_snapshots := db_snapshots db @ [srow]\<rparr>" "srow_doc_id srow = d" "srow_seq srow = getMaxSeq db d + 1"
    "srow_data srow = serialize doc"
    using save_result [OF assms(1,3)] by metis
  have "doc_rows db1 d = doc_rows db d @ [row]"
    using r(5,7) assms(2) by (simp add: doc_rows_def restore_params_def)
  moreover have "restoreToRevision hash commits db ps opId nonce snapId now =
      (if commits then
         (db1\<lparr>db_snapshots := db_snapshots db @ [srow],
              db_audit := db_audit db1 @ [\<lparr>aud_doc_id = d, aud_user_id = rp_userId ps, aud_action = ''restore'',
                aud_targetSeq = rp_targetSeq ps, aud_newSeq = getMaxSeq db d + 1\<rparr>]\<rparr>,
          Inr (rowToEnvelope row, toText doc, getMaxSeq db d + 1))
       else (db\<lparr>db_snapshots := db_snapshots db @ [srow]\<rparr>, Inl CommitFailed))"
    using r(1) s(1,2) assms(2,6) seq by (simp add: restoreToRevision_def Let_def restore_params_def)
  ultimately show ?thesis
    using r s(3-5) seq by - (rule exI [of _ db1], rule exI [of _ row], rule exI [of _ srow],
      simp add: restore_params_def rollbackSentinelOp_def)
qed

definition example_restore :: RestoreParams where
  "example_restore = \<lparr>rp_docId = ''d'', rp_targetSeq = 0, rp_userId = ''u'', rp_sessionId = ''s''\<rparr>"

text \<open>The restore is not atomic: its snapshot is saved outside the transaction. When the commit
  fails, the snapshot stays behind under the seq the next operation gets, and from then on that
  operation is skipped: the document at its seq is the restored version, without it.\<close>

theorem failed_restore_swallows_next_op:
  assumes "wf_db db" "v = fst (reconstructAtSeq db (rp_docId ps) (rp_targetSeq ps))" "n = getMaxSeq db (rp_docId ps)"
    and "document_exists db (rp_docId ps)" "user_exists db (rp_userId ps)" "wf_doc v"
    and "\<forall>s \<in> set (doc_snapshots db (rp_docId ps)). srow_seq s \<le> n"
    and "restoreToRevision sha256 False db ps opId nonce snapId now = (db1, res)"
    and "valid_params db aps" "ap_docId aps = rp_docId ps"
  shows "res = Inl CommitFailed \<and> getMaxSeq db1 (rp_docId ps) = n \<and>
    (\<exists>db2 env. appendOperation db1 aps uuid now' = Inr (db2, env) \<and> env_seq env = n + 1 \<and>
      fst (reconstructAtSeq db2 (rp_docId ps) (n + 1)) = v)"
proof -
  let ?d = "rp_docId ps"
  obtain srow where r: "srow_doc_id srow = ?d" "srow_seq srow = n + 1" "srow_data srow = serialize v"
    "restoreToRevision sha256 False db ps opId nonce snapId now =
      (db\<lparr>db_snapshots := db_snapshots db @ [srow]\<rparr>, Inl CommitFailed)"
    using restore_steps [OF assms(1) refl assms(4,5) assms(7) [unfolded assms(3)] assms(2),
        where hash = sha256 and commits = False and opId = opId and nonce = nonce and snapId = snapId and now = now]
    unfolding assms(3) [symmetric] by auto
  have db1: "db1 = db\<lparr>db_snapshots := db_snapshots db @ [srow]\<rparr>" "res = Inl CommitFailed"
    using r(4) assms(8) by simp_all
  have "n + 1 \<notin> srow_seq ` set (doc_snapshots db ?d)"
    using assms(7) by force
  then have wf1: "wf_db db1"
    using r(1,2) by (intro wf_db_add_snapshot [OF assms(1), of srow]) (simp_all add: db1)
  have rows1: "doc_rows db1 ?d = doc_rows db ?d"
    by (simp add: db1 doc_rows_def)
  have v1: "valid_params db1 aps"
    using assms(9) by (simp add: valid_params_def db1 document_exists_def user_exists_def)
  obtain db2 row where a: "appendOperation db1 aps uuid now' = Inr (db2, rowToEnvelope row)" "wf_db db2"
    "row_seq row = int (length (doc_rows db1 (ap_docId aps))) + 1" "db_snapshots db2 = db_snapshots db1"
    using append_result [OF wf1 v1] by metis
  have max: "getMaxSeq db1 ?d = n"
    using wf1 assms(1,3) by (simp add: store_simps rows1)
  have snaps: "doc_snapshots db2 ?d = doc_snapshots db ?d @ [srow]"
    using a(4) r(1) by (simp add: db1 doc_snapshots_def)
  have "distinct (map srow_seq (doc_snapshots db2 ?d))"
    using a(2) by (simp add: wf_db_def log_ok_def)
  then have "newest (filter (\<lambda>s. srow_seq s \<le> n + 1) (doc_snapshots db2 ?d)) = Some srow"
    by (intro newest_unique) (use r(2) assms(7) in \<open>auto simp: snaps distinct_map_filter dest!: bspec\<close>)
  then have "fst (reconstructAtSeq db2 ?d (n + 1)) = v"
    using r(2,3) serialize_deserialize [OF assms(6)] by (simp add: reconstructAtSeq_def Let_def loadSnapshotBefore_def)
  moreover have "env_seq (rowToEnvelope row) = n + 1"
    using a(3) max wf1 assms(10) by (simp add: store_simps)
  ultimately show ?thesis
    using db1(2) max a(1) by blast
qed

theorem failed_restore_swallows_next_op_witness:
  "\<exists>db1 db2 env. restoreToRevision (\<lambda>_. ''h'') False example_db example_restore ''i'' ''n'' ''j'' ''t'' =
      (db1, Inl CommitFailed) \<and>
    appendOperation db1 (example_params (INSERT uA None (JStr [97]))) ''k'' ''t'' = Inr (db2, env) \<and>
    fst (reconstructAtSeq db2 ''d'' 1) = newRGADocument"
proof -
  obtain db1 res where r: "restoreToRevision (\<lambda>_. ''h'') False example_db example_restore ''i'' ''n'' ''j'' ''t'' = (db1, res)"
    by (metis surj_pair)
  have top: "getMaxSeq example_db ''d'' = 0"
    by (simp add: store_simps example_db_ok) (simp add: example_db_def doc_rows_def)
  have old: "fst (reconstructAtSeq example_db ''d'' 0) = newRGADocument"
    by (simp add: reconstructAtSeq_def loadSnapshotBefore_def example_db_def doc_snapshots_def)
  have ex: "document_exists example_db ''d''" "user_exists example_db ''u''" "doc_snapshots example_db ''d'' = []"
    "valid_params example_db (example_params (INSERT uA None (JStr [97])))" "ap_docId (example_params (INSERT uA None (JStr [97]))) = ''d''"
    by (simp_all add: example_db_def document_exists_def user_exists_def doc_snapshots_def valid_params_def example_params_def)
  show ?thesis
    using failed_restore_swallows_next_op [OF example_db_ok(1) refl refl, of example_restore "\<lambda>_. ''h''"
      "''i''" "''n''" "''j''" "''t''" db1 res "example_params (INSERT uA None (JStr [97]))" "''k''" "''t''"] r old top ex
    by (auto simp: example_restore_def)
qed

section \<open>Paging\<close>

lemma concat_pages: "concat (map (\<lambda>p. take k (drop (p * k) xs)) [0..<m]) = take (m * k) xs"
proof (induction m)
  case (Suc m)
  have "Suc m * k = m * k + k" by simp
  then have "take (Suc m * k) xs = take (m * k) xs @ take k (drop (m * k) xs)"
    by (simp only: take_add)
  with Suc show ?case by simp
qed simp

lemma user_of_exists: "user_exists db u \<Longrightarrow> user_of db u \<noteq> None"
  by (auto simp: user_exists_def user_of_def find_None_iff)

lemma history_rows_eq:
  assumes "wf_db db"
  shows "history_rows db d page k = take k (drop (page * k) (rev (doc_rows db d)))"
proof -
  have "user_of db (row_user_id r) \<noteq> None" if "r \<in> set (doc_rows db d)" for r
    using assms that by (intro user_of_exists) (simp add: wf_db_def doc_rows_def)
  then have "filter (\<lambda>r. user_of db (row_user_id r) \<noteq> None) (doc_rows db d) = doc_rows db d"
    by (intro filter_eq_all)
  moreover have "sort_key row_seq (doc_rows db d) = doc_rows db d"
    using sort_key_id [OF sorted_seqs [OF log_okD [OF assms]]] .
  ultimately show ?thesis
    unfolding history_rows_def by (simp only:)
qed

text \<open>The pages of the history API list every operation of the document exactly once, newest
  first: the pages one after the other are the whole log, and each page says how many
  operations there are.\<close>

theorem history_pages_complete:
  assumes "wf_db db" "length (doc_rows db d) \<le> m * pageSize"
  shows "concat (map (\<lambda>p. page_ops (getHistory db d p pageSize)) [0..<m]) =
      map (summarize db) (rev (doc_rows db d)) \<and>
    map sum_seq (concat (map (\<lambda>p. page_ops (getHistory db d p pageSize)) [0..<m])) =
      rev [1..page_total (getHistory db d page pageSize)] \<and>
    page_total (getHistory db d page pageSize) = getMaxSeq db d"
proof -
  have "concat (map (\<lambda>p. page_ops (getHistory db d p pageSize)) [0..<m]) =
      map (summarize db) (concat (map (\<lambda>p. history_rows db d p pageSize) [0..<m]))"
    by (simp add: getHistory_def Let_def map_concat comp_def)
  also have "\<dots> = map (summarize db) (rev (doc_rows db d))"
    using assms by (simp add: history_rows_eq concat_pages)
  finally have pages: "concat (map (\<lambda>p. page_ops (getHistory db d p pageSize)) [0..<m]) =
      map (summarize db) (rev (doc_rows db d))" .
  have total: "page_total (getHistory db d page pageSize) = int (length (doc_rows db d))"
    by (simp add: getHistory_def Let_def)
  have "map sum_seq (map (summarize db) (rev (doc_rows db d))) = rev (map row_seq (doc_rows db d))"
    by (simp add: summarize_def rev_map comp_def)
  then show ?thesis
    unfolding pages total log_okD [OF assms(1)] using assms(1) by (simp add: store_simps)
qed

theorem history_pages_complete_witness:
  "concat (map (\<lambda>p. page_ops (getHistory example_db ''d'' p 50)) [0..<1]) = map (summarize example_db) (rev (doc_rows example_db ''d''))"
  using history_pages_complete [OF example_db_ok(1), of "''d''" 1 50] by (simp add: example_db_def doc_rows_def)

end
