(* ===== verification/Input_Sanitizer.thy ===== *)
theory Input_Sanitizer
  imports Client_RGA "HOL-Library.Monad_Syntax"
begin

text \<open>
  \<^verbatim>\<open>src/server/security/input-sanitizer.ts\<close>: the schemas of the WebSocket messages and of
  the REST bodies as parsers from JSON values. A schema that fails is \<open>None\<close>; fields that are not named are dropped. The
  library's UUID test is an argument, of which the proofs use that it accepts nothing but
  hexadecimal digits and hyphens. The lemmas show what an accepted operation looks like, and
  that accepted operations cannot break a document.
\<close>

section \<open>Reading fields\<close>

definition field :: "json \<Rightarrow> string \<Rightarrow> json option" where
  "field v k = (case v of JObj fs \<Rightarrow> map_of (rev fs) k | _ \<Rightarrow> None)"

definition js_string :: "js_text \<Rightarrow> string" where
  "js_string s = map (\<lambda>u. char_of (unat u)) s"

fun nonnegative :: "json \<Rightarrow> int option" where
  "nonnegative (JNum n) = (if 0 \<le> n then Some n else None)"
| "nonnegative _ = None"

fun positive :: "json \<Rightarrow> int option" where
  "positive (JNum n) = (if 0 < n then Some n else None)"
| "positive _ = None"

fun uuid_string :: "(js_text \<Rightarrow> bool) \<Rightarrow> json \<Rightarrow> string option" where
  "uuid_string is_uuid (JStr s) = (if is_uuid s then Some (js_string s) else None)"
| "uuid_string is_uuid _ = None"

fun nullable :: "(json \<Rightarrow> 'a option) \<Rightarrow> json \<Rightarrow> 'a option option" where
  "nullable p JNull = Some None"
| "nullable p v = map_option Some (p v)"

fun boolean :: "json \<Rightarrow> bool option" where
  "boolean (JBool b) = Some b"
| "boolean _ = None"

definition has_type :: "json \<Rightarrow> string \<Rightarrow> bool" where
  "has_type v t \<longleftrightarrow> field v ''type'' = Some (JStr (ascii t))"

section \<open>The schemas\<close>

definition UIDSchema :: "(js_text \<Rightarrow> bool) \<Rightarrow> json \<Rightarrow> UID option" where
  "UIDSchema is_uuid v = do {
     c \<leftarrow> Option.bind (field v ''clock'') nonnegative;
     s \<leftarrow> Option.bind (field v ''siteId'') (uuid_string is_uuid);
     Some (UID c s) }"

text \<open>\<open>v.codePointAt(0)\<close>.\<close>

fun codePointAt0 :: "js_text \<Rightarrow> nat" where
  "codePointAt0 [] = 0"
| "codePointAt0 [u] = unat u"
| "codePointAt0 (u # v # s) =
     (if is_high_surrogate u \<and> is_low_surrogate v
      then (unat u - 0xD800) * 0x400 + (unat v - 0xDC00) + 0x10000 else unat u)"

fun insert_value :: "json \<Rightarrow> json option" where
  "insert_value (JStr s) =
     (if 1 \<le> length s \<and> length s \<le> 4 \<and> length (code_points s) = 1 \<and>
         \<not> (codePointAt0 s < 32 \<and> codePointAt0 s \<noteq> 9 \<and> codePointAt0 s \<noteq> 10)
      then Some (JStr s) else None)"
| "insert_value _ = None"

definition InsertOpSchema :: "(js_text \<Rightarrow> bool) \<Rightarrow> json \<Rightarrow> RGAOperation option" where
  "InsertOpSchema is_uuid v = do {
     u \<leftarrow> Option.bind (field v ''uid'') (UIDSchema is_uuid);
     a \<leftarrow> Option.bind (field v ''after'') (nullable (UIDSchema is_uuid));
     w \<leftarrow> Option.bind (field v ''value'') insert_value;
     Some (INSERT u a w) }"

definition DeleteOpSchema :: "(js_text \<Rightarrow> bool) \<Rightarrow> json \<Rightarrow> RGAOperation option" where
  "DeleteOpSchema is_uuid v = do {
     u \<leftarrow> Option.bind (field v ''uid'') (UIDSchema is_uuid);
     Some (DELETE u) }"

definition RGAOperationSchema :: "(js_text \<Rightarrow> bool) \<Rightarrow> json \<Rightarrow> RGAOperation option" where
  "RGAOperationSchema is_uuid v =
     (if has_type v ''INSERT'' then InsertOpSchema is_uuid v
      else if has_type v ''DELETE'' then DeleteOpSchema is_uuid v
      else None)"

fun clock_entries :: "(string \<times> json) list \<Rightarrow> VectorClock option" where
  "clock_entries [] = Some []"
| "clock_entries ((k, v) # fs) = do {
     n \<leftarrow> nonnegative v;
     rest \<leftarrow> clock_entries fs;
     Some ((k, n) # rest) }"

fun clock_record :: "json \<Rightarrow> VectorClock option" where
  "clock_record (JObj fs) = clock_entries fs"
| "clock_record _ = None"

definition OperationMessageSchema :: "(js_text \<Rightarrow> bool) \<Rightarrow> json \<Rightarrow> OperationMessage option" where
  "OperationMessageSchema is_uuid v = do {
     d \<leftarrow> Option.bind (field v ''docId'') (uuid_string is_uuid);
     n \<leftarrow> Option.bind (field v ''clientSeq'') positive;
     x \<leftarrow> Option.bind (field v ''op'') (RGAOperationSchema is_uuid);
     vc \<leftarrow> Option.bind (field v ''vectorClock'') clock_record;
     nonce \<leftarrow> Option.bind (field v ''nonce'') (uuid_string is_uuid);
     Some \<lparr>msg_docId = d, msg_clientSeq = n, msg_op = x, msg_vectorClock = vc, msg_nonce = nonce\<rparr> }"

fun nonempty_string :: "json \<Rightarrow> string option" where
  "nonempty_string (JStr s) = (if s \<noteq> [] then Some (js_string s) else None)"
| "nonempty_string _ = None"

definition JoinMessageSchema :: "(js_text \<Rightarrow> bool) \<Rightarrow> json \<Rightarrow> JoinMessage option" where
  "JoinMessageSchema is_uuid v =
     (if has_type v ''JOIN'' then do {
        d \<leftarrow> (case field v ''docId'' of None \<Rightarrow> Some None | Some w \<Rightarrow> map_option Some (uuid_string is_uuid w));
        t \<leftarrow> Option.bind (field v ''token'') nonempty_string;
        n \<leftarrow> Option.bind (field v ''lastSeq'') nonnegative;
        c \<leftarrow> Option.bind (field v ''clientId'') (uuid_string is_uuid);
        Some \<lparr>join_docId = d, join_token = t, join_lastSeq = n, join_clientId = c\<rparr> }
      else None)"

definition CursorSchema :: "(js_text \<Rightarrow> bool) \<Rightarrow> json \<Rightarrow> CursorPosition option" where
  "CursorSchema is_uuid v = do {
     a \<leftarrow> Option.bind (field v ''afterUid'') (nullable (UIDSchema is_uuid));
     b \<leftarrow> Option.bind (field v ''anchorUid'') (nullable (UIDSchema is_uuid));
     Some \<lparr>afterUid = a, anchorUid = b\<rparr> }"

definition PresenceMessageSchema :: "(js_text \<Rightarrow> bool) \<Rightarrow> json \<Rightarrow> PresenceMessage option" where
  "PresenceMessageSchema is_uuid v = do {
     d \<leftarrow> Option.bind (field v ''docId'') (uuid_string is_uuid);
     w \<leftarrow> field v ''update'';
     s \<leftarrow> Option.bind (field w ''sessionId'') (uuid_string is_uuid);
     c \<leftarrow> Option.bind (field w ''cursor'') (nullable (CursorSchema is_uuid));
     t \<leftarrow> Option.bind (field w ''isTyping'') boolean;
     Some \<lparr>pm_docId = d, pm_update = \<lparr>u_sessionId = s, u_cursor = c, u_isTyping = t\<rparr>\<rparr> }"

definition PingMessageSchema :: "json \<Rightarrow> int option" where
  "PingMessageSchema v = Option.bind (field v ''timestamp'') positive"

definition ClientMessageSchema :: "(js_text \<Rightarrow> bool) \<Rightarrow> json \<Rightarrow> ClientMessage option" where
  "ClientMessageSchema is_uuid v =
     (if has_type v ''JOIN'' then map_option JOIN (JoinMessageSchema is_uuid v)
      else if has_type v ''OPERATION'' then map_option OPERATION (OperationMessageSchema is_uuid v)
      else if has_type v ''PRESENCE'' then map_option PRESENCE (PresenceMessageSchema is_uuid v)
      else if has_type v ''PING'' then map_option PING (PingMessageSchema v)
      else None)"

section \<open>The REST schemas\<close>

text \<open>The checks of a Zod string run in the order they are written: \<open>min\<close> and \<open>max\<close> see the text before
  \<open>trim\<close>. \<open>is_email\<close> is the library's test of an address.\<close>

definition js_whitespace :: "code_unit \<Rightarrow> bool" where
  "js_whitespace u \<longleftrightarrow> (9 \<le> u \<and> u \<le> 13) \<or> u = 32 \<or> u = 0xA0 \<or> u = 0x1680 \<or> (0x2000 \<le> u \<and> u \<le> 0x200A) \<or>
     u = 0x2028 \<or> u = 0x2029 \<or> u = 0x202F \<or> u = 0x205F \<or> u = 0x3000 \<or> u = 0xFEFF"

definition js_trim :: "js_text \<Rightarrow> js_text" where
  "js_trim s = rev (dropWhile js_whitespace (rev (dropWhile js_whitespace s)))"

fun sized_string :: "nat \<Rightarrow> nat option \<Rightarrow> json \<Rightarrow> js_text option" where
  "sized_string least most (JStr s) =
     (if least \<le> length s \<and> (case most of Some m \<Rightarrow> length s \<le> m | None \<Rightarrow> True) then Some s else None)"
| "sized_string least most _ = None"

fun optional :: "(json \<Rightarrow> 'a option) \<Rightarrow> json option \<Rightarrow> 'a option option" where
  "optional p None = Some None"
| "optional p (Some v) = map_option Some (p v)"

definition CreateDocumentSchema :: "json \<Rightarrow> js_text option" where
  "CreateDocumentSchema v = map_option js_trim (Option.bind (field v ''title'') (sized_string 1 (Some 200)))"

definition RestoreRevisionSchema :: "json \<Rightarrow> (int \<times> js_text option) option" where
  "RestoreRevisionSchema v = do {
     n \<leftarrow> Option.bind (field v ''targetSeq'') positive;
     l \<leftarrow> optional (sized_string 0 (Some 100)) (field v ''label'');
     Some (n, l) }"

fun email_string :: "(js_text \<Rightarrow> bool) \<Rightarrow> json \<Rightarrow> string option" where
  "email_string is_email (JStr s) = (if is_email s then Some (js_string s) else None)"
| "email_string is_email _ = None"

definition hex_digit :: "code_unit \<Rightarrow> bool" where
  "hex_digit u \<longleftrightarrow> (48 \<le> u \<and> u \<le> 57) \<or> (65 \<le> u \<and> u \<le> 70) \<or> (97 \<le> u \<and> u \<le> 102)"

fun color_string :: "json \<Rightarrow> string option" where
  "color_string (JStr s) =
     (if length s = 7 \<and> hd s = 35 \<and> list_all hex_digit (tl s) then Some (js_string s) else None)"
| "color_string _ = None"

record Registration =
  reg_email :: string
  reg_displayName :: js_text
  reg_password :: js_text
  reg_color :: "string option"

definition RegisterSchema :: "(js_text \<Rightarrow> bool) \<Rightarrow> json \<Rightarrow> Registration option" where
  "RegisterSchema is_email v = do {
     e \<leftarrow> Option.bind (field v ''email'') (email_string is_email);
     n \<leftarrow> Option.bind (field v ''displayName'') (sized_string 1 (Some 100));
     p \<leftarrow> Option.bind (field v ''password'') (sized_string 8 (Some 128));
     c \<leftarrow> optional color_string (field v ''color'');
     Some \<lparr>reg_email = e, reg_displayName = js_trim n, reg_password = p, reg_color = c\<rparr> }"

definition LoginSchema :: "(js_text \<Rightarrow> bool) \<Rightarrow> json \<Rightarrow> (string \<times> js_text) option" where
  "LoginSchema is_email v = do {
     e \<leftarrow> Option.bind (field v ''email'') (email_string is_email);
     p \<leftarrow> Option.bind (field v ''password'') (sized_string 1 None);
     Some (e, p) }"

section \<open>Accepted operations\<close>

definition uuid_char :: "code_unit \<Rightarrow> bool" where
  "uuid_char u \<longleftrightarrow> u = 45 \<or> (48 \<le> u \<and> u \<le> 57) \<or> (65 \<le> u \<and> u \<le> 70) \<or> (97 \<le> u \<and> u \<le> 102)"

definition uuid_test :: "(js_text \<Rightarrow> bool) \<Rightarrow> bool" where
  "uuid_test is_uuid \<longleftrightarrow> (\<forall>s. is_uuid s \<longrightarrow> list_all uuid_char s)"

definition good_op :: "RGAOperation \<Rightarrow> bool" where
  "good_op x \<longleftrightarrow> plain_op x \<and> 0 \<le> clock (op_uid x) \<and>
     (case x of INSERT u a v \<Rightarrow> (\<exists>s. v = JStr s \<and> code_points s = [s]) \<and> a \<noteq> Some ROOT_UID | _ \<Rightarrow> True)"

lemma underscore_not_uuid: "uuid_char u \<Longrightarrow> char_of (unat u) \<noteq> CHR ''_''"
proof
  assume u: "uuid_char u" and c: "char_of (unat u) = CHR ''_''"
  have "unat u < 103"
    using u by (auto simp: uuid_char_def word_le_nat_alt)
  moreover have "of_char (char_of (unat u) :: char) = unat u mod 256"
    by simp
  ultimately have "unat u = 95" using c by simp
  then have "u = 95" by (simp add: word_unat_eq_iff)
  with u show False by (simp add: uuid_char_def)
qed

lemma UIDSchema_not_root:
  assumes "UIDSchema is_uuid v = Some u" "uuid_test is_uuid"
  shows "u \<noteq> ROOT_UID \<and> 0 \<le> clock u"
proof -
  obtain c s where cs: "Option.bind (field v ''clock'') nonnegative = Some c"
    "Option.bind (field v ''siteId'') (uuid_string is_uuid) = Some s" "u = UID c s"
    using assms(1) by (auto simp: UIDSchema_def bind_eq_Some_conv)
  from cs(1) obtain w where "nonnegative w = Some c" by (auto simp: bind_eq_Some_conv)
  then have "0 \<le> c" by (cases w) (auto split: if_splits)
  moreover from cs(2) obtain w where "uuid_string is_uuid w = Some s" by (auto simp: bind_eq_Some_conv)
  then obtain t where t: "is_uuid t" "s = js_string t" by (cases w) (auto split: if_splits)
  have "CHR ''_'' \<notin> set s"
    using assms(2) t underscore_not_uuid by (fastforce simp: js_string_def uuid_test_def list_all_iff)
  then have "s \<noteq> ''__root__''" by auto
  ultimately show ?thesis by (simp add: cs(3) ROOT_UID_def)
qed

text \<open>C39: What the schema lets through cannot break a document: an accepted operation is an insert of
  exactly one code point or a delete, never a format or a rollback, its UIDs have non-negative
  clocks, and it does not name the sentinel; applying accepted operations keeps the class
  invariant of the server's document and of the browser's.\<close>

theorem accepted_operations_safe:
  assumes "RGAOperationSchema is_uuid v = Some x" "uuid_test is_uuid"
  shows "good_op x \<and> (if wf_doc d then wf_doc (applyOp d x) else True) \<and>
    (if wf_client c then wf_client (cl_applyOperation c x) else True)"
proof -
  have "good_op x"
  proof (cases "has_type v ''INSERT''")
    case True
    then obtain u a w where x: "x = INSERT u a w" and u: "Option.bind (field v ''uid'') (UIDSchema is_uuid) = Some u"
      and a: "Option.bind (field v ''after'') (nullable (UIDSchema is_uuid)) = Some a"
      and w: "Option.bind (field v ''value'') insert_value = Some w"
      using assms(1) by (auto simp: RGAOperationSchema_def InsertOpSchema_def bind_eq_Some_conv)
    have "u \<noteq> ROOT_UID \<and> 0 \<le> clock u"
      using u UIDSchema_not_root [OF _ assms(2)] by (auto simp: bind_eq_Some_conv)
    moreover obtain z where "nullable (UIDSchema is_uuid) z = Some a"
      using a by (auto simp: bind_eq_Some_conv)
    then have "a \<noteq> Some ROOT_UID"
      using UIDSchema_not_root [OF _ assms(2)] by (cases z) auto
    moreover obtain y where "insert_value y = Some w"
      using w by (auto simp: bind_eq_Some_conv)
    then obtain s where "w = JStr s" "length (code_points s) = 1"
      by (cases y) (auto split: if_splits)
    moreover from this have "code_points s = [s]"
      using concat_code_points [of s] by (cases "code_points s") auto
    ultimately show ?thesis
      by (auto simp: x good_op_def plain_op_def not_on_root_def)
  next
    case False
    then obtain u where x: "x = DELETE u" and u: "Option.bind (field v ''uid'') (UIDSchema is_uuid) = Some u"
      using assms(1) by (auto simp: RGAOperationSchema_def DeleteOpSchema_def bind_eq_Some_conv split: if_splits)
    have "u \<noteq> ROOT_UID \<and> 0 \<le> clock u"
      using u UIDSchema_not_root [OF _ assms(2)] by (auto simp: bind_eq_Some_conv)
    then show ?thesis
      by (auto simp: x good_op_def plain_op_def not_on_root_def)
  qed
  then show ?thesis
    by (auto simp: good_op_def plain_op_def intro: wf_intros)
qed

definition example_uid_json :: json where
  "example_uid_json = JObj [(''clock'', JNum 1), (''siteId'', JStr [97, 98])]"

theorem accepted_operations_safe_witness:
  "RGAOperationSchema (list_all uuid_char) (JObj [(''type'', JStr (ascii ''DELETE'')), (''uid'', example_uid_json)]) =
     Some (DELETE (UID 1 ''ab'')) \<and> good_op (DELETE (UID 1 ''ab''))"
proof -
  have r: "RGAOperationSchema (list_all uuid_char) (JObj [(''type'', JStr (ascii ''DELETE'')), (''uid'', example_uid_json)]) =
     Some (DELETE (UID 1 ''ab''))"
    by (simp add: RGAOperationSchema_def DeleteOpSchema_def has_type_def field_def example_uid_json_def UIDSchema_def
        uuid_char_def js_string_def ascii_def char_of_def bit_0)
  have "uuid_test (list_all uuid_char)"
    by (simp add: uuid_test_def)
  from accepted_operations_safe [OF r this] r show ?thesis by blast
qed

end
