(* ===== verification/Request_Guards.thy ===== *)
theory Request_Guards
  imports Event_Store
begin

text \<open>
  \<^verbatim>\<open>src/server/sync/rate-limiter.ts\<close> and \<^verbatim>\<open>src/server/security/replay-guard.ts\<close>. Redis is an
  argument: the pipeline that increments two counters, and \<open>SET ... NX\<close>. What the code relies on
  is stated by the predicates \<open>redis_counters\<close> and \<open>redis_nonces\<close>, which a plain map of counters
  and a plain set of keys satisfy. The lemmas say which requests get through.
\<close>

section \<open>The rate limiter\<close>

record RateLimitResult =
  rl_allowed :: bool
  rl_retryAfterMs :: "int option"

record RateConfig =
  rateLimitOpsPerSecond :: int
  rateLimitOpsPerMinute :: int

text \<open>\<open>INCR\<close> and \<open>EXPIRE\<close> of two keys in one pipeline: the counters after the increments, or nothing
  when the pipeline fails.\<close>

type_synonym 'r pipeline =
  "'r \<Rightarrow> string \<Rightarrow> int \<Rightarrow> string \<Rightarrow> int \<Rightarrow> 'r \<times> (int option \<times> int option) option"

definition perSecKey :: "string \<Rightarrow> int \<Rightarrow> string" where
  "perSecKey userId now = rateLimitKey userId @ '':s'' @ CHR '':'' # show_int (now div 1000)"

definition perMinKey :: "string \<Rightarrow> int \<Rightarrow> string" where
  "perMinKey userId now = rateLimitKey userId @ '':m'' @ CHR '':'' # show_int (now div 60000)"

definition checkRateLimit ::
  "'r pipeline \<Rightarrow> RateConfig \<Rightarrow> 'r \<Rightarrow> string \<Rightarrow> int \<Rightarrow> 'r \<times> RateLimitResult" where
  "checkRateLimit pipe cfg r userId now =
     (case pipe r (perSecKey userId now) 2 (perMinKey userId now) 120 of
        (r', None) \<Rightarrow> (r', \<lparr>rl_allowed = True, rl_retryAfterMs = None\<rparr>)
      | (r', Some (a, b)) \<Rightarrow>
          let perSec = (case a of Some n \<Rightarrow> n | None \<Rightarrow> 0);
              perMin = (case b of Some n \<Rightarrow> n | None \<Rightarrow> 0)
          in (r', if perSec > rateLimitOpsPerSecond cfg then \<lparr>rl_allowed = False, rl_retryAfterMs = Some 1000\<rparr>
                  else if perMin > rateLimitOpsPerMinute cfg then \<lparr>rl_allowed = False, rl_retryAfterMs = Some 60000\<rparr>
                  else \<lparr>rl_allowed = True, rl_retryAfterMs = None\<rparr>))"

text \<open>What Redis promises while the keys live: each key has a counter, the pipeline increments the
  two counters, returns them, and touches no other.\<close>

definition redis_counters :: "'r pipeline \<Rightarrow> ('r \<Rightarrow> string \<Rightarrow> int) \<Rightarrow> bool" where
  "redis_counters pipe cnt \<longleftrightarrow> (\<forall>r k t k' t'. k \<noteq> k' \<longrightarrow>
     snd (pipe r k t k' t') = Some (Some (cnt r k + 1), Some (cnt r k' + 1)) \<and>
     (\<forall>j. cnt (fst (pipe r k t k' t')) j = cnt r j + (if j = k \<or> j = k' then 1 else 0)))"

lemma redis_countersD:
  "redis_counters pipe cnt \<Longrightarrow> k \<noteq> k' \<Longrightarrow>
     snd (pipe r k t k' t') = Some (Some (cnt r k + 1), Some (cnt r k' + 1)) \<and>
     (\<forall>j. cnt (fst (pipe r k t k' t')) j = cnt r j + (if j = k \<or> j = k' then 1 else 0))"
  by (simp add: redis_counters_def)

definition map_pipeline :: "(string \<Rightarrow> int) pipeline" where
  "map_pipeline r k t k' t' =
     (r(k := r k + 1, k' := r k' + 1), Some (Some (r k + 1), Some (r k' + 1)))"

lemma map_pipeline_ok: "redis_counters map_pipeline (\<lambda>r. r)"
  by (auto simp: redis_counters_def map_pipeline_def)

lemma rate_key_split:
  "rateLimitKey u @ s @ CHR '':'' # show_int m = rateLimitKey v @ t @ CHR '':'' # show_int n \<longleftrightarrow>
     rateLimitKey u @ s = rateLimitKey v @ t \<and> m = n"
proof -
  have "(rateLimitKey u @ s) @ CHR '':'' # show_int m = (rateLimitKey v @ t) @ CHR '':'' # show_int n \<longleftrightarrow>
      rateLimitKey u @ s = rateLimitKey v @ t \<and> show_int m = show_int n"
    by (rule split_at_last) simp_all
  then show ?thesis by simp
qed

lemma rate_keys [simp]:
  "perSecKey u a = perSecKey v b \<longleftrightarrow> u = v \<and> a div 1000 = b div 1000"
  "perMinKey u a = perMinKey v b \<longleftrightarrow> u = v \<and> a div 60000 = b div 60000"
  "perSecKey u a \<noteq> perMinKey v b" "perMinKey v b \<noteq> perSecKey u a"
proof -
  show "perSecKey u a = perSecKey v b \<longleftrightarrow> u = v \<and> a div 1000 = b div 1000"
    "perMinKey u a = perMinKey v b \<longleftrightarrow> u = v \<and> a div 60000 = b div 60000"
    unfolding perSecKey_def perMinKey_def rate_key_split by (auto simp: rateLimitKey_def)
  have "rateLimitKey u @ '':s'' \<noteq> rateLimitKey v @ '':m''"
  proof
    assume "rateLimitKey u @ '':s'' = rateLimitKey v @ '':m''"
    then have "last (rateLimitKey u @ '':s'') = last (rateLimitKey v @ '':m'')" by (rule arg_cong)
    then show False by simp
  qed
  then show "perSecKey u a \<noteq> perMinKey v b" "perMinKey v b \<noteq> perSecKey u a"
    unfolding perSecKey_def perMinKey_def using rate_key_split by metis+
qed

text \<open>A run of requests of one user at the given times: the decisions.\<close>

fun requests :: "'r pipeline \<Rightarrow> RateConfig \<Rightarrow> 'r \<Rightarrow> string \<Rightarrow> int list \<Rightarrow> 'r \<times> bool list" where
  "requests pipe cfg r u [] = (r, [])"
| "requests pipe cfg r u (now # ts) =
     (case checkRateLimit pipe cfg r u now of (r1, res) \<Rightarrow>
        case requests pipe cfg r1 u ts of (r2, bs) \<Rightarrow> (r2, rl_allowed res # bs))"

lemma check_step:
  assumes "redis_counters pipe cnt" "checkRateLimit pipe cfg r u now = (r', res)"
  shows "rl_allowed res \<longleftrightarrow> cnt r (perSecKey u now) + 1 \<le> rateLimitOpsPerSecond cfg \<and>
      cnt r (perMinKey u now) + 1 \<le> rateLimitOpsPerMinute cfg"
    and "cnt r' j = cnt r j + (if j = perSecKey u now \<or> j = perMinKey u now then 1 else 0)"
proof -
  obtain r1 x where p: "pipe r (perSecKey u now) 2 (perMinKey u now) 120 = (r1, x)" by (metis surj_pair)
  have x: "x = Some (Some (cnt r (perSecKey u now) + 1), Some (cnt r (perMinKey u now) + 1)) \<and>
      (\<forall>j. cnt r1 j = cnt r j + (if j = perSecKey u now \<or> j = perMinKey u now then 1 else 0))"
    using redis_countersD [OF assms(1), of "perSecKey u now" "perMinKey u now" r 2 120] p by simp
  show "rl_allowed res \<longleftrightarrow> cnt r (perSecKey u now) + 1 \<le> rateLimitOpsPerSecond cfg \<and>
      cnt r (perMinKey u now) + 1 \<le> rateLimitOpsPerMinute cfg"
    using assms(2) p conjunct1 [OF x] by (clarsimp simp: checkRateLimit_def Let_def not_less)
  have "r' = r1" using assms(2) p conjunct1 [OF x] by (simp add: checkRateLimit_def Let_def)
  then show "cnt r' j = cnt r j + (if j = perSecKey u now \<or> j = perMinKey u now then 1 else 0)"
    using conjunct2 [OF x] by blast
qed

text \<open>Within one second of the clock, with room in the minute: the first ones up to the limit pass.\<close>

lemma requests_in_second:
  assumes "redis_counters pipe cnt" "\<forall>t \<in> set ts. t div 1000 = s"
    and "c = cnt r (perSecKey u (s * 1000))" "0 \<le> c"
    and "cnt r (perMinKey u (s * 1000)) + int (length ts) \<le> rateLimitOpsPerMinute cfg"
  shows "snd (requests pipe cfg r u ts) = map (\<lambda>i. c + int i < rateLimitOpsPerSecond cfg) [0..<length ts] \<and>
    (\<forall>j. j \<noteq> perSecKey u (s * 1000) \<and> j \<noteq> perMinKey u (s * 1000) \<longrightarrow> cnt (fst (requests pipe cfg r u ts)) j = cnt r j) \<and>
    cnt (fst (requests pipe cfg r u ts)) (perMinKey u (s * 1000)) = cnt r (perMinKey u (s * 1000)) + int (length ts)"
  using assms(2-)
proof (induction ts arbitrary: r c)
  case (Cons t ts)
  have m: "t div 60000 = s * 1000 div 60000"
  proof -
    have "t div 60000 = t div 1000 div 60" "s * 1000 div 60000 = s * 1000 div 1000 div 60"
      by (simp_all add: zdiv_zmult2_eq)
    then show ?thesis using Cons.prems(1) by simp
  qed
  have keys: "perSecKey u t = perSecKey u (s * 1000)" "perMinKey u t = perMinKey u (s * 1000)"
    using Cons.prems(1) m by simp_all
  obtain r1 res where r1: "checkRateLimit pipe cfg r u t = (r1, res)" by (metis surj_pair)
  note st = check_step [OF assms(1) r1, unfolded keys]
  have c1: "c + 1 = cnt r1 (perSecKey u (s * 1000))"
    and m1: "cnt r1 (perMinKey u (s * 1000)) = cnt r (perMinKey u (s * 1000)) + 1"
    using st(2) Cons.prems(2) by simp_all
  have "rl_allowed res \<longleftrightarrow> c < rateLimitOpsPerSecond cfg"
    using st(1) Cons.prems(2,4) by auto
  moreover obtain r2 bs where r2: "requests pipe cfg r1 u ts = (r2, bs)" by (metis surj_pair)
  moreover have "snd (requests pipe cfg r1 u ts) = map (\<lambda>i. c + 1 + int i < rateLimitOpsPerSecond cfg) [0..<length ts] \<and>
    (\<forall>j. j \<noteq> perSecKey u (s * 1000) \<and> j \<noteq> perMinKey u (s * 1000) \<longrightarrow> cnt (fst (requests pipe cfg r1 u ts)) j = cnt r1 j) \<and>
    cnt (fst (requests pipe cfg r1 u ts)) (perMinKey u (s * 1000)) = cnt r1 (perMinKey u (s * 1000)) + int (length ts)"
    using Cons.prems by (intro Cons.IH c1) (simp_all add: m1)
  moreover have "map (\<lambda>i. c + int i < k) [0..<Suc n] = (c < k) # map (\<lambda>i. c + 1 + int i < k) [0..<n]" for k n
    by (simp add: upt_conv_Cons map_Suc_upt [symmetric] del: upt_Suc) (simp add: comp_def add.assoc)
  ultimately show ?case
    using r1 m1 st(2) by (simp del: upt_Suc)
qed simp

text \<open>For any requests: how many of those in one second, or in one minute, of the clock pass.\<close>

definition passed_in :: "(int \<Rightarrow> bool) \<Rightarrow> int list \<Rightarrow> bool list \<Rightarrow> nat" where
  "passed_in P ts bs = length (filter (\<lambda>(t, b). P t \<and> b) (zip ts bs))"

lemma passed_split:
  assumes "\<And>t. t \<in> set ts \<Longrightarrow> P t \<Longrightarrow> Q t \<or> R t"
  shows "passed_in P ts bs \<le> passed_in Q ts bs + passed_in R ts bs"
  using assms
proof (induction ts arbitrary: bs)
  case (Cons t ts)
  show ?case
  proof (cases bs)
    case (Cons b bs')
    have "passed_in P ts bs' \<le> passed_in Q ts bs' + passed_in R ts bs'" using Cons.IH Cons.prems by simp
    then show ?thesis using Cons Cons.prems by (auto simp: passed_in_def)
  qed (simp add: passed_in_def)
qed (simp add: passed_in_def)

text \<open>A counter that a request in \<open>P\<close> increments and that blocks it beyond the limit.\<close>

lemma passed_limit:
  assumes "redis_counters pipe cnt" "\<And>t. P t \<Longrightarrow> k = perSecKey u t \<and> L = rateLimitOpsPerSecond cfg \<or> k = perMinKey u t \<and> L = rateLimitOpsPerMinute cfg"
  shows "int (passed_in P ts (snd (requests pipe cfg r u ts))) \<le> max 0 (L - cnt r k)"
proof (induction ts arbitrary: r)
  case (Cons t ts)
  obtain r1 res where r1: "checkRateLimit pipe cfg r u t = (r1, res)" by (metis surj_pair)
  note st = check_step [OF assms(1) r1]
  have bs: "snd (requests pipe cfg r u (t # ts)) = rl_allowed res # snd (requests pipe cfg r1 u ts)"
    using r1 by (simp add: case_prod_beta)
  have one: "passed_in P (t # ts) (snd (requests pipe cfg r u (t # ts))) =
      (if P t \<and> rl_allowed res then 1 else 0) + passed_in P ts (snd (requests pipe cfg r1 u ts))"
    unfolding bs by (simp add: passed_in_def)
  show ?case
  proof (cases "P t")
    case True
    then have "cnt r1 k = cnt r k + 1" "rl_allowed res \<Longrightarrow> cnt r k + 1 \<le> L"
      using assms(2) [OF True] st by auto
    then show ?thesis using Cons.IH [of r1] one True by (cases "rl_allowed res") auto
  next
    case False
    have "cnt r k \<le> cnt r1 k" using st(2) [of k] by simp
    then show ?thesis using Cons.IH [of r1] one False by simp
  qed
qed (simp add: passed_in_def)


definition no_counters :: "string \<Rightarrow> int" where
  "no_counters k = 0"


lemma requests_append:
  "snd (requests pipe cfg r u (ts @ ts')) =
     snd (requests pipe cfg r u ts) @ snd (requests pipe cfg (fst (requests pipe cfg r u ts)) u ts')"
proof (induction ts arbitrary: r)
  case (Cons a ts)
  obtain r1 x where "checkRateLimit pipe cfg r u a = (r1, x)" by (metis surj_pair)
  then show ?case using Cons [of r1] by (simp add: case_prod_beta)
qed simp

text \<open>The limit is one of fixed windows, not the sliding window of the comment: twice the
  allowance passes within two milliseconds, \<open>L\<close> requests in the last one of a second and \<open>L\<close> in
  the first one of the next.\<close>

theorem fixed_window_burst:
  assumes "redis_counters pipe cnt" "s div 60 = (s + 1) div 60"
    and "\<forall>k. cnt r k = 0" "2 * int L \<le> rateLimitOpsPerMinute cfg" "rateLimitOpsPerSecond cfg = int L"
  shows "snd (requests pipe cfg r u (replicate L (s * 1000 + 999) @ replicate L ((s + 1) * 1000)))
    = replicate (2 * L) True"
proof -
  let ?a = "requests pipe cfg r u (replicate L (s * 1000 + 999))"
  have min: "perMinKey u (s * 1000) = perMinKey u ((s + 1) * 1000)"
  proof -
    have "t * 1000 div 60000 = t div 60" for t :: int
      using zdiv_zmult2_eq [of 60 "t * 1000" 1000] by simp
    then show ?thesis using assms(2) by simp
  qed
  have a: "snd ?a = map (\<lambda>i. (0::int) + int i < rateLimitOpsPerSecond cfg) [0..<length (replicate L (s * 1000 + 999))] \<and>
    (\<forall>j. j \<noteq> perSecKey u (s * 1000) \<and> j \<noteq> perMinKey u (s * 1000) \<longrightarrow> cnt (fst ?a) j = cnt r j) \<and>
    cnt (fst ?a) (perMinKey u (s * 1000)) = cnt r (perMinKey u (s * 1000)) + int (length (replicate L (s * 1000 + 999)))"
    using assms(3,4) by (intro requests_in_second [OF assms(1)]) simp_all
  have "cnt (fst ?a) (perSecKey u ((s + 1) * 1000)) = 0"
    using a assms(3) by simp
  moreover have "cnt (fst ?a) (perMinKey u ((s + 1) * 1000)) = int L"
    using a assms(3) by (simp add: min)
  ultimately have "snd (requests pipe cfg (fst ?a) u (replicate L ((s + 1) * 1000))) =
      map (\<lambda>i. (0::int) + int i < rateLimitOpsPerSecond cfg) [0..<length (replicate L ((s + 1) * 1000))]"
    using assms(4) by (intro conjunct1 [OF requests_in_second [OF assms(1), where s = "s + 1"]]) simp_all
  then have "snd (requests pipe cfg (fst ?a) u (replicate L ((s + 1) * 1000))) = replicate L True"
    by (simp add: assms(5) list_eq_iff_nth_eq)
  moreover have "snd ?a = replicate L True"
    using conjunct1 [OF a] by (simp add: assms(5) list_eq_iff_nth_eq)
  ultimately show ?thesis by (simp add: requests_append mult_2 replicate_add)
qed

theorem fixed_window_burst_witness:
  "snd (requests map_pipeline \<lparr>rateLimitOpsPerSecond = 2, rateLimitOpsPerMinute = 100\<rparr> no_counters ''u''
     [5999, 5999, 6000, 6000]) = [True, True, True, True]"
  using fixed_window_burst [of map_pipeline "\<lambda>r. r" 5 no_counters 2
      "\<lparr>rateLimitOpsPerSecond = 2, rateLimitOpsPerMinute = 100\<rparr>" "''u''"]
  by (simp add: map_pipeline_ok no_counters_def numeral_eq_Suc)

section \<open>The replay guard\<close>

text \<open>\<open>SET key 1 EX seconds NX\<close>: \<open>Some True\<close> when it stored the key, \<open>Some False\<close> when the key was
  there, \<open>None\<close> when Redis is unreachable; the database is \<open>None\<close> when PostgreSQL is unreachable.\<close>

type_synonym 'r setnx = "'r \<Rightarrow> string \<Rightarrow> int \<Rightarrow> 'r \<times> bool option"

definition isReplay ::
  "'r setnx \<Rightarrow> int \<Rightarrow> 'r \<Rightarrow> Database option \<Rightarrow> string \<Rightarrow> string \<Rightarrow> 'r \<times> bool" where
  "isReplay setnx replayWindowSeconds r pg docId nonce =
     (case setnx r (replayNonceKey docId nonce) replayWindowSeconds of
        (r', Some stored) \<Rightarrow> (r', \<not> stored)
      | (r', None) \<Rightarrow> (r', case pg of Some db \<Rightarrow> nonceExists db nonce | None \<Rightarrow> True))"

text \<open>\<open>new Date(timestamp).getTime()\<close> is an argument, with \<open>None\<close> for NaN, which no comparison
  satisfies.\<close>

definition isTimestampValid :: "(string \<Rightarrow> int option) \<Rightarrow> int \<Rightarrow> int \<Rightarrow> string \<Rightarrow> bool" where
  "isTimestampValid getTime replayWindowSeconds now timestamp =
     (case getTime timestamp of
        Some opTime \<Rightarrow> \<bar>now - opTime\<bar> \<le> replayWindowSeconds * 1000
      | None \<Rightarrow> False)"

text \<open>What Redis promises within the life of a key: it stores a key it does not have, refuses one
  it has, and changes nothing when it is not reached.\<close>

definition redis_nonces :: "'r setnx \<Rightarrow> ('r \<Rightarrow> string set) \<Rightarrow> bool" where
  "redis_nonces setnx seen \<longleftrightarrow> (\<forall>r k t. case setnx r k t of
       (r', Some True) \<Rightarrow> k \<notin> seen r \<and> seen r' = insert k (seen r)
     | (r', Some False) \<Rightarrow> k \<in> seen r \<and> seen r' = seen r
     | (r', None) \<Rightarrow> seen r' = seen r)"

text \<open>A Redis that is up or down, with the keys it has.\<close>

definition set_setnx :: "(bool \<times> string set) setnx" where
  "set_setnx r k t = (case r of (up, ks) \<Rightarrow>
     if \<not> up then ((up, ks), None)
     else if k \<in> ks then ((up, ks), Some False) else ((up, insert k ks), Some True))"

lemma set_setnx_ok: "redis_nonces set_setnx snd"
  by (auto simp: redis_nonces_def set_setnx_def split: prod.split)

lemma isReplay_up:
  assumes "redis_nonces setnx seen" "snd (setnx r (replayNonceKey d n) ttl) \<noteq> None"
    "isReplay setnx ttl r pg d n = (r', b)"
  shows "b \<longleftrightarrow> replayNonceKey d n \<in> seen r" "seen r' = insert (replayNonceKey d n) (seen r)"
proof -
  have "case setnx r (replayNonceKey d n) ttl of
       (r', Some True) \<Rightarrow> replayNonceKey d n \<notin> seen r \<and> seen r' = insert (replayNonceKey d n) (seen r)
     | (r', Some False) \<Rightarrow> replayNonceKey d n \<in> seen r \<and> seen r' = seen r
     | (r', None) \<Rightarrow> seen r' = seen r"
    using assms(1) by (simp add: redis_nonces_def)
  with assms(2,3) show "b \<longleftrightarrow> replayNonceKey d n \<in> seen r" "seen r' = insert (replayNonceKey d n) (seen r)"
    by (auto simp: isReplay_def split: prod.splits option.splits bool.splits)
qed

text \<open>A run of checks, with the database as it is at each: which of them are replays.\<close>

fun replays :: "'r setnx \<Rightarrow> int \<Rightarrow> 'r \<Rightarrow> (Database option \<times> string \<times> string) list \<Rightarrow> bool list" where
  "replays setnx ttl r [] = []"
| "replays setnx ttl r ((pg, d, n) # xs) =
     (case isReplay setnx ttl r pg d n of (r', b) \<Rightarrow> b # replays setnx ttl r' xs)"

text \<open>The first use of each pair, by its position in the run.\<close>

fun repeats :: "'a set \<Rightarrow> 'a list \<Rightarrow> bool list" where
  "repeats S [] = []"
| "repeats S (x # xs) = (x \<in> S) # repeats (insert x S) xs"

lemma repeats_map:
  assumes "\<forall>x \<in> S \<union> set xs. \<forall>y \<in> S \<union> set xs. f x = f y \<longrightarrow> x = y"
  shows "repeats (f ` S) (map f xs) = repeats S xs"
  using assms
proof (induction xs arbitrary: S)
  case (Cons x xs)
  have "repeats (f ` insert x S) (map f xs) = repeats (insert x S) xs"
    by (rule Cons.IH) (use Cons.prems in auto)
  moreover have "f x \<in> f ` S \<longleftrightarrow> x \<in> S"
  proof
    assume "f x \<in> f ` S"
    then obtain y where "y \<in> S" "f x = f y" by blast
    then show "x \<in> S" using Cons.prems by (metis UnCI list.set_intros(1))
  qed simp
  ultimately show ?case by simp
qed simp

lemma replays_keys:
  assumes "redis_nonces setnx seen" "\<forall>r k. snd (setnx r k ttl) \<noteq> None"
  shows "replays setnx ttl r xs = repeats (seen r) (map (\<lambda>(pg, d, n). replayNonceKey d n) xs)"
proof (induction xs arbitrary: r)
  case (Cons x xs)
  obtain pg d n where x: "x = (pg, d, n)" by (metis surj_pair)
  obtain r' b where r: "isReplay setnx ttl r pg d n = (r', b)" by (metis surj_pair)
  note u = isReplay_up [OF assms(1) assms(2) [rule_format] r]
  show ?case using Cons.IH [of r'] by (simp add: x r u)
qed simp

text \<open>While Redis is reachable, the guard rejects exactly the repeated operations: in a run of
  checks with nonces free of colons, such as UUIDs, the rejected ones are those whose document and
  nonce occurred before in the run, so a nonce used in one document blocks nothing in another.\<close>

theorem replay_guard_exact:
  assumes "redis_nonces setnx seen" "\<forall>r k. snd (setnx r k ttl) \<noteq> None" "seen r = {}"
    and "\<forall>(pg, d, n) \<in> set xs. CHR '':'' \<notin> set n"
  shows "replays setnx ttl r xs = repeats {} (map snd xs)"
proof -
  have "repeats ((\<lambda>(d, n). replayNonceKey d n) ` {}) (map (\<lambda>(d, n). replayNonceKey d n) (map snd xs)) =
      repeats {} (map snd xs)"
    using assms(4) by (intro repeats_map) (fastforce dest: replayNonceKey_inj [THEN iffD1, rotated 2])
  moreover have "map (\<lambda>(d, n). replayNonceKey d n) (map snd xs) = map (\<lambda>(pg, d, n). replayNonceKey d n) xs"
    by (auto simp: case_prod_beta)
  ultimately show ?thesis
    using replays_keys [OF assms(1,2), of r xs] assms(3) by (simp only: image_empty)
qed

definition always_setnx :: "string set setnx" where
  "always_setnx ks k t = (if k \<in> ks then (ks, Some False) else (insert k ks, Some True))"

lemma always_setnx_ok: "redis_nonces always_setnx (\<lambda>ks. ks)" "snd (always_setnx ks k t) \<noteq> None"
  by (auto simp: redis_nonces_def always_setnx_def)

theorem replay_guard_exact_witness:
  "replays always_setnx 300 {} [(None, ''d'', ''n''), (None, ''e'', ''n''), (None, ''d'', ''n'')] =
     [False, False, True]"
  using replay_guard_exact [of always_setnx "\<lambda>ks. ks" 300 "{}"
      "[(None, ''d'', ''n''), (None, ''e'', ''n''), (None, ''d'', ''n'')]"]
  by (simp add: always_setnx_ok)

text \<open>The guard has a hole at the end of a Redis outage: an operation checked while Redis is
  unreachable is looked up in PostgreSQL and stored there, but its nonce never enters Redis, so
  the same message sent once Redis is back is accepted and stored a second time.\<close>

theorem outage_replay_accepted:
  "\<exists>db1 env1 db2 env2 r.
     isReplay set_setnx 300 (False, {}) (Some example_db) ''d'' ''n'' = ((False, {}), False) \<and>
     appendOperation example_db (example_params (DELETE (UID 1 ''a''))\<lparr>ap_nonce := ''n''\<rparr>) ''i1'' ''t1'' = Inr (db1, env1) \<and>
     isReplay set_setnx 300 (True, {}) (Some db1) ''d'' ''n'' = (r, False) \<and>
     appendOperation db1 (example_params (DELETE (UID 1 ''a''))\<lparr>ap_nonce := ''n''\<rparr>) ''i2'' ''t2'' = Inr (db2, env2) \<and>
     map row_nonce (db_operations db2) = [''n'', ''n''] \<and> nonceExists db1 ''n''"
  by (simp add: isReplay_def set_setnx_def nonceExists_def appendOperation_def example_db_def
      example_params_def next_doc_seq_def document_exists_def user_exists_def rowToEnvelope_def ex_bool_eq)

lemma both_down_rejects:
  "setnx r (replayNonceKey d n) ttl = (r', None) \<Longrightarrow> isReplay setnx ttl r None d n = (r', True)"
  by (simp add: isReplay_def)

end
