(* ===== verification/Document_Cache.thy ===== *)
theory Document_Cache
  imports History_Service
begin

text \<open>
  The worker's documents: \<^verbatim>\<open>src/server/sync/document-cache.ts\<close>, \<^verbatim>\<open>sync/offline-merger.ts\<close> and
  \<^verbatim>\<open>jobs/snapshot-compactor.ts\<close>. Cached entries are objects shared by reference, so the worker
  has a heap of them; the \<open>lru-cache\<close> package, which may drop an entry at any time, is an argument
  with its documented behaviour as the predicate \<open>lru_ok\<close>. The lemmas say when a cached document
  is the stored one.
\<close>

section \<open>The cache\<close>

record CachedDocument =
  cd_doc :: RGADocument
  cd_lastSeq :: int
  cd_opsSinceSnapshot :: int
  cd_loadedAt :: int

type_synonym entry_ref = nat

record 'c lru =
  lru_get :: "'c \<Rightarrow> string \<Rightarrow> 'c \<times> entry_ref option"
  lru_set :: "'c \<Rightarrow> string \<Rightarrow> entry_ref \<Rightarrow> 'c"
  lru_delete :: "'c \<Rightarrow> string \<Rightarrow> 'c"

record 'c Worker =
  w_cache :: 'c
  w_heap :: "entry_ref \<Rightarrow> CachedDocument"
  w_next :: entry_ref
  w_lastSnapshotTime :: "string \<rightharpoonup> int"

definition loadDocumentFromDB :: "Database \<Rightarrow> string \<Rightarrow> int \<Rightarrow> CachedDocument" where
  "loadDocumentFromDB db docId now =
     (let snapshot = loadLatestSnapshot db docId
      in case (case snapshot of
            Some s \<Rightarrow> (deserialize (snap_data s), snap_seq s + 1)
          | None \<Rightarrow> (newRGADocument, 1)) of (doc, fromSeq) \<Rightarrow>
        let deltaOps = loadOperationsAfterSeq db docId (fromSeq - 1) defaultLoadLimit
        in \<lparr>cd_doc = foldl (\<lambda>d env. fst (applyOperation d (env_op env))) doc deltaOps,
            cd_lastSeq = foldl max (case snapshot of Some s \<Rightarrow> snap_seq s | None \<Rightarrow> 0) (map env_seq deltaOps),
            cd_opsSinceSnapshot = int (length deltaOps), cd_loadedAt = now\<rparr>)"

text \<open>The load runs to completion before the next call, so no load is in flight when one starts.\<close>

definition getOrLoadDocument ::
  "'c lru \<Rightarrow> 'c Worker \<Rightarrow> Database \<Rightarrow> string \<Rightarrow> int \<Rightarrow> 'c Worker \<times> entry_ref" where
  "getOrLoadDocument L w db docId now =
     (case lru_get L (w_cache w) docId of
        (c, Some p) \<Rightarrow> (w\<lparr>w_cache := c\<rparr>, p)
      | (c, None) \<Rightarrow>
          let p = w_next w
          in (w\<lparr>w_cache := lru_set L c docId p, w_heap := (w_heap w)(p := loadDocumentFromDB db docId now),
                w_next := p + 1\<rparr>, p))"

definition updateCachedDocument ::
  "'c lru \<Rightarrow> 'c Worker \<Rightarrow> string \<Rightarrow> (CachedDocument \<Rightarrow> CachedDocument) \<Rightarrow> 'c Worker" where
  "updateCachedDocument L w docId mutator =
     (case lru_get L (w_cache w) docId of
        (c, Some p) \<Rightarrow> w\<lparr>w_cache := lru_set L c docId p, w_heap := (w_heap w)(p := mutator (w_heap w p))\<rparr>
      | (c, None) \<Rightarrow> w\<lparr>w_cache := c\<rparr>)"

definition invalidateDocument :: "'c lru \<Rightarrow> 'c Worker \<Rightarrow> string \<Rightarrow> 'c Worker" where
  "invalidateDocument L w docId = w\<lparr>w_cache := lru_delete L (w_cache w) docId\<rparr>"

text \<open>Mutating the document object a handler holds.\<close>

definition set_doc :: "'c Worker \<Rightarrow> entry_ref \<Rightarrow> RGADocument \<Rightarrow> 'c Worker" where
  "set_doc w p d = w\<lparr>w_heap := (w_heap w)(p := (w_heap w p)\<lparr>cd_doc := d\<rparr>)\<rparr>"

section \<open>Catching up\<close>

definition getMissedOperations :: "Database \<Rightarrow> string \<Rightarrow> int \<Rightarrow> nat \<Rightarrow> OperationEnvelope list" where
  "getMissedOperations db docId lastSeq limit =
     (if lastSeq = 0 then [] else loadOperationsAfterSeq db docId lastSeq limit)"

definition missedLimit :: nat where
  "missedLimit = 5000"

text \<open>\<open>env.op.value?.length ?? 0\<close>: the length of a string or an array; other values have none.\<close>

definition value_length :: "json \<Rightarrow> nat" where
  "value_length v = (case v of JStr s \<Rightarrow> length s | JArr xs \<Rightarrow> length xs | _ \<Rightarrow> 0)"

definition shouldForceFullReload :: "OperationEnvelope list \<Rightarrow> bool" where
  "shouldForceFullReload missedOps =
     (if length missedOps > 5000 then True
      else foldl (\<lambda>s env. case env_op env of INSERT _ _ v \<Rightarrow> s + value_length v | _ \<Rightarrow> s) 0 missedOps > 500000)"

section \<open>Snapshots\<close>

record CompactorConfig =
  snapshotOpsThreshold :: int
  snapshotIntervalMs :: int

definition maxSnapshotsPerDoc :: nat where
  "maxSnapshotsPerDoc = 10"

definition pruneOldSnapshots :: "Database \<Rightarrow> string \<Rightarrow> Database" where
  "pruneOldSnapshots db docId =
     (let keep = map srow_id (take maxSnapshotsPerDoc (rev (sort_key srow_seq (doc_snapshots db docId))))
      in db\<lparr>db_snapshots := filter (\<lambda>r. \<not> (srow_doc_id r = docId \<and> srow_id r \<notin> set keep)) (db_snapshots db)\<rparr>)"

text \<open>Errors of \<open>saveSnapshot\<close> are caught and logged; the collected document stays collected.\<close>

definition maybeTakeSnapshot ::
  "'c lru \<Rightarrow> CompactorConfig \<Rightarrow> (js_text \<Rightarrow> string) \<Rightarrow> 'c Worker \<Rightarrow> Database \<Rightarrow> string \<Rightarrow> int \<Rightarrow> string \<Rightarrow>
     string \<Rightarrow> 'c Worker \<times> Database" where
  "maybeTakeSnapshot L cfg sha256 w db docId now uuid created =
     (case getOrLoadDocument L w db docId now of (w1, p) \<Rightarrow>
        let lastTime = (case w_lastSnapshotTime w1 docId of Some t \<Rightarrow> t | None \<Rightarrow> 0);
            shouldSnapshot = (cd_opsSinceSnapshot (w_heap w1 p) \<ge> snapshotOpsThreshold cfg \<or>
              now - lastTime \<ge> snapshotIntervalMs cfg)
        in if \<not> shouldSnapshot then (w1, db)
           else let seq = getMaxSeq db docId
             in if seq \<le> 0 then (w1, db)
                else let w2 = set_doc w1 p (fst (gc (cd_doc (w_heap w1 p))))
                  in (case saveSnapshot sha256 db docId (cd_doc (w_heap w2 p)) seq uuid created of
                        Inl e \<Rightarrow> (w2, db)
                      | Inr (db1, _) \<Rightarrow>
                          (updateCachedDocument L (w2\<lparr>w_lastSnapshotTime := (w_lastSnapshotTime w2)(docId \<mapsto> now)\<rparr>) docId
                             (\<lambda>e. e\<lparr>cd_opsSinceSnapshot := 0\<rparr>),
                           pruneOldSnapshots db1 docId)))"

text \<open>Unlike the background job, this one passes the errors of \<open>saveSnapshot\<close> on.\<close>

definition forceSnapshot ::
  "'c lru \<Rightarrow> (js_text \<Rightarrow> string) \<Rightarrow> 'c Worker \<Rightarrow> Database \<Rightarrow> string \<Rightarrow> int \<Rightarrow> string \<Rightarrow> string \<Rightarrow>
     'c Worker \<times> (db_error + Database)" where
  "forceSnapshot L sha256 w db docId now uuid created =
     (case getOrLoadDocument L w db docId now of (w1, p) \<Rightarrow>
        let seq = getMaxSeq db docId
        in if seq \<le> 0 then (w1, Inr db)
           else let w2 = set_doc w1 p (fst (gc (cd_doc (w_heap w1 p))))
             in (case saveSnapshot sha256 db docId (cd_doc (w_heap w2 p)) seq uuid created of
                   Inl e \<Rightarrow> (w2, Inl e)
                 | Inr (db1, _) \<Rightarrow>
                     (updateCachedDocument L (w2\<lparr>w_lastSnapshotTime := (w_lastSnapshotTime w2)(docId \<mapsto> now)\<rparr>) docId
                        (\<lambda>e. e\<lparr>cd_opsSinceSnapshot := 0\<rparr>), Inr db1)))"

section \<open>Loading gives the stored document\<close>

lemma log_base_load:
  "(case loadLatestSnapshot db d of
      Some s \<Rightarrow> (deserialize (snap_data s), snap_seq s + 1) | None \<Rightarrow> (newRGADocument, 1)) =
     (fst (log_base db d), snd (log_base db d) + 1)"
  "(case loadLatestSnapshot db d of Some s \<Rightarrow> snap_seq s | None \<Rightarrow> 0) = snd (log_base db d)"
  by (simp_all add: loadLatestSnapshot_def log_base_def split: option.split)

lemma foldl_env: "foldl (\<lambda>d env. fst (applyOperation d (env_op env))) d (map rowToEnvelope rs) = applyAll d (map row_op_data rs)"
  by (induction rs arbitrary: d) (simp_all add: applyOp_def)

lemma foldl_max_seq: "map row_seq rs = [a + 1..b] \<Longrightarrow> a \<le> b \<Longrightarrow> foldl max a (map env_seq (map rowToEnvelope rs)) = b"
proof (induction rs arbitrary: a)
  case (Cons r rs)
  then have ab: "a + 1 \<le> b" by (cases "a + 1 \<le> b") simp_all
  then have r: "row_seq r = a + 1" "map row_seq rs = [a + 1 + 1..b]"
    using Cons.prems(1) upto_rec1 [OF ab] by simp_all
  show ?case
    using Cons.IH [OF r(2) ab] by (simp add: r(1))
qed simp

lemma load_stored:
  assumes "store_ok db" "pg.pending db d \<le> int defaultLoadLimit"
  shows "loadDocumentFromDB db d now = \<lparr>cd_doc = pg.replica db d, cd_lastSeq = getMaxSeq db d,
    cd_opsSinceSnapshot = pg.pending db d, cd_loadedAt = now\<rparr>"
proof -
  let ?a = "snd (log_base db d)" and ?rs = "doc_rows db d"
  have wf: "wf_db db" using assms(1) by (rule store_okD)
  note a = pg.base_range [OF assms(1), of d]
  have max: "getMaxSeq db d = int (length ?rs)" using wf by (rule getMaxSeq_length)
  have len: "length (drop (nat ?a) ?rs) \<le> defaultLoadLimit"
    using assms(2) a by (simp add: pg.pending_def max)
  have ops: "loadOperationsAfterSeq db d ?a defaultLoadLimit = map rowToEnvelope (drop (nat ?a) ?rs)"
    using len a by (simp add: load_after [OF wf])
  have "map row_seq (drop (nat ?a) ?rs) = [?a + 1..getMaxSeq db d]"
    using rows_between(2) [OF wf conjunct1 [OF a] conjunct2 [OF a], of d] by (simp add: max)
  then have seq: "foldl max ?a (map env_seq (map rowToEnvelope (drop (nat ?a) ?rs))) = getMaxSeq db d"
    by (rule foldl_max_seq) (use a in simp)
  have "int (length (drop (nat ?a) ?rs)) = pg.pending db d"
    using a by (simp add: pg.pending_def max of_nat_diff nat_le_iff)
  then show ?thesis
    unfolding loadDocumentFromDB_def Let_def log_base_load using seq
    by (simp add: ops foldl_env pg.replica_def log_after_def)
qed

section \<open>The compactor's store\<close>

definition rows_pruned :: "Database \<Rightarrow> string \<Rightarrow> Database \<Rightarrow> bool" where
  "rows_pruned db d db' \<longleftrightarrow> db' = pruneOldSnapshots db d"

lemma prune_rows: "doc_snapshots (pruneOldSnapshots db d) e = filter (\<lambda>r. e = d \<longrightarrow> srow_id r \<in>
    set (map srow_id (take maxSnapshotsPerDoc (rev (sort_key srow_seq (doc_snapshots db d)))))) (doc_snapshots db e)"
  unfolding pruneOldSnapshots_def doc_snapshots_def Let_def by (auto intro!: filter_cong)

lemma prune_keeps_newest:
  assumes "newest (doc_snapshots db d) = Some s"
  shows "srow_id s \<in> set (map srow_id (take maxSnapshotsPerDoc (rev (sort_key srow_seq (doc_snapshots db d)))))"
  using assms by (auto simp: newest_def maxSnapshotsPerDoc_def numeral_eq_Suc split: list.splits)

lemma prune_newest:
  assumes "store_ok db"
  shows "newest (doc_snapshots (pruneOldSnapshots db d) e) = newest (doc_snapshots db e)"
proof (cases "newest (doc_snapshots db e)")
  case None
  then have "doc_snapshots (pruneOldSnapshots db d) e = []" by (simp add: prune_rows)
  with None show ?thesis by simp
next
  case (Some s)
  have dist: "distinct (map srow_seq (doc_snapshots db e))"
    using store_okD(1) [OF assms] by (simp add: wf_db_def log_ok_def)
  have "newest (doc_snapshots (pruneOldSnapshots db d) e) = Some s"
  proof (rule newest_unique)
    show "distinct (map srow_seq (doc_snapshots (pruneOldSnapshots db d) e))"
      unfolding prune_rows using dist by (rule distinct_map_filter)
    show "s \<in> set (doc_snapshots (pruneOldSnapshots db d) e)"
      using newest_Some [OF Some] prune_keeps_newest [of db d s] Some by (auto simp: prune_rows)
    show "\<forall>q \<in> set (doc_snapshots (pruneOldSnapshots db d) e). srow_seq q \<le> srow_seq s"
      using newest_Some [OF Some] by (simp add: prune_rows)
  qed
  with Some show ?thesis by simp
qed

lemma prune_simps [simp]:
  "db_operations (pruneOldSnapshots db d) = db_operations db" "db_sequences (pruneOldSnapshots db d) = db_sequences db"
  "db_users (pruneOldSnapshots db d) = db_users db" "db_documents (pruneOldSnapshots db d) = db_documents db"
  "doc_rows (pruneOldSnapshots db d) e = doc_rows db e" "getMaxSeq (pruneOldSnapshots db d) e = getMaxSeq db e"
  by (simp_all add: pruneOldSnapshots_def Let_def doc_rows_def getMaxSeq_def)

lemma store_prune:
  assumes "store_ok db"
  shows "store_ok (pruneOldSnapshots db d)"
proof -
  have "distinct (map srow_seq (doc_snapshots (pruneOldSnapshots db d) e))" for e
    using store_okD(1) [OF assms] by (simp add: prune_rows wf_db_def log_ok_def distinct_map_filter)
  moreover have "set (db_snapshots (pruneOldSnapshots db d)) \<subseteq> set (db_snapshots db)"
    by (auto simp: pruneOldSnapshots_def Let_def)
  ultimately show ?thesis
    using assms by (auto simp: store_ok_def wf_db_def log_ok_def user_exists_def)
qed

interpretation pgc: compacting_log store_ok log_base log_after getMaxSeq row_appended row_saved rows_pruned
  by unfold_locales (simp add: rows_pruned_def store_prune log_base_def prune_newest log_after_def)

section \<open>Coherence\<close>

text \<open>What \<open>lru-cache\<close> promises, over the entries it holds: a lookup returns the entry held, none when
  there is none, and may evict others; \<open>set\<close> holds the new entry unless it evicts it.\<close>

definition lru_ok :: "'c lru \<Rightarrow> ('c \<Rightarrow> string \<Rightarrow> entry_ref option) \<Rightarrow> bool" where
  "lru_ok L view \<longleftrightarrow> (\<forall>c k p.
     view (fst (lru_get L c k)) \<subseteq>\<^sub>m view c \<and> snd (lru_get L c k) = view (fst (lru_get L c k)) k \<and>
     view (lru_set L c k p) \<subseteq>\<^sub>m (view c)(k \<mapsto> p) \<and> view (lru_delete L c k) \<subseteq>\<^sub>m (view c)(k := None))"

text \<open>A cache without a bound.\<close>

definition map_lru :: "(string \<Rightarrow> entry_ref option) lru" where
  "map_lru = \<lparr>lru_get = (\<lambda>c k. (c, c k)), lru_set = (\<lambda>c k p. c(k \<mapsto> p)), lru_delete = (\<lambda>c k. c(k := None))\<rparr>"

lemma map_lru_ok: "lru_ok map_lru (\<lambda>c. c)"
  by (simp add: lru_ok_def map_lru_def map_le_refl)

lemma lru_okD:
  assumes "lru_ok L view"
  shows "lru_get L c k = (c', r) \<Longrightarrow> view c' \<subseteq>\<^sub>m view c \<and> r = view c' k"
    and "view (lru_set L c k p) e = Some q \<Longrightarrow> if e = k then q = p else view c e = Some q"
    and "view (lru_delete L c k) e = Some q \<Longrightarrow> e \<noteq> k \<and> view c e = Some q"
  using assms unfolding lru_ok_def
  by (metis fst_conv snd_conv, metis (mono_tags) domI fun_upd_apply map_le_def option.inject,
      metis (mono_tags) domI fun_upd_apply map_le_def option.discI)

definition coherent_entry :: "Database \<Rightarrow> string \<Rightarrow> CachedDocument \<Rightarrow> bool" where
  "coherent_entry db d e \<longleftrightarrow> cd_doc e = pg.replica db d \<and> cd_lastSeq e = getMaxSeq db d \<and>
     cd_opsSinceSnapshot e = pg.pending db d"

text \<open>Every entry the cache holds, those of the documents in \<open>D\<close> excepted, is the stored document.\<close>

definition coherent_but ::
  "string set \<Rightarrow> ('c \<Rightarrow> string \<Rightarrow> entry_ref option) \<Rightarrow> 'c Worker \<Rightarrow> Database \<Rightarrow> bool" where
  "coherent_but D view w db \<longleftrightarrow>
     (\<forall>d p. view (w_cache w) d = Some p \<longrightarrow> p < w_next w \<and>
        (\<forall>e. view (w_cache w) e = Some p \<longrightarrow> e = d) \<and> (d \<notin> D \<longrightarrow> coherent_entry db d (w_heap w p)))"

abbreviation coherent :: "('c \<Rightarrow> string \<Rightarrow> entry_ref option) \<Rightarrow> 'c Worker \<Rightarrow> Database \<Rightarrow> bool" where
  "coherent \<equiv> coherent_but {}"

lemma coherentD:
  assumes "coherent_but D view w db" "view (w_cache w) d = Some p"
  shows "p < w_next w" "view (w_cache w) e = Some p \<Longrightarrow> e = d" "d \<notin> D \<Longrightarrow> coherent_entry db d (w_heap w p)"
  using assms unfolding coherent_but_def by blast+

lemma coherentI:
  assumes "\<And>d p. view (w_cache w) d = Some p \<Longrightarrow> p < w_next w"
    and "\<And>d e p. view (w_cache w) d = Some p \<Longrightarrow> view (w_cache w) e = Some p \<Longrightarrow> e = d"
    and "\<And>d p. view (w_cache w) d = Some p \<Longrightarrow> d \<notin> D \<Longrightarrow> coherent_entry db d (w_heap w p)"
  shows "coherent_but D view w db"
  unfolding coherent_but_def using assms by blast

lemma coherent_evict:
  "coherent_but D view w db \<Longrightarrow> view c \<subseteq>\<^sub>m view (w_cache w) \<Longrightarrow> coherent_but D view (w\<lparr>w_cache := c\<rparr>) db"
  unfolding coherent_but_def map_le_def by simp (metis domI)

text \<open>What a handler that asked for a document holds: a reference no other document has.\<close>

definition holds ::
  "('c \<Rightarrow> string \<Rightarrow> entry_ref option) \<Rightarrow> 'c Worker \<Rightarrow> string \<Rightarrow> entry_ref \<Rightarrow> bool" where
  "holds view w d p \<longleftrightarrow> p < w_next w \<and>
     (\<forall>e q. view (w_cache w) e = Some q \<longrightarrow> (e = d \<longleftrightarrow> q = p))"

lemma get_coherent:
  assumes "lru_ok L view" "store_ok db" "coherent view w db" "pg.pending db d \<le> int defaultLoadLimit"
    and "getOrLoadDocument L w db d now = (w', p)"
  shows "coherent view w' db" "holds view w' d p" "coherent_entry db d (w_heap w' p)"
    and "w_lastSnapshotTime w' = w_lastSnapshotTime w"
proof -
  obtain c r where g: "lru_get L (w_cache w) d = (c, r)" by (metis surj_pair)
  note le = lru_okD(1) [OF assms(1) g]
  have c: "coherent view (w\<lparr>w_cache := c\<rparr>) db" by (rule coherent_evict [OF assms(3) conjunct1 [OF le]])
  note cd = coherentD [OF c, simplified]
  have "coherent view w' db \<and> holds view w' d p \<and> coherent_entry db d (w_heap w' p) \<and>
    w_lastSnapshotTime w' = w_lastSnapshotTime w"
  proof (cases r)
    case (Some q)
    then have w': "w' = w\<lparr>w_cache := c\<rparr>" "p = q" and q: "view c d = Some q"
      using assms(5) g le by (simp_all add: getOrLoadDocument_def)
    have "holds view w' d p"
      unfolding holds_def w' using cd(1) [OF q] q by (auto dest: cd(2) [OF q])
    then show ?thesis using c cd(3) [OF q] by (simp add: w')
  next
    case None
    have w': "p = w_next w" "w_next w' = w_next w + 1" "w_cache w' = lru_set L c d p"
      "w_heap w' = (w_heap w)(p := loadDocumentFromDB db d now)" "w_lastSnapshotTime w' = w_lastSnapshotTime w"
      using assms(5) g None by (auto simp: getOrLoadDocument_def Let_def)
    have new: "coherent_entry db d (loadDocumentFromDB db d now)"
      by (simp add: load_stored assms coherent_entry_def)
    have sub: "e = d \<and> q = p \<or> e \<noteq> d \<and> q \<noteq> p \<and> view c e = Some q" if "view (w_cache w') e = Some q" for e q
      using lru_okD(2) [OF assms(1) that [unfolded w']] cd(1) [of e q] by (cases "e = d") (auto simp: w'(1))
    have "coherent view w' db"
    proof (rule coherentI)
      fix e q assume q: "view (w_cache w') e = Some q"
      show "q < w_next w'" using sub [OF q] cd(1) [of e q] by (auto simp: w')
      show "e' = e" if "view (w_cache w') e' = Some q" for e'
        using sub [OF q] sub [OF that] cd(2) [of e q e'] by blast
      show "coherent_entry db e (w_heap w' q)"
        using sub [OF q] cd(3) [of e q] new by (auto simp: w')
    qed
    moreover have "holds view w' d p"
      unfolding holds_def using sub by (auto simp: w')
    ultimately show ?thesis using new by (simp add: w')
  qed
  then show "coherent view w' db" "holds view w' d p" "coherent_entry db d (w_heap w' p)"
    "w_lastSnapshotTime w' = w_lastSnapshotTime w" by blast+
qed

text \<open>Writing to the held entry touches no other document.\<close>

lemma set_doc_coherent:
  assumes "coherent view w db" "holds view w d p"
  shows "coherent_but {d} view (set_doc w p D) db" "holds view (set_doc w p D) d p"
proof -
  show "coherent_but {d} view (set_doc w p D) db"
  proof (rule coherentI)
    fix e q assume q: "view (w_cache (set_doc w p D)) e = Some q"
    then have q': "view (w_cache w) e = Some q" by (simp add: set_doc_def)
    show "q < w_next (set_doc w p D)" using coherentD(1) [OF assms(1) q'] by (simp add: set_doc_def)
    show "e' = e" if "view (w_cache (set_doc w p D)) e' = Some q" for e'
      using coherentD(2) [OF assms(1) q'] that by (simp add: set_doc_def)
    assume "e \<notin> {d}"
    then have "q \<noteq> p" using assms(2) q' by (auto simp: holds_def)
    then show "coherent_entry db e (w_heap (set_doc w p D) q)"
      using coherentD(3) [OF assms(1) q'] by (simp add: set_doc_def)
  qed
  show "holds view (set_doc w p D) d p"
    using assms(2) by (simp add: holds_def set_doc_def)
qed

lemma update_coherent:
  assumes "lru_ok L view" "coherent_but {d} view w db" "holds view w d p"
    and "coherent_entry db d (f (w_heap w p))"
  shows "coherent view (updateCachedDocument L w d f) db"
proof -
  obtain c r where g: "lru_get L (w_cache w) d = (c, r)" by (metis surj_pair)
  note le = lru_okD(1) [OF assms(1) g]
  have c: "coherent_but {d} view (w\<lparr>w_cache := c\<rparr>) db" by (rule coherent_evict [OF assms(2) conjunct1 [OF le]])
  note cd = coherentD [OF c, simplified]
  have h: "e = d \<longleftrightarrow> q = p" if "view c e = Some q" for e q
  proof -
    have "view (w_cache w) e = Some q" using le that by (metis domI map_le_def)
    then show ?thesis using assms(3) by (simp add: holds_def)
  qed
  show ?thesis
  proof (cases r)
    case None
    then have w': "updateCachedDocument L w d f = w\<lparr>w_cache := c\<rparr>" using g by (simp add: updateCachedDocument_def)
    have n: "view c d = None" using le None by simp
    show ?thesis
      unfolding w'
    proof (rule coherentI)
      fix e q assume "view (w_cache (w\<lparr>w_cache := c\<rparr>)) e = Some q"
      then have e: "view c e = Some q" by simp
      then have "e \<noteq> d" using n by auto
      then show "coherent_entry db e (w_heap (w\<lparr>w_cache := c\<rparr>) q)" using cd(3) [OF e] by simp
      show "q < w_next (w\<lparr>w_cache := c\<rparr>)" using cd(1) [OF e] by simp
      show "e' = e" if "view (w_cache (w\<lparr>w_cache := c\<rparr>)) e' = Some q" for e'
        using cd(2) [OF e] that by simp
    qed
  next
    case (Some q)
    then have q: "view c d = Some q" using le by simp
    define w' where "w' = updateCachedDocument L w d f"
    have w': "w_next w' = w_next w" "w_cache w' = lru_set L c d p" "w_heap w' = (w_heap w)(p := f (w_heap w p))"
      using g Some h [OF q] by (simp_all add: w'_def updateCachedDocument_def)
    have sub: "e = d \<and> r = p \<or> e \<noteq> d \<and> r \<noteq> p \<and> view c e = Some r" if "view (w_cache w') e = Some r" for e r
      using lru_okD(2) [OF assms(1) that [unfolded w']] h [of e r] by (cases "e = d") auto
    have "coherent view w' db"
    proof (rule coherentI)
      fix e r assume r: "view (w_cache w') e = Some r"
      show "r < w_next w'" using sub [OF r] cd(1) [of e r] assms(3) by (auto simp: w' holds_def)
      show "e' = e" if "view (w_cache w') e' = Some r" for e'
        using sub [OF r] sub [OF that] cd(2) [of e r e'] by blast
      show "coherent_entry db e (w_heap w' r)"
        using sub [OF r] cd(3) [of e r] assms(4) by (auto simp: w')
    qed
    then show ?thesis by (simp add: w'_def)
  qed
qed

text \<open>A store in which only the documents of \<open>D\<close> change leaves the other entries coherent.\<close>

lemma coherent_store:
  assumes "coherent_but D view w db"
    and "\<And>e. e \<notin> D \<Longrightarrow> pg.replica db' e = pg.replica db e \<and> getMaxSeq db' e = getMaxSeq db e \<and>
      pg.pending db' e = pg.pending db e"
  shows "coherent_but D view w db'"
proof (rule coherentI)
  fix e q assume e: "view (w_cache w) e = Some q"
  note cd = coherentD [OF assms(1) e]
  show "q < w_next w" by (rule cd(1))
  show "e' = e" if "view (w_cache w) e' = Some q" for e' by (rule cd(2)) (rule that)
  assume "e \<notin> D"
  then show "coherent_entry db' e (w_heap w q)" using cd(3) assms(2) [of e] by (simp add: coherent_entry_def)
qed

lemma coherent_weaken: "coherent_but D view w db \<Longrightarrow> D \<subseteq> E \<Longrightarrow> coherent_but E view w db"
  unfolding coherent_but_def by blast

lemma invalidate_coherent:
  assumes "lru_ok L view" "coherent_but {d} view w db"
  shows "coherent view (invalidateDocument L w d) db"
proof -
  have sub: "e \<noteq> d \<and> view (w_cache w) e = Some q" if "view (w_cache (invalidateDocument L w d)) e = Some q" for e q
    using lru_okD(3) [OF assms(1), of "w_cache w" d e q] that by (simp add: invalidateDocument_def)
  note cd = coherentD [OF assms(2)]
  show ?thesis
  proof (rule coherentI)
    fix e q assume q: "view (w_cache (invalidateDocument L w d)) e = Some q"
    show "q < w_next (invalidateDocument L w d)"
      using cd(1) [OF conjunct2 [OF sub [OF q]]] by (simp add: invalidateDocument_def)
    show "e' = e" if "view (w_cache (invalidateDocument L w d)) e' = Some q" for e'
      using cd(2) [OF conjunct2 [OF sub [OF q]] conjunct2 [OF sub [OF that]]] .
    show "coherent_entry db e (w_heap (invalidateDocument L w d) q)"
      using cd(3) [OF conjunct2 [OF sub [OF q]]] sub [OF q] by (simp add: invalidateDocument_def)
  qed
qed

section \<open>The compactor keeps coherence\<close>

text \<open>Two documents that show the same.\<close>

definition same_view :: "RGADocument \<Rightarrow> RGADocument \<Rightarrow> bool" where
  "same_view a b \<longleftrightarrow> toText a = toText b \<and> toNodes a = toNodes b"

lemma same_view_gc: "wf_doc d \<Longrightarrow> same_view (fst (gc d)) d" "same_view d d"
  by (simp_all add: same_view_def toText_gc toNodes_gc)

text \<open>A store whose documents are well-formed.\<close>

definition docs_ok :: "Database \<Rightarrow> bool" where
  "docs_ok db \<longleftrightarrow> store_ok db \<and> (\<forall>s \<in> set (db_snapshots db). wf_doc (deserialize (srow_data s))) \<and>
     (\<forall>r \<in> set (db_operations db). not_on_root (row_op_data r))"

lemma wf_replay:
  assumes "docs_ok db" "wf_doc D" "set rs \<subseteq> set (doc_rows db d)"
  shows "wf_doc (foldl (\<lambda>d env. fst (applyOperation d (env_op env))) D (map rowToEnvelope rs))"
proof -
  have "list_all not_on_root (map row_op_data rs)"
    using assms(1,3) by (auto simp: docs_ok_def list_all_iff doc_rows_def)
  then show ?thesis using assms(2) by (simp add: foldl_env wf_applyAll)
qed

lemma docs_okD:
  assumes "docs_ok db"
  shows "store_ok db" "wf_doc (fst (log_base db d))" "wf_doc (pg.replica db d)"
    "wf_doc (fst (reconstructAtSeq db d t))"
proof -
  show "store_ok db" using assms by (simp add: docs_ok_def)
  have start: "wf_doc (case newest (filter P (doc_snapshots db d)) of
      Some s \<Rightarrow> deserialize (srow_data s) | None \<Rightarrow> newRGADocument)" for P
    using assms by (auto simp: docs_ok_def doc_snapshots_def dest!: newest_Some split: option.split)
  show base: "wf_doc (fst (log_base db d))"
    using start [of "\<lambda>_. True"] by (simp add: log_base_def split: option.splits)
  show "wf_doc (pg.replica db d)"
    unfolding pg.replica_def log_after_def foldl_env [symmetric]
    by (rule wf_replay [OF assms base, of _ d]) (meson set_drop_subset)
  have "wf_doc (foldl (\<lambda>d env. fst (applyOperation d (env_op env)))
      (case newest (filter (\<lambda>r. srow_seq r \<le> t) (doc_snapshots db d)) of
        Some s \<Rightarrow> deserialize (srow_data s) | None \<Rightarrow> newRGADocument)
      (loadOperationsInRange db d a t))" for a
    unfolding loadOperationsInRange_def by (rule wf_replay [OF assms start, of _ d]) auto
  then show "wf_doc (fst (reconstructAtSeq db d t))"
    using start [of "\<lambda>r. srow_seq r \<le> t"]
    by (auto simp: reconstructAtSeq_def loadSnapshotBefore_def Let_def split: option.splits)
qed

lemma docs_ok_append:
  assumes "docs_ok db" "row_appended db d x db'" "not_on_root x"
  shows "docs_ok db'"
  using assms store_append(1) [OF docs_okD(1) [OF assms(1)] assms(2)] by (auto simp: docs_ok_def row_appended_def)

lemma docs_ok_save:
  assumes "docs_ok db" "row_saved db d D db'"
  shows "docs_ok db'"
  using assms store_save(1) [OF docs_okD(1) [OF assms(1)] assms(2)]
  by (auto simp: docs_ok_def row_saved_def serialize_deserialize)

lemma docs_ok_prune: "docs_ok db \<Longrightarrow> docs_ok (pruneOldSnapshots db d)"
  using store_prune [OF docs_okD(1), of db d] by (auto simp: docs_ok_def) (auto simp: pruneOldSnapshots_def Let_def)

text \<open>What a snapshot run leaves of the store: the log, and documents that show the same.\<close>

definition compacted :: "Database \<Rightarrow> string \<Rightarrow> Database \<Rightarrow> bool" where
  "compacted db d db' \<longleftrightarrow> docs_ok db' \<and> (\<forall>e. getMaxSeq db' e = getMaxSeq db e) \<and>
     (\<forall>e. pg.pending db' e \<le> pg.pending db e) \<and> (\<forall>e. same_view (pg.replica db' e) (pg.replica db e)) \<and>
     (\<forall>e. e \<noteq> d \<longrightarrow> pg.replica db' e = pg.replica db e) \<and> db_operations db' = db_operations db \<and>
     db_users db' = db_users db \<and> db_documents db' = db_documents db"

lemma compacted_refl: "docs_ok db \<Longrightarrow> compacted db d db"
  by (simp add: compacted_def same_view_def)

lemma snapshot_coherent:
  assumes "lru_ok L view" "docs_ok db" "coherent view w db" "document_exists db d"
    and "0 < pg.pending db d" "pg.pending db d \<le> int defaultLoadLimit"
    and "maybeTakeSnapshot L cfg hash w db d now uuid created = (w', db')"
  shows "compacted db d db'" "coherent view w' db'" "pg.pending db' d < max 1 (snapshotOpsThreshold cfg)"
proof -
  have ok: "store_ok db" and wf: "wf_doc (pg.replica db e)" for e using docs_okD [OF assms(2)] by simp_all
  obtain w1 p where g: "getOrLoadDocument L w db d now = (w1, p)" by (metis surj_pair)
  note gc = get_coherent [OF assms(1) ok assms(3,6) g]
  have e: "cd_doc (w_heap w1 p) = pg.replica db d" "cd_opsSinceSnapshot (w_heap w1 p) = pg.pending db d"
    "cd_lastSeq (w_heap w1 p) = getMaxSeq db d"
    using gc(3) by (simp_all add: coherent_entry_def)
  let ?D = "fst (gc (pg.replica db d))" and ?seq = "getMaxSeq db d"
  have seq: "0 < ?seq" "snd (log_base db d) < ?seq"
    using assms(5) pg.base_range [OF ok, of d] by (simp_all add: pg.pending_def)
  have wfD: "wf_doc ?D" using wf by (rule wf_gc)
  obtain db1 row where s: "saveSnapshot hash db d ?D ?seq uuid created = Inr (db1, rowToRecord row)"
    "row_saved db d ?D db1" "db1 = db\<lparr>db_snapshots := db_snapshots db @ [row]\<rparr>"
    using save_is_save [OF ok assms(4) wfD seq(2)] by metis
  let ?db' = "pruneOldSnapshots db1 d"
  have "rows_pruned db1 d ?db'" by (simp add: rows_pruned_def)
  note c = pgc.replica_compact [OF ok s(2) this]
  have max: "getMaxSeq db1 e = getMaxSeq db e" for e using c(2) by simp
  have comp: "compacted db d ?db'"
    using c wf wfD s(3) pg.pending_nonneg [OF ok] docs_ok_prune [OF docs_ok_save [OF assms(2) s(2)]]
    by (simp add: compacted_def same_view_gc)
  define w2 where "w2 = (set_doc w1 p ?D)\<lparr>w_lastSnapshotTime := (w_lastSnapshotTime w1)(d \<mapsto> now)\<rparr>"
  have w2: "coherent_but {d} view w2 ?db'" "holds view w2 d p"
  proof -
    have "coherent_but {d} view (set_doc w1 p ?D) ?db'"
      using set_doc_coherent(1) [OF gc(1,2)] by (rule coherent_store) (simp add: c max)
    then show "coherent_but {d} view w2 ?db'" by (simp add: w2_def coherent_but_def)
    show "holds view w2 d p" using set_doc_coherent(2) [OF gc(1,2)] by (simp add: w2_def holds_def)
  qed
  have entry: "coherent_entry ?db' d ((w_heap w2 p)\<lparr>cd_opsSinceSnapshot := 0\<rparr>)"
    using c e by (simp add: coherent_entry_def w2_def set_doc_def)
  have run: "(w', db') = (w1, db) \<and> pg.pending db d < snapshotOpsThreshold cfg \<or>
    (w', db') = (updateCachedDocument L w2 d (\<lambda>e. e\<lparr>cd_opsSinceSnapshot := 0\<rparr>), ?db')"
    using assms(7) s(1) seq(1) g e
    by (auto simp: maybeTakeSnapshot_def Let_def set_doc_def w2_def not_le split: if_splits)
  have "compacted db d db' \<and> coherent view w' db' \<and> pg.pending db' d < max 1 (snapshotOpsThreshold cfg)"
    using run
  proof (elim disjE conjE)
    assume r: "(w', db') = (w1, db)" "pg.pending db d < snapshotOpsThreshold cfg"
    then show ?thesis using gc(1) compacted_refl [OF assms(2)] by simp
  next
    assume r: "(w', db') = (updateCachedDocument L w2 d (\<lambda>e. e\<lparr>cd_opsSinceSnapshot := 0\<rparr>), ?db')"
    then show ?thesis using comp update_coherent [where f = "\<lambda>e. e\<lparr>cd_opsSinceSnapshot := 0\<rparr>", OF assms(1) w2 entry] c(4) by simp
  qed
  then show "compacted db d db'" "coherent view w' db'" "pg.pending db' d < max 1 (snapshotOpsThreshold cfg)"
    by blast+
qed

section \<open>Catching up after a disconnection\<close>

definition char_value :: "RGAOperation \<Rightarrow> bool" where
  "char_value x = (case x of INSERT _ _ v \<Rightarrow> (\<exists>s. v = JStr s \<and> code_points s = [s]) | _ \<Rightarrow> True)"

lemma one_code_point: "code_points s = [s] \<Longrightarrow> length s \<le> 2"
  by (cases s rule: code_points.cases) (auto split: if_splits)

lemma total_chars:
  "\<forall>env \<in> set envs. char_value (env_op env) \<Longrightarrow>
     foldl (\<lambda>s env. case env_op env of INSERT _ _ v \<Rightarrow> s + value_length v | _ \<Rightarrow> s) n envs \<le> n + 2 * length envs"
proof (induction envs arbitrary: n)
  case (Cons env envs)
  have v: "(case env_op env of INSERT _ _ v \<Rightarrow> n + value_length v | _ \<Rightarrow> n) \<le> n + 2"
    using Cons.prems one_code_point by (auto simp: char_value_def value_length_def split: RGAOperation.splits)
  show ?case
    using Cons.IH [of "case env_op env of INSERT _ _ v \<Rightarrow> n + value_length v | _ \<Rightarrow> n"] Cons.prems v by simp
qed simp

lemma missed_rows:
  assumes "wf_db db" "0 < s"
  shows "getMissedOperations db d s limit = map rowToEnvelope (take limit (drop (nat s) (doc_rows db d)))"
  using assms by (simp add: getMissedOperations_def load_after)

text \<open>A reconnecting client is sent exactly the operations after the last seq it knows, in order, so a
  replica at that seq becomes the stored document - provided at most 5000 were missed. Beyond
  5000 the rest is cut off silently: the full reload that should replace the increments is
  never chosen, since the list it tests has been cut to the very limit it is compared with.\<close>

theorem missed_operations_exact:
  assumes "store_ok db" "0 < s" "snd (log_base db d) \<le> s" "s \<le> getMaxSeq db d"
    and "\<forall>r \<in> set (doc_rows db d). char_value (row_op_data r)"
  shows "\<not> shouldForceFullReload (getMissedOperations db d s missedLimit) \<and>
    int (length (getMissedOperations db d s missedLimit)) = min 5000 (getMaxSeq db d - s) \<and>
    (if getMaxSeq db d - s \<le> 5000
     then \<exists>xs. int (length xs) = s - snd (log_base db d) \<and>
       pg.replica db d = applyAll (applyAll (fst (log_base db d)) xs) (map env_op (getMissedOperations db d s missedLimit))
     else map env_op (getMissedOperations db d s missedLimit) \<noteq> log_after db d s)"
proof -
  have wf: "wf_db db" using assms(1) by (rule store_okD)
  have max: "getMaxSeq db d = int (length (doc_rows db d))" using wf by (rule getMaxSeq_length)
  note rows = missed_rows [OF wf assms(2), of d missedLimit]
  have len: "int (length (getMissedOperations db d s missedLimit)) = min 5000 (getMaxSeq db d - s)"
    unfolding rows using assms(2,4) by (simp add: max missedLimit_def)
  have "\<forall>env \<in> set (getMissedOperations db d s missedLimit). char_value (env_op env)"
    using assms(5) unfolding rows by (auto dest!: in_set_takeD in_set_dropD)
  from total_chars [OF this, of 0] len have force: "\<not> shouldForceFullReload (getMissedOperations db d s missedLimit)"
    unfolding shouldForceFullReload_def by auto
  have ops: "map env_op (getMissedOperations db d s missedLimit) = take missedLimit (log_after db d s)"
    by (simp add: rows log_after_def take_map comp_def)
  have la: "int (length (log_after db d s)) = getMaxSeq db d - s"
    using pg.length_after [OF assms(1), of s d] assms(2,4) by simp
  show ?thesis
  proof (cases "getMaxSeq db d - s \<le> 5000")
    case True
    then have "take missedLimit (log_after db d s) = log_after db d s"
      using la by (intro take_all) (simp add: missedLimit_def)
    then show ?thesis
      using True force len pg.replica_catch_up [OF assms(1,3,4)] by (simp add: ops)
  next
    case False
    then have "length (take missedLimit (log_after db d s)) \<noteq> length (log_after db d s)"
      using la by (simp add: missedLimit_def)
    then have "take missedLimit (log_after db d s) \<noteq> log_after db d s" by metis
    then show ?thesis using False force len by (simp add: ops)
  qed
qed

theorem missed_operations_exact_witness:
  "\<exists>db env. appendOperation example_db (example_params (DELETE uA)) ''i'' ''t'' = Inr (db, env) \<and>
     getMissedOperations db ''d'' 1 missedLimit = [] \<and> \<not> shouldForceFullReload (getMissedOperations db ''d'' 1 missedLimit)"
proof -
  have ok: "store_ok example_db"
    by (simp add: store_ok_def example_db_ok) (simp add: example_db_def)
  obtain db row where a: "appendOperation example_db (example_params (DELETE uA)) ''i'' ''t'' = Inr (db, rowToEnvelope row)"
    "row_appended example_db ''d'' (DELETE uA) db" "row_op_data row = DELETE uA" "db_operations db = db_operations example_db @ [row]"
    using append_is_append [OF ok example_db_ok(2), of "''i''" "''t''"] by (auto simp: example_params_def)
  have top: "getMaxSeq db ''d'' = 1" "snd (log_base db ''d'') = 0"
    using pg.top_append [OF ok a(2)] pg.append_ok [OF ok a(2)]
    by (simp_all add: getMaxSeq_length example_db_ok) (simp_all add: example_db_def doc_rows_def log_base_def doc_snapshots_def)
  have "\<forall>r \<in> set (doc_rows db ''d''). char_value (row_op_data r)"
    using a(3,4) by (auto simp: doc_rows_def example_db_def char_value_def)
  from missed_operations_exact [OF store_append(1) [OF ok a(2)] _ _ _ this, of 1] top a(1)
  show ?thesis by auto
qed

end
