(* ===== verification/Session_Manager.thy ===== *)
theory Session_Manager
  imports Shared_Types
begin

text \<open>
  \<^verbatim>\<open>src/server/transport/session-manager.ts\<close>: the sessions of one worker. Session objects are
  shared by reference and outlive their registration, so they have a heap, by session id; the three
  maps of the module hold ids. A JavaScript \<open>Set\<close> is its list of elements in insertion order. The
  worker's sockets and what was sent on them are part of the state. The lemmas show that the
  maps agree with each other and whom a broadcast reaches.
\<close>

section \<open>State\<close>

datatype sock_state = SockOpen | SockClosing int | SockClosed

type_synonym socket = nat

record ServerSession =
  ss_id :: string
  ss_userId :: string
  ss_docId :: "string option"
  ss_siteId :: string
  ss_displayName :: string
  ss_color :: string
  ss_socket :: socket
  ss_connectedAt :: int
  ss_sendQueue :: int
  ss_lastSeq :: int
  ss_lastActivity :: int
  ss_isAlive :: bool
  ss_role :: "string option"
  ss_messageQueue :: "(nat \<times> ClientMessage) list"
  ss_isProcessing :: bool

record SessionTable =
  st_objs :: "string \<Rightarrow> ServerSession"
  st_sessions :: "string set"
  st_docSessions :: "string \<rightharpoonup> string list"
  st_userSessions :: "string \<rightharpoonup> string list"
  st_sockets :: "socket \<Rightarrow> sock_state"
  st_sent :: "(socket \<times> ServerMessage) list"

record SessionParams =
  sp_userId :: string
  sp_docId :: "string option"
  sp_siteId :: string
  sp_displayName :: string
  sp_color :: string
  sp_lastSeq :: int

text \<open>\<open>if (docId)\<close>: neither absent nor empty.\<close>

definition truthy :: "string option \<Rightarrow> string option" where
  "truthy x = (case x of Some s \<Rightarrow> if s = [] then None else Some s | None \<Rightarrow> None)"

definition set_add :: "'a \<Rightarrow> 'a list \<Rightarrow> 'a list" where
  "set_add x xs = (if x \<in> set xs then xs else xs @ [x])"

text \<open>The set a map holds under a key; adding creates it, deleting its last element removes it.\<close>

definition ids_at :: "(string \<rightharpoonup> string list) \<Rightarrow> string \<Rightarrow> string list" where
  "ids_at m k = (case m k of Some ids \<Rightarrow> ids | None \<Rightarrow> [])"

definition ids_add :: "string \<Rightarrow> string \<Rightarrow> (string \<rightharpoonup> string list) \<Rightarrow> (string \<rightharpoonup> string list)" where
  "ids_add k i m = m(k \<mapsto> set_add i (ids_at m k))"

definition ids_remove :: "string \<Rightarrow> string \<Rightarrow> (string \<rightharpoonup> string list) \<Rightarrow> (string \<rightharpoonup> string list)" where
  "ids_remove k i m = (case m k of None \<Rightarrow> m
     | Some ids \<Rightarrow> let ids' = removeAll i ids in if ids' = [] then m(k := None) else m(k \<mapsto> ids'))"

section \<open>Operations\<close>

definition registerSession ::
  "SessionTable \<Rightarrow> socket \<Rightarrow> SessionParams \<Rightarrow> string \<Rightarrow> int \<Rightarrow> SessionTable \<times> string" where
  "registerSession T socket ps uuid now =
     (let session = \<lparr>ss_id = uuid, ss_userId = sp_userId ps, ss_docId = sp_docId ps, ss_siteId = sp_siteId ps,
            ss_displayName = sp_displayName ps, ss_color = sp_color ps, ss_socket = socket,
            ss_connectedAt = now, ss_sendQueue = 0, ss_lastSeq = sp_lastSeq ps, ss_lastActivity = now,
            ss_isAlive = True, ss_role = None, ss_messageQueue = [], ss_isProcessing = False\<rparr>;
          T1 = T\<lparr>st_objs := (st_objs T)(uuid := session), st_sessions := insert uuid (st_sessions T)\<rparr>;
          T2 = (case truthy (sp_docId ps) of None \<Rightarrow> T1
                | Some d \<Rightarrow> T1\<lparr>st_docSessions := ids_add d uuid (st_docSessions T1)\<rparr>)
      in (T2\<lparr>st_userSessions := ids_add (sp_userId ps) uuid (st_userSessions T2)\<rparr>, uuid))"

definition getSession :: "SessionTable \<Rightarrow> string \<Rightarrow> ServerSession option" where
  "getSession T i = (if i \<in> st_sessions T then Some (st_objs T i) else None)"

definition removeSession :: "SessionTable \<Rightarrow> string \<Rightarrow> SessionTable \<times> ServerSession option" where
  "removeSession T sessionId =
     (case getSession T sessionId of
        None \<Rightarrow> (T, None)
      | Some session \<Rightarrow>
          let T1 = T\<lparr>st_sessions := st_sessions T - {sessionId}\<rparr>;
              T2 = (case truthy (ss_docId session) of None \<Rightarrow> T1
                    | Some d \<Rightarrow> T1\<lparr>st_docSessions := ids_remove d sessionId (st_docSessions T1)\<rparr>)
          in (T2\<lparr>st_userSessions := ids_remove (ss_userId session) sessionId (st_userSessions T2)\<rparr>, Some session))"

definition getDocumentSessions :: "SessionTable \<Rightarrow> string \<Rightarrow> string list" where
  "getDocumentSessions T d = filter (\<lambda>i. i \<in> st_sessions T) (ids_at (st_docSessions T) d)"

definition getSessionsForUser :: "SessionTable \<Rightarrow> string \<Rightarrow> string list" where
  "getSessionsForUser T u = filter (\<lambda>i. i \<in> st_sessions T) (ids_at (st_userSessions T) u)"

definition set_session :: "SessionTable \<Rightarrow> string \<Rightarrow> (ServerSession \<Rightarrow> ServerSession) \<Rightarrow> SessionTable" where
  "set_session T i f = T\<lparr>st_objs := (st_objs T)(i := f (st_objs T i))\<rparr>"

definition close_socket :: "SessionTable \<Rightarrow> socket \<Rightarrow> int \<Rightarrow> SessionTable" where
  "close_socket T s code = (if st_sockets T s = SockOpen
     then T\<lparr>st_sockets := (st_sockets T)(s := SockClosing code)\<rparr> else T)"

text \<open>The message joins the socket's queue; the callback of \<open>send\<close> runs when it has left.\<close>

definition sendToSession :: "int \<Rightarrow> SessionTable \<Rightarrow> string \<Rightarrow> ServerMessage \<Rightarrow> SessionTable \<times> bool" where
  "sendToSession sendQueueMax T i data =
     (let session = st_objs T i; s = ss_socket session
      in if st_sockets T s \<noteq> SockOpen then (T, False)
         else if ss_sendQueue session \<ge> sendQueueMax then (close_socket T s WS_SLOW_CONSUMER, False)
         else ((set_session T i (\<lambda>x. x\<lparr>ss_sendQueue := ss_sendQueue x + 1\<rparr>))\<lparr>st_sent := st_sent T @ [(s, data)]\<rparr>, True))"

definition sent_callback :: "SessionTable \<Rightarrow> string \<Rightarrow> SessionTable" where
  "sent_callback T i = set_session T i (\<lambda>x. x\<lparr>ss_sendQueue := ss_sendQueue x - 1\<rparr>)"

fun send_each :: "int \<Rightarrow> SessionTable \<Rightarrow> string list \<Rightarrow> string option \<Rightarrow> ServerMessage \<Rightarrow> SessionTable" where
  "send_each m T [] exclude data = T"
| "send_each m T (i # ids) exclude data =
     send_each m (if exclude = Some (ss_id (st_objs T i)) then T else fst (sendToSession m T i data)) ids exclude data"

definition broadcastToDocument ::
  "int \<Rightarrow> SessionTable \<Rightarrow> string \<Rightarrow> ServerMessage \<Rightarrow> string option \<Rightarrow> SessionTable" where
  "broadcastToDocument m T d data exclude = send_each m T (getDocumentSessions T d) exclude data"

definition broadcastToUser :: "int \<Rightarrow> SessionTable \<Rightarrow> string \<Rightarrow> ServerMessage \<Rightarrow> SessionTable" where
  "broadcastToUser m T u data = send_each m T (getSessionsForUser T u) None data"

section \<open>The maps agree\<close>

definition index_ok :: "(string \<rightharpoonup> string list) \<Rightarrow> string set \<Rightarrow> (string \<Rightarrow> string option) \<Rightarrow> bool" where
  "index_ok m S key \<longleftrightarrow> (\<forall>k. m k \<noteq> Some [] \<and> distinct (ids_at m k) \<and> set (ids_at m k) = {i \<in> S. key i = Some k})"

definition sessions_ok :: "SessionTable \<Rightarrow> bool" where
  "sessions_ok T \<longleftrightarrow> (\<forall>i \<in> st_sessions T. ss_id (st_objs T i) = i) \<and>
     index_ok (st_docSessions T) (st_sessions T) (\<lambda>i. truthy (ss_docId (st_objs T i))) \<and>
     index_ok (st_userSessions T) (st_sessions T) (\<lambda>i. Some (ss_userId (st_objs T i)))"

lemma ids_at_upd [simp]: "ids_at (m(k \<mapsto> xs)) k' = (if k' = k then xs else ids_at m k')"
  "ids_at (m(k := None)) k' = (if k' = k then [] else ids_at m k')"
  by (simp_all add: ids_at_def)

lemma index_add:
  assumes "index_ok m S key" "i \<notin> S" "\<And>j. j \<in> S \<Longrightarrow> key' j = key j"
  shows "index_ok (case key' i of Some k \<Rightarrow> ids_add k i m | None \<Rightarrow> m) (insert i S) key'"
proof (cases "key' i")
  case None
  then show ?thesis using assms by (force simp: index_ok_def)
next
  case (Some k)
  have "i \<notin> set (ids_at m k)" using assms(1,2) by (simp add: index_ok_def)
  then show ?thesis using assms Some unfolding index_ok_def
    by (auto simp: ids_add_def set_add_def)
qed

lemma index_remove:
  assumes "index_ok m S key" "key i = Some k"
  shows "index_ok (ids_remove k i m) (S - {i}) key"
proof (cases "m k")
  case None
  then have "ids_at m k = []" by (simp add: ids_at_def)
  then have "{j \<in> S. key j = Some k} = {}" using assms(1) unfolding index_ok_def by (metis set_empty)
  then have "S - {i} = S" using assms(2) by auto
  then show ?thesis using assms None by (simp add: ids_remove_def)
next
  case (Some ids)
  then have ids: "ids_at m k = ids" by (simp add: ids_at_def)
  define ids' where "ids' = removeAll i ids"
  have ids': "set ids' = {j \<in> S - {i}. key j = Some k}" "distinct ids'"
    using assms(1) ids by (auto simp: index_ok_def distinct_removeAll ids'_def)
  have m': "ids_remove k i m = (if ids' = [] then m(k := None) else m(k \<mapsto> ids'))"
    by (simp add: ids_remove_def Some Let_def ids'_def)
  have other: "{j \<in> S. key j = Some l} = {j \<in> S - {i}. key j = Some l}" if "l \<noteq> k" for l
    using assms(2) that by auto
  show ?thesis
    unfolding index_ok_def
  proof (intro allI conjI)
    fix l
    show "ids_remove k i m l \<noteq> Some []" using assms(1) by (simp add: m' index_ok_def)
    show "distinct (ids_at (ids_remove k i m) l)" using assms(1) ids'(2) by (simp add: m' index_ok_def)
    show "set (ids_at (ids_remove k i m) l) = {j \<in> S - {i}. key j = Some l}"
    proof (cases "l = k")
      case True
      then show ?thesis using ids'(1) by (cases "ids' = []") (auto simp: m')
    next
      case False
      then show ?thesis using assms(1) other [OF False] by (simp add: m' index_ok_def)
    qed
  qed
qed

lemma index_remove_none: "index_ok m S key \<Longrightarrow> key i = None \<Longrightarrow> index_ok m (S - {i}) key"
  unfolding index_ok_def by auto

lemma index_cong:
  assumes "index_ok m S key" "\<And>i. i \<in> S \<Longrightarrow> key' i = key i"
  shows "index_ok m S key'"
proof -
  have "{i \<in> S. key' i = k} = {i \<in> S. key i = k}" for k using assms(2) by auto
  with assms(1) show ?thesis by (simp add: index_ok_def)
qed

lemma register_ok:
  assumes "sessions_ok T" "uuid \<notin> st_sessions T"
  shows "sessions_ok (fst (registerSession T socket ps uuid now))"
proof -
  let ?T = "fst (registerSession T socket ps uuid now)"
  have objs: "st_objs ?T i = st_objs T i" if "i \<in> st_sessions T" for i
    using assms(2) that by (auto simp: registerSession_def Let_def split: option.split)
  have new: "ss_id (st_objs ?T uuid) = uuid" "ss_docId (st_objs ?T uuid) = sp_docId ps"
    "ss_userId (st_objs ?T uuid) = sp_userId ps" "st_sessions ?T = insert uuid (st_sessions T)"
    "st_docSessions ?T = (case truthy (sp_docId ps) of Some d \<Rightarrow> ids_add d uuid (st_docSessions T) | None \<Rightarrow> st_docSessions T)"
    "st_userSessions ?T = ids_add (sp_userId ps) uuid (st_userSessions T)"
    by (simp_all add: registerSession_def Let_def split: option.split)
  have "index_ok (st_docSessions ?T) (st_sessions ?T) (\<lambda>i. truthy (ss_docId (st_objs ?T i)))"
    using index_add [of "st_docSessions T" "st_sessions T" "\<lambda>i. truthy (ss_docId (st_objs T i))" uuid
      "\<lambda>i. truthy (ss_docId (st_objs ?T i))"] assms objs by (simp add: sessions_ok_def new)
  moreover have "index_ok (st_userSessions ?T) (st_sessions ?T) (\<lambda>i. Some (ss_userId (st_objs ?T i)))"
    using index_add [of "st_userSessions T" "st_sessions T" "\<lambda>i. Some (ss_userId (st_objs T i))" uuid
      "\<lambda>i. Some (ss_userId (st_objs ?T i))"] assms objs by (simp add: sessions_ok_def new)
  ultimately show ?thesis
    using assms objs new by (auto simp: sessions_ok_def)
qed

lemma remove_ok:
  assumes "sessions_ok T"
  shows "sessions_ok (fst (removeSession T i))"
proof (cases "i \<in> st_sessions T")
  case False
  then show ?thesis using assms by (simp add: removeSession_def getSession_def)
next
  case True
  let ?T = "fst (removeSession T i)"
  have T: "st_objs ?T = st_objs T" "st_sessions ?T = st_sessions T - {i}"
    "st_docSessions ?T = (case truthy (ss_docId (st_objs T i)) of Some d \<Rightarrow> ids_remove d i (st_docSessions T) | None \<Rightarrow> st_docSessions T)"
    "st_userSessions ?T = ids_remove (ss_userId (st_objs T i)) i (st_userSessions T)"
    using True by (simp_all add: removeSession_def getSession_def Let_def split: option.split)
  have "index_ok (st_docSessions ?T) (st_sessions ?T) (\<lambda>i. truthy (ss_docId (st_objs ?T i)))"
    unfolding T using assms
    by (auto simp: sessions_ok_def intro: index_remove index_remove_none split: option.split)
  moreover have "index_ok (st_userSessions ?T) (st_sessions ?T) (\<lambda>i. Some (ss_userId (st_objs ?T i)))"
    unfolding T using assms by (auto simp: sessions_ok_def intro: index_remove)
  ultimately show ?thesis using assms by (simp add: sessions_ok_def T)
qed

lemma set_session_ok:
  assumes "sessions_ok T" "\<And>x. ss_id (f x) = ss_id x \<and> ss_docId (f x) = ss_docId x \<and> ss_userId (f x) = ss_userId x"
  shows "sessions_ok (set_session T i f)"
  using assms unfolding sessions_ok_def set_session_def
  by (auto intro: index_cong)

section \<open>Broadcasts\<close>

text \<open>What one send depends on and changes.\<close>

definition reachable :: "int \<Rightarrow> SessionTable \<Rightarrow> string \<Rightarrow> bool" where
  "reachable m T i \<longleftrightarrow> st_sockets T (ss_socket (st_objs T i)) = SockOpen \<and> ss_sendQueue (st_objs T i) < m"

definition slow :: "int \<Rightarrow> SessionTable \<Rightarrow> string \<Rightarrow> bool" where
  "slow m T i \<longleftrightarrow> st_sockets T (ss_socket (st_objs T i)) = SockOpen \<and> m \<le> ss_sendQueue (st_objs T i)"

lemma send_effect:
  "st_sent (fst (sendToSession m T i data)) =
     st_sent T @ (if reachable m T i then [(ss_socket (st_objs T i), data)] else [])"
  "st_sockets (fst (sendToSession m T i data)) =
     (if slow m T i then (st_sockets T)(ss_socket (st_objs T i) := SockClosing WS_SLOW_CONSUMER) else st_sockets T)"
  "st_objs (fst (sendToSession m T i data)) = (st_objs T)(i := (st_objs T i)\<lparr>ss_sendQueue :=
     ss_sendQueue (st_objs T i) + (if reachable m T i then 1 else 0)\<rparr>)"
  "snd (sendToSession m T i data) = reachable m T i"
  "st_sessions (fst (sendToSession m T i data)) = st_sessions T"
  "st_docSessions (fst (sendToSession m T i data)) = st_docSessions T"
  "st_userSessions (fst (sendToSession m T i data)) = st_userSessions T"
  by (auto simp: sendToSession_def Let_def reachable_def slow_def close_socket_def set_session_def)

lemma send_ok: "sessions_ok T \<Longrightarrow> sessions_ok (fst (sendToSession m T i data))"
  unfolding sessions_ok_def send_effect by (auto intro: index_cong)

lemma send_other:
  assumes "j \<noteq> i" "ss_socket (st_objs T j) \<noteq> ss_socket (st_objs T i)"
  shows "reachable m (fst (sendToSession m T i data)) j = reachable m T j"
    "slow m (fst (sendToSession m T i data)) j = slow m T j"
    "st_objs (fst (sendToSession m T i data)) j = st_objs T j"
  using assms by (auto simp: reachable_def slow_def send_effect)

lemma send_same_ids: "ss_socket (st_objs (fst (sendToSession m T i data)) j) = ss_socket (st_objs T j)"
  "ss_id (st_objs (fst (sendToSession m T i data)) j) = ss_id (st_objs T j)"
  by (auto simp: send_effect)

lemma send_each_effect:
  assumes "distinct ids" "inj_on (\<lambda>i. ss_socket (st_objs T i)) (set ids)" "\<forall>i \<in> set ids. ss_id (st_objs T i) = i"
  shows "st_sent (send_each m T ids exclude data) = st_sent T @
      map (\<lambda>i. (ss_socket (st_objs T i), data)) (filter (\<lambda>i. exclude \<noteq> Some i \<and> reachable m T i) ids) \<and>
    (\<forall>s. st_sockets (send_each m T ids exclude data) s =
      (if \<exists>i \<in> set ids. exclude \<noteq> Some i \<and> slow m T i \<and> ss_socket (st_objs T i) = s
       then SockClosing WS_SLOW_CONSUMER else st_sockets T s)) \<and>
    st_docSessions (send_each m T ids exclude data) = st_docSessions T \<and>
    st_sessions (send_each m T ids exclude data) = st_sessions T"
  using assms
proof (induction ids arbitrary: T)
  case (Cons i ids)
  define U where "U = (if exclude = Some i then T else fst (sendToSession m T i data))"
  have id: "ss_id (st_objs T i) = i" using Cons.prems(3) by simp
  have U: "send_each m T (i # ids) exclude data = send_each m U ids exclude data"
    by (simp add: U_def id)
  have sock: "ss_socket (st_objs T j) \<noteq> ss_socket (st_objs T i)" if "j \<in> set ids" for j
    using Cons.prems(1,2) that by (auto simp: inj_on_def)
  have same: "ss_socket (st_objs U j) = ss_socket (st_objs T j)" "ss_id (st_objs U j) = ss_id (st_objs T j)" for j
    by (simp_all add: U_def send_same_ids)
  have other: "reachable m U j = reachable m T j" "slow m U j = slow m T j" if "j \<in> set ids" for j
    using sock [OF that] Cons.prems(1) that send_other [of j i T m data] by (auto simp: U_def)
  have IH: "st_sent (send_each m U ids exclude data) = st_sent U @
      map (\<lambda>i. (ss_socket (st_objs U i), data)) (filter (\<lambda>i. exclude \<noteq> Some i \<and> reachable m U i) ids) \<and>
    (\<forall>s. st_sockets (send_each m U ids exclude data) s =
      (if \<exists>i \<in> set ids. exclude \<noteq> Some i \<and> slow m U i \<and> ss_socket (st_objs U i) = s
       then SockClosing WS_SLOW_CONSUMER else st_sockets U s)) \<and>
    st_docSessions (send_each m U ids exclude data) = st_docSessions U \<and>
    st_sessions (send_each m U ids exclude data) = st_sessions U"
    using Cons.prems by (intro Cons.IH) (simp_all add: same inj_on_def)
  have filt: "filter (\<lambda>i. exclude \<noteq> Some i \<and> reachable m U i) ids = filter (\<lambda>i. exclude \<noteq> Some i \<and> reachable m T i) ids"
    by (rule filter_cong) (simp_all add: other)
  have ex: "(\<exists>j \<in> set ids. exclude \<noteq> Some j \<and> slow m U j \<and> ss_socket (st_objs T j) = s) \<longleftrightarrow>
      (\<exists>j \<in> set ids. exclude \<noteq> Some j \<and> slow m T j \<and> ss_socket (st_objs T j) = s)" for s
    using other by auto
  have socks: "st_sockets U s = (if exclude \<noteq> Some i \<and> slow m T i \<and> ss_socket (st_objs T i) = s
      then SockClosing WS_SLOW_CONSUMER else st_sockets T s)" for s
    by (simp add: U_def send_effect)
  have sent: "st_sent U = st_sent T @ (if exclude \<noteq> Some i \<and> reachable m T i then [(ss_socket (st_objs T i), data)] else [])"
    by (simp add: U_def send_effect)
  have "st_docSessions U = st_docSessions T" "st_sessions U = st_sessions T"
    by (simp_all add: U_def send_effect)
  with IH show ?case
    unfolding U filt ex socks sent same by auto
qed simp

lemma ids_remove_add:
  assumes "i \<notin> set (ids_at m k)" "m k \<noteq> Some []"
  shows "ids_remove k i (ids_add k i m) = m"
proof (cases "m k")
  case None
  then show ?thesis by (auto simp: ids_remove_def ids_add_def set_add_def ids_at_def)
next
  case (Some ids)
  then have "ids_at m k = ids" by (simp add: ids_at_def)
  then show ?thesis using assms Some by (auto simp: ids_remove_def ids_add_def set_add_def)
qed

lemma truthy_eq: "d \<noteq> [] \<Longrightarrow> truthy x = Some d \<longleftrightarrow> x = Some d"
  by (auto simp: truthy_def split: option.split)

lemma doc_sessions:
  assumes "sessions_ok T" "d \<noteq> []"
  shows "getDocumentSessions T d = ids_at (st_docSessions T) d" "distinct (getDocumentSessions T d)"
    "set (getDocumentSessions T d) = {j \<in> st_sessions T. ss_docId (st_objs T j) = Some d}"
proof -
  have ix: "index_ok (st_docSessions T) (st_sessions T) (\<lambda>i. truthy (ss_docId (st_objs T i)))"
    using assms(1) by (simp add: sessions_ok_def)
  then have s: "set (ids_at (st_docSessions T) d) = {j \<in> st_sessions T. ss_docId (st_objs T j) = Some d}"
    by (simp add: index_ok_def truthy_eq [OF assms(2)])
  then show eq: "getDocumentSessions T d = ids_at (st_docSessions T) d"
    unfolding getDocumentSessions_def by (intro filter_eq_all) auto
  show "distinct (getDocumentSessions T d)"
    "set (getDocumentSessions T d) = {j \<in> st_sessions T. ss_docId (st_objs T j) = Some d}"
    unfolding eq using ix s by (simp_all add: index_ok_def)
qed

lemma register_sessions:
  assumes "sessions_ok T" "uuid \<notin> st_sessions T" "d \<noteq> []"
  shows "getDocumentSessions (fst (registerSession T s ps uuid now)) d =
      getDocumentSessions T d @ (if sp_docId ps = Some d then [uuid] else [])"
proof -
  have new: "uuid \<notin> set (ids_at (st_docSessions T) d)"
    using doc_sessions [OF assms(1,3)] assms(2) by auto
  have "getDocumentSessions (fst (registerSession T s ps uuid now)) d =
      ids_at (st_docSessions (fst (registerSession T s ps uuid now))) d"
    by (rule doc_sessions) (rule register_ok, rule assms, rule assms, rule assms)
  also have "\<dots> = ids_at (st_docSessions T) d @ (if sp_docId ps = Some d then [uuid] else [])"
    using new truthy_eq [OF assms(3), of "sp_docId ps"]
    by (auto simp: registerSession_def Let_def ids_add_def set_add_def split: option.split)
  finally show ?thesis by (simp add: doc_sessions [OF assms(1,3)])
qed

lemma remove_sessions:
  assumes "sessions_ok T" "d \<noteq> []"
  shows "getDocumentSessions (fst (removeSession T i)) d = removeAll i (getDocumentSessions T d)"
proof (cases "i \<in> st_sessions T")
  case False
  then have "i \<notin> set (getDocumentSessions T d)" using doc_sessions [OF assms] by auto
  then show ?thesis using False by (simp add: removeSession_def getSession_def)
next
  case True
  have "getDocumentSessions (fst (removeSession T i)) d = ids_at (st_docSessions (fst (removeSession T i))) d"
    by (rule doc_sessions) (rule remove_ok, rule assms, rule assms)
  also have "\<dots> = removeAll i (ids_at (st_docSessions T) d)"
  proof (cases "ss_docId (st_objs T i) = Some d")
    case t: True
    then show ?thesis
      using True assms(2) by (auto simp: removeSession_def getSession_def Let_def truthy_def ids_remove_def ids_at_def split: option.split)
  next
    case False
    then have "i \<notin> set (ids_at (st_docSessions T) d)"
      using doc_sessions [OF assms] by auto
    moreover have "truthy (ss_docId (st_objs T i)) \<noteq> Some d" using False truthy_eq [OF assms(2)] by blast
    ultimately show ?thesis
      using True by (auto simp: removeSession_def getSession_def Let_def ids_remove_def ids_at_def split: option.split)
  qed
  finally show ?thesis by (simp add: doc_sessions [OF assms])
qed

lemma remove_register:
  assumes "sessions_ok T" "uuid \<notin> st_sessions T"
  shows "fst (removeSession (fst (registerSession T s ps uuid now)) uuid) =
      T\<lparr>st_objs := st_objs (fst (registerSession T s ps uuid now))\<rparr>"
proof -
  have "uuid \<notin> set (ids_at (st_docSessions T) k) \<and> st_docSessions T k \<noteq> Some []" for k
    using assms by (auto simp: sessions_ok_def index_ok_def)
  moreover have "uuid \<notin> set (ids_at (st_userSessions T) k) \<and> st_userSessions T k \<noteq> Some []" for k
    using assms by (auto simp: sessions_ok_def index_ok_def)
  ultimately show ?thesis
    using assms(2) by (cases T) (auto simp: removeSession_def registerSession_def getSession_def Let_def ids_remove_add split: option.split)
qed

text \<open>C30: The session maps stay consistent: registering under a fresh id, removing and sending keep
  the three maps in agreement, so the sessions found for a document are exactly the registered
  ones that joined it, each once; a new session is found last, a removed one no more, and
  removing a new session restores the maps.\<close>

theorem session_maps_agree:
  assumes "sessions_ok T" "uuid \<notin> st_sessions T" "d \<noteq> []"
  shows "sessions_ok (fst (registerSession T s ps uuid now)) \<and> sessions_ok (fst (removeSession T i)) \<and>
    sessions_ok (fst (sendToSession m T i data)) \<and>
    distinct (getDocumentSessions T d) \<and>
    set (getDocumentSessions T d) = {j \<in> st_sessions T. ss_docId (st_objs T j) = Some d} \<and>
    getDocumentSessions (fst (registerSession T s ps uuid now)) d =
      getDocumentSessions T d @ (if sp_docId ps = Some d then [uuid] else []) \<and>
    getDocumentSessions (fst (removeSession T i)) d = removeAll i (getDocumentSessions T d) \<and>
    fst (removeSession (fst (registerSession T s ps uuid now)) uuid) =
      T\<lparr>st_objs := st_objs (fst (registerSession T s ps uuid now))\<rparr>"
  using register_ok [OF assms(1,2)] remove_ok [OF assms(1)] send_ok [OF assms(1)] doc_sessions [OF assms(1,3)]
    register_sessions [OF assms] remove_sessions [OF assms(1,3)] remove_register [OF assms(1,2)] by blast

definition no_sessions :: SessionTable where
  "no_sessions = \<lparr>st_objs = (\<lambda>_. undefined), st_sessions = {}, st_docSessions = Map.empty,
     st_userSessions = Map.empty, st_sockets = (\<lambda>_. SockOpen), st_sent = []\<rparr>"

lemma no_sessions_ok: "sessions_ok no_sessions" "st_sessions no_sessions = {}"
  by (simp_all add: no_sessions_def sessions_ok_def index_ok_def ids_at_def)

definition example_session_params :: "string \<Rightarrow> SessionParams" where
  "example_session_params d = \<lparr>sp_userId = ''u'', sp_docId = Some d, sp_siteId = ''c'', sp_displayName = ''U'',
     sp_color = ''#000000'', sp_lastSeq = 0\<rparr>"

theorem session_maps_agree_witness:
  "getDocumentSessions (fst (registerSession no_sessions 0 (example_session_params ''d'') ''s'' 7)) ''d'' = [''s'']"
  using session_maps_agree [OF no_sessions_ok(1), of "''s''" "''d''" 0 "example_session_params ''d''" 7]
  by (simp add: no_sessions_ok example_session_params_def getDocumentSessions_def)

text \<open>A broadcast reaches every session of the document exactly once, the excluded one excepted: it
  is sent, in the order of joining, to those whose socket is open and whose send queue has room;
  exactly the open sockets with a full queue are closed, with code 4009.\<close>

theorem broadcast_reaches_all:
  assumes "sessions_ok T" "d \<noteq> []" "inj_on (\<lambda>i. ss_socket (st_objs T i)) (st_sessions T)"
  shows "st_sent (broadcastToDocument m T d data exclude) = st_sent T @
      map (\<lambda>i. (ss_socket (st_objs T i), data)) (filter (\<lambda>i. exclude \<noteq> Some i \<and> reachable m T i) (getDocumentSessions T d)) \<and>
    st_sockets (broadcastToDocument m T d data exclude) s =
      (if \<exists>i. i \<in> st_sessions T \<and> ss_docId (st_objs T i) = Some d \<and> exclude \<noteq> Some i \<and> slow m T i \<and> ss_socket (st_objs T i) = s
       then SockClosing 4009 else st_sockets T s)"
proof -
  note ds = doc_sessions [OF assms(1,2)]
  have "inj_on (\<lambda>i. ss_socket (st_objs T i)) (set (getDocumentSessions T d))"
    using assms(3) by (rule inj_on_subset) (simp add: ds(3))
  moreover have "\<forall>i \<in> set (getDocumentSessions T d). ss_id (st_objs T i) = i"
    using assms(1) ds(3) by (simp add: sessions_ok_def)
  ultimately show ?thesis
    using send_each_effect [OF ds(2), where T = T and exclude = exclude and m = m and data = data] ds(3)
    unfolding broadcastToDocument_def WS_SLOW_CONSUMER_def by auto
qed

theorem broadcast_reaches_all_witness:
  "st_sent (broadcastToDocument 500 (fst (registerSession no_sessions 3 (example_session_params ''d'') ''s'' 7)) ''d'' (PONG 1 2) None) =
     [(3, PONG 1 2)]"
proof -
  let ?T = "fst (registerSession no_sessions 3 (example_session_params ''d'') ''s'' 7)"
  have ok: "sessions_ok ?T" by (rule register_ok) (simp_all add: no_sessions_ok)
  have T: "st_sessions ?T = {''s''}" "getDocumentSessions ?T ''d'' = [''s'']" "st_sent ?T = []"
    "ss_socket (st_objs ?T ''s'') = 3" "reachable 500 ?T ''s''"
    by (simp_all add: registerSession_def Let_def no_sessions_def example_session_params_def truthy_def
        getDocumentSessions_def ids_add_def ids_at_def set_add_def reachable_def)
  show ?thesis
    using broadcast_reaches_all [OF ok, of "''d''" 500 "PONG 1 2" None] T by simp
qed

end
