(* ===== verification/Operation_Handler.thy ===== *)
theory Operation_Handler
  imports Document_Cache Request_Guards Session_Manager Input_Sanitizer
begin

text \<open>
  \<^verbatim>\<open>src/server/sync/operation-handler.ts\<close>: what one worker does with an \<open>OPERATION\<close> message, over
  the cache, the event store, Redis and the published envelopes. Whether PostgreSQL is reachable
  and whether the publish succeeds are arguments, so the handler's failures after it has
  changed the cached document are behaviours of the model. The lemmas follow the state
  through accepted and refused operations, through a whole run of a worker, and through two
  workers on one document.
\<close>

section \<open>The handler\<close>

record ('c, 'r) Deps =
  dp_lru :: "'c lru"
  dp_pipe :: "'r pipeline"
  dp_setnx :: "'r setnx"
  dp_rate :: RateConfig
  dp_replayWindow :: int
  dp_compactor :: CompactorConfig
  dp_sha256 :: "js_text \<Rightarrow> string"

record ('c, 'r) Server =
  sv_worker :: "'c Worker"
  sv_db :: Database
  sv_redis :: 'r
  sv_published :: "OperationEnvelope list"

record OperationResult =
  or_success :: bool
  or_envelope :: "OperationEnvelope option"
  or_error :: "(ErrorCode \<times> string) option"

datatype outcome = Returned OperationResult | Threw db_error

text \<open>What the environment decides in one call: reachability, whether a transaction commits, times and
  generated ids.\<close>

record Call =
  ca_pgUp :: bool
  ca_publishOk :: bool
  ca_commits :: bool
  ca_now :: int
  ca_created :: string
  ca_opId :: string
  ca_snapId :: string

definition refuse :: "ErrorCode \<Rightarrow> string \<Rightarrow> outcome" where
  "refuse code m = Returned \<lparr>or_success = False, or_envelope = None, or_error = Some (code, m)\<rparr>"

definition rateMessage :: "RateLimitResult \<Rightarrow> string" where
  "rateMessage res = ''Rate limit exceeded. Retry after '' @
     (case rl_retryAfterMs res of Some n \<Rightarrow> show_int n | None \<Rightarrow> ''undefined'') @ ''ms''"

definition siteMessage :: "string \<Rightarrow> string \<Rightarrow> string" where
  "siteMessage expected got = ''UID siteId mismatch: expected '' @ expected @ '', got '' @ got"

definition site_mismatch :: "ServerSession \<Rightarrow> RGAOperation \<Rightarrow> bool" where
  "site_mismatch session x = (case x of INSERT u _ _ \<Rightarrow> siteId u \<noteq> ss_siteId session | _ \<Rightarrow> False)"

definition append_params :: "ServerSession \<Rightarrow> OperationMessage \<Rightarrow> AppendParams" where
  "append_params session msg = \<lparr>ap_docId = msg_docId msg, ap_sessionId = ss_id session,
     ap_userId = ss_userId session, ap_clientSeq = msg_clientSeq msg, ap_op = msg_op msg,
     ap_vectorClock = msg_vectorClock msg, ap_nonce = msg_nonce msg\<rparr>"

text \<open>The load throws only when it needs the database and the database is away.\<close>

definition load_throws :: "('c, 'r) Deps \<Rightarrow> ('c, 'r) Server \<Rightarrow> Call \<Rightarrow> string \<Rightarrow> bool" where
  "load_throws D sv call d \<longleftrightarrow> \<not> ca_pgUp call \<and> snd (lru_get (dp_lru D) (w_cache (sv_worker sv)) d) = None"

text \<open>Steps 4 to 9, after the checks. The background snapshot runs when the handler has returned.\<close>

definition process ::
  "('c, 'r) Deps \<Rightarrow> Call \<Rightarrow> ('c, 'r) Server \<Rightarrow> ServerSession \<Rightarrow> OperationMessage \<Rightarrow> ('c, 'r) Server \<times> outcome" where
  "process D call sv session msg =
     (let d = msg_docId msg; L = dp_lru D in
      if load_throws D sv call d
      then (sv\<lparr>sv_worker := (sv_worker sv)\<lparr>w_cache := fst (lru_get L (w_cache (sv_worker sv)) d)\<rparr>\<rparr>, Threw ConnectionLost)
      else case getOrLoadDocument L (sv_worker sv) (sv_db sv) d (ca_now call) of (w1, p) \<Rightarrow>
        let w2 = set_doc w1 p (fst (applyOperation (cd_doc (w_heap w1 p)) (msg_op msg)));
            sv2 = sv\<lparr>sv_worker := w2\<rparr>
        in if \<not> ca_pgUp call then (sv2, Threw ConnectionLost)
           else case appendOperation (sv_db sv) (append_params session msg) (ca_opId call) (ca_created call) of
               Inl e \<Rightarrow> (sv2, Threw e)
             | Inr (db1, envelope) \<Rightarrow>
                 let w3 = updateCachedDocument L w2 d (\<lambda>e. e\<lparr>cd_lastSeq := env_seq envelope,
                       cd_opsSinceSnapshot := cd_opsSinceSnapshot e + 1\<rparr>);
                     sv3 = sv2\<lparr>sv_worker := w3, sv_db := db1\<rparr>
                 in if \<not> ca_publishOk call then (sv3, Threw PublishFailed)
                    else case maybeTakeSnapshot L (dp_compactor D) (dp_sha256 D) w3 db1 d (ca_now call)
                          (ca_snapId call) (ca_created call) of (w4, db2) \<Rightarrow>
                      (sv3\<lparr>sv_worker := w4, sv_db := db2, sv_published := sv_published sv @ [envelope]\<rparr>,
                       Returned \<lparr>or_success = True, or_envelope = Some envelope, or_error = None\<rparr>))"

definition handleOperation ::
  "('c, 'r) Deps \<Rightarrow> Call \<Rightarrow> ('c, 'r) Server \<Rightarrow> ServerSession \<Rightarrow> OperationMessage \<Rightarrow> ('c, 'r) Server \<times> outcome" where
  "handleOperation D call sv session msg =
     (case checkRateLimit (dp_pipe D) (dp_rate D) (sv_redis sv) (ss_userId session) (ca_now call) of (r1, rate) \<Rightarrow>
      let sv1 = sv\<lparr>sv_redis := r1\<rparr> in
      if \<not> rl_allowed rate then (sv1, refuse RATE_LIMITED (rateMessage rate))
      else case isReplay (dp_setnx D) (dp_replayWindow D) r1 (if ca_pgUp call then Some (sv_db sv) else None)
            (msg_docId msg) (msg_nonce msg) of (r2, replay) \<Rightarrow>
        let sv2 = sv\<lparr>sv_redis := r2\<rparr> in
        if replay then (sv2, refuse REPLAY_DETECTED ''Duplicate operation'')
        else if site_mismatch session (msg_op msg)
          then (sv2, refuse INVALID_OPERATION (siteMessage (ss_siteId session) (siteId (op_uid (msg_op msg)))))
        else process D call sv2 session msg)"

section \<open>Refusals\<close>

text \<open>A refused operation leaves no trace: when the handler answers with an error - rate limit,
  replay or a foreign site id - the database, every cached document and the published
  operations are as before, and the error is exactly one of the three.\<close>

theorem refused_changes_nothing:
  assumes "handleOperation D call sv session msg = (sv', Returned res)" "\<not> or_success res"
  shows "sv_db sv' = sv_db sv \<and> sv_worker sv' = sv_worker sv \<and> sv_published sv' = sv_published sv \<and>
    or_envelope res = None \<and>
    (\<exists>c m. or_error res = Some (c, m) \<and> c \<in> {RATE_LIMITED, REPLAY_DETECTED, INVALID_OPERATION})"
  using assms
  by (auto simp: handleOperation_def process_def refuse_def Let_def split: prod.splits if_splits sum.splits)

section \<open>Accepted operations\<close>

definition server_ok :: "('c \<Rightarrow> string \<Rightarrow> entry_ref option) \<Rightarrow> ('c, 'r) Server \<Rightarrow> bool" where
  "server_ok view sv \<longleftrightarrow> docs_ok (sv_db sv) \<and> coherent view (sv_worker sv) (sv_db sv)"

text \<open>A message the schema lets through, for a document and a user that exist.\<close>

definition admissible :: "Database \<Rightarrow> ServerSession \<Rightarrow> OperationMessage \<Rightarrow> bool" where
  "admissible db session msg \<longleftrightarrow> good_op (msg_op msg) \<and> document_exists db (msg_docId msg) \<and>
     user_exists db (ss_userId session)"

lemma good_opD: "good_op x \<Longrightarrow> not_on_root x \<and> op_type x \<in> {''INSERT'', ''DELETE''}"
  by (cases x) (auto simp: good_op_def plain_op_def)

lemma admissible_valid: "admissible db session msg \<Longrightarrow> valid_params db (append_params session msg)"
  using good_opD [of "msg_op msg"] by (auto simp: admissible_def valid_params_def append_params_def)

text \<open>What processing a message comes to: the store after it and the envelope.\<close>

definition processed ::
  "int \<Rightarrow> Database \<Rightarrow> OperationMessage \<Rightarrow> Database \<Rightarrow> OperationEnvelope \<Rightarrow> bool" where
  "processed threshold db msg db' env \<longleftrightarrow>
     env_seq env = getMaxSeq db (msg_docId msg) + 1 \<and> env_op env = msg_op msg \<and>
     env_docId env = msg_docId msg \<and> env_nonce env = msg_nonce msg \<and>
     map rowToEnvelope (doc_rows db' (msg_docId msg)) = map rowToEnvelope (doc_rows db (msg_docId msg)) @ [env] \<and>
     (\<forall>e. e \<noteq> msg_docId msg \<longrightarrow> pg.replica db' e = pg.replica db e) \<and>
     same_view (pg.replica db' (msg_docId msg)) (applyOp (pg.replica db (msg_docId msg)) (msg_op msg)) \<and>
     (\<forall>e. pg.pending db' e \<le> pg.pending db e + (if e = msg_docId msg then 1 else 0)) \<and>
     pg.pending db' (msg_docId msg) < max 1 threshold \<and>
     db_users db' = db_users db \<and> db_documents db' = db_documents db"

lemma processedD:
  assumes "processed threshold db msg db' env"
  shows "env_seq env = getMaxSeq db (msg_docId msg) + 1" "env_op env = msg_op msg"
    "map rowToEnvelope (doc_rows db' (msg_docId msg)) = map rowToEnvelope (doc_rows db (msg_docId msg)) @ [env]"
    "e \<noteq> msg_docId msg \<Longrightarrow> pg.replica db' e = pg.replica db e"
    "same_view (pg.replica db' (msg_docId msg)) (applyOp (pg.replica db (msg_docId msg)) (msg_op msg))"
    "pg.pending db' e \<le> pg.pending db e + (if e = msg_docId msg then 1 else 0)"
    "pg.pending db' (msg_docId msg) < max 1 threshold"
    "db_users db' = db_users db" "db_documents db' = db_documents db"
  using assms unfolding processed_def by blast+

lemma processed_append:
  assumes "store_ok db" "row_appended db (msg_docId msg) (msg_op msg) db1" "row_seq row = getMaxSeq db (msg_docId msg) + 1"
    and "row_op_data row = msg_op msg" "row_doc_id row = msg_docId msg" "row_nonce row = msg_nonce msg"
    and "db_operations db1 = db_operations db @ [row]" "db_users db1 = db_users db" "db_documents db1 = db_documents db"
    and "compacted db1 (msg_docId msg) db2" "pg.pending db2 (msg_docId msg) < max 1 threshold"
  shows "processed threshold db msg db2 (rowToEnvelope row)"
proof -
  note rep = pg.replica_append [OF assms(1,2)]
  have c: "db_operations db2 = db_operations db1" "db_users db2 = db_users db1" "db_documents db2 = db_documents db1"
    "\<And>e. pg.pending db2 e \<le> pg.pending db1 e" "\<And>e. e \<noteq> msg_docId msg \<Longrightarrow> pg.replica db2 e = pg.replica db1 e"
    "\<And>e. same_view (pg.replica db2 e) (pg.replica db1 e)"
    using assms(10) by (simp_all add: compacted_def)
  have "same_view (pg.replica db2 (msg_docId msg)) (applyOp (pg.replica db (msg_docId msg)) (msg_op msg))"
    using c(6) [of "msg_docId msg"] by (simp add: rep)
  moreover have "pg.pending db2 e \<le> pg.pending db e + (if e = msg_docId msg then 1 else 0)" for e
    using c(4) [of e] by (simp add: rep)
  ultimately show ?thesis
    using c(5) assms(3-9,11) by (simp add: processed_def rep c(1-3) doc_rows_def)
qed

lemma process_ok:
  assumes "lru_ok (dp_lru D) view" "server_ok view sv" "admissible (sv_db sv) session msg"
    and "pg.pending (sv_db sv) (msg_docId msg) < int defaultLoadLimit" "ca_pgUp call" "ca_publishOk call"
  shows "\<exists>w db env. process D call sv session msg =
      (sv\<lparr>sv_worker := w, sv_db := db, sv_published := sv_published sv @ [env]\<rparr>,
       Returned \<lparr>or_success = True, or_envelope = Some env, or_error = None\<rparr>) \<and>
    docs_ok db \<and> coherent view w db \<and> processed (snapshotOpsThreshold (dp_compactor D)) (sv_db sv) msg db env"
proof -
  let ?d = "msg_docId msg" and ?db = "sv_db sv" and ?L = "dp_lru D" and ?x = "msg_op msg"
  have docs: "docs_ok ?db" and coh: "coherent view (sv_worker sv) ?db"
    using assms(2) by (simp_all add: server_ok_def)
  note ok = docs_okD [OF docs]
  obtain w1 p where g: "getOrLoadDocument ?L (sv_worker sv) ?db ?d (ca_now call) = (w1, p)" by (metis surj_pair)
  note gc = get_coherent [OF assms(1) ok(1) coh less_imp_le [OF assms(4)] g]
  define w2 where "w2 = set_doc w1 p (fst (applyOperation (cd_doc (w_heap w1 p)) ?x))"
  obtain db1 row where a: "appendOperation ?db (append_params session msg) (ca_opId call) (ca_created call) = Inr (db1, rowToEnvelope row)"
    "row_appended ?db ?d ?x db1" "row_seq row = getMaxSeq ?db ?d + 1" "row_op_data row = ?x" "row_doc_id row = ?d"
    "row_nonce row = msg_nonce msg" "db_operations db1 = db_operations ?db @ [row]" "db_users db1 = db_users ?db"
    "db_documents db1 = db_documents ?db"
    using append_is_append [OF ok(1) admissible_valid [OF assms(3)], of "ca_opId call" "ca_created call"]
    by (auto simp: append_params_def)
  note ap = pg.append_ok [OF ok(1) a(2)] and rep = pg.replica_append [OF ok(1) a(2)] and top = pg.top_append [OF ok(1) a(2)]
  have not_root: "not_on_root ?x" using assms(3) good_opD by (simp add: admissible_def)
  have docs1: "docs_ok db1" by (rule docs_ok_append [OF docs a(2) not_root])
  let ?f = "\<lambda>e. e\<lparr>cd_lastSeq := row_seq row, cd_opsSinceSnapshot := cd_opsSinceSnapshot e + 1\<rparr>"
  have "coherent_but {?d} view w2 db1"
    using set_doc_coherent(1) [OF gc(1,2)] unfolding w2_def by (rule coherent_store) (simp add: rep top)
  moreover have "holds view w2 ?d p" unfolding w2_def by (rule set_doc_coherent(2) [OF gc(1,2)])
  moreover have "coherent_entry db1 ?d (?f (w_heap w2 p))"
    using gc(3) a(3) by (simp add: coherent_entry_def w2_def set_doc_def rep top applyOp_def)
  ultimately have coh3: "coherent view (updateCachedDocument ?L w2 ?d ?f) db1"
    by (rule update_coherent [where f = ?f, OF assms(1)])
  obtain w4 db2 where m: "maybeTakeSnapshot ?L (dp_compactor D) (dp_sha256 D) (updateCachedDocument ?L w2 ?d ?f) db1 ?d
      (ca_now call) (ca_snapId call) (ca_created call) = (w4, db2)" by (rule prod.exhaust)
  have pend: "0 < pg.pending db1 ?d" "pg.pending db1 ?d \<le> int defaultLoadLimit"
    using pg.pending_nonneg [OF ok(1), of ?d] assms(4) by (simp_all add: rep)
  have ex: "document_exists db1 ?d" using assms(3) a(9) by (simp add: admissible_def document_exists_def)
  note s = snapshot_coherent [OF assms(1) docs1 coh3 ex pend m]
  have "process D call sv session msg =
      (sv\<lparr>sv_worker := w4, sv_db := db2, sv_published := sv_published sv @ [rowToEnvelope row]\<rparr>,
       Returned \<lparr>or_success = True, or_envelope = Some (rowToEnvelope row), or_error = None\<rparr>)"
    using assms(5,6) g a(1) m by (simp add: process_def load_throws_def Let_def w2_def)
  moreover have "docs_ok db2" using s(1) by (simp add: compacted_def)
  ultimately show ?thesis
    using s(2) processed_append [OF ok(1) a(2-9) s(1,3)] by blast
qed

lemma handle_passes:
  assumes "checkRateLimit (dp_pipe D) (dp_rate D) (sv_redis sv) (ss_userId session) (ca_now call) = (r1, rate)"
    "rl_allowed rate"
    "isReplay (dp_setnx D) (dp_replayWindow D) r1 (if ca_pgUp call then Some (sv_db sv) else None)
       (msg_docId msg) (msg_nonce msg) = (r2, False)" "\<not> site_mismatch session (msg_op msg)"
  shows "handleOperation D call sv session msg = process D call (sv\<lparr>sv_redis := r2\<rparr>) session msg"
  using assms by (simp add: handleOperation_def Let_def)

lemma load_doc:
  "store_ok db \<Longrightarrow> pg.pending db e \<le> 10000 \<Longrightarrow> cd_doc (loadDocumentFromDB db e t) = pg.replica db e"
  using load_stored [of db e t] by (simp add: defaultLoadLimit_def)

text \<open>C4: An accepted operation is durable, ordered and visible: with a coherent cache, a message that
  passes the checks is answered with an envelope under the next seq of its document, stands at
  the end of the stored log, is published once, and the document any later load returns shows
  what applying the operation to the stored document shows - also when the handler took a
  snapshot and collected tombstones on the way. No other document changes and the cache
  is coherent again.\<close>

theorem accepted_operation_durable:
  assumes "lru_ok (dp_lru D) view" "server_ok view sv" "admissible (sv_db sv) session msg"
    and "pg.pending (sv_db sv) (msg_docId msg) < 10000" "ca_pgUp call" "ca_publishOk call"
    and "checkRateLimit (dp_pipe D) (dp_rate D) (sv_redis sv) (ss_userId session) (ca_now call) = (r1, rate)" "rl_allowed rate"
    and "isReplay (dp_setnx D) (dp_replayWindow D) r1 (Some (sv_db sv)) (msg_docId msg) (msg_nonce msg) = (r2, False)"
    and "\<not> site_mismatch session (msg_op msg)"
  shows "\<exists>sv' env. handleOperation D call sv session msg =
      (sv', Returned \<lparr>or_success = True, or_envelope = Some env, or_error = None\<rparr>) \<and>
    server_ok view sv' \<and> env_seq env = getMaxSeq (sv_db sv) (msg_docId msg) + 1 \<and> env_op env = msg_op msg \<and>
    map rowToEnvelope (doc_rows (sv_db sv') (msg_docId msg)) = map rowToEnvelope (doc_rows (sv_db sv) (msg_docId msg)) @ [env] \<and>
    sv_published sv' = sv_published sv @ [env] \<and>
    toText (cd_doc (loadDocumentFromDB (sv_db sv') (msg_docId msg) t)) =
      toText (applyOp (cd_doc (loadDocumentFromDB (sv_db sv) (msg_docId msg) t)) (msg_op msg)) \<and>
    (\<forall>e. e \<noteq> msg_docId msg \<and> pg.pending (sv_db sv) e \<le> 10000 \<longrightarrow>
      cd_doc (loadDocumentFromDB (sv_db sv') e t) = cd_doc (loadDocumentFromDB (sv_db sv) e t))"
proof -
  let ?sv = "sv\<lparr>sv_redis := r2\<rparr>" and ?d = "msg_docId msg" and ?db = "sv_db sv"
  have "server_ok view ?sv" "admissible (sv_db ?sv) session msg" "pg.pending (sv_db ?sv) ?d < int defaultLoadLimit"
    using assms(2-4) by (simp_all add: server_ok_def defaultLoadLimit_def)
  from process_ok [OF assms(1) this assms(5,6)] obtain w db' env where
    p: "process D call ?sv session msg = (?sv\<lparr>sv_worker := w, sv_db := db', sv_published := sv_published sv @ [env]\<rparr>,
       Returned \<lparr>or_success = True, or_envelope = Some env, or_error = None\<rparr>)"
    and ok': "docs_ok db'" "coherent view w db'" and pr: "processed (snapshotOpsThreshold (dp_compactor D)) ?db msg db' env"
    by auto
  note pd = processedD [OF pr]
  have ok: "store_ok ?db" "store_ok db'" using assms(2) ok' by (simp_all add: server_ok_def docs_okD(1))
  have "pg.pending db' ?d \<le> 10000" using pd(6) [of ?d] assms(4) by simp
  then have shown: "toText (cd_doc (loadDocumentFromDB db' ?d t)) = toText (applyOp (cd_doc (loadDocumentFromDB ?db ?d t)) (msg_op msg))"
    using pd(5) assms(4) by (simp add: load_doc ok same_view_def)
  have other: "cd_doc (loadDocumentFromDB db' e t) = cd_doc (loadDocumentFromDB ?db e t)"
    if "e \<noteq> ?d" "pg.pending ?db e \<le> 10000" for e
    using pd(4,6) [of e] that by (simp add: load_doc ok)
  have run: "handleOperation D call sv session msg = process D call ?sv session msg"
    using assms(5,9) by (intro handle_passes [OF assms(7,8) _ assms(10)]) simp
  show ?thesis
    unfolding run p using pd(1-3) ok' shown other by (auto simp: server_ok_def)
qed

section \<open>The restore route\<close>

text \<open>\<^verbatim>\<open>src/server/api/routes/restore.ts\<close> once the body is validated: the caller's role is an
  argument (\<open>None\<close> without access). The session id is generated, the label is not used.\<close>

datatype restore_response =
    RestoreError int string
  | Restored int int nat js_text
  | RestoreThrew db_error

definition restoreRoute ::
  "('c, 'r) Deps \<Rightarrow> Call \<Rightarrow> ('c, 'r) Server \<Rightarrow> DocumentPermission option \<Rightarrow> string \<Rightarrow> string \<Rightarrow> int \<Rightarrow> string \<Rightarrow>
     string \<Rightarrow> ('c, 'r) Server \<times> restore_response" where
  "restoreRoute D call sv role userId docId targetSeq sessionUuid nonce =
     (case role of
        None \<Rightarrow> (sv, RestoreError 404 ''Document not found'')
      | Some viewer \<Rightarrow> (sv, RestoreError 403 ''Viewers cannot restore revisions'')
      | Some _ \<Rightarrow>
          (case restoreToRevision (dp_sha256 D) (ca_commits call) (sv_db sv)
                \<lparr>rp_docId = docId, rp_targetSeq = targetSeq, rp_userId = userId, rp_sessionId = sessionUuid\<rparr>
                (ca_opId call) nonce (ca_snapId call) (ca_created call) of
             (db, Inl e) \<Rightarrow> (sv\<lparr>sv_db := db\<rparr>, RestoreThrew e)
           | (db, Inr (envelope, restoredText, newSeq)) \<Rightarrow>
               let sv1 = sv\<lparr>sv_db := db, sv_worker := invalidateDocument (dp_lru D) (sv_worker sv) docId\<rparr>
               in if \<not> ca_publishOk call then (sv1, RestoreThrew PublishFailed)
                  else (sv1\<lparr>sv_published := sv_published sv1 @ [envelope]\<rparr>,
                        Restored newSeq targetSeq (length restoredText) (take 200 restoredText))))"

lemma restore_keeps:
  assumes "docs_ok db" "d = rp_docId ps" "document_exists db d" "user_exists db (rp_userId ps)"
    and "restoreToRevision hash True db ps opId nonce snapId now = (db', res)"
  shows "docs_ok db' \<and> pg.replica db' d = fst (reconstructAtSeq db d (rp_targetSeq ps)) \<and> pg.pending db' d = 0 \<and>
    (\<forall>e. e \<noteq> d \<longrightarrow> pg.replica db' e = pg.replica db e \<and> getMaxSeq db' e = getMaxSeq db e \<and> pg.pending db' e = pg.pending db e) \<and>
    (\<exists>env. res = Inr (env, toText (pg.replica db' d), getMaxSeq db d + 1)) \<and> getMaxSeq db' d = getMaxSeq db d + 1 \<and>
    db_users db' = db_users db \<and> db_documents db' = db_documents db"
proof -
  let ?doc = "fst (reconstructAtSeq db d (rp_targetSeq ps))"
  note ok = docs_okD [OF assms(1)]
  have wf: "wf_db db" by (rule store_okD) (rule ok)
  have snaps: "\<forall>s \<in> set (doc_snapshots db d). srow_seq s \<le> getMaxSeq db d"
    using store_okD(2) [OF ok(1)] by blast
  obtain db1 row srow where r: "appendOperation db (restore_params ps nonce) opId now = Inr (db1, rowToEnvelope row)"
    "srow_doc_id srow = d" "srow_seq srow = getMaxSeq db d + 1" "srow_data srow = serialize ?doc"
    "restoreToRevision hash True db ps opId nonce snapId now =
      (db1\<lparr>db_snapshots := db_snapshots db @ [srow],
              db_audit := db_audit db1 @ [\<lparr>aud_doc_id = d, aud_user_id = rp_userId ps, aud_action = ''restore'',
                aud_targetSeq = rp_targetSeq ps, aud_newSeq = getMaxSeq db d + 1\<rparr>]\<rparr>,
          Inr (rowToEnvelope row, toText ?doc, getMaxSeq db d + 1))"
    using restore_steps [OF wf assms(2,3,4) snaps refl,
      where hash = hash and commits = True and opId = opId and nonce = nonce and snapId = snapId and now = now] by auto
  have v: "valid_params db (restore_params ps nonce)"
    using assms(2-4) by (simp add: valid_params_def restore_params_def rollbackSentinelOp_def)
  have a: "row_appended db d rollbackSentinelOp db1" "db_snapshots db1 = db_snapshots db" "db_users db1 = db_users db"
    "db_documents db1 = db_documents db"
    using append_is_append [OF ok(1) v, of opId now] r(1) assms(2) by (auto simp: restore_params_def row_appended_def)
  have not_root: "not_on_root rollbackSentinelOp"
    by (simp add: not_on_root_def rollbackSentinelOp_def ROOT_UID_def nilUUID_def)
  note docs1 = docs_ok_append [OF assms(1) a(1) not_root]
  note ap = pg.append_ok [OF ok(1) a(1)] and rep = pg.replica_append [OF ok(1) a(1)] and top = pg.top_append [OF ok(1) a(1)]
  have s: "row_saved db1 d ?doc db'"
    using r(2-5) assms(5) a(2) ok(4) top [of d] ap [of d] pg.base_range [OF ok(1), of d] by (auto simp: row_saved_def)
  note docs' = docs_ok_save [OF docs1 s] and rs = pg.replica_save [OF docs_okD(1) [OF docs1] s]
    and so = pg.save_ok [OF docs_okD(1) [OF docs1] s]
  have ru: "db_users db' = db_users db1" "db_documents db' = db_documents db1" "res = Inr (rowToEnvelope row, toText ?doc, getMaxSeq db d + 1)"
    using r(5) assms(5) by auto
  show ?thesis
    using docs' rs so rep top ru a(3,4) by simp
qed

section \<open>The log only grows\<close>

text \<open>A later store: every log has the earlier one as its beginning, and no snapshot of the past was added.\<close>

definition extends_log :: "Database \<Rightarrow> Database \<Rightarrow> bool" where
  "extends_log db db' \<longleftrightarrow> (\<forall>d. (\<exists>more. doc_rows db' d = doc_rows db d @ more) \<and>
     (\<forall>s \<in> set (doc_snapshots db' d). s \<in> set (doc_snapshots db d) \<or> getMaxSeq db d < srow_seq s))"

lemma extends_refl: "extends_log db db"
  by (simp add: extends_log_def)

lemma extends_max:
  assumes "wf_db db" "wf_db db'" "extends_log db db'"
  shows "getMaxSeq db d \<le> getMaxSeq db' d"
proof -
  obtain more where "doc_rows db' d = doc_rows db d @ more" using assms(3) unfolding extends_log_def by blast
  then show ?thesis using assms(1,2) by (simp add: getMaxSeq_length)
qed

lemma extends_trans:
  assumes "wf_db a" "wf_db b" "extends_log a b" "extends_log b c"
  shows "extends_log a c"
proof -
  have rows: "\<exists>more. doc_rows c d = doc_rows a d @ more" for d
    using assms(3,4) unfolding extends_log_def by (metis append.assoc)
  have "s \<in> set (doc_snapshots a d) \<or> getMaxSeq a d < srow_seq s" if "s \<in> set (doc_snapshots c d)" for s d
  proof (cases "s \<in> set (doc_snapshots b d)")
    case True
    then show ?thesis using assms(3) unfolding extends_log_def by blast
  next
    case False
    then have "getMaxSeq b d < srow_seq s" using assms(4) that unfolding extends_log_def by blast
    then show ?thesis using extends_max [OF assms(1-3), of d] by simp
  qed
  then show ?thesis using rows unfolding extends_log_def by blast
qed

text \<open>So a reconstruction within the earlier log stays what it was, as long as its snapshot is kept.\<close>

lemma extends_reconstruct:
  assumes "store_ok db" "store_ok db'" "extends_log db db'" "m \<le> getMaxSeq db d"
    and "\<And>s. newest (filter (\<lambda>r. srow_seq r \<le> m) (doc_snapshots db d)) = Some s \<Longrightarrow> s \<in> set (doc_snapshots db' d)"
  shows "reconstructAtSeq db' d m = reconstructAtSeq db d m"
proof (rule reconstruct_cong)
  have old: "s \<in> set (doc_snapshots db d)" if "s \<in> set (doc_snapshots db' d)" "srow_seq s \<le> m" for s
    using assms(3,4) that unfolding extends_log_def by fastforce
  show "newest (filter (\<lambda>r. srow_seq r \<le> m) (doc_snapshots db' d)) = newest (filter (\<lambda>r. srow_seq r \<le> m) (doc_snapshots db d))"
  proof (cases "newest (filter (\<lambda>r. srow_seq r \<le> m) (doc_snapshots db d))")
    case None
    then have "filter (\<lambda>r. srow_seq r \<le> m) (doc_snapshots db' d) = []"
      using old by (auto simp: filter_empty_conv)
    with None show ?thesis by simp
  next
    case (Some s)
    note n = newest_Some [OF Some]
    have "distinct (map srow_seq (doc_snapshots db' d))"
      using store_okD(1) [OF assms(2)] by (simp add: wf_db_def log_ok_def)
    then have "newest (filter (\<lambda>r. srow_seq r \<le> m) (doc_snapshots db' d)) = Some s"
      by (intro newest_unique distinct_map_filter) (use n old assms(5) [OF Some] in auto)
    with Some show ?thesis by simp
  qed
  obtain more where more: "doc_rows db' d = doc_rows db d @ more" using assms(3) unfolding extends_log_def by blast
  note wf = store_okD(1) [OF assms(1)] store_okD(1) [OF assms(2)]
  have "m < row_seq r" if "r \<in> set more" for r
  proof -
    have "map row_seq more = drop (length (doc_rows db d)) (map row_seq (doc_rows db' d))" by (simp add: more)
    also have "\<dots> = [int (length (doc_rows db d)) + 1..int (length (doc_rows db' d))]"
      unfolding log_okD [OF wf(2)]
      using upto_drop_take [of "int (length (doc_rows db d))" "int (length (doc_rows db' d))" "int (length (doc_rows db' d))"]
      by (simp add: more)
    finally have "row_seq r \<in> set [int (length (doc_rows db d)) + 1..int (length (doc_rows db' d))]"
      using that by (metis image_eqI list.set_map)
    then show ?thesis using assms(4) by (simp add: getMaxSeq_length [OF wf(1)])
  qed
  then show "filter (\<lambda>r. row_seq r \<le> m) (doc_rows db' d) = filter (\<lambda>r. row_seq r \<le> m) (doc_rows db d)"
    by (fastforce simp: more filter_empty_conv)
qed

lemma append_rows:
  assumes "appendOperation db ps uuid now = Inr (db', env)"
  shows "(\<exists>more. doc_rows db' e = doc_rows db e @ more) \<and> db_snapshots db' = db_snapshots db"
  using assms by (auto simp: appendOperation_def Let_def next_doc_seq_def doc_rows_def split: if_splits)

lemma snapshot_rows:
  assumes "maybeTakeSnapshot L cfg hash w db d now uuid created = (w', db')"
  shows "db_operations db' = db_operations db \<and>
    set (db_snapshots db') \<subseteq> set (db_snapshots db) \<union> {s. srow_doc_id s = d \<and> srow_seq s = getMaxSeq db d}"
proof -
  have "db_operations db1 = db_operations db \<and>
      set (db_snapshots db1) \<subseteq> set (db_snapshots db) \<union> {s. srow_doc_id s = d \<and> srow_seq s = getMaxSeq db d}"
    if "saveSnapshot hash db d D (getMaxSeq db d) uuid created = Inr (db1, r)" for D db1 r
    using that by (auto simp: saveSnapshot_def Let_def split: if_splits option.splits)
  then show ?thesis
    using assms by (fastforce simp: maybeTakeSnapshot_def pruneOldSnapshots_def Let_def split: prod.splits if_splits sum.splits)
qed

section \<open>A restored version\<close>

lemma restore_history:
  assumes "docs_ok db" "d = rp_docId ps" "document_exists db d" "user_exists db (rp_userId ps)"
    and "restoreToRevision hash commits db ps opId nonce snapId now = (db', res)"
  shows "extends_log db db'"
    and "commits \<Longrightarrow> \<exists>env. res = Inr (env, toText (fst (reconstructAtSeq db d (rp_targetSeq ps))), getMaxSeq db d + 1) \<and>
      env_seq env = getMaxSeq db d + 1 \<and> map rowToEnvelope (doc_rows db' d) = map rowToEnvelope (doc_rows db d) @ [env]"
    and "set (doc_snapshots db e) \<subseteq> set (doc_snapshots db' e)"
proof -
  have ok: "store_ok db" by (rule docs_okD [OF assms(1)])
  have snaps: "\<forall>s \<in> set (doc_snapshots db d). srow_seq s \<le> getMaxSeq db d"
    using store_okD(2) [OF ok] by blast
  obtain db1 row srow where r: "appendOperation db (restore_params ps nonce) opId now = Inr (db1, rowToEnvelope row)"
    "row_seq row = getMaxSeq db d + 1" "doc_rows db1 d = doc_rows db d @ [row]" "srow_doc_id srow = d"
    "srow_seq srow = getMaxSeq db d + 1"
    "restoreToRevision hash commits db ps opId nonce snapId now =
      (if commits then
         (db1\<lparr>db_snapshots := db_snapshots db @ [srow],
              db_audit := db_audit db1 @ [\<lparr>aud_doc_id = d, aud_user_id = rp_userId ps, aud_action = ''restore'',
                aud_targetSeq = rp_targetSeq ps, aud_newSeq = getMaxSeq db d + 1\<rparr>]\<rparr>,
          Inr (rowToEnvelope row, toText (fst (reconstructAtSeq db d (rp_targetSeq ps))), getMaxSeq db d + 1))
       else (db\<lparr>db_snapshots := db_snapshots db @ [srow]\<rparr>, Inl CommitFailed))"
    using restore_steps [OF store_okD(1) [OF ok] assms(2,3,4) snaps refl,
      where hash = hash and commits = commits and opId = opId and nonce = nonce and snapId = snapId and now = now] by auto
  have "\<exists>more. doc_rows db1 e = doc_rows db e @ more" for e
    using append_rows [OF r(1)] by blast
  then show "extends_log db db'"
    using r(4-6) assms(5) by (auto simp: extends_log_def doc_snapshots_def doc_rows_def split: if_splits)
  show "set (doc_snapshots db e) \<subseteq> set (doc_snapshots db' e)"
    using r(6) assms(5) by (auto simp: doc_snapshots_def split: if_splits)
  show "\<exists>env. res = Inr (env, toText (fst (reconstructAtSeq db d (rp_targetSeq ps))), getMaxSeq db d + 1) \<and>
      env_seq env = getMaxSeq db d + 1 \<and> map rowToEnvelope (doc_rows db' d) = map rowToEnvelope (doc_rows db d) @ [env]" if commits
    using r(2,3,6) assms(5) that by (intro exI [of _ "rowToEnvelope row"]) (auto simp: doc_rows_def)
qed

text \<open>C11: Restoring a revision brings its version back and loses nothing: when the transaction
  commits, the restore is one more event of the document (the next seq), the text answered, the
  document a load returns and the one reconstructed at the new seq are the version
  reconstructed at the target, every earlier seq is reconstructed as before, and other documents are
  untouched.\<close>

theorem restore_appends_version:
  assumes "docs_ok db" "d = rp_docId ps" "document_exists db d" "user_exists db (rp_userId ps)" "n = getMaxSeq db d"
    and "old = fst (reconstructAtSeq db d (rp_targetSeq ps))"
    and "restoreToRevision sha256 True db ps opId nonce snapId now = (db', res)"
  shows "docs_ok db' \<and>
    (\<exists>env. res = Inr (env, toText old, n + 1) \<and> env_seq env = n + 1 \<and>
      map rowToEnvelope (doc_rows db' d) = map rowToEnvelope (doc_rows db d) @ [env]) \<and>
    cd_doc (loadDocumentFromDB db' d t) = old \<and> fst (reconstructAtSeq db' d (n + 1)) = old \<and>
    (\<forall>m \<le> n. reconstructAtSeq db' d m = reconstructAtSeq db d m) \<and>
    (\<forall>e. e \<noteq> d \<and> pg.pending db e \<le> 10000 \<longrightarrow> cd_doc (loadDocumentFromDB db' e t) = cd_doc (loadDocumentFromDB db e t))"
proof -
  note k = restore_keeps [OF assms(1-4,7)]
  have ok: "store_ok db" "store_ok db'" using assms(1) k docs_okD(1) by blast+
  note h = restore_history [OF assms(1-4,7)]
  have "reconstructAtSeq db' d m = reconstructAtSeq db d m" if "m \<le> n" for m
    using that by (intro extends_reconstruct [OF ok h(1)]) (use h(3) [of d] in \<open>auto simp: assms(5) dest!: newest_Some\<close>)
  moreover have "fst (reconstructAtSeq db' d (n + 1)) = old"
    using reconstruct_top [OF ok(2), of d] k by (simp add: assms(5,6))
  ultimately show ?thesis
    using k h(2) [OF TrueI] ok by (auto simp: load_doc assms(5,6))
qed

section \<open>A worker on its own\<close>

text \<open>The steps of a worker that has the database to itself and whose calls run one after the other, as long
  as none throws after it has begun to write: answer an admissible message, with an acceptance or
  a refusal, serve a document, restore a revision, lose cache entries.\<close>

inductive server_step ::
  "('c, 'r) Deps \<Rightarrow> ('c \<Rightarrow> string \<Rightarrow> entry_ref option) \<Rightarrow> ('c, 'r) Server \<Rightarrow> ('c, 'r) Server \<Rightarrow> bool"
  for D view where
  operation: "admissible (sv_db sv) session msg \<Longrightarrow>
    handleOperation D call sv session msg = (sv', Returned res) \<Longrightarrow> server_step D view sv sv'"
| serve: "getOrLoadDocument (dp_lru D) (sv_worker sv) (sv_db sv) d now = (w, p) \<Longrightarrow>
    server_step D view sv (sv\<lparr>sv_worker := w\<rparr>)"
| restoring: "document_exists (sv_db sv) d \<Longrightarrow> user_exists (sv_db sv) u \<Longrightarrow> ca_commits call \<Longrightarrow>
    restoreRoute D call sv role u d targetSeq sess nonce = (sv', resp) \<Longrightarrow> server_step D view sv sv'"
| evicting: "view c \<subseteq>\<^sub>m view (w_cache (sv_worker sv)) \<Longrightarrow>
    server_step D view sv (sv\<lparr>sv_worker := (sv_worker sv)\<lparr>w_cache := c\<rparr>\<rparr>)"

inductive server_reach ::
  "('c, 'r) Deps \<Rightarrow> ('c \<Rightarrow> string \<Rightarrow> entry_ref option) \<Rightarrow> ('c, 'r) Server \<Rightarrow> ('c, 'r) Server \<Rightarrow> bool"
  for D view s0 where
  start: "server_reach D view s0 s0"
| step: "server_reach D view s0 s \<Longrightarrow> server_step D view s s' \<Longrightarrow> server_reach D view s0 s'"

definition server_inv ::
  "int \<Rightarrow> ('c \<Rightarrow> string \<Rightarrow> entry_ref option) \<Rightarrow> ('c, 'r) Server \<Rightarrow> bool" where
  "server_inv threshold view sv \<longleftrightarrow> server_ok view sv \<and> (\<forall>d. pg.pending (sv_db sv) d < max 1 threshold)"

lemma handle_cases:
  assumes "handleOperation D call sv session msg = (sv', out)"
  shows "\<exists>r. sv' = sv\<lparr>sv_redis := r\<rparr> \<or> process D call (sv\<lparr>sv_redis := r\<rparr>) session msg = (sv', out)"
  using assms by (auto simp: handleOperation_def Let_def split: prod.splits if_splits)

lemma process_returned:
  assumes "process D call sv session msg = (sv', Returned res)"
  shows "ca_pgUp call" "ca_publishOk call"
  using assms by (auto simp: process_def Let_def split: if_splits prod.splits sum.splits)

lemma process_extends:
  assumes "store_ok (sv_db sv)" "valid_params (sv_db sv) (append_params session msg)"
    and "process D call sv session msg = (sv', Returned res)"
  shows "extends_log (sv_db sv) (sv_db sv')"
proof -
  obtain db1 env w w' where a: "appendOperation (sv_db sv) (append_params session msg) (ca_opId call) (ca_created call) = Inr (db1, env)"
    "maybeTakeSnapshot (dp_lru D) (dp_compactor D) (dp_sha256 D) w db1 (msg_docId msg) (ca_now call) (ca_snapId call) (ca_created call) =
      (w', sv_db sv')"
    using assms(3) by (auto simp: process_def Let_def split: if_splits prod.splits sum.splits)
  obtain db2 row where b: "appendOperation (sv_db sv) (append_params session msg) (ca_opId call) (ca_created call) = Inr (db2, rowToEnvelope row)"
    "row_appended (sv_db sv) (msg_docId msg) (msg_op msg) db2"
    using append_is_append [OF assms(1,2)] by (fastforce simp: append_params_def)
  then have top: "getMaxSeq db1 (msg_docId msg) = getMaxSeq (sv_db sv) (msg_docId msg) + 1"
    using a(1) pg.top_append [OF assms(1) b(2)] by simp
  note r = append_rows [OF a(1)] and t = snapshot_rows [OF a(2)]
  show ?thesis
    unfolding extends_log_def
  proof (intro allI conjI ballI)
    fix d
    show "\<exists>more. doc_rows (sv_db sv') d = doc_rows (sv_db sv) d @ more" using r t by (simp add: doc_rows_def)
    fix s assume "s \<in> set (doc_snapshots (sv_db sv') d)"
    then show "s \<in> set (doc_snapshots (sv_db sv) d) \<or> getMaxSeq (sv_db sv) d < srow_seq s"
      using r t top by (auto simp: doc_snapshots_def)
  qed
qed

lemma operation_inv:
  assumes "lru_ok (dp_lru D) view" "server_inv (snapshotOpsThreshold (dp_compactor D)) view sv"
    and "snapshotOpsThreshold (dp_compactor D) \<le> 10000" "admissible (sv_db sv) session msg"
    and "handleOperation D call sv session msg = (sv', Returned res)"
  shows "server_inv (snapshotOpsThreshold (dp_compactor D)) view sv' \<and> extends_log (sv_db sv) (sv_db sv')"
proof -
  obtain r where "sv' = sv\<lparr>sv_redis := r\<rparr> \<or> process D call (sv\<lparr>sv_redis := r\<rparr>) session msg = (sv', Returned res)"
    using handle_cases [OF assms(5)] by blast
  then show ?thesis
  proof
    assume "sv' = sv\<lparr>sv_redis := r\<rparr>"
    then show ?thesis using assms(2) by (simp add: server_inv_def server_ok_def extends_refl)
  next
    assume p: "process D call (sv\<lparr>sv_redis := r\<rparr>) session msg = (sv', Returned res)"
    let ?sv = "sv\<lparr>sv_redis := r\<rparr>"
    have bound: "pg.pending (sv_db sv) e < max 1 (snapshotOpsThreshold (dp_compactor D))" for e
      using assms(2) by (simp add: server_inv_def)
    have pre: "server_ok view ?sv" "admissible (sv_db ?sv) session msg" "pg.pending (sv_db ?sv) (msg_docId msg) < int defaultLoadLimit"
      using assms(2-4) less_le_trans [OF bound [of "msg_docId msg"], of 10000]
      by (simp_all add: server_inv_def server_ok_def defaultLoadLimit_def)
    note up = process_returned [OF p]
    from process_ok [OF assms(1) pre up(1,2)] p obtain w db env where
      sv': "sv' = ?sv\<lparr>sv_worker := w, sv_db := db, sv_published := sv_published ?sv @ [env]\<rparr>"
      and ok: "docs_ok db" "coherent view w db"
      and pr: "processed (snapshotOpsThreshold (dp_compactor D)) (sv_db sv) msg db env"
      by auto
    have "pg.pending db e < max 1 (snapshotOpsThreshold (dp_compactor D))" for e
      using processedD(6) [OF pr, of e] processedD(7) [OF pr] bound [of e] by (cases "e = msg_docId msg") auto
    then show ?thesis
      using ok process_extends [OF _ admissible_valid [OF pre(2)] p] assms(2) by (simp add: sv' server_inv_def server_ok_def docs_okD(1))
  qed
qed

lemma restore_inv:
  assumes "lru_ok (dp_lru D) view" "server_inv threshold view sv"
    and "document_exists (sv_db sv) d" "user_exists (sv_db sv) u" "ca_commits call"
    and "restoreRoute D call sv role u d targetSeq sess nonce = (sv', resp)"
  shows "server_inv threshold view sv' \<and> extends_log (sv_db sv) (sv_db sv')"
proof -
  let ?ps = "\<lparr>rp_docId = d, rp_targetSeq = targetSeq, rp_userId = u, rp_sessionId = sess\<rparr>"
  obtain db res where r: "restoreToRevision (dp_sha256 D) True (sv_db sv) ?ps (ca_opId call) nonce (ca_snapId call)
      (ca_created call) = (db, res)" by (rule prod.exhaust)
  have docs: "docs_ok (sv_db sv)" and coh: "coherent view (sv_worker sv) (sv_db sv)"
    using assms(2) by (simp_all add: server_inv_def server_ok_def)
  note k = restore_keeps [OF docs _ _ _ r, of d, simplified, OF assms(3,4)]
  have "coherent_but {d} view (sv_worker sv) db"
    by (rule coherent_store [OF coherent_weaken [OF coh]]) (use k in auto)
  note inv = invalidate_coherent [OF assms(1) this]
  have "pg.pending db e < max 1 threshold" for e
    using k assms(2) by (cases "e = d") (auto simp: server_inv_def)
  moreover have "sv' = sv \<or> sv_db sv' = db \<and> sv_worker sv' = invalidateDocument (dp_lru D) (sv_worker sv) d"
    using assms(5,6) k r by (auto simp: restoreRoute_def Let_def split: option.splits DocumentPermission.splits if_splits)
  moreover have "extends_log (sv_db sv) db"
    using restore_history(1) [OF docs refl _ _ r] assms(3,4) by simp
  ultimately show ?thesis
    using inv k assms(2) by (auto simp: server_inv_def server_ok_def extends_refl)
qed

lemma step_inv:
  assumes "server_step D view sv sv'" "lru_ok (dp_lru D) view"
    and "server_inv (snapshotOpsThreshold (dp_compactor D)) view sv" "snapshotOpsThreshold (dp_compactor D) \<le> 10000"
  shows "server_inv (snapshotOpsThreshold (dp_compactor D)) view sv' \<and> extends_log (sv_db sv) (sv_db sv')"
  using assms(1)
proof (cases rule: server_step.cases)
  case (operation session msg call res)
  then show ?thesis using operation_inv [OF assms(2,3,4)] by blast
next
  case (serve d now w p)
  have bound: "pg.pending (sv_db sv) d \<le> int defaultLoadLimit"
    using assms(3,4) by (auto simp: server_inv_def defaultLoadLimit_def dest!: spec [of _ d])
  have ok: "store_ok (sv_db sv)" "coherent view (sv_worker sv) (sv_db sv)"
    using assms(3) by (simp_all add: server_inv_def server_ok_def docs_okD(1))
  show ?thesis
    using get_coherent(1) [OF assms(2) ok bound serve(2)] assms(3) by (simp add: serve(1) server_inv_def server_ok_def extends_refl)
next
  case (restoring d u call role targetSeq sess nonce resp)
  then show ?thesis using restore_inv [OF assms(2,3)] by blast
next
  case (evicting c)
  then show ?thesis
    using assms(3) by (auto simp: server_inv_def server_ok_def extends_refl intro: coherent_evict)
qed

lemma reach_inv:
  assumes "server_reach D view s0 sv" "lru_ok (dp_lru D) view"
    and "server_inv (snapshotOpsThreshold (dp_compactor D)) view s0" "snapshotOpsThreshold (dp_compactor D) \<le> 10000"
  shows "server_inv (snapshotOpsThreshold (dp_compactor D)) view sv \<and> extends_log (sv_db s0) (sv_db sv)"
  using assms(1)
proof (induction rule: server_reach.induct)
  case start
  then show ?case using assms(3) by (simp add: extends_refl)
next
  case (step s s')
  have wf: "wf_db (sv_db s0)" "wf_db (sv_db s)"
    using step.IH assms(3) by (simp_all add: server_inv_def server_ok_def docs_okD(1) store_okD(1))
  show ?case
    using step_inv [OF step.hyps(2) assms(2) _ assms(4)] step.IH extends_trans [OF wf] by blast
qed

text \<open>A worker starts with an empty cache.\<close>

definition fresh_worker :: "('c, 'r) Deps \<Rightarrow> ('c \<Rightarrow> string \<Rightarrow> entry_ref option) \<Rightarrow> ('c, 'r) Server \<Rightarrow> bool" where
  "fresh_worker D view s0 \<longleftrightarrow> docs_ok (sv_db s0) \<and>
     (\<forall>d. pg.pending (sv_db s0) d < max 1 (snapshotOpsThreshold (dp_compactor D))) \<and> (\<forall>d. view (w_cache (sv_worker s0)) d = None)"

lemma fresh_inv: "fresh_worker D view s0 \<Longrightarrow> server_inv (snapshotOpsThreshold (dp_compactor D)) view s0"
  by (simp add: fresh_worker_def server_inv_def server_ok_def coherent_but_def)

lemma inv_load:
  assumes "server_inv (snapshotOpsThreshold (dp_compactor D)) view sv" "snapshotOpsThreshold (dp_compactor D) \<le> 10000"
  shows "loadDocumentFromDB (sv_db sv) e t = \<lparr>cd_doc = pg.replica (sv_db sv) e, cd_lastSeq = getMaxSeq (sv_db sv) e,
    cd_opsSinceSnapshot = pg.pending (sv_db sv) e, cd_loadedAt = t\<rparr>"
proof -
  have "docs_ok (sv_db sv)" "pg.pending (sv_db sv) e < max 1 (snapshotOpsThreshold (dp_compactor D))"
    using assms(1) by (simp_all add: server_inv_def server_ok_def)
  then show ?thesis using assms(2) by (intro load_stored docs_okD(1)) (auto simp: defaultLoadLimit_def)
qed

text \<open>C6: A worker on its own serves the stored documents. In a run of one worker whose calls follow one another
  and end without an exception - accepted and refused messages, loads, restores, entries its cache
  drops - every document in its cache is the one a load from the database returns - nodes,
  order, tombstones - with the seq of the last operation, and no load is cut off by its
  limit of 10000 operations. Exceptions, overlapping calls and a second worker are not part of such a
  run; theorems of their own say what they do to the cache.\<close>

theorem single_worker_coherent:
  assumes "server_reach D view s0 sv" "lru_ok (dp_lru D) view" "snapshotOpsThreshold (dp_compactor D) \<le> 10000"
    and "fresh_worker D view s0"
  shows "(\<forall>d p. view (w_cache (sv_worker sv)) d = Some p \<longrightarrow>
      cd_doc (w_heap (sv_worker sv) p) = cd_doc (loadDocumentFromDB (sv_db sv) d t) \<and>
      cd_lastSeq (w_heap (sv_worker sv) p) = getMaxSeq (sv_db sv) d) \<and>
    cd_lastSeq (loadDocumentFromDB (sv_db sv) d t) = getMaxSeq (sv_db sv) d \<and>
    wf_doc (cd_doc (loadDocumentFromDB (sv_db sv) d t))"
proof -
  have inv: "server_inv (snapshotOpsThreshold (dp_compactor D)) view sv"
    using reach_inv [OF assms(1,2) fresh_inv [OF assms(4)] assms(3)] by blast
  then have "docs_ok (sv_db sv)" "coherent view (sv_worker sv) (sv_db sv)" by (simp_all add: server_inv_def server_ok_def)
  then show ?thesis
    using docs_okD(3) by (auto simp: inv_load [OF inv assms(3)] coherent_but_def coherent_entry_def)
qed

section \<open>The history of a run\<close>

text \<open>C16: The history shows what was served: in a run as above, the document reconstructed at a seq, at any later time, is
  the document a load gave when that seq was the last one - whatever was typed, restored and compacted since - as
  long as the snapshot that load started from, if any, has not been pruned.\<close>

theorem history_shows_what_was_served:
  assumes "server_reach D view s0 s1" "server_reach D view s1 s2" "lru_ok (dp_lru D) view"
    and "snapshotOpsThreshold (dp_compactor D) \<le> 10000" "fresh_worker D view s0"
    and "\<forall>s. newest (doc_snapshots (sv_db s1) d) = Some s \<longrightarrow> s \<in> set (doc_snapshots (sv_db s2) d)"
  shows "fst (reconstructAtSeq (sv_db s2) d (getMaxSeq (sv_db s1) d)) = cd_doc (loadDocumentFromDB (sv_db s1) d t)"
proof -
  let ?m = "getMaxSeq (sv_db s1) d"
  have inv: "server_inv (snapshotOpsThreshold (dp_compactor D)) view s1"
    using reach_inv [OF assms(1,3) fresh_inv [OF assms(5)] assms(4)] by blast
  have ext: "server_inv (snapshotOpsThreshold (dp_compactor D)) view s2" "extends_log (sv_db s1) (sv_db s2)"
    using reach_inv [OF assms(2,3) inv assms(4)] by blast+
  have ok: "store_ok (sv_db s1)" "store_ok (sv_db s2)"
    using inv ext(1) by (simp_all add: server_inv_def server_ok_def docs_okD(1))
  have "filter (\<lambda>r. srow_seq r \<le> ?m) (doc_snapshots (sv_db s1) d) = doc_snapshots (sv_db s1) d"
    using store_okD(2) [OF ok(1)] by (intro filter_True) blast
  then have "reconstructAtSeq (sv_db s2) d ?m = reconstructAtSeq (sv_db s1) d ?m"
    using assms(6) by (intro extends_reconstruct [OF ok ext(2) order_refl]) simp
  then show ?thesis by (simp add: reconstruct_top [OF ok(1)] inv_load [OF inv assms(4)])
qed

text \<open>A pruned snapshot is missed: before the oldest snapshot that is left, a reconstruction replays the whole log, in which a
  \<open>ROLLBACK\<close> does nothing. The restores of that time are forgotten.\<close>

theorem pruned_history_forgets_restores:
  assumes "wf_db db" "\<forall>s \<in> set (doc_snapshots db d). t < srow_seq s" "0 \<le> t" "t \<le> getMaxSeq db d"
  shows "fst (reconstructAtSeq db d t) =
    applyAll newRGADocument (filter (\<lambda>x. op_type x \<noteq> ''ROLLBACK'') (map row_op_data (take (nat t) (doc_rows db d))))"
proof -
  have none: "filter (\<lambda>r. srow_seq r \<le> t) (doc_snapshots db d) = []"
    using assms(2) by (auto simp: filter_empty_conv)
  have rb: "applyAll D xs = applyAll D (filter (\<lambda>x. op_type x \<noteq> ''ROLLBACK'') xs)" for D xs
  proof (induction xs arbitrary: D)
    case (Cons x xs)
    have "applyOp D x = D" if "op_type x = ''ROLLBACK''"
      using that by (cases x) (simp_all add: applyOp_def)
    then show ?case using Cons by auto
  qed simp
  have "loadOperationsInRange db d 1 t = map rowToEnvelope (take (nat t) (doc_rows db d))"
    using rows_between(1) [OF assms(1) order_refl assms(3,4)] by simp
  then show ?thesis
    using assms(3) rb [of newRGADocument "map row_op_data (take (nat t) (doc_rows db d))"]
    by (cases "1 \<le> t") (simp_all add: reconstructAtSeq_def loadSnapshotBefore_def none Let_def foldl_env)
qed

section \<open>A concrete server\<close>

definition example_pipeline :: "((string \<Rightarrow> int) \<times> string set) pipeline" where
  "example_pipeline r k t k' t' = (case map_pipeline (fst r) k t k' t' of (c, x) \<Rightarrow> ((c, snd r), x))"

definition example_setnx :: "((string \<Rightarrow> int) \<times> string set) setnx" where
  "example_setnx r k t = (case always_setnx (snd r) k t of (s, x) \<Rightarrow> ((fst r, s), x))"

definition example_deps :: "(string \<Rightarrow> entry_ref option, (string \<Rightarrow> int) \<times> string set) Deps" where
  "example_deps = \<lparr>dp_lru = map_lru, dp_pipe = example_pipeline, dp_setnx = example_setnx,
     dp_rate = \<lparr>rateLimitOpsPerSecond = 100, rateLimitOpsPerMinute = 1000\<rparr>, dp_replayWindow = 300,
     dp_compactor = \<lparr>snapshotOpsThreshold = 500, snapshotIntervalMs = 600000\<rparr>, dp_sha256 = (\<lambda>_. ''h'')\<rparr>"

definition empty_worker :: "(string \<Rightarrow> entry_ref option) Worker" where
  "empty_worker = \<lparr>w_cache = (\<lambda>_. None), w_heap = (\<lambda>_. \<lparr>cd_doc = newRGADocument, cd_lastSeq = 0,
     cd_opsSinceSnapshot = 0, cd_loadedAt = 0\<rparr>), w_next = 0, w_lastSnapshotTime = Map.empty\<rparr>"

definition example_server :: "(string \<Rightarrow> entry_ref option, (string \<Rightarrow> int) \<times> string set) Server" where
  "example_server = \<lparr>sv_worker = empty_worker, sv_db = example_db, sv_redis = (no_counters, {}), sv_published = []\<rparr>"

definition example_session :: "string \<Rightarrow> ServerSession" where
  "example_session site = \<lparr>ss_id = ''s'', ss_userId = ''u'', ss_docId = Some ''d'', ss_siteId = site,
     ss_displayName = ''U'', ss_color = ''#000000'', ss_socket = 0, ss_connectedAt = 0, ss_sendQueue = 0,
     ss_lastSeq = 0, ss_lastActivity = 0, ss_isAlive = True, ss_role = None, ss_messageQueue = [], ss_isProcessing = False\<rparr>"

definition example_call :: "string \<Rightarrow> Call" where
  "example_call i = \<lparr>ca_pgUp = True, ca_publishOk = True, ca_commits = True, ca_now = 700000, ca_created = ''t'',
     ca_opId = i, ca_snapId = i\<rparr>"

definition example_insert :: "string \<Rightarrow> code_unit \<Rightarrow> string \<Rightarrow> OperationMessage" where
  "example_insert site c n = \<lparr>msg_docId = ''d'', msg_clientSeq = 1, msg_op = INSERT (UID 1 site) None (JStr [c]),
     msg_vectorClock = [], msg_nonce = n\<rparr>"

lemma example_store: "store_ok example_db" "docs_ok example_db" "pg.pending example_db d = 0"
  by (simp_all add: store_ok_def docs_ok_def example_db_ok pg.pending_def log_base_def)
     (simp_all add: example_db_def getMaxSeq_def doc_rows_def doc_snapshots_def max_seq_def parse_digits_def)

lemma example_server_ok: "server_ok (\<lambda>c. c) example_server"
  by (simp add: server_ok_def example_server_def example_store empty_worker_def coherent_but_def)

lemma example_admissible: "admissible example_db (example_session a) (example_insert a 97 n)" if "a = ''a''"
  by (simp add: admissible_def example_insert_def example_session_def good_op_def plain_op_def not_on_root_def
      ROOT_UID_def that is_high_surrogate_def document_exists_def user_exists_def example_db_def)

theorem accepted_operation_durable_witness:
  "\<exists>sv' env. handleOperation example_deps (example_call ''i'') example_server (example_session ''a'') (example_insert ''a'' 97 ''n'') =
      (sv', Returned \<lparr>or_success = True, or_envelope = Some env, or_error = None\<rparr>) \<and> env_seq env = 1 \<and>
    toText (cd_doc (loadDocumentFromDB (sv_db sv') ''d'' 0)) = [97]"
proof -
  let ?m = "example_insert ''a'' 97 ''n''" and ?s = "example_session ''a''" and ?c = "example_call ''i''"
  obtain r1 rate where r: "checkRateLimit (dp_pipe example_deps) (dp_rate example_deps) (sv_redis example_server)
      (ss_userId ?s) (ca_now ?c) = (r1, rate)" by (rule prod.exhaust)
  then have ok: "rl_allowed rate" "snd r1 = {}"
    by (auto simp: checkRateLimit_def example_deps_def example_pipeline_def map_pipeline_def example_server_def no_counters_def Let_def)
  obtain r2 where i: "isReplay (dp_setnx example_deps) (dp_replayWindow example_deps) r1 (Some (sv_db example_server))
      (msg_docId ?m) (msg_nonce ?m) = (r2, False)"
    using ok(2) by (simp add: isReplay_def example_deps_def example_setnx_def always_setnx_def)
  have pre: "lru_ok (dp_lru example_deps) (\<lambda>c. c)" "admissible (sv_db example_server) ?s ?m"
    "pg.pending (sv_db example_server) (msg_docId ?m) < 10000" "ca_pgUp ?c" "ca_publishOk ?c" "\<not> site_mismatch ?s (msg_op ?m)"
    using example_admissible
    by (simp_all add: example_deps_def map_lru_ok example_server_def example_store example_call_def site_mismatch_def
        example_session_def example_insert_def)
  have "toText (applyOp (cd_doc (loadDocumentFromDB example_db ''d'' 0)) (INSERT (UID 1 ''a'') None (JStr [97]))) = [97]"
    "getMaxSeq example_db ''d'' = 0"
    by code_simp+
  with accepted_operation_durable [OF pre(1) example_server_ok pre(2-5) r ok(1) i pre(6), of 0]
  show ?thesis by (auto simp: example_server_def example_insert_def)
qed

text \<open>A store with two letters typed.\<close>

definition typed_row :: "int \<Rightarrow> RGAOperation \<Rightarrow> OperationRow" where
  "typed_row n x = \<lparr>row_id = show_int n, row_doc_id = ''d'', row_session_id = ''s'', row_user_id = ''u'', row_seq = n,
     row_client_seq = n, row_op_type = op_type x, row_op_data = x, row_vector_clock = [], row_nonce = show_int n, row_created_at = ''t''\<rparr>"

definition typed_db :: Database where
  "typed_db = example_db\<lparr>db_operations := [typed_row 1 (INSERT uA None (JStr [97])), typed_row 2 (INSERT uB None (JStr [98]))],
     db_sequences := [''d'' \<mapsto> 2]\<rparr>"

lemma typed_rows: "doc_rows typed_db d = (if d = ''d'' then [typed_row 1 (INSERT uA None (JStr [97])), typed_row 2 (INSERT uB None (JStr [98]))] else [])"
  "doc_snapshots typed_db d = []"
  by (simp_all add: typed_db_def typed_row_def doc_rows_def doc_snapshots_def example_db_def)

lemma typed_store: "docs_ok typed_db" "getMaxSeq typed_db ''d'' = 2" "pg.pending typed_db d \<le> 2"
proof -
  have wf: "wf_db typed_db"
    by (simp add: wf_db_def log_ok_def typed_rows upto.simps)
       (simp add: typed_row_def typed_db_def example_db_def user_exists_def)
  show "getMaxSeq typed_db ''d'' = 2" by (simp add: getMaxSeq_length [OF wf] typed_rows)
  show "docs_ok typed_db"
    unfolding docs_ok_def store_ok_def using wf
    by (simp add: typed_db_def typed_row_def example_db_def not_on_root_def uA_def uB_def ROOT_UID_def)
  show "pg.pending typed_db d \<le> 2"
    by (simp add: pg.pending_def log_base_def typed_rows getMaxSeq_length [OF wf])
qed

definition typed_server :: "(string \<Rightarrow> entry_ref option, (string \<Rightarrow> int) \<times> string set) Server" where
  "typed_server = example_server\<lparr>sv_db := typed_db\<rparr>"

lemma typed_fresh: "fresh_worker example_deps (\<lambda>c. c) typed_server"
proof -
  have "pg.pending typed_db d < 500" for d using typed_store(3) [of d] by simp
  then show ?thesis
    by (simp add: fresh_worker_def example_deps_def typed_server_def typed_store example_server_def empty_worker_def)
qed

text \<open>A third letter.\<close>

definition third_typed :: "(string \<Rightarrow> entry_ref option, (string \<Rightarrow> int) \<times> string set) Server" where
  "third_typed = fst (handleOperation example_deps (example_call ''i'') typed_server (example_session ''c'') (example_insert ''c'' 99 ''n''))"

lemma third_reach: "server_reach example_deps (\<lambda>c. c) typed_server third_typed"
proof -
  let ?m = "example_insert ''c'' 99 ''n''" and ?s = "example_session ''c''" and ?c = "example_call ''i''"
  obtain r1 rate where r: "checkRateLimit (dp_pipe example_deps) (dp_rate example_deps) (sv_redis typed_server)
      (ss_userId ?s) (ca_now ?c) = (r1, rate)" by (rule prod.exhaust)
  then have ok: "rl_allowed rate" "snd r1 = {}"
    by (auto simp: checkRateLimit_def example_deps_def example_pipeline_def map_pipeline_def typed_server_def example_server_def
        no_counters_def Let_def)
  obtain r2 where i: "isReplay (dp_setnx example_deps) (dp_replayWindow example_deps) r1 (if ca_pgUp ?c then Some (sv_db typed_server) else None)
      (msg_docId ?m) (msg_nonce ?m) = (r2, False)"
    using ok(2) by (simp add: isReplay_def example_deps_def example_setnx_def always_setnx_def)
  let ?sv = "typed_server\<lparr>sv_redis := r2\<rparr>"
  have adm: "admissible typed_db ?s ?m"
    by (simp add: admissible_def example_insert_def example_session_def good_op_def plain_op_def not_on_root_def
        ROOT_UID_def is_high_surrogate_def document_exists_def user_exists_def typed_db_def example_db_def)
  have "site_mismatch ?s (msg_op ?m) = False" by (simp add: site_mismatch_def example_session_def example_insert_def)
  then have run: "handleOperation example_deps ?c typed_server ?s ?m = process example_deps ?c ?sv ?s ?m"
    by (intro handle_passes [OF r ok(1) i]) simp
  have inv: "server_inv 500 (\<lambda>c. c) typed_server" using fresh_inv [OF typed_fresh] by (simp add: example_deps_def)
  have pre: "lru_ok (dp_lru example_deps) (\<lambda>c. c)" "server_ok (\<lambda>c. c) ?sv" "admissible (sv_db ?sv) ?s ?m"
    "pg.pending (sv_db ?sv) (msg_docId ?m) < int defaultLoadLimit" "ca_pgUp ?c" "ca_publishOk ?c"
    using adm inv typed_store(3) [of "''d''"]
    by (simp_all add: example_deps_def map_lru_ok server_inv_def server_ok_def typed_server_def defaultLoadLimit_def example_insert_def
        example_call_def)
  obtain sv' out where "process example_deps ?c ?sv ?s ?m = (sv', Returned out)"
    using process_ok [OF pre] by blast
  then have "handleOperation example_deps ?c typed_server ?s ?m = (third_typed, Returned out)"
    by (simp add: third_typed_def run)
  moreover have "admissible (sv_db typed_server) ?s ?m" using adm by (simp add: typed_server_def)
  ultimately show ?thesis by (intro server_reach.step [OF server_reach.start] server_step.operation)
qed

theorem single_worker_coherent_witness:
  "cd_lastSeq (loadDocumentFromDB (sv_db third_typed) ''d'' 0) = getMaxSeq (sv_db third_typed) ''d''"
  using single_worker_coherent [OF third_reach _ _ typed_fresh, of 0 "''d''"] by (simp add: example_deps_def map_lru_ok)

text \<open>When the third letter has been typed, the history still has the version before it.\<close>

theorem history_shows_what_was_served_witness:
  "toText (fst (reconstructAtSeq (sv_db third_typed) ''d'' 2)) = [98, 97]"
proof -
  have shown: "toText (cd_doc (loadDocumentFromDB typed_db ''d'' 0)) = [98, 97]" by code_simp
  have "sv_db typed_server = typed_db" by (simp add: typed_server_def)
  with history_shows_what_was_served [OF server_reach.start third_reach _ _ typed_fresh, of "''d''" 0] shown
  show ?thesis by (simp add: typed_rows typed_store example_deps_def map_lru_ok)
qed

text \<open>The second letter is restored away.\<close>

theorem restore_appends_version_witness:
  "\<exists>db env. restoreToRevision (\<lambda>_. ''h'') True typed_db \<lparr>rp_docId = ''d'', rp_targetSeq = 1, rp_userId = ''u'',
      rp_sessionId = ''s''\<rparr> ''k'' ''o'' ''l'' ''t'' = (db, Inr (env, [97], 3)) \<and>
    toText (cd_doc (loadDocumentFromDB db ''d'' 0)) = [97] \<and> toText (fst (reconstructAtSeq db ''d'' 2)) = [98, 97]"
proof -
  let ?ps = "\<lparr>rp_docId = ''d'', rp_targetSeq = 1, rp_userId = ''u'', rp_sessionId = ''s''\<rparr>"
  obtain db res where r: "restoreToRevision (\<lambda>_. ''h'') True typed_db ?ps ''k'' ''o'' ''l'' ''t'' = (db, res)" by (rule prod.exhaust)
  have ex: "document_exists typed_db ''d''" "user_exists typed_db ''u''"
    by (simp_all add: typed_db_def example_db_def document_exists_def user_exists_def)
  have shown: "toText (fst (reconstructAtSeq typed_db ''d'' 1)) = [97]" "toText (fst (reconstructAtSeq typed_db ''d'' 2)) = [98, 97]"
    by code_simp+
  from restore_appends_version [OF typed_store(1) refl _ _ refl refl r, of 0] show ?thesis
    using r ex shown by (auto simp: typed_store)
qed

theorem refused_changes_nothing_witness:
  "sv_db (fst (handleOperation example_deps (example_call ''i'') example_server (example_session ''a'') (example_insert ''b'' 97 ''n''))) =
     example_db"
proof -
  obtain sv' res where h: "handleOperation example_deps (example_call ''i'') example_server (example_session ''a'')
      (example_insert ''b'' 97 ''n'') = (sv', Returned res)" "\<not> or_success res"
    by (simp add: handleOperation_def example_deps_def checkRateLimit_def example_pipeline_def map_pipeline_def isReplay_def
        example_setnx_def always_setnx_def site_mismatch_def example_insert_def example_session_def refuse_def Let_def
        example_server_def no_counters_def)
  from refused_changes_nothing [OF h] h show ?thesis by (simp add: example_server_def)
qed

section \<open>Failures\<close>

text \<open>A failed append leaves the cached document ahead of the store: when PostgreSQL is lost while the
  document is cached, the handler throws after it has applied the operation, so the worker
  serves - and will put into its next snapshot - an operation that was never stored, never
  published and never acknowledged.\<close>

theorem failed_append_stays_in_cache:
  assumes "process D call sv session msg = (sv', out)" "\<not> ca_pgUp call"
    and "lru_get (dp_lru D) (w_cache (sv_worker sv)) (msg_docId msg) = (c, Some p)"
  shows "out = Threw ConnectionLost \<and> sv_db sv' = sv_db sv \<and> sv_published sv' = sv_published sv \<and>
    w_cache (sv_worker sv') = c \<and>
    cd_doc (w_heap (sv_worker sv') p) = applyOp (cd_doc (w_heap (sv_worker sv) p)) (msg_op msg)"
  using assms by (auto simp: process_def load_throws_def getOrLoadDocument_def set_doc_def applyOp_def Let_def)

theorem failed_append_stays_in_cache_witness:
  "cd_doc (w_heap (sv_worker (fst (process example_deps (example_call ''i''\<lparr>ca_pgUp := False\<rparr>)
     (example_server\<lparr>sv_worker := empty_worker\<lparr>w_cache := [''d'' \<mapsto> 0]\<rparr>\<rparr>) (example_session ''a'') (example_insert ''a'' 97 ''n'')))) 0) =
   applyOp newRGADocument (INSERT (UID 1 ''a'') None (JStr [97]))"
  using failed_append_stays_in_cache [OF prod.collapse [symmetric], of "example_call ''i''\<lparr>ca_pgUp := False\<rparr>" example_deps
      "example_server\<lparr>sv_worker := empty_worker\<lparr>w_cache := [''d'' \<mapsto> 0]\<rparr>\<rparr>" "example_insert ''a'' 97 ''n''" "[''d'' \<mapsto> 0]" 0 "example_session ''a''"]
  by (simp add: example_call_def example_deps_def map_lru_def example_insert_def example_server_def empty_worker_def)

definition worker_A :: "(string \<Rightarrow> entry_ref option, (string \<Rightarrow> int) \<times> string set) Server" where
  "worker_A = fst (handleOperation example_deps (example_call ''i1'') example_server (example_session ''a'')
     (example_insert ''a'' 97 ''n1''))"

definition worker_B :: "(string \<Rightarrow> entry_ref option, (string \<Rightarrow> int) \<times> string set) Server" where
  "worker_B = (let cached = fst (getOrLoadDocument map_lru empty_worker example_db ''d'' 0)
     in fst (handleOperation example_deps (example_call ''i2'') (example_server\<lparr>sv_worker := cached, sv_db := sv_db worker_A\<rparr>)
       (example_session ''b'') (example_insert ''b'' 98 ''n2'')))"

lemma worker_A_text: "toText (cd_doc (loadDocumentFromDB (sv_db worker_A) ''d'' 0)) = [97]"
  by code_simp

lemma worker_B_log: "map (\<lambda>r. (row_seq r, op_type (row_op_data r), op_uid (row_op_data r))) (doc_rows (sv_db worker_B) ''d'') =
     [(1, ''INSERT'', UID 1 ''a''), (2, ''INSERT'', UID 1 ''b'')]"
  by code_simp

lemma worker_B_text: "toText (cd_doc (loadDocumentFromDB (sv_db worker_B) ''d'' 0)) = [98]"
  by code_simp

text \<open>Two workers lose operations. A worker applies to its cached document only the operations it
  handles itself; those of other workers are broadcast but not applied. Worker B has the empty
  document cached, worker A stores an insertion of \<open>a\<close>, then B stores an insertion of \<open>b\<close> and
  takes a snapshot at the newest seq: the log holds both operations, every later load shows
  only \<open>b\<close>.\<close>

theorem two_workers_lose_operation:
  "toText (cd_doc (loadDocumentFromDB (sv_db worker_A) ''d'' t)) = [97] \<and>
   map (\<lambda>r. (row_seq r, op_type (row_op_data r), op_uid (row_op_data r))) (doc_rows (sv_db worker_B) ''d'') =
     [(1, ''INSERT'', UID 1 ''a''), (2, ''INSERT'', UID 1 ''b'')] \<and>
   toText (cd_doc (loadDocumentFromDB (sv_db worker_B) ''d'' t)) = [98]"
proof -
  have t: "cd_doc (loadDocumentFromDB db d t) = cd_doc (loadDocumentFromDB db d 0)" for db d
    by (simp add: loadDocumentFromDB_def Let_def split: prod.split option.split)
  show ?thesis unfolding t by (simp only: worker_A_text worker_B_log worker_B_text simp_thms)
qed

end
