(* ===== verification/Redis_Pubsub.thy ===== *)
theory Redis_Pubsub
  imports Session_Manager
begin

text \<open>
  \<^verbatim>\<open>src/server/fanout/redis-pubsub.ts\<close>: the fan-out of one worker. Handlers are closures, compared
  by identity: they are the values of a type parameter, and a fresh closure is a value that was
  not used before. A \<open>Set\<close> of handlers is its list in insertion order. What Redis keeps for the
  worker's connection, the subscribed channels, is part of the state; a message is the value that
  \<open>JSON.stringify\<close> was given, since \<open>JSON.parse\<close> gives it back. The interface the WebSocket server
  relies on is the locale \<open>message_bus\<close>.
\<close>

section \<open>State\<close>

datatype bus_message =
    BusOp OperationEnvelope
  | BusPresence UserPresence
  | BusUserLeft string string string
  | BusNotification json
  | BusUnparsable

datatype ('o, 'p, 'l, 'n) delivery =
    ToOp 'o OperationEnvelope
  | ToPresence 'p UserPresence
  | ToUserLeft 'l string string string
  | ToNotification 'n json

record ('o, 'p, 'l, 'n) Pubsub =
  opHandlers :: "string \<rightharpoonup> 'o list"
  presenceHandlers :: "string \<rightharpoonup> 'p list"
  userLeftHandlers :: "'l list"
  userNotificationHandlers :: "string \<rightharpoonup> 'n list"
  bus_subscribed :: bool
  bus_channels :: "string set"

definition new_pubsub :: "('o, 'p, 'l, 'n) Pubsub" where
  "new_pubsub = \<lparr>opHandlers = Map.empty, presenceHandlers = Map.empty, userLeftHandlers = [],
     userNotificationHandlers = Map.empty, bus_subscribed = False, bus_channels = {}\<rparr>"

text \<open>\<open>map.get(k)?.forEach\<close>, \<open>if (!map.has(k)) map.set(k, new Set()); map.get(k).add(h)\<close> and
  \<open>map.get(k)?.delete(h)\<close>.\<close>

definition handlers_at :: "(string \<rightharpoonup> 'h list) \<Rightarrow> string \<Rightarrow> 'h list" where
  "handlers_at m k = (case m k of Some hs \<Rightarrow> hs | None \<Rightarrow> [])"

definition handlers_add :: "(string \<rightharpoonup> 'h list) \<Rightarrow> string \<Rightarrow> 'h \<Rightarrow> (string \<rightharpoonup> 'h list)" where
  "handlers_add m k h = m(k \<mapsto> set_add h (handlers_at m k))"

definition handlers_delete :: "(string \<rightharpoonup> 'h list) \<Rightarrow> string \<Rightarrow> 'h \<Rightarrow> (string \<rightharpoonup> 'h list)" where
  "handlers_delete m k h = (case m k of None \<Rightarrow> m | Some hs \<Rightarrow> m(k \<mapsto> removeAll h hs))"

section \<open>Publishing\<close>

definition userChannel :: "string \<Rightarrow> string" where
  "userChannel userId = ''user:'' @ userId @ '':notifications''"

definition publishOperation :: "OperationEnvelope \<Rightarrow> string \<times> bus_message" where
  "publishOperation envelope = (docChannel (env_docId envelope), BusOp envelope)"

definition publishPresence :: "string \<Rightarrow> UserPresence \<Rightarrow> string \<times> bus_message" where
  "publishPresence docId presence = (presenceChannel docId, BusPresence presence)"

definition publishUserLeft :: "string \<Rightarrow> string \<Rightarrow> string \<Rightarrow> string \<times> bus_message" where
  "publishUserLeft docId sessionId userId = (presenceChannel docId, BusUserLeft sessionId userId docId)"

definition publishUserNotification :: "string \<Rightarrow> json \<Rightarrow> string \<times> bus_message" where
  "publishUserNotification userId notification = (userChannel userId, BusNotification notification)"

section \<open>Subscribing\<close>

text \<open>\<open>accepted\<close> tells whether Redis accepted the subscription; the code logs a refusal and goes on.\<close>

definition subscribeToDocument ::
  "bool \<Rightarrow> ('o, 'p, 'l, 'n) Pubsub \<Rightarrow> string \<Rightarrow> 'o \<Rightarrow> 'p \<Rightarrow> ('o, 'p, 'l, 'n) Pubsub" where
  "subscribeToDocument accepted B docId onOp onPresence =
     B\<lparr>opHandlers := handlers_add (opHandlers B) docId onOp,
       presenceHandlers := handlers_add (presenceHandlers B) docId onPresence,
       bus_channels := (if accepted then bus_channels B \<union> {docChannel docId, presenceChannel docId} else bus_channels B),
       bus_subscribed := True\<rparr>"

definition unsubscribeFromDocument ::
  "('o, 'p, 'l, 'n) Pubsub \<Rightarrow> string \<Rightarrow> 'o \<Rightarrow> 'p \<Rightarrow> ('o, 'p, 'l, 'n) Pubsub" where
  "unsubscribeFromDocument B docId onOp onPresence =
     (let ops = handlers_delete (opHandlers B) docId onOp;
          pres = handlers_delete (presenceHandlers B) docId onPresence
      in if handlers_at ops docId = [] \<and> handlers_at pres docId = []
         then B\<lparr>opHandlers := ops(docId := None), presenceHandlers := pres(docId := None),
                bus_channels := bus_channels B - {docChannel docId, presenceChannel docId}\<rparr>
         else B\<lparr>opHandlers := ops, presenceHandlers := pres\<rparr>)"

definition onUserLeft :: "('o, 'p, 'l, 'n) Pubsub \<Rightarrow> 'l \<Rightarrow> ('o, 'p, 'l, 'n) Pubsub" where
  "onUserLeft B handler = B\<lparr>userLeftHandlers := set_add handler (userLeftHandlers B)\<rparr>"

definition offUserLeft :: "('o, 'p, 'l, 'n) Pubsub \<Rightarrow> 'l \<Rightarrow> ('o, 'p, 'l, 'n) Pubsub" where
  "offUserLeft B handler = B\<lparr>userLeftHandlers := removeAll handler (userLeftHandlers B)\<rparr>"

definition subscribeToUser ::
  "bool \<Rightarrow> ('o, 'p, 'l, 'n) Pubsub \<Rightarrow> string \<Rightarrow> 'n \<Rightarrow> ('o, 'p, 'l, 'n) Pubsub" where
  "subscribeToUser accepted B userId onNotification =
     B\<lparr>userNotificationHandlers := handlers_add (userNotificationHandlers B) userId onNotification,
       bus_channels := (if accepted then insert (userChannel userId) (bus_channels B) else bus_channels B),
       bus_subscribed := True\<rparr>"

definition unsubscribeFromUser ::
  "('o, 'p, 'l, 'n) Pubsub \<Rightarrow> string \<Rightarrow> 'n \<Rightarrow> ('o, 'p, 'l, 'n) Pubsub" where
  "unsubscribeFromUser B userId onNotification =
     (let hs = handlers_delete (userNotificationHandlers B) userId onNotification
      in if handlers_at hs userId = []
         then B\<lparr>userNotificationHandlers := hs(userId := None),
                bus_channels := bus_channels B - {userChannel userId}\<rparr>
         else B\<lparr>userNotificationHandlers := hs\<rparr>)"

section \<open>Routing\<close>

definition startsWith :: "string \<Rightarrow> string \<Rightarrow> bool" where
  "startsWith s p \<longleftrightarrow> take (length p) s = p"

definition endsWith :: "string \<Rightarrow> string \<Rightarrow> bool" where
  "endsWith s p \<longleftrightarrow> length p \<le> length s \<and> drop (length s - length p) s = p"

text \<open>\<open>s.replace(p, '')\<close> with a string pattern: the first occurrence goes.\<close>

fun remove_first :: "string \<Rightarrow> string \<Rightarrow> string" where
  "remove_first p [] = []"
| "remove_first p (c # s) = (if startsWith (c # s) p then drop (length p) (c # s) else c # remove_first p s)"

fun split_on :: "char \<Rightarrow> string \<Rightarrow> string list" where
  "split_on x [] = [[]]"
| "split_on x (c # s) = (if c = x then [] # split_on x s
     else case split_on x s of w # ws \<Rightarrow> (c # w) # ws | [] \<Rightarrow> [[c]])"

definition extractDocId :: "string \<Rightarrow> string \<Rightarrow> string" where
  "extractDocId channel suffix = remove_first suffix (remove_first ''doc:'' channel)"

definition routeMessage ::
  "('o, 'p, 'l, 'n) Pubsub \<Rightarrow> string \<Rightarrow> bus_message \<Rightarrow> ('o, 'p, 'l, 'n) delivery list" where
  "routeMessage B channel message =
     (if message = BusUnparsable then []
      else if endsWith channel '':ops'' then
        (let docId = extractDocId channel '':ops''
         in case message of BusOp envelope \<Rightarrow> map (\<lambda>h. ToOp h envelope) (handlers_at (opHandlers B) docId) | _ \<Rightarrow> [])
      else if endsWith channel '':presence'' then
        (let docId = extractDocId channel '':presence''
         in case message of
              BusPresence presence \<Rightarrow> map (\<lambda>h. ToPresence h presence) (handlers_at (presenceHandlers B) docId)
            | BusUserLeft s u d \<Rightarrow> map (\<lambda>h. ToUserLeft h s u d) (userLeftHandlers B)
            | _ \<Rightarrow> [])
      else if endsWith channel '':notifications'' then
        (let userId = split_on (CHR '':'') channel ! 1
         in case message of
              BusNotification data \<Rightarrow> map (\<lambda>h. ToNotification h data) (handlers_at (userNotificationHandlers B) userId)
            | _ \<Rightarrow> [])
      else [])"

text \<open>Redis hands a message to the connections that subscribed to its channel.\<close>

definition receive ::
  "('o, 'p, 'l, 'n) Pubsub \<Rightarrow> string \<times> bus_message \<Rightarrow> ('o, 'p, 'l, 'n) delivery list" where
  "receive B cm = (if bus_subscribed B \<and> fst cm \<in> bus_channels B then routeMessage B (fst cm) (snd cm) else [])"

section \<open>A channel name leads back to its document\<close>

lemma startsWith_append [simp]: "startsWith (p @ s) p"
  by (simp add: startsWith_def)

lemma endsWith_append [simp]: "endsWith (s @ p) p"
  by (simp add: endsWith_def)

lemma endsWith_last: "endsWith s p \<Longrightarrow> p \<noteq> [] \<Longrightarrow> last s = last p"
  by (metis append_take_drop_id endsWith_def last_appendR)

lemma endsWith_butlast: "endsWith s p \<Longrightarrow> butlast p \<noteq> [] \<Longrightarrow> last (butlast s) = last (butlast p)"
  by (metis append_take_drop_id butlast_append butlast.simps(1) endsWith_def last_appendR)

lemma remove_first_prefix [simp]: "p \<noteq> [] \<Longrightarrow> remove_first p (p @ s) = s"
  by (cases p) (auto simp: startsWith_def)

lemma remove_first_suffix:
  assumes "x \<notin> set d"
  shows "remove_first (x # p) (d @ x # p) = d"
  using assms
proof (induction d)
  case Nil
  then show ?case by (simp add: startsWith_def)
next
  case (Cons c d)
  then show ?case by (auto simp: startsWith_def)
qed

lemma split_on_not_Nil [simp]: "split_on x s \<noteq> []"
  by (induction s) (auto split: list.split)

lemma split_on_append: "x \<notin> set u \<Longrightarrow> split_on x (u @ x # s) = u # split_on x s"
  by (induction u) auto

lemma channel_suffixes [simp]:
  "endsWith (docChannel d) '':ops''" "endsWith (presenceChannel d) '':presence''" "endsWith (userChannel u) '':notifications''"
  "\<not> endsWith (presenceChannel d) '':ops''" "\<not> endsWith (userChannel u) '':ops''" "\<not> endsWith (userChannel u) '':presence''"
proof -
  show "endsWith (docChannel d) '':ops''" "endsWith (presenceChannel d) '':presence''" "endsWith (userChannel u) '':notifications''"
    unfolding docChannel_def presenceChannel_def userChannel_def append_assoc [symmetric] by (rule endsWith_append)+
  show "\<not> endsWith (presenceChannel d) '':ops''"
    using endsWith_last [of "presenceChannel d" "'':ops''"] by (auto simp: presenceChannel_def)
  show "\<not> endsWith (userChannel u) '':ops''"
    using endsWith_butlast [of "userChannel u" "'':ops''"] by (auto simp: userChannel_def butlast_append)
  show "\<not> endsWith (userChannel u) '':presence''"
    using endsWith_last [of "userChannel u" "'':presence''"] by (auto simp: userChannel_def)
qed

lemma extract_doc [simp]:
  assumes "CHR '':'' \<notin> set d"
  shows "extractDocId (docChannel d) '':ops'' = d" "extractDocId (presenceChannel d) '':presence'' = d"
  using assms remove_first_prefix [of "''doc:''"]
  by (simp_all add: extractDocId_def docChannel_def presenceChannel_def remove_first_suffix del: remove_first.simps)

lemma split_user [simp]: "CHR '':'' \<notin> set u \<Longrightarrow> split_on (CHR '':'') (userChannel u) ! Suc 0 = u"
  using split_on_append [of "CHR '':''" "''user''" "u @ '':notifications''"] split_on_append [of "CHR '':''" u "''notifications''"]
  by (simp add: userChannel_def)

lemma channel_inj [simp]:
  "presenceChannel a = presenceChannel b \<longleftrightarrow> a = b" "userChannel a = userChannel b \<longleftrightarrow> a = b"
  "docChannel a \<noteq> presenceChannel b" "presenceChannel b \<noteq> docChannel a"
  "docChannel a \<noteq> userChannel b" "userChannel b \<noteq> docChannel a"
  "presenceChannel a \<noteq> userChannel b" "userChannel b \<noteq> presenceChannel a"
  by (simp_all add: presenceChannel_def userChannel_def docChannel_def)

text \<open>A published message reaches, on every worker that subscribed, exactly the handlers registered
  for its document (or user), each once and in the order of registration, and no other handler - for
  identifiers without a colon, as UUIDs are.\<close>

theorem pubsub_routing_exact:
  assumes "bus_subscribed B" "CHR '':'' \<notin> set d" "CHR '':'' \<notin> set u"
  shows "receive B (publishOperation (envelope\<lparr>env_docId := d\<rparr>)) =
      (if docChannel d \<in> bus_channels B
       then map (\<lambda>h. ToOp h (envelope\<lparr>env_docId := d\<rparr>)) (handlers_at (opHandlers B) d) else []) \<and>
    receive B (publishPresence d p) =
      (if presenceChannel d \<in> bus_channels B then map (\<lambda>h. ToPresence h p) (handlers_at (presenceHandlers B) d) else []) \<and>
    receive B (publishUserLeft d s u) =
      (if presenceChannel d \<in> bus_channels B then map (\<lambda>h. ToUserLeft h s u d) (userLeftHandlers B) else []) \<and>
    receive B (publishUserNotification u n) =
      (if userChannel u \<in> bus_channels B then map (\<lambda>h. ToNotification h n) (handlers_at (userNotificationHandlers B) u) else [])"
  using assms
  by (simp_all add: receive_def routeMessage_def publishOperation_def publishPresence_def publishUserLeft_def
      publishUserNotification_def)

definition unsubscribed_example :: "(nat, nat, nat, nat) Pubsub" where
  "unsubscribed_example = subscribeToUser True (subscribeToDocument True new_pubsub ''d'' 1 2) ''u'' 3"

theorem pubsub_routing_exact_witness:
  "receive unsubscribed_example (publishUserNotification ''u'' JNull) = [ToNotification 3 JNull] \<and>
   receive unsubscribed_example (publishUserLeft ''d'' ''s'' ''u'') = []"
  using pubsub_routing_exact [of unsubscribed_example "''d''" "''u''" undefined undefined "''s''" JNull]
  by (simp add: unsubscribed_example_def subscribeToUser_def subscribeToDocument_def new_pubsub_def handlers_add_def
      handlers_at_def set_add_def)

section \<open>The subscribed channels follow the handlers\<close>

definition doc_ok :: "('o, 'p, 'l, 'n) Pubsub \<Rightarrow> string \<Rightarrow> bool" where
  "doc_ok B d \<longleftrightarrow> (opHandlers B d = None \<longleftrightarrow> presenceHandlers B d = None) \<and>
     (opHandlers B d \<noteq> None \<longrightarrow> handlers_at (opHandlers B) d \<noteq> [] \<or> handlers_at (presenceHandlers B) d \<noteq> []) \<and>
     (docChannel d \<in> bus_channels B \<longleftrightarrow> opHandlers B d \<noteq> None) \<and>
     (presenceChannel d \<in> bus_channels B \<longleftrightarrow> opHandlers B d \<noteq> None)"

definition user_ok :: "('o, 'p, 'l, 'n) Pubsub \<Rightarrow> string \<Rightarrow> bool" where
  "user_ok B u \<longleftrightarrow> userNotificationHandlers B u \<noteq> Some [] \<and>
     (userChannel u \<in> bus_channels B \<longleftrightarrow> userNotificationHandlers B u \<noteq> None)"

definition pubsub_ok :: "('o, 'p, 'l, 'n) Pubsub \<Rightarrow> bool" where
  "pubsub_ok B \<longleftrightarrow> (\<forall>d. doc_ok B d) \<and> (\<forall>u. user_ok B u) \<and> (bus_channels B = {} \<or> bus_subscribed B)"

lemma handlers_at_add [simp]:
  "handlers_at (handlers_add m k h) k' = (if k' = k then set_add h (handlers_at m k) else handlers_at m k')"
  "handlers_add m k h k' = (if k' = k then Some (set_add h (handlers_at m k)) else m k')"
  by (simp_all add: handlers_add_def handlers_at_def)

lemma handlers_at_delete [simp]:
  "handlers_at (handlers_delete m k h) k' = (if k' = k then removeAll h (handlers_at m k) else handlers_at m k')"
  "handlers_delete m k h k' = (if k' = k then map_option (removeAll h) (m k) else m k')"
  by (auto simp: handlers_delete_def handlers_at_def split: option.split)

lemma handlers_at_upd [simp]:
  "handlers_at (m(k := v)) k' = (if k' = k then case v of Some hs \<Rightarrow> hs | None \<Rightarrow> [] else handlers_at m k')"
  by (simp add: handlers_at_def)

lemma handlers_at_None [simp]: "m k = None \<Longrightarrow> handlers_at m k = []"
  by (simp add: handlers_at_def)

lemma set_add_not_Nil [simp]: "set_add x xs \<noteq> []"
  by (auto simp: set_add_def)

lemma removeAll_set_add [simp]: "x \<notin> set xs \<Longrightarrow> removeAll x (set_add x xs) = xs"
  by (simp add: set_add_def)

lemma new_pubsub_parts [simp]:
  "opHandlers new_pubsub = Map.empty" "presenceHandlers new_pubsub = Map.empty"
  "userNotificationHandlers new_pubsub = Map.empty" "bus_channels new_pubsub = {}" "userLeftHandlers new_pubsub = []"
  by (simp_all add: new_pubsub_def)

lemma new_pubsub_ok [simp]: "pubsub_ok new_pubsub"
  by (simp add: pubsub_ok_def doc_ok_def user_ok_def)

lemma pubsub_okD:
  assumes "pubsub_ok B"
  shows "doc_ok B d" "user_ok B u" "docChannel e \<in> bus_channels B \<Longrightarrow> bus_subscribed B"
  using assms by (auto simp: pubsub_ok_def)

lemma doc_ok_subscribe:
  "doc_ok B e \<Longrightarrow> doc_ok (subscribeToDocument True B d onOp onPresence) e"
  "doc_ok B e \<Longrightarrow> doc_ok (unsubscribeFromDocument B d x y) e"
  "doc_ok (subscribeToUser True B u n) e \<longleftrightarrow> doc_ok B e" "doc_ok (unsubscribeFromUser B u n) e \<longleftrightarrow> doc_ok B e"
  by (auto simp: doc_ok_def subscribeToDocument_def unsubscribeFromDocument_def subscribeToUser_def unsubscribeFromUser_def
      Let_def)

lemma user_ok_subscribe:
  "user_ok B v \<Longrightarrow> user_ok (subscribeToUser True B u n) v" "user_ok B v \<Longrightarrow> user_ok (unsubscribeFromUser B u n) v"
  "user_ok (subscribeToDocument True B d onOp onPresence) v \<longleftrightarrow> user_ok B v"
  "user_ok (unsubscribeFromDocument B d x y) v \<longleftrightarrow> user_ok B v"
  by (auto simp: user_ok_def subscribeToDocument_def unsubscribeFromDocument_def subscribeToUser_def unsubscribeFromUser_def
      Let_def handlers_at_def split: option.splits)

lemma pubsub_ok_intros [wf_intros]:
  assumes "pubsub_ok B"
  shows "pubsub_ok (subscribeToDocument True B d onOp onPresence)" "pubsub_ok (subscribeToUser True B u n)"
    "pubsub_ok (unsubscribeFromDocument B d x y)" "pubsub_ok (unsubscribeFromUser B u m)"
proof -
  have c: "bus_channels B = {} \<or> bus_subscribed B" using assms by (simp add: pubsub_ok_def)
  show "pubsub_ok (subscribeToDocument True B d onOp onPresence)" "pubsub_ok (subscribeToUser True B u n)"
    by (simp_all add: pubsub_ok_def doc_ok_subscribe user_ok_subscribe pubsub_okD [OF assms])
       (simp_all add: subscribeToDocument_def subscribeToUser_def)
  show "pubsub_ok (unsubscribeFromDocument B d x y)" "pubsub_ok (unsubscribeFromUser B u m)"
    using c by (simp_all add: pubsub_ok_def doc_ok_subscribe user_ok_subscribe pubsub_okD [OF assms])
       (auto simp: unsubscribeFromDocument_def unsubscribeFromUser_def Let_def)
qed

lemma resubscribe_document:
  assumes "pubsub_ok B" "onOp \<notin> set (handlers_at (opHandlers B) d)" "onPresence \<notin> set (handlers_at (presenceHandlers B) d)"
  shows "unsubscribeFromDocument (subscribeToDocument True B d onOp onPresence) d onOp onPresence = B\<lparr>bus_subscribed := True\<rparr>"
proof (cases "opHandlers B d")
  case None
  moreover from this have "presenceHandlers B d = None" "docChannel d \<notin> bus_channels B" "presenceChannel d \<notin> bus_channels B"
    using pubsub_okD(1) [OF assms(1), of d] unfolding doc_ok_def by (metis option.distinct(1))+
  ultimately show ?thesis
    by (simp add: unsubscribeFromDocument_def subscribeToDocument_def Let_def fun_eq_iff handlers_add_def handlers_delete_def
        set_add_def)
next
  case (Some hs)
  then have k: "presenceHandlers B d \<noteq> None" "docChannel d \<in> bus_channels B" "presenceChannel d \<in> bus_channels B"
    "handlers_at (opHandlers B) d \<noteq> [] \<or> handlers_at (presenceHandlers B) d \<noteq> []"
    using pubsub_okD(1) [OF assms(1), of d] unfolding doc_ok_def by (metis option.distinct(1))+
  then obtain ps where ps: "presenceHandlers B d = Some ps" by blast
  have ops: "handlers_delete (handlers_add (opHandlers B) d onOp) d onOp = opHandlers B"
    and pres: "handlers_delete (handlers_add (presenceHandlers B) d onPresence) d onPresence = presenceHandlers B"
    using assms(2,3) Some ps by (auto simp: fun_eq_iff handlers_at_def)
  have "bus_channels B \<union> {docChannel d, presenceChannel d} = bus_channels B" using k by auto
  then show ?thesis
    using k(4) by (auto simp: unsubscribeFromDocument_def subscribeToDocument_def Let_def ops pres intro!: Pubsub.equality)
qed

lemma unsubscribe_fresh_document:
  assumes "onOp \<notin> set (handlers_at (opHandlers B) d)" "onPresence \<notin> set (handlers_at (presenceHandlers B) d)"
    and "handlers_at (opHandlers B) d \<noteq> []"
  shows "unsubscribeFromDocument B d onOp onPresence = B"
proof -
  have "handlers_delete (opHandlers B) d onOp = opHandlers B" "handlers_delete (presenceHandlers B) d onPresence = presenceHandlers B"
    using assms(1,2) by (auto simp: fun_eq_iff handlers_at_def handlers_delete_def split: option.splits)
  then show ?thesis using assms(3) by (simp add: unsubscribeFromDocument_def)
qed

text \<open>The worker is subscribed to a document's channels exactly while a handler is registered for it,
  and to a user's channel exactly while that user has a handler: every operation keeps this, and
  unsubscribing the very handlers that were subscribed undoes the subscription.\<close>

theorem channels_follow_handlers:
  assumes "pubsub_ok B" "onOp \<notin> set (handlers_at (opHandlers B) d)" "onPresence \<notin> set (handlers_at (presenceHandlers B) d)"
  shows "pubsub_ok (subscribeToDocument True B d onOp onPresence) \<and> pubsub_ok (subscribeToUser True B u n) \<and>
    pubsub_ok (unsubscribeFromDocument B e x y) \<and> pubsub_ok (unsubscribeFromUser B u n) \<and>
    unsubscribeFromDocument (subscribeToDocument True B d onOp onPresence) d onOp onPresence = B\<lparr>bus_subscribed := True\<rparr>"
  using assms by (simp add: pubsub_ok_intros resubscribe_document)

theorem channels_follow_handlers_witness:
  "bus_channels (unsubscribeFromDocument (subscribeToDocument True (new_pubsub :: (nat, nat, nat, nat) Pubsub) ''d'' 0 1) ''d'' 0 1) = {}"
  using channels_follow_handlers [of "new_pubsub :: (nat, nat, nat, nat) Pubsub" 0 "''d''" 1 "''u''" 2 "''d''" 0 1] by simp

section \<open>The bus, as its clients see it\<close>

text \<open>A client names its handlers; the two closures one call of \<open>subscribeToDocument\<close> registers
  carry one name. \<open>joins\<close> and \<open>leaves\<close> are runs of calls.\<close>

locale message_bus =
  fixes ok :: "'s \<Rightarrow> bool"
    and valid :: "string \<Rightarrow> bool"
    and handlers :: "'s \<Rightarrow> string \<Rightarrow> 'h list"
    and join :: "'s \<Rightarrow> string \<Rightarrow> 'h \<Rightarrow> 's"
    and leave :: "'s \<Rightarrow> string \<Rightarrow> 'h \<Rightarrow> 's"
    and called :: "'s \<Rightarrow> OperationEnvelope \<Rightarrow> 'h list"
  assumes join_ok: "ok s \<Longrightarrow> ok (join s d h)"
    and leave_ok: "ok s \<Longrightarrow> ok (leave s d h)"
    and join_handlers: "handlers (join s d h) e = (if e = d then set_add h (handlers s d) else handlers s e)"
    and leave_handlers: "ok s \<Longrightarrow> handlers (leave s d h) e = (if e = d then removeAll h (handlers s d) else handlers s e)"
    and called_handlers: "ok s \<Longrightarrow> valid (env_docId env) \<Longrightarrow> called s env = handlers s (env_docId env)"
begin

definition joins :: "'s \<Rightarrow> string \<Rightarrow> 'h list \<Rightarrow> 's" where
  "joins s d hs = foldl (\<lambda>s h. join s d h) s hs"

definition leaves :: "'s \<Rightarrow> string \<Rightarrow> 'h list \<Rightarrow> 's" where
  "leaves s d hs = foldl (\<lambda>s h. leave s d h) s hs"

lemma joins_ok: "ok s \<Longrightarrow> ok (joins s d hs)"
  by (induction hs arbitrary: s) (auto simp: joins_def join_ok)

lemma leaves_ok: "ok s \<Longrightarrow> ok (leaves s d hs)"
  by (induction hs arbitrary: s) (auto simp: leaves_def leave_ok)

lemma joins_handlers:
  assumes "distinct hs" "set hs \<inter> set (handlers s d) = {}"
  shows "handlers (joins s d hs) d = handlers s d @ hs"
  using assms
proof (induction hs arbitrary: s)
  case Nil
  then show ?case by (simp add: joins_def)
next
  case (Cons h hs)
  then have "handlers (joins (join s d h) d hs) d = handlers (join s d h) d @ hs"
    by (intro Cons.IH) (auto simp: join_handlers set_add_def)
  then show ?case using Cons.prems by (simp add: joins_def join_handlers set_add_def)
qed

lemma leaves_handlers:
  assumes "ok s"
  shows "handlers (leaves s d hs) d = filter (\<lambda>h. h \<notin> set hs) (handlers s d)"
  using assms
proof (induction hs arbitrary: s)
  case Nil
  then show ?case by (simp add: leaves_def)
next
  case (Cons h hs)
  have "handlers (leaves (leave s d h) d hs) d = filter (\<lambda>x. x \<notin> set hs) (handlers (leave s d h) d)"
    by (rule Cons.IH) (rule leave_ok [OF Cons.prems])
  then show ?case using Cons.prems by (simp add: leaves_def leave_handlers removeAll_filter_not_eq conj_commute)
      (metis (no_types, lifting))
qed

lemma called_once:
  assumes "ok s" "valid (env_docId env)" "handlers s (env_docId env) = []" "distinct hs"
  shows "called (joins s (env_docId env) hs) env = hs"
  using assms by (simp add: called_handlers joins_ok joins_handlers)

lemma called_after_leaving:
  assumes "ok s" "valid (env_docId env)"
  shows "called (leaves s (env_docId env) hs) env = filter (\<lambda>h. h \<notin> set hs) (called s env)"
  using assms by (simp add: called_handlers leaves_ok leaves_handlers)

text \<open>Leaving under fresh names leaves the handlers in place.\<close>

lemma called_still:
  assumes "ok s" "valid (env_docId env)" "set hs \<inter> set (called s env) = {}"
  shows "called (leaves s (env_docId env) hs) env = called s env"
  using assms(3) by (auto simp: called_after_leaving [OF assms(1,2)] intro!: filter_True)

end

definition called_op_handlers :: "('o, 'p, 'l, 'n) Pubsub \<Rightarrow> OperationEnvelope \<Rightarrow> 'o list" where
  "called_op_handlers B env = concat (map (\<lambda>d. case d of ToOp h _ \<Rightarrow> [h] | _ \<Rightarrow> []) (receive B (publishOperation env)))"

lemma called_op_handlers:
  assumes "pubsub_ok B" "CHR '':'' \<notin> set (env_docId env)"
  shows "called_op_handlers B env = handlers_at (opHandlers B) (env_docId env)"
proof (cases "docChannel (env_docId env) \<in> bus_channels B")
  case True
  moreover have "bus_subscribed B" using assms(1) True by (auto dest: pubsub_okD(3))
  ultimately show ?thesis
    using assms(2) by (simp add: called_op_handlers_def publishOperation_def receive_def routeMessage_def comp_def)
next
  case False
  then have "opHandlers B (env_docId env) = None" using pubsub_okD(1) [OF assms(1), of "env_docId env"] by (auto simp: doc_ok_def)
  then show ?thesis using False by (simp add: called_op_handlers_def receive_def publishOperation_def)
qed

interpretation ops_bus: message_bus pubsub_ok "\<lambda>d. CHR '':'' \<notin> set d" "\<lambda>B. handlers_at (opHandlers B)"
  "\<lambda>B d h. subscribeToDocument True B d h h" "\<lambda>B d h. unsubscribeFromDocument B d h h" called_op_handlers
proof unfold_locales
  fix B :: "('a, 'a, 'b, 'c) Pubsub" and d h e and env :: OperationEnvelope
  assume ok: "pubsub_ok B"
  show "pubsub_ok (subscribeToDocument True B d h h)" by (rule pubsub_ok_intros(1) [OF ok])
  show "pubsub_ok (unsubscribeFromDocument B d h h)" by (rule pubsub_ok_intros(3) [OF ok])
  show "handlers_at (opHandlers (unsubscribeFromDocument B d h h)) e =
      (if e = d then removeAll h (handlers_at (opHandlers B) d) else handlers_at (opHandlers B) e)"
    by (simp add: unsubscribeFromDocument_def Let_def)
  show "called_op_handlers B env = handlers_at (opHandlers B) (env_docId env)" if "CHR '':'' \<notin> set (env_docId env)"
    by (rule called_op_handlers [OF ok that])
qed (simp add: subscribeToDocument_def)

end
