(* ===== verification/Presence_Manager.thy ===== *)
theory Presence_Manager
  imports Redis_Pubsub
begin

text \<open>
  \<^verbatim>\<open>src/server/sync/presence-manager.ts\<close>: cursors and typing indicators, kept in Redis with a time to
  live. The store is the list of Redis keys with value and expiry; \<open>SET key v EX n\<close>, \<open>DEL\<close>,
  \<open>KEYS prefix*\<close>, \<open>MGET\<close> and \<open>EXPIRE\<close> act on it as Redis documents them (a document id that
  holds no glob characters matches itself only). An operation also returns what it publishes.
\<close>

section \<open>The store\<close>

type_synonym presence_store = "(string \<times> UserPresence \<times> int) list"

definition PRESENCE_TTL_SECONDS :: int where
  "PRESENCE_TTL_SECONDS = 60"

definition PRESENCE_KEY_PREFIX :: string where
  "PRESENCE_KEY_PREFIX = ''presence:doc:''"

definition presenceKey :: "string \<Rightarrow> string \<Rightarrow> string" where
  "presenceKey docId sessionId = PRESENCE_KEY_PREFIX @ docId @ '':'' @ sessionId"

definition redis_set :: "presence_store \<Rightarrow> string \<Rightarrow> UserPresence \<Rightarrow> int \<Rightarrow> presence_store" where
  "redis_set R k p expires = AList.update k (p, expires) R"

definition redis_live :: "presence_store \<Rightarrow> int \<Rightarrow> presence_store" where
  "redis_live R now = filter (\<lambda>(k, p, expires). now < expires) R"

definition redis_keys :: "presence_store \<Rightarrow> int \<Rightarrow> string \<Rightarrow> string list" where
  "redis_keys R now pre = filter (\<lambda>k. startsWith k pre) (map fst (redis_live R now))"

definition redis_get :: "presence_store \<Rightarrow> int \<Rightarrow> string \<Rightarrow> UserPresence option" where
  "redis_get R now k = map_option fst (map_of (redis_live R now) k)"

definition redis_expire :: "presence_store \<Rightarrow> int \<Rightarrow> string \<Rightarrow> int \<Rightarrow> presence_store" where
  "redis_expire R now k expires = map (\<lambda>(k', p, e). (k', p, if k' = k \<and> now < e then expires else e)) R"

section \<open>Operations\<close>

definition updatePresence ::
  "presence_store \<Rightarrow> int \<Rightarrow> string \<Rightarrow> UserPresence \<Rightarrow> presence_store \<times> (string \<times> bus_message) list" where
  "updatePresence R now docId presence =
     (redis_set R (presenceKey docId (p_sessionId presence)) presence (now + 1000 * PRESENCE_TTL_SECONDS),
      [publishPresence docId presence])"

definition removePresence ::
  "presence_store \<Rightarrow> string \<Rightarrow> string \<Rightarrow> string \<Rightarrow> presence_store \<times> (string \<times> bus_message) list" where
  "removePresence R docId sessionId userId =
     (AList.delete (presenceKey docId sessionId) R, [publishUserLeft docId sessionId userId])"

definition getAllPresence :: "presence_store \<Rightarrow> int \<Rightarrow> string \<Rightarrow> UserPresence list" where
  "getAllPresence R now docId =
     (let keys = redis_keys R now (PRESENCE_KEY_PREFIX @ docId @ '':'')
      in if keys = [] then [] else concat (map (\<lambda>k. case redis_get R now k of Some p \<Rightarrow> [p] | None \<Rightarrow> []) keys))"

definition refreshPresenceTTL :: "presence_store \<Rightarrow> int \<Rightarrow> string \<Rightarrow> string \<Rightarrow> presence_store" where
  "refreshPresenceTTL R now docId sessionId =
     redis_expire R now (presenceKey docId sessionId) (now + 1000 * PRESENCE_TTL_SECONDS)"

definition buildInitialPresence :: "string \<Rightarrow> string \<Rightarrow> string \<Rightarrow> string \<Rightarrow> string \<Rightarrow> UserPresence" where
  "buildInitialPresence sessionId userId displayName color lastSeen =
     \<lparr>p_sessionId = sessionId, p_userId = userId, p_displayName = displayName, p_color = color,
      p_cursor = None, p_isTyping = False, p_lastSeen = lastSeen\<rparr>"

section \<open>Keys belong to their document\<close>

lemma startsWith_iff: "startsWith s p \<longleftrightarrow> (\<exists>t. s = p @ t)"
  by (metis append_eq_conv_conj append_take_drop_id startsWith_def)

lemma presenceKey_prefix:
  assumes "CHR '':'' \<notin> set d" "CHR '':'' \<notin> set e"
  shows "startsWith (presenceKey d s) (PRESENCE_KEY_PREFIX @ e @ '':'') \<longleftrightarrow> d = e"
  using assms by (auto simp: startsWith_iff presenceKey_def split_at_first)

lemma presenceKey_inj:
  assumes "CHR '':'' \<notin> set d" "CHR '':'' \<notin> set e"
  shows "presenceKey d s = presenceKey e t \<longleftrightarrow> d = e \<and> s = t"
  using assms by (simp add: presenceKey_def split_at_first)

text \<open>Every key of the store names the document and the session of its record.\<close>

definition presence_ok :: "presence_store \<Rightarrow> bool" where
  "presence_ok R \<longleftrightarrow> distinct (map fst R) \<and>
     (\<forall>(k, p, e) \<in> set R. \<exists>d. CHR '':'' \<notin> set d \<and> k = presenceKey d (p_sessionId p))"

definition presence_of :: "presence_store \<Rightarrow> int \<Rightarrow> string \<Rightarrow> string \<Rightarrow> UserPresence option" where
  "presence_of R now d s = redis_get R now (presenceKey d s)"

lemma map_of_live:
  assumes "distinct (map fst R)"
  shows "map_of (redis_live R now) k = (case map_of R k of Some (p, e) \<Rightarrow> if now < e then Some (p, e) else None | None \<Rightarrow> None)"
  using assms
proof (induction R)
  case Nil
  then show ?case by (simp add: redis_live_def)
next
  case (Cons x R)
  obtain k' p e where x: "x = (k', p, e)" by (cases x)
  have "k' \<notin> fst ` set (redis_live R now)" using Cons.prems by (auto simp: x redis_live_def)
  then have "map_of (redis_live R now) k' = None" by (simp add: map_of_eq_None_iff)
  then show ?case using Cons by (auto simp: x redis_live_def split: option.splits)
qed

lemma presence_of_entries:
  assumes "presence_ok R"
  shows "presence_of R now d s = (case map_of R (presenceKey d s) of Some (p, e) \<Rightarrow> if now < e then Some p else None | None \<Rightarrow> None)"
  using assms by (auto simp: presence_of_def redis_get_def presence_ok_def map_of_live split: option.split)

lemma distinct_live: "distinct (map fst R) \<Longrightarrow> distinct (map fst (redis_live R now))"
  by (simp add: redis_live_def distinct_map_filter)

lemma concat_map_singletons: "(\<And>x. x \<in> set xs \<Longrightarrow> f x = [g x]) \<Longrightarrow> concat (map f xs) = map g xs"
  by (induction xs) auto

lemma getAll_live:
  assumes "presence_ok R"
  shows "getAllPresence R now d = map (\<lambda>(k, p, e). p) (filter (\<lambda>(k, p, e). startsWith k (PRESENCE_KEY_PREFIX @ d @ '':'')) (redis_live R now))"
proof -
  let ?L = "redis_live R now" and ?P = "\<lambda>k. startsWith k (PRESENCE_KEY_PREFIX @ d @ '':'')"
  have "distinct (map fst ?L)" using assms by (simp add: presence_ok_def distinct_live)
  then have get: "map_of ?L (fst x) = Some (snd x)" if "x \<in> set ?L" for x
    using that by (cases x) simp
  have keys: "filter ?P (map fst ?L) = map fst (filter (\<lambda>(k, p, e). ?P k) ?L)"
    by (simp add: filter_map comp_def case_prod_unfold)
  have "getAllPresence R now d = concat (map (\<lambda>k. case redis_get R now k of Some p \<Rightarrow> [p] | None \<Rightarrow> []) (filter ?P (map fst ?L)))"
    by (auto simp: getAllPresence_def redis_keys_def Let_def)
  also have "\<dots> = map (\<lambda>(k, p, e). p) (filter (\<lambda>(k, p, e). ?P k) ?L)"
    unfolding keys map_map comp_def
    by (rule concat_map_singletons) (auto simp: redis_get_def dest!: get)
  finally show ?thesis .
qed

lemma getAll_presence:
  assumes "presence_ok R" "CHR '':'' \<notin> set d"
  shows "p \<in> set (getAllPresence R now d) \<longleftrightarrow> presence_of R now d (p_sessionId p) = Some p"
    and "distinct (map p_sessionId (getAllPresence R now d))"
proof -
  let ?L = "redis_live R now"
  have key: "\<exists>d'. CHR '':'' \<notin> set d' \<and> k = presenceKey d' (p_sessionId q)" if "(k, q, e) \<in> set ?L" for k q e
    using assms(1) that by (force simp: presence_ok_def redis_live_def)
  have in_doc: "startsWith k (PRESENCE_KEY_PREFIX @ d @ '':'') \<longleftrightarrow> k = presenceKey d (p_sessionId q)" if "(k, q, e) \<in> set ?L" for k q e
    using key [OF that] assms(2) presenceKey_prefix presenceKey_inj by metis
  have dist: "distinct (map fst ?L)" using assms(1) by (simp add: presence_ok_def distinct_live)
  have F: "filter (\<lambda>(k, p, e). startsWith k (PRESENCE_KEY_PREFIX @ d @ '':'')) ?L =
      filter (\<lambda>(k, p, e). k = presenceKey d (p_sessionId p)) ?L"
    by (rule filter_cong) (auto simp: in_doc)
  show "p \<in> set (getAllPresence R now d) \<longleftrightarrow> presence_of R now d (p_sessionId p) = Some p"
    by (force simp: getAll_live [OF assms(1)] F presence_of_def redis_get_def dist)
  have keys: "map fst (filter (\<lambda>(k, p, e). k = presenceKey d (p_sessionId p)) ?L) =
      map (presenceKey d) (map p_sessionId (map (\<lambda>(k, p, e). p) (filter (\<lambda>(k, p, e). k = presenceKey d (p_sessionId p)) ?L)))"
    by (induction ?L rule: list.induct) (auto split: prod.splits)
  have "distinct (map fst (filter (\<lambda>(k, p, e). k = presenceKey d (p_sessionId p)) ?L))"
    by (rule distinct_map_filter [OF dist])
  then show "distinct (map p_sessionId (getAllPresence R now d))"
    unfolding keys getAll_live [OF assms(1)] F by (metis distinct_map)
qed

section \<open>The operations on the view\<close>

lemma presence_ok_Nil [simp]: "presence_ok []"
  by (simp add: presence_ok_def)

lemma update_presence_ok:
  assumes "presence_ok R" "CHR '':'' \<notin> set d"
  shows "presence_ok (fst (updatePresence R now d p))"
proof -
  have "set (AList.update k v xs) \<subseteq> insert (k, v) (set xs)" for k v and xs :: presence_store
    by (induction xs) auto
  then show ?thesis
    using assms by (fastforce simp: presence_ok_def updatePresence_def redis_set_def distinct_update)
qed

lemma remove_presence_ok: "presence_ok R \<Longrightarrow> presence_ok (fst (removePresence R d s u))"
  by (auto simp: presence_ok_def removePresence_def AList.delete_eq intro: distinct_map_filter)

lemma presence_of_update:
  assumes "presence_ok R" "CHR '':'' \<notin> set d" "CHR '':'' \<notin> set e"
  shows "presence_of (fst (updatePresence R now d p)) t e s =
    (if e = d \<and> s = p_sessionId p then if t < now + 60000 then Some p else None else presence_of R t e s)"
  using assms
  by (simp add: presence_of_entries update_presence_ok)
     (auto simp: updatePresence_def redis_set_def update_conv' PRESENCE_TTL_SECONDS_def presenceKey_inj)

lemma presence_of_remove:
  assumes "presence_ok R" "CHR '':'' \<notin> set d" "CHR '':'' \<notin> set e"
  shows "presence_of (fst (removePresence R d s' u)) t e s = (if e = d \<and> s = s' then None else presence_of R t e s)"
  using assms
  by (simp add: presence_of_entries remove_presence_ok)
     (auto simp: removePresence_def delete_conv' presenceKey_inj)

lemma getAll_iff:
  assumes "presence_ok R" "CHR '':'' \<notin> set d"
  shows "set (getAllPresence R now d) = {p. presence_of R now d (p_sessionId p) = Some p}"
  using getAll_presence [OF assms] by auto

text \<open>The presence list of a document shows each session once, with its latest update of the last 60
  seconds: an update shows the new record to its document alone and replaces only the record
  of that session, a disconnect removes it, and nothing else changes.\<close>

theorem presence_shows_latest:
  assumes "presence_ok R" "CHR '':'' \<notin> set d" "CHR '':'' \<notin> set e"
  shows "distinct (map p_sessionId (getAllPresence R t e)) \<and>
    set (getAllPresence (fst (updatePresence R now d p)) t e) =
      (if e = d then {q \<in> set (getAllPresence R t d). p_sessionId q \<noteq> p_sessionId p} \<union> (if t < now + 60000 then {p} else {})
       else set (getAllPresence R t e)) \<and>
    set (getAllPresence (fst (removePresence R d s u)) t e) =
      (if e = d then {q \<in> set (getAllPresence R t d). p_sessionId q \<noteq> s} else set (getAllPresence R t e))"
  using assms getAll_presence(2) [OF assms(1,3)]
  by (auto simp: getAll_iff update_presence_ok remove_presence_ok presence_of_update presence_of_remove split: if_splits)

theorem presence_shows_latest_witness:
  "set (getAllPresence (fst (updatePresence [] 5 ''d'' (buildInitialPresence ''s'' ''u'' ''n'' ''c'' ''t''))) 100 ''d'') =
     {buildInitialPresence ''s'' ''u'' ''n'' ''c'' ''t''}"
  using presence_shows_latest [of "[]" "''d''" "''d''" 100 5 "buildInitialPresence ''s'' ''u'' ''n'' ''c'' ''t''"]
  by (simp add: getAllPresence_def redis_keys_def redis_live_def)

lemma refresh_extends:
  assumes "presence_ok R" "presence_of R now d s = Some p" "t < now + 60000"
  shows "presence_of (refreshPresenceTTL R now d s) t d s = Some p"
proof -
  have f: "map fst (refreshPresenceTTL R now d s) = map fst R"
    by (auto simp: refreshPresenceTTL_def redis_expire_def)
  have ok: "presence_ok (refreshPresenceTTL R now d s)"
    using assms(1) unfolding presence_ok_def f by (auto simp: refreshPresenceTTL_def redis_expire_def)
  have m: "map_of (redis_expire R now k x) k = map_option (\<lambda>(p, e). (p, if now < e then x else e)) (map_of R k)" for k x
    by (induction R) (auto simp: redis_expire_def)
  obtain e where e: "map_of R (presenceKey d s) = Some (p, e)" "now < e"
    using assms(2) by (auto simp: presence_of_entries [OF assms(1)] split: option.splits if_splits)
  show ?thesis
    unfolding presence_of_entries [OF ok] using e assms(3) by (auto simp: refreshPresenceTTL_def m
        PRESENCE_TTL_SECONDS_def)
qed

end
