(* ===== verification/Document_Store.thy ===== *)
theory Document_Store
  imports Event_Store
begin

text \<open>
  \<^verbatim>\<open>src/server/persistence/document-store.ts\<close>, \<^verbatim>\<open>invitation-store.ts\<close> and
  \<^verbatim>\<open>notification-store.ts\<close> with the tables of \<^verbatim>\<open>schema.sql\<close> they use: users, documents, permissions,
  starred documents, invitations, notifications and the audit log. A table is the list of its rows;
  a statement that violates a constraint is \<open>Inl\<close> and leaves every table as it was, which is also what
  \<open>withTransaction\<close> does to the statements before it. Timestamps are milliseconds; \<open>now\<close>, generated
  UUIDs and random tokens are arguments, and \<open>toISO\<close> is \<open>Date.toISOString\<close>.
\<close>

section \<open>Tables\<close>

record Account =
  acc_id :: string
  acc_email :: string
  acc_display_name :: string
  acc_color :: string

record DocumentRow =
  drow_id :: string
  drow_title :: js_text
  drow_owner_id :: string
  drow_created_at :: int
  drow_updated_at :: int
  drow_is_deleted :: bool

record PermissionRow =
  perm_doc_id :: string
  perm_user_id :: string
  perm_role :: string

record MetaRow =
  meta_doc_id :: string
  meta_user_id :: string
  meta_is_starred :: bool

record Invitation =
  inv_id :: string
  inv_doc_id :: string
  inv_inviter_id :: string
  inv_invitee_email :: "string option"
  inv_role :: string
  inv_token :: string
  inv_status :: string
  inv_expires_at :: int
  inv_created_at :: int

record NotificationRow =
  ntf_id :: string
  ntf_user_id :: string
  ntf_type :: string
  ntf_title :: string
  ntf_message :: js_text
  ntf_link :: "string option"
  ntf_read_at :: "int option"
  ntf_created_at :: int

record AuditEntry =
  ent_doc_id :: string
  ent_user_id :: string
  ent_action :: string
  ent_metadata :: "(string \<times> js_text) list"

record Directory =
  dir_users :: "Account list"
  dir_documents :: "DocumentRow list"
  dir_permissions :: "PermissionRow list"
  dir_meta :: "MetaRow list"
  dir_invitations :: "Invitation list"
  dir_notifications :: "NotificationRow list"
  dir_audit :: "AuditEntry list"

type_synonym 'a statement = "db_error + Directory \<times> 'a"

text \<open>The constraints the statements check: foreign keys and the role of a permission.\<close>

definition has_user :: "Directory \<Rightarrow> string \<Rightarrow> bool" where
  "has_user D u \<longleftrightarrow> u \<in> acc_id ` set (dir_users D)"

definition has_document :: "Directory \<Rightarrow> string \<Rightarrow> bool" where
  "has_document D d \<longleftrightarrow> d \<in> drow_id ` set (dir_documents D)"

definition permission_roles :: "string list" where
  "permission_roles = [''owner'', ''editor'', ''viewer'']"

definition invitation_roles :: "string list" where
  "invitation_roles = [''owner'', ''editor'', ''commenter'', ''viewer'']"

definition DocumentPermission_of :: "string \<Rightarrow> DocumentPermission" where
  "DocumentPermission_of r = (if r = ''owner'' then owner else if r = ''editor'' then editor else viewer)"

section \<open>Documents\<close>

definition rowToDocument :: "(int \<Rightarrow> string) \<Rightarrow> DocumentRow \<Rightarrow> Document" where
  "rowToDocument toISO r = \<lparr>doc_id = drow_id r, doc_title = drow_title r, doc_ownerId = drow_owner_id r,
     doc_createdAt = toISO (drow_created_at r), doc_updatedAt = toISO (drow_updated_at r),
     doc_isDeleted = drow_is_deleted r\<rparr>"

definition withRole :: "(int \<Rightarrow> string) \<Rightarrow> DocumentRow \<Rightarrow> string \<Rightarrow> DocumentWithPermission" where
  "withRole toISO r role = Document.extend (rowToDocument toISO r) \<lparr>doc_role = DocumentPermission_of role\<rparr>"

definition createDocument ::
  "(int \<Rightarrow> string) \<Rightarrow> Directory \<Rightarrow> js_text \<Rightarrow> string \<Rightarrow> string \<Rightarrow> int \<Rightarrow> Document statement" where
  "createDocument toISO D title ownerId uuid now =
     (if has_document D uuid then Inl UniqueViolation
      else if \<not> has_user D ownerId then Inl ForeignKeyViolation
      else if \<exists>p \<in> set (dir_permissions D). perm_doc_id p = uuid \<and> perm_user_id p = ownerId then Inl UniqueViolation
      else let row = \<lparr>drow_id = uuid, drow_title = title, drow_owner_id = ownerId, drow_created_at = now,
                  drow_updated_at = now, drow_is_deleted = False\<rparr>
        in Inr (D\<lparr>dir_documents := dir_documents D @ [row],
             dir_permissions := dir_permissions D @ [\<lparr>perm_doc_id = uuid, perm_user_id = ownerId, perm_role = ''owner''\<rparr>],
             dir_audit := dir_audit D @ [\<lparr>ent_doc_id = uuid, ent_user_id = ownerId, ent_action = ''create'',
               ent_metadata = [(''title'', title)]\<rparr>]\<rparr>, rowToDocument toISO row))"

definition live_documents :: "Directory \<Rightarrow> string \<Rightarrow> DocumentRow list" where
  "live_documents D docId = filter (\<lambda>r. drow_id r = docId \<and> \<not> drow_is_deleted r) (dir_documents D)"

definition getDocument :: "(int \<Rightarrow> string) \<Rightarrow> Directory \<Rightarrow> string \<Rightarrow> Document option" where
  "getDocument toISO D docId = (case live_documents D docId of r # _ \<Rightarrow> Some (rowToDocument toISO r) | [] \<Rightarrow> None)"

text \<open>\<open>JOIN document_permissions dp ON dp.doc_id = d.id AND dp.user_id = $2\<close>.\<close>

definition join_permissions :: "Directory \<Rightarrow> string \<Rightarrow> DocumentRow list \<Rightarrow> (DocumentRow \<times> string) list" where
  "join_permissions D userId rows = concat (map (\<lambda>r. map (\<lambda>p. (r, perm_role p))
     (filter (\<lambda>p. perm_doc_id p = drow_id r \<and> perm_user_id p = userId) (dir_permissions D))) rows)"

definition getDocumentWithPermission ::
  "(int \<Rightarrow> string) \<Rightarrow> Directory \<Rightarrow> string \<Rightarrow> string \<Rightarrow> DocumentWithPermission option" where
  "getDocumentWithPermission toISO D docId userId =
     (case join_permissions D userId (live_documents D docId) of
        (r, role) # _ \<Rightarrow> Some (withRole toISO r role) | [] \<Rightarrow> None)"

definition listDocuments :: "(int \<Rightarrow> string) \<Rightarrow> Directory \<Rightarrow> string \<Rightarrow> DocumentWithPermission list" where
  "listDocuments toISO D userId = map (\<lambda>(r, role). withRole toISO r role)
     (sort_key (\<lambda>(r, _). - drow_updated_at r)
       (join_permissions D userId (filter (\<lambda>r. \<not> drow_is_deleted r) (dir_documents D))))"

definition update_rows :: "('r \<Rightarrow> bool) \<Rightarrow> ('r \<Rightarrow> 'r) \<Rightarrow> 'r list \<Rightarrow> 'r list" where
  "update_rows P f rows = map (\<lambda>r. if P r then f r else r) rows"

definition updateDocumentTitle :: "Directory \<Rightarrow> string \<Rightarrow> js_text \<Rightarrow> int \<Rightarrow> Directory" where
  "updateDocumentTitle D docId title now = D\<lparr>dir_documents := update_rows (\<lambda>r. drow_id r = docId)
     (\<lambda>r. r\<lparr>drow_title := title, drow_updated_at := now\<rparr>) (dir_documents D)\<rparr>"

definition touchDocument :: "Directory \<Rightarrow> string \<Rightarrow> int \<Rightarrow> Directory" where
  "touchDocument D docId now = D\<lparr>dir_documents := update_rows (\<lambda>r. drow_id r = docId)
     (\<lambda>r. r\<lparr>drow_updated_at := now\<rparr>) (dir_documents D)\<rparr>"

definition softDeleteDocument :: "Directory \<Rightarrow> string \<Rightarrow> string \<Rightarrow> int \<Rightarrow> Directory" where
  "softDeleteDocument D docId userId now = D\<lparr>dir_documents := update_rows (\<lambda>r. drow_id r = docId)
       (\<lambda>r. r\<lparr>drow_is_deleted := True, drow_updated_at := now\<rparr>) (dir_documents D),
     dir_audit := dir_audit D @ [\<lparr>ent_doc_id = docId, ent_user_id = userId, ent_action = ''delete'', ent_metadata = []\<rparr>]\<rparr>"

section \<open>Collaborators\<close>

record Collaborator =
  col_user_id :: string
  col_role :: string
  col_email :: string
  col_display_name :: string

definition getCollaborators :: "Directory \<Rightarrow> string \<Rightarrow> Collaborator list" where
  "getCollaborators D docId = concat (map (\<lambda>p. map (\<lambda>u. \<lparr>col_user_id = perm_user_id p, col_role = perm_role p,
       col_email = acc_email u, col_display_name = acc_display_name u\<rparr>)
     (filter (\<lambda>u. acc_id u = perm_user_id p) (dir_users D)))
     (filter (\<lambda>p. perm_doc_id p = docId) (dir_permissions D)))"

definition is_permission :: "string \<Rightarrow> string \<Rightarrow> PermissionRow \<Rightarrow> bool" where
  "is_permission docId userId p \<longleftrightarrow> perm_doc_id p = docId \<and> perm_user_id p = userId"

text \<open>The \<open>CHECK\<close> on the role is evaluated for the rows the statement touches.\<close>

definition updateCollaboratorRole :: "Directory \<Rightarrow> string \<Rightarrow> string \<Rightarrow> string \<Rightarrow> unit statement" where
  "updateCollaboratorRole D docId userId role =
     (if (\<exists>p \<in> set (dir_permissions D). is_permission docId userId p) \<and> role \<notin> set permission_roles then Inl CheckViolation
      else Inr (D\<lparr>dir_permissions := update_rows (is_permission docId userId) (\<lambda>p. p\<lparr>perm_role := role\<rparr>) (dir_permissions D)\<rparr>, ()))"

definition removeCollaborator :: "Directory \<Rightarrow> string \<Rightarrow> string \<Rightarrow> Directory" where
  "removeCollaborator D docId userId =
     D\<lparr>dir_permissions := filter (\<lambda>p. \<not> is_permission docId userId p) (dir_permissions D)\<rparr>"

section \<open>Invitations\<close>

datatype invite_error = InvalidInvitation | InviteDb db_error

definition insert_invitation :: "Directory \<Rightarrow> Invitation \<Rightarrow> Invitation statement" where
  "insert_invitation D i =
     (if inv_invitee_email i = None then Inl NotNullViolation
      else if inv_role i \<notin> set invitation_roles then Inl CheckViolation
      else if \<not> has_document D (inv_doc_id i) \<or> \<not> has_user D (inv_inviter_id i) then Inl ForeignKeyViolation
      else if inv_id i \<in> inv_id ` set (dir_invitations D) \<or> inv_token i \<in> inv_token ` set (dir_invitations D)
        then Inl UniqueViolation
      else Inr (D\<lparr>dir_invitations := dir_invitations D @ [i]\<rparr>, i))"

text \<open>\<open>setHours(getHours() + expiresInHours)\<close> counts on the clock of the server's time zone, which is an argument; ten
  years of \<open>setFullYear\<close> are given as the resulting instant.\<close>

definition createEmailInvitation ::
  "(int \<Rightarrow> int \<Rightarrow> int) \<Rightarrow> Directory \<Rightarrow> string \<Rightarrow> string \<Rightarrow> string \<Rightarrow> string \<Rightarrow> int \<Rightarrow> string \<Rightarrow> string \<Rightarrow> int \<Rightarrow> Invitation statement" where
  "createEmailInvitation addHours D docId inviterId email role expiresInHours uuid token now =
     insert_invitation D \<lparr>inv_id = uuid, inv_doc_id = docId, inv_inviter_id = inviterId, inv_invitee_email = Some email,
       inv_role = role, inv_token = token, inv_status = ''pending'', inv_expires_at = addHours now expiresInHours,
       inv_created_at = now\<rparr>"

definition createLinkInvitation ::
  "Directory \<Rightarrow> string \<Rightarrow> string \<Rightarrow> string \<Rightarrow> string \<Rightarrow> string \<Rightarrow> int \<Rightarrow> int \<Rightarrow> Invitation statement" where
  "createLinkInvitation D docId inviterId role uuid token now inTenYears =
     insert_invitation D \<lparr>inv_id = uuid, inv_doc_id = docId, inv_inviter_id = inviterId, inv_invitee_email = None,
       inv_role = role, inv_token = token, inv_status = ''pending'', inv_expires_at = inTenYears, inv_created_at = now\<rparr>"

definition getInvitationByToken :: "Directory \<Rightarrow> string \<Rightarrow> int \<Rightarrow> Invitation option" where
  "getInvitationByToken D token now =
     (case filter (\<lambda>i. inv_token i = token \<and> inv_expires_at i > now) (dir_invitations D) of i # _ \<Rightarrow> Some i | [] \<Rightarrow> None)"

definition revokeInvitation :: "Directory \<Rightarrow> string \<Rightarrow> Directory" where
  "revokeInvitation D i = D\<lparr>dir_invitations := filter (\<lambda>x. inv_id x \<noteq> i) (dir_invitations D)\<rparr>"

text \<open>\<open>INSERT ... ON CONFLICT (doc_id, user_id) DO UPDATE SET role = EXCLUDED.role\<close>.\<close>

definition upsert_permission :: "Directory \<Rightarrow> string \<Rightarrow> string \<Rightarrow> string \<Rightarrow> db_error + PermissionRow list" where
  "upsert_permission D docId userId role =
     (if role \<notin> set permission_roles then Inl CheckViolation
      else if \<not> has_document D docId \<or> \<not> has_user D userId then Inl ForeignKeyViolation
      else if \<exists>p \<in> set (dir_permissions D). is_permission docId userId p
        then Inr (update_rows (is_permission docId userId) (\<lambda>p. p\<lparr>perm_role := role\<rparr>) (dir_permissions D))
      else Inr (dir_permissions D @ [\<lparr>perm_doc_id = docId, perm_user_id = userId, perm_role = role\<rparr>]))"

definition set_invitation_status :: "Invitation \<Rightarrow> string \<Rightarrow> Invitation list \<Rightarrow> Invitation list" where
  "set_invitation_status invite status is =
     (if (case inv_invitee_email invite of Some e \<Rightarrow> e \<noteq> [] | None \<Rightarrow> False)
      then update_rows (\<lambda>i. inv_id i = inv_id invite) (\<lambda>i. i\<lparr>inv_status := status\<rparr>) is else is)"

definition acceptInvitation :: "Directory \<Rightarrow> string \<Rightarrow> string \<Rightarrow> int \<Rightarrow> invite_error + Directory \<times> string" where
  "acceptInvitation D token userId now =
     (case getInvitationByToken D token now of
        None \<Rightarrow> Inl InvalidInvitation
      | Some invite \<Rightarrow>
          (case upsert_permission D (inv_doc_id invite) userId (inv_role invite) of
             Inl e \<Rightarrow> Inl (InviteDb e)
           | Inr perms \<Rightarrow> Inr (D\<lparr>dir_permissions := perms,
                 dir_invitations := set_invitation_status invite ''accepted'' (dir_invitations D),
                 dir_audit := dir_audit D @ [\<lparr>ent_doc_id = inv_doc_id invite, ent_user_id = userId,
                   ent_action = ''accept_invite'', ent_metadata = [(''role'', ascii (inv_role invite))]\<rparr>]\<rparr>, inv_doc_id invite)))"

definition rejectInvitation :: "Directory \<Rightarrow> string \<Rightarrow> string \<Rightarrow> int \<Rightarrow> invite_error + Directory" where
  "rejectInvitation D token userId now =
     (case getInvitationByToken D token now of
        None \<Rightarrow> Inl InvalidInvitation
      | Some invite \<Rightarrow> Inr (D\<lparr>dir_invitations := set_invitation_status invite ''rejected'' (dir_invitations D),
          dir_audit := dir_audit D @ [\<lparr>ent_doc_id = inv_doc_id invite, ent_user_id = userId,
            ent_action = ''reject_invite'', ent_metadata = [(''role'', ascii (inv_role invite))]\<rparr>]\<rparr>))"

section \<open>Notifications\<close>

definition createNotification ::
  "Directory \<Rightarrow> string \<Rightarrow> string \<Rightarrow> string \<Rightarrow> js_text \<Rightarrow> string option \<Rightarrow> string \<Rightarrow> int \<Rightarrow> NotificationRow statement" where
  "createNotification D userId type title message link uuid now =
     (if \<not> has_user D userId then Inl ForeignKeyViolation
      else let row = \<lparr>ntf_id = uuid, ntf_user_id = userId, ntf_type = type, ntf_title = title, ntf_message = message,
             ntf_link = link, ntf_read_at = None, ntf_created_at = now\<rparr>
        in Inr (D\<lparr>dir_notifications := dir_notifications D @ [row]\<rparr>, row))"

definition getUserNotifications :: "Directory \<Rightarrow> string \<Rightarrow> nat \<Rightarrow> nat \<Rightarrow> NotificationRow list" where
  "getUserNotifications D userId limit offset =
     take limit (drop offset (sort_key (\<lambda>n. - ntf_created_at n) (filter (\<lambda>n. ntf_user_id n = userId) (dir_notifications D))))"

definition markNotificationAsRead :: "Directory \<Rightarrow> string \<Rightarrow> string \<Rightarrow> int \<Rightarrow> Directory" where
  "markNotificationAsRead D i userId now = D\<lparr>dir_notifications :=
     update_rows (\<lambda>n. ntf_id n = i \<and> ntf_user_id n = userId) (\<lambda>n. n\<lparr>ntf_read_at := Some now\<rparr>) (dir_notifications D)\<rparr>"

definition markAllNotificationsAsRead :: "Directory \<Rightarrow> string \<Rightarrow> int \<Rightarrow> Directory" where
  "markAllNotificationsAsRead D userId now = D\<lparr>dir_notifications :=
     update_rows (\<lambda>n. ntf_user_id n = userId \<and> ntf_read_at n = None) (\<lambda>n. n\<lparr>ntf_read_at := Some now\<rparr>) (dir_notifications D)\<rparr>"

definition deleteNotification :: "Directory \<Rightarrow> string \<Rightarrow> string \<Rightarrow> Directory" where
  "deleteNotification D i userId = D\<lparr>dir_notifications :=
     filter (\<lambda>n. \<not> (ntf_id n = i \<and> ntf_user_id n = userId)) (dir_notifications D)\<rparr>"

section \<open>The tables stay consistent\<close>

definition permissions_ok :: "string set \<Rightarrow> string set \<Rightarrow> PermissionRow list \<Rightarrow> bool" where
  "permissions_ok docs users ps \<longleftrightarrow> distinct (map (\<lambda>p. (perm_doc_id p, perm_user_id p)) ps) \<and>
     (\<forall>p \<in> set ps. perm_role p \<in> set permission_roles \<and> perm_doc_id p \<in> docs \<and> perm_user_id p \<in> users)"

definition directory_ok :: "Directory \<Rightarrow> bool" where
  "directory_ok D \<longleftrightarrow> distinct (map acc_id (dir_users D)) \<and> distinct (map acc_email (dir_users D)) \<and>
     distinct (map drow_id (dir_documents D)) \<and>
     permissions_ok (drow_id ` set (dir_documents D)) (acc_id ` set (dir_users D)) (dir_permissions D) \<and>
     distinct (map inv_id (dir_invitations D)) \<and> distinct (map inv_token (dir_invitations D)) \<and>
     (\<forall>i \<in> set (dir_invitations D). inv_doc_id i \<in> drow_id ` set (dir_documents D))"

definition role_of :: "Directory \<Rightarrow> string \<Rightarrow> string \<Rightarrow> string option" where
  "role_of D docId userId =
     (case filter (is_permission docId userId) (dir_permissions D) of p # _ \<Rightarrow> Some (perm_role p) | [] \<Rightarrow> None)"

definition is_live :: "Directory \<Rightarrow> string \<Rightarrow> bool" where
  "is_live D docId \<longleftrightarrow> live_documents D docId \<noteq> []"

lemma update_rows_simps [simp]:
  "length (update_rows P f rows) = length rows"
  "(\<And>r. g (f r) = g r) \<Longrightarrow> map g (update_rows P f rows) = map g rows"
  "(\<And>r. g (f r) = g r) \<Longrightarrow> g ` set (update_rows P f rows) = g ` set rows"
proof -
  show "length (update_rows P f rows) = length rows" by (simp add: update_rows_def)
  assume g: "\<And>r. g (f r) = g r"
  then show m: "map g (update_rows P f rows) = map g rows" by (simp add: update_rows_def)
  then show "g ` set (update_rows P f rows) = g ` set rows" by (metis set_map)
qed

lemma update_rows_memD: "r \<in> set (update_rows P f rows) \<Longrightarrow> \<exists>r' \<in> set rows. r = (if P r' then f r' else r')"
  by (auto simp: update_rows_def)

lemma permissions_ok_update:
  assumes "permissions_ok docs users ps" "role \<in> set permission_roles"
  shows "permissions_ok docs users (update_rows P (\<lambda>p. p\<lparr>perm_role := role\<rparr>) ps)"
  using assms by (auto simp: permissions_ok_def dest!: update_rows_memD)

lemma permissions_ok_filter: "permissions_ok docs users ps \<Longrightarrow> permissions_ok docs users (filter P ps)"
  by (auto simp: permissions_ok_def distinct_map_filter)

lemma permissions_ok_append:
  assumes "permissions_ok docs users ps" "role \<in> set permission_roles" "d \<in> docs" "u \<in> users"
    and "\<forall>p \<in> set ps. \<not> is_permission d u p"
  shows "permissions_ok docs users (ps @ [\<lparr>perm_doc_id = d, perm_user_id = u, perm_role = role\<rparr>])"
  using assms by (auto simp: permissions_ok_def is_permission_def)

lemma upsert_permission_ok:
  assumes "upsert_permission D d u role = Inr ps"
    and "permissions_ok (drow_id ` set (dir_documents D)) (acc_id ` set (dir_users D)) (dir_permissions D)"
  shows "permissions_ok (drow_id ` set (dir_documents D)) (acc_id ` set (dir_users D)) ps"
  using assms
  by (auto simp: upsert_permission_def has_document_def has_user_def permissions_ok_update permissions_ok_append
      split: if_splits)

lemma role_of_update:
  "role_of (D\<lparr>dir_permissions := update_rows (is_permission d u) (\<lambda>p. p\<lparr>perm_role := role\<rparr>) (dir_permissions D)\<rparr>) e v =
     (if e = d \<and> v = u \<and> role_of D d u \<noteq> None then Some role else role_of D e v)"
proof -
  let ?f = "\<lambda>p. if is_permission d u p then p\<lparr>perm_role := role\<rparr> else p"
  have "is_permission e v (?f p) = is_permission e v p" for p by (simp add: is_permission_def)
  then have "filter (is_permission e v) (map ?f ps) = map ?f (filter (is_permission e v) ps)" for ps
    by (induction ps) auto
  then show ?thesis
    by (auto simp: role_of_def update_rows_def filter_empty_conv is_permission_def split: list.split
        dest!: filter_eq_ConsD)
qed

lemma role_of_remove:
  "role_of (removeCollaborator D d u) e v = (if e = d \<and> v = u then None else role_of D e v)"
proof (cases "e = d \<and> v = u")
  case True
  then show ?thesis by (simp add: role_of_def removeCollaborator_def)
next
  case False
  then have "filter (is_permission e v) (filter (\<lambda>p. \<not> is_permission d u p) ps) = filter (is_permission e v) ps" for ps
    by (induction ps) (auto simp: is_permission_def)
  then show ?thesis using False by (auto simp: role_of_def removeCollaborator_def simp del: filter_filter)
qed

lemma role_of_append:
  "role_of (D\<lparr>dir_permissions := dir_permissions D @ [\<lparr>perm_doc_id = d, perm_user_id = u, perm_role = role\<rparr>]\<rparr>) e v =
     (case role_of D e v of Some x \<Rightarrow> Some x | None \<Rightarrow> if e = d \<and> v = u then Some role else None)"
  by (auto simp: role_of_def is_permission_def split: list.split)

lemma role_of_None: "role_of D d u = None \<longleftrightarrow> (\<forall>p \<in> set (dir_permissions D). \<not> is_permission d u p)"
proof -
  have "role_of D d u = None \<longleftrightarrow> filter (is_permission d u) (dir_permissions D) = []"
    by (simp add: role_of_def split: list.split)
  then show ?thesis by (simp add: filter_empty_conv)
qed

lemma role_of_upsert:
  assumes "upsert_permission D d u role = Inr ps"
  shows "role_of (D\<lparr>dir_permissions := ps\<rparr>) e v = (if e = d \<and> v = u then Some role else role_of D e v)"
proof (cases "role_of D d u")
  case None
  then have "ps = dir_permissions D @ [\<lparr>perm_doc_id = d, perm_user_id = u, perm_role = role\<rparr>]"
    using assms by (auto simp: upsert_permission_def role_of_None split: if_splits)
  then show ?thesis
    using role_of_append [where D = D and d = d and u = u and role = role and e = e and v = v] None by (auto split: option.split)
next
  case (Some r)
  then have "\<not> (\<forall>p \<in> set (dir_permissions D). \<not> is_permission d u p)" by (simp flip: role_of_None)
  then show ?thesis
    using assms role_of_update [where D = D and d = d and u = u and role = role and e = e and v = v] Some by (auto simp: upsert_permission_def split: if_splits)
qed

lemma role_of_cong [simp]:
  "role_of (D\<lparr>dir_documents := x\<rparr>) d u = role_of D d u" "role_of (D\<lparr>dir_invitations := y\<rparr>) d u = role_of D d u"
  "role_of (D\<lparr>dir_audit := z\<rparr>) d u = role_of D d u" "role_of (D\<lparr>dir_notifications := w\<rparr>) d u = role_of D d u"
  by (simp_all add: role_of_def)

lemma permission_lookup:
  assumes "directory_ok D"
  shows "getDocumentWithPermission toISO D d u =
    (case live_documents D d of r # _ \<Rightarrow> map_option (withRole toISO r) (role_of D d u) | [] \<Rightarrow> None)"
proof -
  have one: "distinct (map drow_id rs) \<Longrightarrow> length (filter (\<lambda>r. drow_id r = d) rs) \<le> 1" for rs
    by (induction rs) (auto simp: filter_empty_conv image_iff)
  have "length (filter (\<lambda>r. drow_id r = d) (dir_documents D)) \<le> 1"
    by (rule one) (use assms in \<open>simp add: directory_ok_def\<close>)
  moreover have "live_documents D d = filter (\<lambda>r. \<not> drow_is_deleted r) (filter (\<lambda>r. drow_id r = d) (dir_documents D))"
    by (simp add: live_documents_def conj_commute)
  ultimately have "length (live_documents D d) \<le> 1"
    by (metis length_filter_le order_trans)
  then consider "live_documents D d = []" | r where "live_documents D d = [r]"
    by (cases "live_documents D d") auto
  then show ?thesis
  proof cases
    case 2
    then have "r \<in> set (live_documents D d)" by simp
    then have "drow_id r = d" by (simp add: live_documents_def)
    then show ?thesis
      using 2 by (simp add: getDocumentWithPermission_def join_permissions_def role_of_def is_permission_def [abs_def]
          split: list.split)
  qed (simp add: getDocumentWithPermission_def join_permissions_def)
qed

text \<open>Every statement of the stores keeps the tables consistent.\<close>

lemma createDocument_cases:
  assumes "createDocument toISO D title u uuid now = Inr (D', r)"
  obtains row where "\<not> has_document D uuid" "has_user D u" "drow_id row = uuid" "\<not> drow_is_deleted row"
    "\<forall>p \<in> set (dir_permissions D). \<not> is_permission uuid u p"
    "dir_documents D' = dir_documents D @ [row]" "dir_users D' = dir_users D" "dir_invitations D' = dir_invitations D"
    "dir_permissions D' = dir_permissions D @ [\<lparr>perm_doc_id = uuid, perm_user_id = u, perm_role = ''owner''\<rparr>]"
proof (rule that [of "\<lparr>drow_id = uuid, drow_title = title, drow_owner_id = u, drow_created_at = now,
    drow_updated_at = now, drow_is_deleted = False\<rparr>"])
qed (use assms in \<open>auto simp: createDocument_def is_permission_def Let_def split: if_splits\<close>)

lemma createDocument_ok:
  assumes "directory_ok D" "createDocument toISO D title u uuid now = Inr (D', r)"
  shows "directory_ok D'"
proof (rule createDocument_cases [OF assms(2)])
  fix row
  assume c: "\<not> has_document D uuid" "has_user D u" "drow_id row = uuid" "\<not> drow_is_deleted row"
    "\<forall>p \<in> set (dir_permissions D). \<not> is_permission uuid u p"
    "dir_documents D' = dir_documents D @ [row]" "dir_users D' = dir_users D" "dir_invitations D' = dir_invitations D"
    "dir_permissions D' = dir_permissions D @ [\<lparr>perm_doc_id = uuid, perm_user_id = u, perm_role = ''owner''\<rparr>]"
  have "permissions_ok (drow_id ` set (dir_documents D')) (acc_id ` set (dir_users D)) (dir_permissions D)"
    using assms(1) by (auto simp: directory_ok_def permissions_ok_def c(6))
  then have "permissions_ok (drow_id ` set (dir_documents D')) (acc_id ` set (dir_users D)) (dir_permissions D')"
    unfolding c(9) by (rule permissions_ok_append) (use c in \<open>auto simp: permission_roles_def has_user_def\<close>)
  then show ?thesis
    using assms(1) c(1) by (auto simp: directory_ok_def c(3,6-8) has_document_def)
qed

lemma permissions_update_ok:
  assumes "directory_ok D" "permissions_ok (drow_id ` set (dir_documents D)) (acc_id ` set (dir_users D)) ps"
  shows "directory_ok (D\<lparr>dir_permissions := ps\<rparr>)"
  using assms by (simp add: directory_ok_def)

lemma updateCollaboratorRole_ok:
  assumes "directory_ok D" "updateCollaboratorRole D d u role = Inr (D', r)"
  shows "directory_ok D'"
proof (cases "role \<in> set permission_roles")
  case True
  then show ?thesis
    using assms by (auto simp: updateCollaboratorRole_def directory_ok_def permissions_ok_update split: if_splits)
next
  case False
  then have "\<forall>p \<in> set (dir_permissions D). \<not> is_permission d u p"
    using assms(2) by (auto simp: updateCollaboratorRole_def split: if_splits)
  then have "update_rows (is_permission d u) (\<lambda>p. p\<lparr>perm_role := role\<rparr>) (dir_permissions D) = dir_permissions D"
    by (auto simp: update_rows_def intro: map_idI)
  then show ?thesis using assms by (auto simp: updateCollaboratorRole_def split: if_splits)
qed

lemma removeCollaborator_ok: "directory_ok D \<Longrightarrow> directory_ok (removeCollaborator D d u)"
  by (simp add: directory_ok_def removeCollaborator_def permissions_ok_filter)

lemma softDelete_ok: "directory_ok D \<Longrightarrow> directory_ok (softDeleteDocument D d u now)"
  by (simp add: directory_ok_def softDeleteDocument_def)

lemma insert_invitation_ok: "directory_ok D \<Longrightarrow> insert_invitation D i = Inr (D', r) \<Longrightarrow> directory_ok D'"
  by (auto simp: directory_ok_def insert_invitation_def has_document_def split: if_splits)

lemma revokeInvitation_ok: "directory_ok D \<Longrightarrow> directory_ok (revokeInvitation D i)"
  by (auto simp: directory_ok_def revokeInvitation_def distinct_map_filter)

lemma set_status_ok:
  "directory_ok D \<Longrightarrow> directory_ok (D\<lparr>dir_invitations := set_invitation_status invite status (dir_invitations D)\<rparr>)"
  by (auto simp: directory_ok_def set_invitation_status_def dest!: update_rows_memD split: if_splits option.splits)

lemma audit_ok [simp]: "directory_ok (D\<lparr>dir_audit := x\<rparr>) \<longleftrightarrow> directory_ok D"
  "directory_ok (D\<lparr>dir_notifications := y\<rparr>) \<longleftrightarrow> directory_ok D"
  by (simp_all add: directory_ok_def)

lemma acceptInvitation_ok:
  assumes "directory_ok D" "acceptInvitation D token u now = Inr (D', d)"
  shows "directory_ok D'"
proof -
  obtain invite ps where i: "upsert_permission D (inv_doc_id invite) u (inv_role invite) = Inr ps"
    "dir_permissions D' = ps" "dir_invitations D' = set_invitation_status invite ''accepted'' (dir_invitations D)"
    "dir_users D' = dir_users D" "dir_documents D' = dir_documents D"
    using assms(2) by (auto simp: acceptInvitation_def split: option.splits sum.splits)
  have "permissions_ok (drow_id ` set (dir_documents D)) (acc_id ` set (dir_users D)) ps"
    by (rule upsert_permission_ok [OF i(1)]) (use assms(1) in \<open>simp add: directory_ok_def\<close>)
  moreover have "directory_ok (D\<lparr>dir_invitations := set_invitation_status invite ''accepted'' (dir_invitations D)\<rparr>)"
    by (rule set_status_ok [OF assms(1)])
  ultimately show ?thesis by (simp add: directory_ok_def i)
qed

lemma rejectInvitation_ok:
  assumes "directory_ok D" "rejectInvitation D token u now = Inr D'"
  shows "directory_ok D'"
  using assms by (auto simp: rejectInvitation_def set_status_ok split: option.splits)

end
