(* ===== verification/Document_Routes.thy ===== *)
theory Document_Routes
  imports Document_Store Redis_Pubsub Input_Sanitizer History_Service
begin

text \<open>
  The HTTP routes on documents, collaborators, invitations and notifications:
  \<^verbatim>\<open>src/server/api/routes/documents.ts\<close>, \<^verbatim>\<open>invites.ts\<close>, \<^verbatim>\<open>notifications.ts\<close>, \<^verbatim>\<open>history.ts\<close>, \<^verbatim>\<open>dashboard.ts\<close>
  and the middleware before them. A handler takes the tables and the user that \<open>requireAuth\<close> found to the new
  tables, what it publishes and its response. An exception that leaves an asynchronous handler is logged
  and the request is never answered. The lemmas say who may change whose rights on a document.
\<close>

section \<open>Requests and responses\<close>

record JWTPayload =
  jwt_sub :: string
  jwt_email :: string
  jwt_displayName :: js_text

datatype body =
    OkBody
  | ErrorBody string
  | DbErrorBody db_error
  | DocumentBody Document
  | PermittedBody DocumentWithPermission
  | DocumentsBody "DocumentWithPermission list"
  | JoinedBody string
  | InvitationBody Invitation
  | InviteMetaBody string string "string option"
  | PendingBody "(string \<times> string option \<times> string \<times> int) list"
  | CollaboratorsBody "Collaborator list"
  | NotificationsBody "NotificationRow list"
  | DashboardBody "DocumentWithPermission list" "DocumentWithPermission list" nat
  | HistoryBody HistoryPage
  | RevisionsBody "ListedRevision list"
  | SnapshotsBody "SnapshotRecord list"

datatype response = Reply int body | Unanswered db_error

type_synonym effect = "Directory \<times> (string \<times> bus_message) list \<times> response"

record RequestEnv =
  rq_now :: int
  rq_addHours :: "int \<Rightarrow> int \<Rightarrow> int"
  rq_docId :: string
  rq_invId :: string
  rq_token :: string
  rq_notifId :: string
  rq_publishOk :: bool

definition answer :: "Directory \<Rightarrow> int \<Rightarrow> body \<Rightarrow> effect" where
  "answer D status b = (D, [], Reply status b)"

section \<open>Middleware\<close>

definition requireAuth :: "(string \<Rightarrow> JWTPayload option) \<Rightarrow> string option \<Rightarrow> string + JWTPayload" where
  "requireAuth verifyAccessToken authHeader =
     (case authHeader of
        None \<Rightarrow> Inl ''Missing authorization header''
      | Some h \<Rightarrow>
          if \<not> startsWith h ''Bearer '' then Inl ''Missing authorization header''
          else (case verifyAccessToken (drop 7 h) of
             Some payload \<Rightarrow> Inr payload | None \<Rightarrow> Inl ''Invalid or expired token''))"

definition validate :: "(json \<Rightarrow> 'a option) \<Rightarrow> json \<Rightarrow> Directory \<Rightarrow> ('a \<Rightarrow> effect) \<Rightarrow> effect" where
  "validate schema v D next_handler =
     (case schema v of None \<Rightarrow> answer D 400 (ErrorBody ''Validation failed'') | Some x \<Rightarrow> next_handler x)"

section \<open>Documents\<close>

definition postDocument :: "(int \<Rightarrow> string) \<Rightarrow> Directory \<Rightarrow> RequestEnv \<Rightarrow> JWTPayload \<Rightarrow> json \<Rightarrow> effect" where
  "postDocument toISO D E who v = validate CreateDocumentSchema v D (\<lambda>title.
     case createDocument toISO D title (jwt_sub who) (rq_docId E) (rq_now E) of
       Inl e \<Rightarrow> (D, [], Unanswered e)
     | Inr (D', doc) \<Rightarrow> answer D' 201 (DocumentBody doc))"

definition getDocuments :: "(int \<Rightarrow> string) \<Rightarrow> Directory \<Rightarrow> JWTPayload \<Rightarrow> effect" where
  "getDocuments toISO D who = answer D 200 (DocumentsBody (listDocuments toISO D (jwt_sub who)))"

definition getDocumentRoute :: "(int \<Rightarrow> string) \<Rightarrow> Directory \<Rightarrow> JWTPayload \<Rightarrow> string \<Rightarrow> effect" where
  "getDocumentRoute toISO D who d =
     (case getDocumentWithPermission toISO D d (jwt_sub who) of
        None \<Rightarrow> answer D 404 (ErrorBody ''Document not found or access denied'')
      | Some doc \<Rightarrow> answer D 200 (PermittedBody doc))"

definition deleteDocument :: "(int \<Rightarrow> string) \<Rightarrow> Directory \<Rightarrow> RequestEnv \<Rightarrow> JWTPayload \<Rightarrow> string \<Rightarrow> effect" where
  "deleteDocument toISO D E who d =
     (case getDocumentWithPermission toISO D d (jwt_sub who) of
        None \<Rightarrow> answer D 404 (ErrorBody ''Document not found'')
      | Some doc \<Rightarrow>
          if doc_role doc \<noteq> owner then answer D 403 (ErrorBody ''Only the owner can delete a document'')
          else answer (softDeleteDocument D d (jwt_sub who) (rq_now E)) 200 OkBody)"

section \<open>Invitations\<close>

definition quote :: js_text where
  "quote = [34]"

definition invitationMessage :: "string \<Rightarrow> js_text \<Rightarrow> js_text" where
  "invitationMessage email title = ascii email @ ascii '' invited you to edit '' @ quote @ title @ quote"

definition notification_json :: "(int \<Rightarrow> string) \<Rightarrow> NotificationRow \<Rightarrow> json" where
  "notification_json toISO n = JObj [
     (''id'', JStr (ascii (ntf_id n))), (''user_id'', JStr (ascii (ntf_user_id n))),
     (''type'', JStr (ascii (ntf_type n))), (''message'', JStr (ntf_message n)),
     (''read_at'', case ntf_read_at n of Some t \<Rightarrow> JStr (ascii (toISO t)) | None \<Rightarrow> JNull),
     (''metadata'', JObj ((''title'', JStr (ascii (ntf_title n))) #
        (case ntf_link n of Some l \<Rightarrow> [(''link'', JStr (ascii l))] | None \<Rightarrow> []))),
     (''created_at'', JStr (ascii (toISO (ntf_created_at n))))]"

definition pending_invitations :: "Directory \<Rightarrow> string \<Rightarrow> int \<Rightarrow> Invitation list" where
  "pending_invitations D d now =
     filter (\<lambda>i. inv_doc_id i = d \<and> inv_status i = ''pending'' \<and> inv_expires_at i > now) (dir_invitations D)"

definition collaborator_count :: "Directory \<Rightarrow> string \<Rightarrow> nat" where
  "collaborator_count D d = length (filter (\<lambda>p. perm_doc_id p = d) (dir_permissions D))"

text \<open>Steps 6 to 8 and the log entry; a failure leaves what the earlier statements wrote.\<close>

definition send_invitation ::
  "(int \<Rightarrow> string) \<Rightarrow> Directory \<Rightarrow> RequestEnv \<Rightarrow> JWTPayload \<Rightarrow> DocumentWithPermission \<Rightarrow> string \<Rightarrow> string \<Rightarrow> string \<Rightarrow> string \<Rightarrow> effect" where
  "send_invitation toISO D E who doc d target email role =
     (case createEmailInvitation (rq_addHours E) D d (jwt_sub who) email role 72 (rq_invId E) (rq_token E) (rq_now E) of
        Inl e \<Rightarrow> (D, [], Unanswered e)
      | Inr (D1, invite) \<Rightarrow>
          (case createNotification D1 target ''INVITATION'' ''Document Invitation''
                  (invitationMessage (jwt_email who) (doc_title doc)) (Some (''/invite/'' @ inv_token invite))
                  (rq_notifId E) (rq_now E) of
             Inl e \<Rightarrow> (D1, [], Unanswered e)
           | Inr (D2, notification) \<Rightarrow>
               if \<not> rq_publishOk E then (D2, [], Unanswered PublishFailed)
               else (D2\<lparr>dir_audit := dir_audit D2 @ [\<lparr>ent_doc_id = d, ent_user_id = jwt_sub who,
                       ent_action = ''invite_user'', ent_metadata = [(''invited_email'', ascii email), (''role'', ascii role)]\<rparr>]\<rparr>,
                     [publishUserNotification target (notification_json toISO notification)],
                     Reply 201 (InvitationBody invite))))"

definition postInvite ::
  "(int \<Rightarrow> string) \<Rightarrow> Directory \<Rightarrow> RequestEnv \<Rightarrow> JWTPayload \<Rightarrow> string \<Rightarrow> string option \<Rightarrow> string option \<Rightarrow> string option \<Rightarrow> effect" where
  "postInvite toISO D E who d emailField roleField typeField =
     (case getDocumentWithPermission toISO D d (jwt_sub who) of
        None \<Rightarrow> answer D 404 (ErrorBody ''Document not found'')
      | Some doc \<Rightarrow>
          if doc_role doc \<noteq> owner \<and> doc_role doc \<noteq> editor
            then answer D 403 (ErrorBody ''You do not have permission to invite users'')
          else let role = (case roleField of Some r \<Rightarrow> r | None \<Rightarrow> ''viewer'');
                   type = (case typeField of Some t \<Rightarrow> t | None \<Rightarrow> ''email'')
            in if type \<noteq> ''email'' then answer D 400 (ErrorBody ''Only email invitations are supported in this version'')
               else (case truthy emailField of
                  None \<Rightarrow> answer D 400 (ErrorBody ''Email is required'')
                | Some email \<Rightarrow>
                    (case filter (\<lambda>u. acc_email u = email) (dir_users D) of
                       [] \<Rightarrow> answer D 404 (ErrorBody ''No registered user found with that email address'')
                     | target # _ \<Rightarrow>
                         if acc_id target = jwt_sub who then answer D 400 (ErrorBody ''You cannot invite yourself'')
                         else if filter (is_permission d (acc_id target)) (dir_permissions D) \<noteq> []
                           then answer D 400 (ErrorBody ''User is already a collaborator on this document'')
                         else if collaborator_count D d \<ge> 10
                           then answer D 400 (ErrorBody ''Maximum collaborator limit (10) reached for this document'')
                         else if filter (\<lambda>i. inv_invitee_email i = Some email) (pending_invitations D d (rq_now E)) \<noteq> []
                           then answer D 400 (ErrorBody ''An invitation is already pending for this user'')
                         else send_invitation toISO D E who doc d (acc_id target) email role)))"

definition getInvites :: "(int \<Rightarrow> string) \<Rightarrow> Directory \<Rightarrow> RequestEnv \<Rightarrow> JWTPayload \<Rightarrow> string \<Rightarrow> effect" where
  "getInvites toISO D E who d =
     (case getDocumentWithPermission toISO D d (jwt_sub who) of
        None \<Rightarrow> answer D 404 (ErrorBody ''Document not found'')
      | Some _ \<Rightarrow> answer D 200 (PendingBody (map (\<lambda>i. (inv_id i, inv_invitee_email i, inv_role i, inv_expires_at i))
          (pending_invitations D d (rq_now E)))))"

definition getCollaboratorsRoute :: "(int \<Rightarrow> string) \<Rightarrow> Directory \<Rightarrow> JWTPayload \<Rightarrow> string \<Rightarrow> effect" where
  "getCollaboratorsRoute toISO D who d =
     (case getDocumentWithPermission toISO D d (jwt_sub who) of
        None \<Rightarrow> answer D 404 (ErrorBody ''Document not found'')
      | Some _ \<Rightarrow> answer D 200 (CollaboratorsBody (getCollaborators D d)))"

text \<open>A missing role is \<open>NULL\<close> for the database.\<close>

definition patchCollaborator ::
  "(int \<Rightarrow> string) \<Rightarrow> Directory \<Rightarrow> JWTPayload \<Rightarrow> string \<Rightarrow> string \<Rightarrow> string option \<Rightarrow> effect" where
  "patchCollaborator toISO D who d target roleField =
     (if map_option doc_role (getDocumentWithPermission toISO D d (jwt_sub who)) \<noteq> Some owner
      then answer D 403 (ErrorBody ''Only the owner can update roles'')
      else case roleField of
          None \<Rightarrow> if role_of D d target = None then answer D 200 OkBody else (D, [], Unanswered NotNullViolation)
        | Some role \<Rightarrow>
            (case updateCollaboratorRole D d target role of
               Inl e \<Rightarrow> (D, [], Unanswered e)
             | Inr (D', _) \<Rightarrow> answer D' 200 OkBody))"

definition deleteCollaborator ::
  "(int \<Rightarrow> string) \<Rightarrow> Directory \<Rightarrow> JWTPayload \<Rightarrow> string \<Rightarrow> string \<Rightarrow> effect" where
  "deleteCollaborator toISO D who d target =
     (case getDocumentWithPermission toISO D d (jwt_sub who) of
        None \<Rightarrow> answer D 403 (ErrorBody ''Not authorized to remove this collaborator'')
      | Some doc \<Rightarrow>
          if doc_role doc \<noteq> owner \<and> jwt_sub who \<noteq> target
          then answer D 403 (ErrorBody ''Not authorized to remove this collaborator'')
          else answer (removeCollaborator D d target) 200 OkBody)"

definition getInvite :: "Directory \<Rightarrow> RequestEnv \<Rightarrow> string \<Rightarrow> effect" where
  "getInvite D E token =
     (case getInvitationByToken D token (rq_now E) of
        None \<Rightarrow> answer D 404 (ErrorBody ''Invitation not found or expired'')
      | Some i \<Rightarrow> answer D 200 (InviteMetaBody (inv_doc_id i) (inv_role i) (inv_invitee_email i)))"

definition invite_error_body :: "invite_error \<Rightarrow> body" where
  "invite_error_body e = (case e of InvalidInvitation \<Rightarrow> ErrorBody ''Invalid or expired invitation token''
     | InviteDb e' \<Rightarrow> DbErrorBody e')"

definition acceptInvite :: "Directory \<Rightarrow> RequestEnv \<Rightarrow> JWTPayload \<Rightarrow> string \<Rightarrow> effect" where
  "acceptInvite D E who token =
     (case acceptInvitation D token (jwt_sub who) (rq_now E) of
        Inl e \<Rightarrow> answer D 400 (invite_error_body e)
      | Inr (D', d) \<Rightarrow> answer D' 200 (JoinedBody d))"

definition rejectInvite :: "Directory \<Rightarrow> RequestEnv \<Rightarrow> JWTPayload \<Rightarrow> string \<Rightarrow> effect" where
  "rejectInvite D E who token =
     (case rejectInvitation D token (jwt_sub who) (rq_now E) of
        Inl e \<Rightarrow> answer D 400 (invite_error_body e)
      | Inr D' \<Rightarrow> answer D' 200 OkBody)"

definition revokeInvite :: "Directory \<Rightarrow> string \<Rightarrow> effect" where
  "revokeInvite D i = answer (revokeInvitation D i) 200 OkBody"

section \<open>Notifications, history, dashboard\<close>

text \<open>A number in the query string: absent, or what \<open>parseInt\<close> made of it.\<close>

datatype query_number = Absent | NotANumber | Number int

definition number_or :: "int \<Rightarrow> query_number \<Rightarrow> int" where
  "number_or n q = (case q of Number k \<Rightarrow> if k = 0 then n else k | _ \<Rightarrow> n)"

definition getNotifications :: "Directory \<Rightarrow> JWTPayload \<Rightarrow> query_number \<Rightarrow> query_number \<Rightarrow> effect" where
  "getNotifications D who limitQ offsetQ =
     (let limit = number_or 20 limitQ; offset = number_or 0 offsetQ
      in if limit < 0 \<or> offset < 0 then (D, [], Unanswered InvalidParameter)
         else answer D 200 (NotificationsBody (getUserNotifications D (jwt_sub who) (nat limit) (nat offset))))"

definition readAllNotifications :: "Directory \<Rightarrow> RequestEnv \<Rightarrow> JWTPayload \<Rightarrow> effect" where
  "readAllNotifications D E who = answer (markAllNotificationsAsRead D (jwt_sub who) (rq_now E)) 200 OkBody"

definition readNotification :: "Directory \<Rightarrow> RequestEnv \<Rightarrow> JWTPayload \<Rightarrow> string \<Rightarrow> effect" where
  "readNotification D E who i = answer (markNotificationAsRead D i (jwt_sub who) (rq_now E)) 200 OkBody"

definition deleteNotificationRoute :: "Directory \<Rightarrow> JWTPayload \<Rightarrow> string \<Rightarrow> effect" where
  "deleteNotificationRoute D who i = answer (deleteNotification D i (jwt_sub who)) 200 OkBody"

definition page_of :: "query_number \<Rightarrow> nat option" where
  "page_of q = (case q of Absent \<Rightarrow> Some 0 | NotANumber \<Rightarrow> None | Number n \<Rightarrow> Some (nat (max 0 n)))"

definition pageSize_of :: "query_number \<Rightarrow> nat option" where
  "pageSize_of q = (case q of Absent \<Rightarrow> Some 50 | NotANumber \<Rightarrow> None | Number n \<Rightarrow> Some (nat (min 200 (max 1 n))))"

definition getHistoryRoute ::
  "(int \<Rightarrow> string) \<Rightarrow> Directory \<Rightarrow> Database \<Rightarrow> JWTPayload \<Rightarrow> string \<Rightarrow> query_number \<Rightarrow> query_number \<Rightarrow> effect" where
  "getHistoryRoute toISO D db who d pageQ sizeQ =
     (case getDocumentWithPermission toISO D d (jwt_sub who) of
        None \<Rightarrow> answer D 404 (ErrorBody ''Not found'')
      | Some _ \<Rightarrow>
          (case (page_of pageQ, pageSize_of sizeQ) of
             (Some page, Some pageSize) \<Rightarrow> answer D 200 (HistoryBody (getHistory db d page pageSize))
           | _ \<Rightarrow> (D, [], Unanswered InvalidParameter)))"

definition getRevisions :: "(int \<Rightarrow> string) \<Rightarrow> Directory \<Rightarrow> Database \<Rightarrow> JWTPayload \<Rightarrow> string \<Rightarrow> effect" where
  "getRevisions toISO D db who d =
     (case getDocumentWithPermission toISO D d (jwt_sub who) of
        None \<Rightarrow> answer D 404 (ErrorBody ''Not found'')
      | Some _ \<Rightarrow> answer D 200 (RevisionsBody (listRevisions db d)))"

definition getSnapshots :: "(int \<Rightarrow> string) \<Rightarrow> Directory \<Rightarrow> Database \<Rightarrow> JWTPayload \<Rightarrow> string \<Rightarrow> effect" where
  "getSnapshots toISO D db who d =
     (case getDocumentWithPermission toISO D d (jwt_sub who) of
        None \<Rightarrow> answer D 404 (ErrorBody ''Not found'')
      | Some _ \<Rightarrow> answer D 200 (SnapshotsBody (listSnapshots db d)))"

definition is_starred :: "Directory \<Rightarrow> string \<Rightarrow> string \<Rightarrow> bool" where
  "is_starred D userId d \<longleftrightarrow> (\<exists>m \<in> set (dir_meta D). meta_doc_id m = d \<and> meta_user_id m = userId \<and> meta_is_starred m)"

definition getDashboard :: "(int \<Rightarrow> string) \<Rightarrow> Directory \<Rightarrow> JWTPayload \<Rightarrow> effect" where
  "getDashboard toISO D who =
     (let u = jwt_sub who;
          unread = length (filter (\<lambda>n. ntf_user_id n = u \<and> ntf_read_at n = None) (dir_notifications D));
          starred = map (\<lambda>(r, role). withRole toISO r role) (take 10 (sort_key (\<lambda>(r, _). - drow_updated_at r)
            (filter (\<lambda>(r, _). is_starred D u (drow_id r))
              (join_permissions D u (filter (\<lambda>r. \<not> drow_is_deleted r) (dir_documents D))))))
      in answer D 200 (DashboardBody (take 10 (listDocuments toISO D u)) starred unread))"

section \<open>The router\<close>

datatype request =
    PostDocument json
  | GetDocuments
  | GetDocument string
  | DeleteDocument string
  | PostInvite string "string option" "string option" "string option"
  | GetInvites string
  | GetCollaborators string
  | PatchCollaborator string string "string option"
  | DeleteCollaborator string string
  | GetInvite string
  | AcceptInvite string
  | RejectInvite string
  | RevokeInvite string
  | GetNotifications query_number query_number
  | ReadAllNotifications
  | ReadNotification string
  | DeleteNotification string
  | GetHistory string query_number query_number
  | GetRevisions string
  | GetSnapshots string
  | GetDashboard

fun dispatch ::
  "(int \<Rightarrow> string) \<Rightarrow> Database \<Rightarrow> Directory \<Rightarrow> RequestEnv \<Rightarrow> JWTPayload \<Rightarrow> request \<Rightarrow> effect" where
  "dispatch toISO db D E who (PostDocument v) = postDocument toISO D E who v"
| "dispatch toISO db D E who GetDocuments = getDocuments toISO D who"
| "dispatch toISO db D E who (GetDocument d) = getDocumentRoute toISO D who d"
| "dispatch toISO db D E who (DeleteDocument d) = deleteDocument toISO D E who d"
| "dispatch toISO db D E who (PostInvite d email role type) = postInvite toISO D E who d email role type"
| "dispatch toISO db D E who (GetInvites d) = getInvites toISO D E who d"
| "dispatch toISO db D E who (GetCollaborators d) = getCollaboratorsRoute toISO D who d"
| "dispatch toISO db D E who (PatchCollaborator d target role) = patchCollaborator toISO D who d target role"
| "dispatch toISO db D E who (DeleteCollaborator d target) = deleteCollaborator toISO D who d target"
| "dispatch toISO db D E who (GetInvite token) = getInvite D E token"
| "dispatch toISO db D E who (AcceptInvite token) = acceptInvite D E who token"
| "dispatch toISO db D E who (RejectInvite token) = rejectInvite D E who token"
| "dispatch toISO db D E who (RevokeInvite i) = revokeInvite D i"
| "dispatch toISO db D E who (GetNotifications limit offset) = getNotifications D who limit offset"
| "dispatch toISO db D E who ReadAllNotifications = readAllNotifications D E who"
| "dispatch toISO db D E who (ReadNotification i) = readNotification D E who i"
| "dispatch toISO db D E who (DeleteNotification i) = deleteNotificationRoute D who i"
| "dispatch toISO db D E who (GetHistory d page pageSize) = getHistoryRoute toISO D db who d page pageSize"
| "dispatch toISO db D E who (GetRevisions d) = getRevisions toISO D db who d"
| "dispatch toISO db D E who (GetSnapshots d) = getSnapshots toISO D db who d"
| "dispatch toISO db D E who GetDashboard = getDashboard toISO D who"

definition serve ::
  "(string \<Rightarrow> JWTPayload option) \<Rightarrow> (int \<Rightarrow> string) \<Rightarrow> Database \<Rightarrow> Directory \<Rightarrow> RequestEnv \<Rightarrow> string option \<Rightarrow> request \<Rightarrow> effect" where
  "serve verify toISO db D E authHeader req =
     (case requireAuth verify authHeader of
        Inl e \<Rightarrow> answer D 401 (ErrorBody e)
      | Inr who \<Rightarrow> dispatch toISO db D E who req)"

section \<open>Who may change what\<close>

lemma withRole_role [simp]: "doc_role (withRole toISO r role) = DocumentPermission_of role"
  by (simp add: withRole_def Document.defs)

lemma DocumentPermission_of_owner [simp]:
  "DocumentPermission_of r = owner \<longleftrightarrow> r = ''owner''" "owner = DocumentPermission_of r \<longleftrightarrow> r = ''owner''"
  by (auto simp: DocumentPermission_of_def)

lemma permitted_role:
  assumes "directory_ok D" "getDocumentWithPermission toISO D d u = Some doc"
  shows "is_live D d \<and> (\<exists>r. role_of D d u = Some r \<and> doc_role doc = DocumentPermission_of r)"
  using assms by (auto simp: permission_lookup is_live_def split: list.splits)

text \<open>A handler that only reads, or touches neither documents nor permissions, keeps all rights.\<close>

definition same_rights :: "Directory \<Rightarrow> Directory \<Rightarrow> bool" where
  "same_rights D D' \<longleftrightarrow> dir_permissions D' = dir_permissions D \<and> dir_documents D' = dir_documents D"

lemma same_rights_refl [simp]: "same_rights D D"
  by (simp add: same_rights_def)

lemma same_rights_role: "same_rights D D' \<Longrightarrow> role_of D' d u = role_of D d u"
  by (simp add: role_of_def same_rights_def)

lemma createNotification_rights: "createNotification D u ty ti me li i now = Inr (D', n) \<Longrightarrow> same_rights D D'"
  by (auto simp: createNotification_def Let_def same_rights_def split: if_splits)

lemma insert_invitation_rights: "insert_invitation D i = Inr (D', n) \<Longrightarrow> same_rights D D'"
  by (auto simp: insert_invitation_def same_rights_def split: if_splits)

lemma send_invitation_rights: "same_rights D (fst (send_invitation toISO D E who doc d target email role))"
  by (auto simp: send_invitation_def createEmailInvitation_def same_rights_def
      dest!: insert_invitation_rights createNotification_rights split: sum.split prod.split)

lemma postInvite_rights: "same_rights D (fst (postInvite toISO D E who d email role type))"
  by (simp add: postInvite_def answer_def Let_def send_invitation_rights split: option.split list.split)

lemma reject_rights: "same_rights D (fst (rejectInvite D E who token))"
  by (simp add: rejectInvite_def rejectInvitation_def answer_def same_rights_def split: option.split sum.split)

lemma read_rights:
  "same_rights D (fst (getDocuments toISO D who))" "same_rights D (fst (getDocumentRoute toISO D who d))"
  "same_rights D (fst (getInvites toISO D E who d))" "same_rights D (fst (getCollaboratorsRoute toISO D who d))"
  "same_rights D (fst (getInvite D E token))" "same_rights D (fst (revokeInvite D i))"
  "same_rights D (fst (getNotifications D who l off))" "same_rights D (fst (readAllNotifications D E who))"
  "same_rights D (fst (readNotification D E who i))" "same_rights D (fst (deleteNotificationRoute D who i))"
  "same_rights D (fst (getHistoryRoute toISO D db who d p n))" "same_rights D (fst (getRevisions toISO D db who d))"
  "same_rights D (fst (getSnapshots toISO D db who d))" "same_rights D (fst (getDashboard toISO D who))"
  by (simp_all add: getDocuments_def getDocumentRoute_def getInvites_def getCollaboratorsRoute_def getInvite_def
      revokeInvite_def getNotifications_def readAllNotifications_def readNotification_def deleteNotificationRoute_def
      getHistoryRoute_def getRevisions_def getSnapshots_def getDashboard_def answer_def same_rights_def Let_def
      revokeInvitation_def markAllNotificationsAsRead_def markNotificationAsRead_def deleteNotification_def
      split: option.split)

lemmas keeps_rights = postInvite_rights reject_rights read_rights

text \<open>The requests that change rights, one by one.\<close>

lemma post_document_roles:
  assumes "role_of (fst (postDocument toISO D E who v)) d u \<noteq> role_of D d u"
  shows "d = rq_docId E \<and> u = jwt_sub who \<and> \<not> has_document D d \<and> role_of (fst (postDocument toISO D E who v)) d u = Some ''owner''"
proof -
  obtain title D' doc where c: "createDocument toISO D title (jwt_sub who) (rq_docId E) (rq_now E) = Inr (D', doc)"
    "fst (postDocument toISO D E who v) = D'"
    using assms by (auto simp: postDocument_def validate_def answer_def split: option.splits sum.splits)
  show ?thesis
  proof (rule createDocument_cases [OF c(1)])
    fix row
    assume a: "\<not> has_document D (rq_docId E)"
      "dir_permissions D' = dir_permissions D @ [\<lparr>perm_doc_id = rq_docId E, perm_user_id = jwt_sub who, perm_role = ''owner''\<rparr>]"
    have "role_of D' d u = (case role_of D d u of Some x \<Rightarrow> Some x
        | None \<Rightarrow> if d = rq_docId E \<and> u = jwt_sub who then Some ''owner'' else None)"
      unfolding role_of_append [symmetric] by (simp add: role_of_def a(2))
    then show ?thesis using assms a(1) unfolding c(2) by (auto split: option.splits if_splits)
  qed
qed

lemma patch_roles:
  assumes "directory_ok D" "role_of (fst (patchCollaborator toISO D who e target role)) d u \<noteq> role_of D d u"
  shows "is_live D d \<and> role_of D d (jwt_sub who) = Some ''owner''"
proof -
  obtain doc r D' x where c: "getDocumentWithPermission toISO D e (jwt_sub who) = Some doc" "doc_role doc = owner"
    "updateCollaboratorRole D e target r = Inr (D', x)" "fst (patchCollaborator toISO D who e target role) = D'"
    using assms(2) by (auto simp: patchCollaborator_def answer_def split: option.splits sum.splits if_splits)
  have "d = e"
    using assms(2) c(3) unfolding c(4) by (auto simp: updateCollaboratorRole_def role_of_update split: if_splits)
  then show ?thesis using permitted_role [OF assms(1) c(1)] c(2) by auto
qed

lemma delete_collaborator_roles:
  assumes "directory_ok D" "role_of (fst (deleteCollaborator toISO D who e target)) d u \<noteq> role_of D d u"
  shows "is_live D d \<and> (role_of D d (jwt_sub who) = Some ''owner'' \<or> u = jwt_sub who) \<and>
    role_of (fst (deleteCollaborator toISO D who e target)) d u = None"
proof -
  obtain doc where c: "getDocumentWithPermission toISO D e (jwt_sub who) = Some doc" "doc_role doc = owner \<or> jwt_sub who = target"
    "fst (deleteCollaborator toISO D who e target) = removeCollaborator D e target"
    using assms(2) by (auto simp: deleteCollaborator_def answer_def split: option.splits if_splits)
  have "d = e \<and> u = target \<and> role_of (removeCollaborator D e target) d u = None"
    using assms(2) unfolding c(3) by (auto simp: role_of_remove split: if_splits)
  then show ?thesis using permitted_role [OF assms(1) c(1)] c(2) by (auto simp: c(3))
qed

lemma accept_roles:
  assumes "role_of (fst (acceptInvite D E who token)) d u \<noteq> role_of D d u"
  shows "u = jwt_sub who \<and> (\<exists>i \<in> set (dir_invitations D). inv_token i = token \<and> inv_expires_at i > rq_now E \<and>
    inv_doc_id i = d \<and> role_of (fst (acceptInvite D E who token)) d u = Some (inv_role i))"
proof -
  obtain D' x where a: "acceptInvitation D token (jwt_sub who) (rq_now E) = Inr (D', x)" "fst (acceptInvite D E who token) = D'"
    using assms by (auto simp: acceptInvite_def answer_def split: sum.splits)
  from this(1) obtain i ps where i: "getInvitationByToken D token (rq_now E) = Some i"
    "upsert_permission D (inv_doc_id i) (jwt_sub who) (inv_role i) = Inr ps" "dir_permissions D' = ps"
    by (auto simp: acceptInvitation_def split: option.splits sum.splits)
  have "role_of D' d u = role_of (D\<lparr>dir_permissions := ps\<rparr>) d u" by (simp add: role_of_def i(3))
  then have r: "role_of D' d u = (if d = inv_doc_id i \<and> u = jwt_sub who then Some (inv_role i) else role_of D d u)"
    by (simp add: role_of_upsert [OF i(2)])
  have "i \<in> set (filter (\<lambda>i. inv_token i = token \<and> inv_expires_at i > rq_now E) (dir_invitations D))"
    using i(1) by (auto simp: getInvitationByToken_def simp del: set_filter split: list.splits)
  then show ?thesis using assms r unfolding a(2) by (auto split: if_splits)
qed

text \<open>C9: A request changes a user's rights on a document only if the requester may: the owner of a live
  document changes or removes anyone, a user removes himself, a user takes the role of an unexpired
  invitation whose token he presents, and the creator of a new document becomes its owner.\<close>

theorem role_changes_authorised:
  assumes "directory_ok D" "serve verify toISO db D E authHeader req = (D', published, resp)"
    and "role_of D' d u \<noteq> role_of D d u"
  shows "\<exists>who. requireAuth verify authHeader = Inr who \<and>
    ((is_live D d \<and> role_of D d (jwt_sub who) = Some ''owner'') \<or>
     (is_live D d \<and> u = jwt_sub who \<and> role_of D' d u = None) \<or>
     (u = jwt_sub who \<and> (\<exists>i \<in> set (dir_invitations D). req = AcceptInvite (inv_token i) \<and> inv_doc_id i = d \<and>
        inv_expires_at i > rq_now E \<and> role_of D' d u = Some (inv_role i))) \<or>
     (u = jwt_sub who \<and> \<not> has_document D d \<and> role_of D' d u = Some ''owner''))"
proof -
  obtain who where who: "requireAuth verify authHeader = Inr who" "dispatch toISO db D E who req = (D', published, resp)"
    using assms(2,3) by (auto simp: serve_def answer_def split: sum.splits)
  have D': "D' = fst (dispatch toISO db D E who req)" by (simp add: who(2))
  have keep: "\<not> same_rights D D'" using assms(3) same_rights_role by blast
  have "is_live D d \<and> role_of D d (jwt_sub who) = Some ''owner'' \<or> is_live D d \<and> u = jwt_sub who \<and> role_of D' d u = None \<or>
     u = jwt_sub who \<and> (\<exists>i \<in> set (dir_invitations D). req = AcceptInvite (inv_token i) \<and> inv_doc_id i = d \<and>
        inv_expires_at i > rq_now E \<and> role_of D' d u = Some (inv_role i)) \<or>
     u = jwt_sub who \<and> \<not> has_document D d \<and> role_of D' d u = Some ''owner''"
  proof (cases req)
    case (PostDocument v)
    then show ?thesis using post_document_roles [of toISO D E who v d u] assms(3) D' by auto
  next
    case (DeleteDocument e)
    then have "dir_permissions D' = dir_permissions D"
      by (simp add: D' deleteDocument_def answer_def softDeleteDocument_def split: option.split)
    then show ?thesis using assms(3) by (simp add: role_of_def)
  next
    case (PatchCollaborator e target role)
    then show ?thesis using patch_roles [OF assms(1), of toISO who e target role d u] assms(3) D' by auto
  next
    case (DeleteCollaborator e target)
    then show ?thesis using delete_collaborator_roles [OF assms(1), of toISO who e target d u] assms(3) D' by auto
  next
    case (AcceptInvite token)
    then show ?thesis using accept_roles [of D E who token d u] assms(3) D' by auto
  qed (use keep D' in \<open>auto simp: keeps_rights\<close>)
  then show ?thesis using who(1) by blast
qed

definition example_account :: "string \<Rightarrow> Account" where
  "example_account u = \<lparr>acc_id = u, acc_email = u @ ''@x'', acc_display_name = u, acc_color = ''c''\<rparr>"

definition example_directory :: Directory where
  "example_directory = \<lparr>dir_users = map example_account [''a'', ''b'', ''c''],
     dir_documents = [\<lparr>drow_id = ''d'', drow_title = [84], drow_owner_id = ''a'', drow_created_at = 0,
       drow_updated_at = 0, drow_is_deleted = False\<rparr>],
     dir_permissions = [\<lparr>perm_doc_id = ''d'', perm_user_id = ''a'', perm_role = ''owner''\<rparr>,
       \<lparr>perm_doc_id = ''d'', perm_user_id = ''b'', perm_role = ''editor''\<rparr>],
     dir_meta = [], dir_invitations = [], dir_notifications = [], dir_audit = []\<rparr>"

lemma example_directory_ok: "directory_ok example_directory"
  by (simp add: directory_ok_def example_directory_def example_account_def permissions_ok_def permission_roles_def)

text \<open>Tokens that are the user's name.\<close>

definition example_verify :: "string \<Rightarrow> JWTPayload option" where
  "example_verify token = Some \<lparr>jwt_sub = token, jwt_email = token @ ''@x'', jwt_displayName = ascii token\<rparr>"

definition example_env :: RequestEnv where
  "example_env = \<lparr>rq_now = 10, rq_addHours = (\<lambda>t h. t + h * 3600000), rq_docId = ''e'', rq_invId = ''i'', rq_token = ''t'', rq_notifId = ''n'', rq_publishOk = True\<rparr>"

definition example_iso :: "int \<Rightarrow> string" where
  "example_iso t = show_int t"

definition example_serve :: "Database \<Rightarrow> Directory \<Rightarrow> string \<times> request \<Rightarrow> Directory" where
  "example_serve db D x = fst (serve example_verify example_iso db D example_env (Some (''Bearer '' @ fst x)) (snd x))"

lemmas example_defs = example_serve_def example_verify_def example_env_def example_directory_def example_account_def serve_def
  requireAuth_def startsWith_def answer_def

lemma example_demoted:
  "role_of (example_serve db example_directory (''a'', PatchCollaborator ''d'' ''b'' (Some ''viewer''))) ''d'' ''b'' = Some ''viewer''"
  by (simp add: example_defs patchCollaborator_def getDocumentWithPermission_def join_permissions_def live_documents_def
      updateCollaboratorRole_def permission_roles_def role_of_def update_rows_def is_permission_def)

lemma example_roles [simp]:
  "role_of example_directory ''d'' ''a'' = Some ''owner''" "role_of example_directory ''d'' ''b'' = Some ''editor''"
  "role_of example_directory ''d'' ''c'' = None" "is_live example_directory ''d''"
  by (simp_all add: example_defs role_of_def is_permission_def is_live_def live_documents_def)

theorem role_changes_authorised_witness:
  "\<exists>who. requireAuth example_verify (Some (''Bearer a'')) = Inr who \<and>
     (role_of example_directory ''d'' (jwt_sub who) = Some ''owner'' \<or> jwt_sub who = ''b'')"
proof -
  let ?req = "PatchCollaborator ''d'' ''b'' (Some ''viewer'')"
  let ?db = example_db
  obtain D' p r where s: "serve example_verify example_iso ?db example_directory example_env (Some ''Bearer a'') ?req = (D', p, r)"
    by (rule prod_cases3)
  then have "D' = example_serve ?db example_directory (''a'', ?req)" by (simp add: example_serve_def)
  then have "role_of D' ''d'' ''b'' \<noteq> role_of example_directory ''d'' ''b''" using example_demoted [of ?db] by simp
  from role_changes_authorised [OF example_directory_ok s this] show ?thesis by auto
qed

section \<open>The tables stay consistent\<close>

lemma createNotification_ok: "directory_ok D \<Longrightarrow> createNotification D u ty ti me li i now = Inr (D', n) \<Longrightarrow> directory_ok D'"
  by (auto simp: createNotification_def Let_def split: if_splits)

lemma send_invitation_ok: "directory_ok D \<Longrightarrow> directory_ok (fst (send_invitation toISO D E who doc d target email role))"
  by (auto simp: send_invitation_def createEmailInvitation_def dest: insert_invitation_ok createNotification_ok
      split: sum.split prod.split)

lemma read_handlers_ok:
  assumes "directory_ok D"
  shows "directory_ok (fst (getNotifications D who l off))" "directory_ok (fst (readAllNotifications D E who))"
    "directory_ok (fst (readNotification D E who i))" "directory_ok (fst (deleteNotificationRoute D who i))"
    "directory_ok (fst (getHistoryRoute toISO D db who d p n))" "directory_ok (fst (getRevisions toISO D db who d))"
    "directory_ok (fst (getSnapshots toISO D db who d))" "directory_ok (fst (getDashboard toISO D who))"
    "directory_ok (fst (getDocuments toISO D who))" "directory_ok (fst (getDocumentRoute toISO D who d))"
    "directory_ok (fst (getInvites toISO D E who d))" "directory_ok (fst (getCollaboratorsRoute toISO D who d))"
    "directory_ok (fst (getInvite D E token))" "directory_ok (fst (revokeInvite D i))"
  using assms
  by (simp_all add: getDocuments_def getDocumentRoute_def getInvites_def getCollaboratorsRoute_def getInvite_def
      revokeInvite_def getNotifications_def readAllNotifications_def readNotification_def deleteNotificationRoute_def
      getHistoryRoute_def getRevisions_def getSnapshots_def getDashboard_def answer_def Let_def revokeInvitation_ok
      markAllNotificationsAsRead_def markNotificationAsRead_def deleteNotification_def split: option.split)

text \<open>Whatever requests arrive, the tables stay consistent: ids, e-mail addresses and tokens are unique, a user
  has at most one role per document and it is one of the three roles, and no permission or invitation
  refers to a missing document or user.\<close>

theorem tables_stay_consistent:
  assumes "directory_ok D"
  shows "directory_ok (fst (serve verify toISO db D E authHeader req))"
proof (cases "requireAuth verify authHeader")
  case (Inr who)
  have "directory_ok (fst (dispatch toISO db D E who req))"
  proof (cases req)
    case (PostDocument v)
    then show ?thesis using assms by (auto simp: postDocument_def validate_def answer_def dest: createDocument_ok split: option.split sum.split)
  next
    case (DeleteDocument d)
    then show ?thesis using assms by (auto simp: deleteDocument_def answer_def softDelete_ok split: option.split)
  next
    case (PostInvite d e r t)
    then show ?thesis using assms
      by (simp add: postInvite_def answer_def Let_def send_invitation_ok split: option.split list.split)
  next
    case (PatchCollaborator d t r)
    then show ?thesis using assms
      by (auto simp: patchCollaborator_def answer_def dest: updateCollaboratorRole_ok split: option.split sum.split)
  next
    case (DeleteCollaborator d t)
    then show ?thesis using assms by (auto simp: deleteCollaborator_def answer_def removeCollaborator_ok split: option.split)
  next
    case (AcceptInvite t)
    then show ?thesis using assms by (auto simp: acceptInvite_def answer_def dest: acceptInvitation_ok split: sum.split)
  next
    case (RejectInvite t)
    then show ?thesis using assms by (auto simp: rejectInvite_def answer_def dest: rejectInvitation_ok split: sum.split)
  qed (simp_all add: read_handlers_ok assms)
  then show ?thesis by (simp add: serve_def Inr)
qed (use assms in \<open>simp add: serve_def answer_def\<close>)

theorem tables_stay_consistent_witness:
  "directory_ok (example_serve example_db example_directory (''a'', DeleteDocument ''d''))"
  unfolding example_serve_def by (rule tables_stay_consistent) (rule example_directory_ok)

section \<open>Invitations\<close>

lemma invite_effect:
  assumes "directory_ok D" "postInvite toISO D E who d email role type = (D', published, Reply 201 b)"
  shows "is_live D d \<and> role_of D d (jwt_sub who) \<in> {Some ''owner'', Some ''editor''} \<and> collaborator_count D d < 10 \<and>
    (\<exists>target \<in> set (dir_users D). email = Some (acc_email target) \<and> acc_id target \<noteq> jwt_sub who \<and>
       role_of D d (acc_id target) = None \<and>
       (\<forall>i \<in> set (pending_invitations D d (rq_now E)). inv_invitee_email i \<noteq> Some (acc_email target)) \<and>
       (\<exists>i n. b = InvitationBody i \<and> dir_invitations D' = dir_invitations D @ [i] \<and> inv_doc_id i = d \<and>
          inv_invitee_email i = Some (acc_email target) \<and> inv_status i = ''pending'' \<and>
          inv_role i = (case role of Some r \<Rightarrow> r | None \<Rightarrow> ''viewer'') \<and> inv_expires_at i = rq_addHours E (rq_now E) 72 \<and>
          dir_notifications D' = dir_notifications D @ [n] \<and> ntf_user_id n = acc_id target \<and>
          inv_token i = rq_token E \<and> rq_token E \<notin> inv_token ` set (dir_invitations D) \<and> inv_id i = rq_invId E \<and>
          ntf_type n = ''INVITATION'' \<and> ntf_link n = Some (''/invite/'' @ rq_token E) \<and> has_user D (acc_id target) \<and>
          dir_users D' = dir_users D \<and>
          published = [publishUserNotification (acc_id target) (notification_json toISO n)])) \<and>
    same_rights D D'"
proof -
  let ?role = "case role of Some r \<Rightarrow> r | None \<Rightarrow> ''viewer''"
  obtain doc mail target rest where g: "getDocumentWithPermission toISO D d (jwt_sub who) = Some doc"
      "doc_role doc = owner \<or> doc_role doc = editor" "truthy email = Some mail"
      "filter (\<lambda>u. acc_email u = mail) (dir_users D) = target # rest" "acc_id target \<noteq> jwt_sub who"
      "filter (is_permission d (acc_id target)) (dir_permissions D) = []" "collaborator_count D d < 10"
      "filter (\<lambda>i. inv_invitee_email i = Some mail) (pending_invitations D d (rq_now E)) = []"
      "send_invitation toISO D E who doc d (acc_id target) mail ?role = (D', published, Reply 201 b)"
    using assms(2) by (simp add: postInvite_def answer_def Let_def not_le split: option.splits list.splits if_splits)
  obtain D1 invite D2 n where s: "createEmailInvitation (rq_addHours E) D d (jwt_sub who) mail ?role 72 (rq_invId E) (rq_token E) (rq_now E) = Inr (D1, invite)"
      "createNotification D1 (acc_id target) ''INVITATION'' ''Document Invitation'' (invitationMessage (jwt_email who) (doc_title doc))
         (Some (''/invite/'' @ inv_token invite)) (rq_notifId E) (rq_now E) = Inr (D2, n)"
      "dir_invitations D' = dir_invitations D2" "dir_notifications D' = dir_notifications D2" "dir_users D' = dir_users D2" "b = InvitationBody invite"
      "published = [publishUserNotification (acc_id target) (notification_json toISO n)]"
    using g(9) by (auto simp: send_invitation_def split: sum.splits if_splits)
  have inv: "dir_invitations D1 = dir_invitations D @ [invite]" "dir_notifications D1 = dir_notifications D" "inv_doc_id invite = d"
      "inv_invitee_email invite = Some mail" "inv_status invite = ''pending''" "inv_role invite = ?role"
      "inv_expires_at invite = rq_addHours E (rq_now E) 72" "inv_token invite = rq_token E"
      "rq_token E \<notin> inv_token ` set (dir_invitations D)" "inv_id invite = rq_invId E" "dir_users D1 = dir_users D"
    using s(1) by (auto simp: createEmailInvitation_def insert_invitation_def split: if_splits)
  have ntf: "dir_invitations D2 = dir_invitations D1" "dir_notifications D2 = dir_notifications D1 @ [n]" "ntf_user_id n = acc_id target"
      "ntf_type n = ''INVITATION''" "ntf_link n = Some (''/invite/'' @ inv_token invite)" "has_user D1 (acc_id target)" "dir_users D2 = dir_users D1"
    using s(2) by (auto simp: createNotification_def Let_def split: if_splits)
  have t: "target \<in> set (dir_users D)" "acc_email target = mail" "email = Some mail"
    using g(3,4) by (auto simp: truthy_def filter_eq_Cons_iff split: option.splits if_splits)
  obtain r where r: "is_live D d" "role_of D d (jwt_sub who) = Some r" "doc_role doc = DocumentPermission_of r"
    using permitted_role [OF assms(1) g(1)] by blast
  then have "r = ''owner'' \<or> r = ''editor''" using g(2) by (auto simp: DocumentPermission_of_def split: if_splits)
  moreover have "role_of D d (acc_id target) = None" using g(6) by (simp add: role_of_def)
  moreover have "\<forall>i \<in> set (pending_invitations D d (rq_now E)). inv_invitee_email i \<noteq> Some mail"
    using g(8) by (simp add: filter_empty_conv)
  moreover have "same_rights D D'" using postInvite_rights [of D toISO E who d email role type] by (simp add: assms(2))
  moreover have "has_user D (acc_id target)" using ntf(6) inv(11) by (simp add: has_user_def)
  ultimately show ?thesis
    using g(5,7) r t inv ntf s(3-7) by (intro conjI bexI [of _ target] exI [of _ invite] exI [of _ n]) auto
qed

text \<open>An invitation is created only by the owner or an editor of a live document, for a registered user other than
  himself who is not a collaborator yet, has no pending invitation to it, and while it has fewer
  than ten collaborators; then exactly that invitation is stored, valid for 72 hours, the invitee
  is notified and his channel is told, and no right changes.\<close>

theorem invitation_guarded:
  assumes "directory_ok D" "postInvite toISO D E who d email role type = (D', published, Reply 201 b)"
  shows "is_live D d \<and> role_of D d (jwt_sub who) \<in> {Some ''owner'', Some ''editor''} \<and> collaborator_count D d < 10 \<and>
    (\<exists>target \<in> set (dir_users D). email = Some (acc_email target) \<and> acc_id target \<noteq> jwt_sub who \<and>
       role_of D d (acc_id target) = None \<and>
       (\<forall>i \<in> set (pending_invitations D d (rq_now E)). inv_invitee_email i \<noteq> Some (acc_email target)) \<and>
       (\<exists>i n. b = InvitationBody i \<and> dir_invitations D' = dir_invitations D @ [i] \<and> inv_doc_id i = d \<and>
          inv_invitee_email i = Some (acc_email target) \<and> inv_status i = ''pending'' \<and>
          inv_role i = (case role of Some r \<Rightarrow> r | None \<Rightarrow> ''viewer'') \<and> inv_expires_at i = rq_addHours E (rq_now E) 72 \<and>
          dir_notifications D' = dir_notifications D @ [n] \<and> ntf_user_id n = acc_id target \<and>
          published = [publishUserNotification (acc_id target) (notification_json toISO n)])) \<and>
    same_rights D D'"
  using invite_effect [OF assms] by blast

theorem invitation_guarded_witness:
  "collaborator_count example_directory ''d'' < 10 \<and>
   (\<exists>D' p b. postInvite example_iso example_directory example_env \<lparr>jwt_sub = ''b'', jwt_email = ''b@x'', jwt_displayName = []\<rparr>
      ''d'' (Some ''c@x'') (Some ''owner'') None = (D', p, Reply 201 b) \<and> length (dir_invitations D') = 1)"
proof -
  let ?who = "\<lparr>jwt_sub = ''b'', jwt_email = ''b@x'', jwt_displayName = []\<rparr>"
  let ?p = "postInvite example_iso example_directory example_env ?who ''d'' (Some ''c@x'') (Some ''owner'') None"
  have "\<exists>b. snd (snd ?p) = Reply 201 b"
    by (simp add: example_defs postInvite_def getDocumentWithPermission_def join_permissions_def live_documents_def
        withRole_def Document.defs DocumentPermission_of_def truthy_def is_permission_def collaborator_count_def
        pending_invitations_def send_invitation_def createEmailInvitation_def insert_invitation_def invitation_roles_def
        has_document_def has_user_def createNotification_def Let_def)
  then obtain D' p b where e: "?p = (D', p, Reply 201 b)" by (metis prod.collapse)
  show ?thesis
    using invitation_guarded [OF example_directory_ok e] e by (auto simp: example_directory_def)
qed

text \<open>Accepting looks at the token and the expiry date alone: not at the status, nor at the address.\<close>

definition accept_all :: "Directory \<Rightarrow> string \<Rightarrow> int \<Rightarrow> string list \<Rightarrow> Directory" where
  "accept_all D token now us =
     foldl (\<lambda>D u. case acceptInvitation D token u now of Inr (D', _) \<Rightarrow> D' | Inl _ \<Rightarrow> D) D us"

lemma find_token_update:
  assumes "\<And>i. inv_token (f i) = inv_token i" "\<And>i. inv_expires_at (f i) = inv_expires_at i" "\<And>i. inv_doc_id (f i) = inv_doc_id i"
    and "\<And>i. inv_role (f i) = inv_role i" "filter (\<lambda>i. inv_token i = t \<and> inv_expires_at i > now) is = i # rest"
  shows "\<exists>j rest'. filter (\<lambda>i. inv_token i = t \<and> inv_expires_at i > now) (update_rows P f is) = j # rest' \<and>
    inv_doc_id j = inv_doc_id i \<and> inv_role j = inv_role i"
  using assms(5)
proof (induction "is")
  case (Cons x xs)
  then show ?case using assms(1-4) by (cases "inv_token x = t \<and> inv_expires_at x > now") (auto simp: update_rows_def)
qed simp

text \<open>\<open>usable\<close>: the token finds an invitation to \<open>d\<close> with role \<open>role\<close>, which the constraints admit.\<close>

definition usable :: "Directory \<Rightarrow> string \<Rightarrow> int \<Rightarrow> string \<Rightarrow> string \<Rightarrow> bool" where
  "usable D token now d role \<longleftrightarrow> (\<exists>i. getInvitationByToken D token now = Some i \<and> inv_doc_id i = d \<and> inv_role i = role) \<and>
     role \<in> set permission_roles \<and> has_document D d"

lemma usable_status:
  assumes "usable D token now d role" "dir_invitations D' = set_invitation_status x st (dir_invitations D)" "dir_documents D' = dir_documents D"
  shows "usable D' token now d role"
proof (cases "set_invitation_status x st (dir_invitations D) = dir_invitations D")
  case True
  then show ?thesis using assms by (simp add: usable_def getInvitationByToken_def has_document_def)
next
  case False
  then have u: "dir_invitations D' = update_rows (\<lambda>i. inv_id i = inv_id x) (\<lambda>i. i\<lparr>inv_status := st\<rparr>) (dir_invitations D)"
    using assms(2) by (auto simp: set_invitation_status_def split: if_splits)
  obtain i rest where "filter (\<lambda>i. inv_token i = token \<and> inv_expires_at i > now) (dir_invitations D) = i # rest"
    "inv_doc_id i = d" "inv_role i = role"
    using assms(1) by (auto simp: usable_def getInvitationByToken_def split: list.splits)
  then show ?thesis
    using assms(1,3) find_token_update [of "\<lambda>i. i\<lparr>inv_status := st\<rparr>" token now "dir_invitations D" i rest "\<lambda>i. inv_id i = inv_id x"]
    by (auto simp: usable_def getInvitationByToken_def u has_document_def)
qed

lemma accept_usable:
  assumes "usable D token now d role" "has_user D u"
  shows "\<exists>D'. acceptInvitation D token u now = Inr (D', d) \<and> usable D' token now d role \<and> dir_users D' = dir_users D \<and>
    (\<forall>v. role_of D' d v = (if v = u then Some role else role_of D d v))"
proof -
  obtain i where i: "getInvitationByToken D token now = Some i" "inv_doc_id i = d" "inv_role i = role"
    "role \<in> set permission_roles" "has_document D d"
    using assms(1) by (auto simp: usable_def)
  obtain ps where ps: "upsert_permission D d u role = Inr ps"
    using i(4,5) assms(2) by (cases "\<exists>p \<in> set (dir_permissions D). is_permission d u p") (auto simp: upsert_permission_def)
  obtain D' where D': "acceptInvitation D token u now = Inr (D', d)" "dir_permissions D' = ps" "dir_users D' = dir_users D"
    "dir_invitations D' = set_invitation_status i ''accepted'' (dir_invitations D)" "dir_documents D' = dir_documents D"
    by (simp add: acceptInvitation_def i(1-3) ps)
  have "role_of D' d v = role_of (D\<lparr>dir_permissions := ps\<rparr>) d v" for v by (simp add: role_of_def D'(2))
  then show ?thesis
    using D'(1,3) usable_status [OF assms(1) D'(4,5)] by (auto simp: role_of_upsert [OF ps])
qed

lemma accept_all_usable:
  assumes "usable D token now d role" "\<forall>u \<in> set us. has_user D u"
  shows "role_of (accept_all D token now us) d v = (if v \<in> set us then Some role else role_of D d v)"
  using assms
proof (induction us arbitrary: D)
  case Nil
  then show ?case by (simp add: accept_all_def)
next
  case (Cons u us)
  obtain D' where D': "acceptInvitation D token u now = Inr (D', d)" "usable D' token now d role" "dir_users D' = dir_users D"
    "\<forall>v. role_of D' d v = (if v = u then Some role else role_of D d v)"
    using accept_usable Cons.prems by (metis list.set_intros(1))
  have "role_of (accept_all D' token now us) d v = (if v \<in> set us then Some role else role_of D' d v)"
    by (rule Cons.IH) (use D' Cons.prems in \<open>auto simp: has_user_def\<close>)
  then show ?case using D'(4) by (simp add: accept_all_def D'(1))
qed

text \<open>One invitation lets in any number of users: while the token has not expired, every registered user who
  presents it gets the role of the invitation, whoever it was addressed to, even after it has been rejected, and
  beyond the limit of ten collaborators that inviting checks.\<close>

theorem invitation_admits_anyone:
  assumes "rejectInvitation D token who now = Inr D1" "usable D token now d role" "\<forall>u \<in> set us. has_user D u"
  shows "\<forall>u. role_of (accept_all D1 token now us) d u = (if u \<in> set us then Some role else role_of D d u)"
proof -
  obtain i where "dir_invitations D1 = set_invitation_status i ''rejected'' (dir_invitations D)"
    "dir_documents D1 = dir_documents D" "dir_users D1 = dir_users D" "dir_permissions D1 = dir_permissions D"
    using assms(1) by (auto simp: rejectInvitation_def split: option.splits)
  then show ?thesis
    using accept_all_usable [of D1 token now d role us] usable_status [OF assms(2)] assms(3)
    by (auto simp: has_user_def role_of_def)
qed

definition invited_directory :: Directory where
  "invited_directory = example_directory\<lparr>dir_invitations := [\<lparr>inv_id = ''i'', inv_doc_id = ''d'', inv_inviter_id = ''a'',
     inv_invitee_email = Some ''b@x'', inv_role = ''owner'', inv_token = ''t'', inv_status = ''pending'',
     inv_expires_at = 100, inv_created_at = 0\<rparr>]\<rparr>"

theorem invitation_admits_anyone_witness:
  "\<exists>D1. rejectInvitation invited_directory ''t'' ''b'' 10 = Inr D1 \<and> role_of (accept_all D1 ''t'' 10 [''c'']) ''d'' ''c'' = Some ''owner''"
proof -
  obtain D1 where D1: "rejectInvitation invited_directory ''t'' ''b'' 10 = Inr D1"
    by (simp add: rejectInvitation_def getInvitationByToken_def invited_directory_def)
  have "usable invited_directory ''t'' 10 ''d'' ''owner''" "has_user invited_directory ''c''"
    by (simp_all add: usable_def getInvitationByToken_def invited_directory_def permission_roles_def has_document_def has_user_def
        example_directory_def example_account_def)
  from invitation_admits_anyone [OF D1 this(1), of "[''c'']"] this(2) D1 show ?thesis by auto
qed

text \<open>An editor can take a document over: he invites an accomplice as owner, who accepts and removes the owner.\<close>

theorem editor_takes_over:
  "let D = foldl (example_serve example_db) example_directory
     [(''b'', PostInvite ''d'' (Some ''c@x'') (Some ''owner'') None), (''c'', AcceptInvite ''t''), (''c'', DeleteCollaborator ''d'' ''a'')]
   in role_of D ''d'' ''a'' = None \<and> role_of D ''d'' ''c'' = Some ''owner'' \<and> role_of D ''d'' ''b'' = Some ''editor''"
  by (simp add: example_defs postInvite_def getDocumentWithPermission_def join_permissions_def live_documents_def
      withRole_def Document.defs DocumentPermission_of_def truthy_def is_permission_def collaborator_count_def
      pending_invitations_def send_invitation_def createEmailInvitation_def insert_invitation_def invitation_roles_def
      has_document_def has_user_def createNotification_def acceptInvite_def acceptInvitation_def getInvitationByToken_def
      upsert_permission_def permission_roles_def deleteCollaborator_def removeCollaborator_def role_of_def update_rows_def
      set_invitation_status_def Let_def)

section \<open>Notifications are private\<close>

definition others_notifications :: "Directory \<Rightarrow> string \<Rightarrow> NotificationRow list" where
  "others_notifications D u = filter (\<lambda>n. ntf_user_id n \<noteq> u) (dir_notifications D)"

lemma filter_update_rows:
  assumes "\<And>r. P r \<Longrightarrow> \<not> Q r" "\<And>r. Q (f r) = Q r"
  shows "filter Q (update_rows P f rs) = filter Q rs"
  using assms by (induction rs) (auto simp: update_rows_def)

lemma notifications_private:
  "others_notifications (fst (readAllNotifications D E who)) (jwt_sub who) = others_notifications D (jwt_sub who)"
  "others_notifications (fst (readNotification D E who i)) (jwt_sub who) = others_notifications D (jwt_sub who)"
  "others_notifications (fst (deleteNotificationRoute D who i)) (jwt_sub who) = others_notifications D (jwt_sub who)"
  "n \<in> set (getUserNotifications D u limit offset) \<Longrightarrow> ntf_user_id n = u"
proof -
  show "others_notifications (fst (deleteNotificationRoute D who i)) (jwt_sub who) = others_notifications D (jwt_sub who)"
    by (auto simp: others_notifications_def deleteNotificationRoute_def deleteNotification_def answer_def intro!: filter_cong)
  show "n \<in> set (getUserNotifications D u limit offset) \<Longrightarrow> ntf_user_id n = u"
    by (auto simp: getUserNotifications_def dest!: in_set_takeD in_set_dropD)
qed (auto simp: others_notifications_def readAllNotifications_def readNotification_def markAllNotificationsAsRead_def
    markNotificationAsRead_def answer_def intro!: filter_update_rows)

end
