(* ===== verification/WebSocket_Server.thy ===== *)
theory WebSocket_Server
  imports Operation_Handler Presence_Manager Document_Routes
begin

text \<open>
  \<^verbatim>\<open>src/server/transport/websocket-server.ts\<close>: one worker's connections. Each callback the module registers
  (connection, message, pong, close, the timers, a Redis message) is an event, a function on the state.
  A JOIN is handled in two events, before and after the answer to its first query, and
  the messages of a joined session are handled one at a time by the loop that drains its queue;
  between two events anything else may happen. The lemmas follow connections, the queue, the
  heartbeat, the fan-out of operations and the batches of presence updates.
\<close>

section \<open>State\<close>

datatype doc_handler = DocHandler nat string
datatype user_handler = NotifyHandler nat string | NoHandler nat

record SessionRow =
  sess_id :: string
  sess_user_id :: string
  sess_doc_id :: string
  sess_site_id :: string
  sess_last_seq :: int
  sess_connected :: bool

record ('c, 'r) WsDeps =
  wd_deps :: "('c, 'r) Deps"
  wd_verify :: "string \<Rightarrow> JWTPayload option"
  wd_is_uuid :: "js_text \<Rightarrow> bool"
  wd_zodMessage :: "json \<Rightarrow> string"
  wd_sendQueueMax :: int
  wd_heartbeatTimeoutMs :: int

record ('c, 'r) Ws =
  ws_server :: "('c, 'r) Server"
  ws_dir :: Directory
  ws_table :: SessionTable
  ws_clients :: "socket list"
  ws_listening :: "socket set"
  ws_socketToSession :: "socket \<rightharpoonup> string"
  ws_pendingAuth :: int
  ws_joinTimers :: "socket set"
  ws_joining :: "(socket \<times> JoinMessage \<times> JWTPayload) list"
  ws_bus :: "(doc_handler, doc_handler, unit, user_handler) Pubsub"
  ws_fresh :: nat
  ws_presence :: presence_store
  ws_outbox :: "(string \<times> bus_message) list"
  ws_batches :: "string \<rightharpoonup> (string \<times> UserPresence) list"
  ws_presenceTimers :: "string set"
  ws_typing :: "string \<rightharpoonup> (string \<times> string \<times> UserPresence)"
  ws_rows :: "SessionRow list"
  ws_pings :: "socket list"

text \<open>What the environment decides about one event.\<close>

record WsEnv =
  we_call :: Call
  we_loadOk :: bool
  we_redisUp :: bool
  we_subscribed :: bool
  we_uuid :: string
  we_iso :: string

definition MAX_PENDING_AUTH :: int where
  "MAX_PENDING_AUTH = 100"

definition set_table :: "('c, 'r) Ws \<Rightarrow> SessionTable \<Rightarrow> ('c, 'r) Ws" where
  "set_table W T = W\<lparr>ws_table := T\<rparr>"

definition ws_getSession :: "('c, 'r) Ws \<Rightarrow> socket \<Rightarrow> string option" where
  "ws_getSession W s = (case truthy (ws_socketToSession W s) of
     None \<Rightarrow> None | Some i \<Rightarrow> if i \<in> st_sessions (ws_table W) then Some i else None)"

definition sendError :: "SessionTable \<Rightarrow> socket \<Rightarrow> ErrorCode \<Rightarrow> string \<Rightarrow> SessionTable" where
  "sendError T s code m =
     (if st_sockets T s = SockOpen then T\<lparr>st_sent := st_sent T @ [(s, ERROR code m None)]\<rparr> else T)"

definition reject_socket :: "('c, 'r) Ws \<Rightarrow> socket \<Rightarrow> ErrorCode \<Rightarrow> string \<Rightarrow> int \<Rightarrow> ('c, 'r) Ws" where
  "reject_socket W s code m closeCode =
     set_table W (close_socket (sendError (ws_table W) s code m) s closeCode)"

section \<open>Connecting\<close>

definition connection :: "('c, 'r) Ws \<Rightarrow> socket \<Rightarrow> ('c, 'r) Ws" where
  "connection W s =
     (let W1 = W\<lparr>ws_clients := ws_clients W @ [s],
            ws_table := (ws_table W)\<lparr>st_sockets := (st_sockets (ws_table W))(s := SockOpen)\<rparr>\<rparr>
      in if ws_pendingAuth W \<ge> MAX_PENDING_AUTH then set_table W1 (close_socket (ws_table W1) s 4029)
         else W1\<lparr>ws_listening := insert s (ws_listening W1), ws_pendingAuth := ws_pendingAuth W1 + 1,
                ws_joinTimers := insert s (ws_joinTimers W1)\<rparr>)"

definition joinTimeout :: "('c, 'r) Ws \<Rightarrow> socket \<Rightarrow> ('c, 'r) Ws" where
  "joinTimeout W s =
     (if s \<notin> ws_joinTimers W then W
      else let W1 = W\<lparr>ws_joinTimers := ws_joinTimers W - {s}\<rparr>
        in if ws_socketToSession W s = None
           then set_table (W1\<lparr>ws_pendingAuth := ws_pendingAuth W1 - 1\<rparr>) (close_socket (ws_table W1) s WS_AUTH_FAILED)
           else W1)"

section \<open>Joining\<close>

text \<open>Up to the permission query.\<close>

definition handleJoin :: "('c, 'r) WsDeps \<Rightarrow> ('c, 'r) Ws \<Rightarrow> socket \<Rightarrow> json \<Rightarrow> ('c, 'r) Ws" where
  "handleJoin X W s raw =
     (case JoinMessageSchema (wd_is_uuid X) raw of
        None \<Rightarrow> reject_socket W s INVALID_OPERATION ''Invalid JOIN message'' WS_AUTH_FAILED
      | Some msg \<Rightarrow>
          (case wd_verify X (join_token msg) of
             None \<Rightarrow> reject_socket W s AUTH_FAILED ''Invalid or expired token'' WS_AUTH_FAILED
           | Some payload \<Rightarrow> W\<lparr>ws_joining := ws_joining W @ [(s, msg, payload)]\<rparr>))"

definition permission_query :: "Directory \<Rightarrow> string \<Rightarrow> string \<Rightarrow> (string \<times> string) list" where
  "permission_query D d u = concat (map (\<lambda>p. map (\<lambda>a. (acc_display_name a, acc_color a))
     (filter (\<lambda>a. acc_id a = perm_user_id p) (dir_users D))) (filter (is_permission d u) (dir_permissions D)))"

definition user_query :: "Directory \<Rightarrow> string \<Rightarrow> (string \<times> string) list" where
  "user_query D u = map (\<lambda>a. (acc_display_name a, acc_color a)) (filter (\<lambda>a. acc_id a = u) (dir_users D))"

text \<open>The \<open>sessions\<close> table: the insert fails for a session without document, and nobody notices.\<close>

definition persist_session :: "Directory \<Rightarrow> SessionRow list \<Rightarrow> string \<Rightarrow> string \<Rightarrow> string option \<Rightarrow> string \<Rightarrow> int \<Rightarrow> SessionRow list" where
  "persist_session D rows i u docId site seq =
     (case docId of None \<Rightarrow> rows
      | Some d \<Rightarrow>
          if \<not> has_document D d \<or> \<not> has_user D u then rows
          else if i \<in> sess_id ` set rows then update_rows (\<lambda>r. sess_id r = i) (\<lambda>r. r\<lparr>sess_last_seq := seq\<rparr>) rows
          else rows @ [\<lparr>sess_id = i, sess_user_id = u, sess_doc_id = d, sess_site_id = site,
                 sess_last_seq = seq, sess_connected = True\<rparr>])"

definition join_snapshot_nodes :: "JoinMessage \<Rightarrow> bool \<Rightarrow> RGADocument \<Rightarrow> SerializedRGANode list" where
  "join_snapshot_nodes msg forceFullLoad doc =
     (if truthy (join_docId msg) \<noteq> None \<and> (forceFullLoad \<or> join_lastSeq msg = 0) then serialize doc else [])"

text \<open>What is loaded for the joining client: the worker with the document cached, its last seq, its
  document, the missed operations and whether it must reload.\<close>

definition join_load ::
  "('c, 'r) WsDeps \<Rightarrow> ('c, 'r) Ws \<Rightarrow> WsEnv \<Rightarrow> JoinMessage \<Rightarrow> 'c Worker \<times> int \<times> RGADocument \<times> OperationEnvelope list \<times> bool" where
  "join_load X W E msg =
     (case truthy (join_docId msg) of
        None \<Rightarrow> (sv_worker (ws_server W), 0, newRGADocument, [], False)
      | Some d \<Rightarrow>
          (case getOrLoadDocument (dp_lru (wd_deps X)) (sv_worker (ws_server W)) (sv_db (ws_server W)) d (ca_now (we_call E)) of
             (w, p) \<Rightarrow>
               let cached = w_heap w p;
                   missed = (if join_lastSeq msg > 0
                     then getMissedOperations (sv_db (ws_server W)) d (join_lastSeq msg) missedLimit else []);
                   force = join_lastSeq msg > 0 \<and> shouldForceFullReload missed
               in (w, cd_lastSeq cached, cd_doc cached, (if force then [] else missed), force)))"

text \<open>From the registration to the acknowledgement.\<close>

definition join_register ::
  "('c, 'r) WsDeps \<Rightarrow> ('c, 'r) Ws \<Rightarrow> WsEnv \<Rightarrow> socket \<Rightarrow> JoinMessage \<Rightarrow> JWTPayload \<Rightarrow> string \<times> string \<Rightarrow> ('c, 'r) Ws" where
  "join_register X W E s msg payload named =
     (case join_load X W E msg of (w, lastSeq, doc, missed, force) \<Rightarrow>
        let siteId = (if join_clientId msg = [] then ''global-client'' else join_clientId msg);
            i = we_uuid E;
            T1 = fst (registerSession (ws_table W) s \<lparr>sp_userId = jwt_sub payload, sp_docId = join_docId msg,
              sp_siteId = siteId, sp_displayName = fst named, sp_color = snd named, sp_lastSeq = lastSeq\<rparr> i (ca_now (we_call E)));
            W1 = W\<lparr>ws_server := (ws_server W)\<lparr>sv_worker := w\<rparr>, ws_table := T1,
              ws_socketToSession := (ws_socketToSession W)(s \<mapsto> i)\<rparr>
        in if truthy (join_docId msg) \<noteq> None \<and> \<not> we_redisUp E then W1
           else let (R, msgs, present, B, n) =
               (case truthy (join_docId msg) of
                  None \<Rightarrow> (ws_presence W1, [], [], ws_bus W1, ws_fresh W1)
                | Some d \<Rightarrow>
                    (case updatePresence (ws_presence W1) (ca_now (we_call E)) d
                        (buildInitialPresence i (jwt_sub payload) (fst named) (snd named) (we_iso E)) of
                       (R, msgs) \<Rightarrow> (R, msgs, getAllPresence R (ca_now (we_call E)) d,
                         subscribeToDocument (we_subscribed E) (ws_bus W1) d (DocHandler (ws_fresh W1) d) (DocHandler (ws_fresh W1) d),
                         ws_fresh W1 + 1)));
               B' = subscribeToUser (we_subscribed E) B (jwt_sub payload) (NotifyHandler n i);
               ack = \<lparr>ack_sessionId = i, ack_siteId = siteId,
                 ack_snapshot = \<lparr>ack_seq = lastSeq, ack_nodes = join_snapshot_nodes msg force doc\<rparr>,
                 ack_missedOps = missed, ack_presence = present\<rparr>
             in W1\<lparr>ws_presence := R, ws_outbox := ws_outbox W1 @ msgs, ws_bus := B', ws_fresh := n + 1,
                  ws_table := fst (sendToSession (wd_sendQueueMax X) T1 i (JOIN_ACK ack)),
                  ws_rows := persist_session (ws_dir W1) (ws_rows W1) i (jwt_sub payload) (join_docId msg) siteId lastSeq\<rparr>)"

text \<open>The answer to the permission query arrives. When the query fails the exception leaves the
  listener and nothing is sent; when the document must be loaded and cannot be (\<open>we_loadOk\<close>), the client is told so.\<close>

definition join_document ::
  "('c, 'r) WsDeps \<Rightarrow> ('c, 'r) Ws \<Rightarrow> WsEnv \<Rightarrow> socket \<Rightarrow> JoinMessage \<Rightarrow> JWTPayload \<Rightarrow> string \<Rightarrow> string \<times> string \<Rightarrow> ('c, 'r) Ws" where
  "join_document X W E s msg payload d named =
     (if load_throws (wd_deps X) (ws_server W) ((we_call E)\<lparr>ca_pgUp := we_loadOk E\<rparr>) d
      then reject_socket W s DOCUMENT_NOT_FOUND ''Document not found'' WS_DOCUMENT_NOT_FOUND
      else join_register X W E s msg payload named)"

definition joinResume ::
  "('c, 'r) WsDeps \<Rightarrow> ('c, 'r) Ws \<Rightarrow> WsEnv \<Rightarrow> socket \<times> JoinMessage \<times> JWTPayload \<Rightarrow> ('c, 'r) Ws" where
  "joinResume X W E x =
     (case x of (s, msg, payload) \<Rightarrow>
        let W1 = W\<lparr>ws_joining := remove1 x (ws_joining W)\<rparr>
        in if x \<notin> set (ws_joining W) then W
           else if \<not> ca_pgUp (we_call E) then W1
           else (case truthy (join_docId msg) of
              Some d \<Rightarrow> (case permission_query (ws_dir W1) d (jwt_sub payload) of
                  [] \<Rightarrow> reject_socket W1 s PERMISSION_DENIED ''No access to this document'' WS_PERMISSION_DENIED
                | named # _ \<Rightarrow> join_document X W1 E s msg payload d named)
            | None \<Rightarrow> (case user_query (ws_dir W1) (jwt_sub payload) of
                  [] \<Rightarrow> reject_socket W1 s AUTH_FAILED ''User not found'' WS_AUTH_FAILED
                | named # _ \<Rightarrow> join_register X W1 E s msg payload named)))"

section \<open>Messages of a joined session\<close>

text \<open>Insertion before the first entry of lower priority.\<close>

fun enqueue_message :: "nat \<Rightarrow> ClientMessage \<Rightarrow> (nat \<times> ClientMessage) list \<Rightarrow> (nat \<times> ClientMessage) list" where
  "enqueue_message p m [] = [(p, m)]"
| "enqueue_message p m ((q, x) # queue) = (if p < q then (p, m) # (q, x) # queue else (q, x) # enqueue_message p m queue)"

definition priority :: "ClientMessage \<Rightarrow> nat" where
  "priority m = (case m of OPERATION _ \<Rightarrow> 0 | _ \<Rightarrow> 1)"

definition handleClientOperation ::
  "('c, 'r) WsDeps \<Rightarrow> ('c, 'r) Ws \<Rightarrow> WsEnv \<Rightarrow> string \<Rightarrow> OperationMessage \<Rightarrow> ('c, 'r) Ws" where
  "handleClientOperation X W E i msg =
     (let session = st_objs (ws_table W) i; send = (\<lambda>W m. set_table W (fst (sendToSession (wd_sendQueueMax X) (ws_table W) i m)))
      in if ss_role session = Some ''viewer'' then send W (ERROR PERMISSION_DENIED ''Viewer role cannot edit'' None)
         else (case handleOperation (wd_deps X) (we_call E) (ws_server W) session msg of (sv, out) \<Rightarrow>
           let W1 = W\<lparr>ws_server := sv, ws_outbox := ws_outbox W @
                 map publishOperation (drop (length (sv_published (ws_server W))) (sv_published sv))\<rparr>
           in case out of
                Threw e \<Rightarrow> W1
              | Returned result \<Rightarrow>
                  (case (or_success result, or_envelope result) of
                     (True, Some envelope) \<Rightarrow> send W1 (OP_ACK (msg_clientSeq msg) (env_seq envelope) (env_timestamp envelope))
                   | _ \<Rightarrow> (case or_error result of
                        Some (code, m) \<Rightarrow> send W1 (ERROR code m (Some (msg_clientSeq msg))) | None \<Rightarrow> W1))))"

definition typingKey :: "string \<Rightarrow> string \<Rightarrow> string" where
  "typingKey docId sessionId = docId @ '':'' @ sessionId"

text \<open>\<open>updatePresence\<close> and then \<open>publishPresence\<close> once more; without Redis the exception ends the handler.\<close>

definition put_presence :: "('c, 'r) Ws \<Rightarrow> int \<Rightarrow> string \<Rightarrow> UserPresence \<Rightarrow> ('c, 'r) Ws" where
  "put_presence W now d p = (case updatePresence (ws_presence W) now d p of (R, msgs) \<Rightarrow>
     W\<lparr>ws_presence := R, ws_outbox := ws_outbox W @ msgs @ [publishPresence d p]\<rparr>)"

definition handleClientPresence ::
  "('c, 'r) Ws \<Rightarrow> WsEnv \<Rightarrow> string \<Rightarrow> PresenceMessage \<Rightarrow> ('c, 'r) Ws" where
  "handleClientPresence W E i msg =
     (let session = st_objs (ws_table W) i; d = pm_docId msg;
          presence = \<lparr>p_sessionId = ss_id session, p_userId = ss_userId session, p_displayName = ss_displayName session,
            p_color = ss_color session, p_cursor = u_cursor (pm_update msg), p_isTyping = u_isTyping (pm_update msg),
            p_lastSeen = we_iso E\<rparr>
      in if \<not> we_redisUp E then W
         else let W1 = put_presence W (ca_now (we_call E)) d presence; key = typingKey d (ss_id session)
           in if u_isTyping (pm_update msg)
              then W1\<lparr>ws_typing := (ws_typing W1)(key \<mapsto> (d, ss_id session, presence))\<rparr>
              else W1\<lparr>ws_typing := (ws_typing W1)(key := None)\<rparr>)"

definition typingTimer :: "('c, 'r) Ws \<Rightarrow> WsEnv \<Rightarrow> string \<Rightarrow> ('c, 'r) Ws" where
  "typingTimer W E key =
     (case ws_typing W key of
        None \<Rightarrow> W
      | Some (d, i, presence) \<Rightarrow>
          let W1 = W\<lparr>ws_typing := (ws_typing W)(key := None)\<rparr>
          in if i \<notin> st_sessions (ws_table W1) \<or> \<not> we_redisUp E then W1
             else put_presence W1 (ca_now (we_call E)) d (presence\<lparr>p_isTyping := False, p_lastSeen := we_iso E\<rparr>))"

definition handleClientMessage ::
  "('c, 'r) WsDeps \<Rightarrow> ('c, 'r) Ws \<Rightarrow> WsEnv \<Rightarrow> string \<Rightarrow> ClientMessage \<Rightarrow> ('c, 'r) Ws" where
  "handleClientMessage X W E i m =
     (case m of
        OPERATION x \<Rightarrow> handleClientOperation X W E i x
      | PRESENCE x \<Rightarrow> handleClientPresence W E i x
      | PING t \<Rightarrow> (let T = fst (sendToSession (wd_sendQueueMax X) (ws_table W) i (PONG t (ca_now (we_call E))))
          in set_table W (set_session T i (\<lambda>x. x\<lparr>ss_isAlive := True\<rparr>)))
      | _ \<Rightarrow> W)"

text \<open>One round of the loop of a processing session: the next message, or the end of the loop.\<close>

definition processNext :: "('c, 'r) WsDeps \<Rightarrow> ('c, 'r) Ws \<Rightarrow> WsEnv \<Rightarrow> string \<Rightarrow> ('c, 'r) Ws" where
  "processNext X W E i =
     (let session = st_objs (ws_table W) i
      in if \<not> ss_isProcessing session then W
         else (case ss_messageQueue session of
            [] \<Rightarrow> set_table W (set_session (ws_table W) i (\<lambda>x. x\<lparr>ss_isProcessing := False\<rparr>))
          | (p, m) # queue \<Rightarrow> handleClientMessage X (set_table W (set_session (ws_table W) i (\<lambda>x. x\<lparr>ss_messageQueue := queue\<rparr>))) E i m))"

definition message :: "('c, 'r) WsDeps \<Rightarrow> ('c, 'r) Ws \<Rightarrow> WsEnv \<Rightarrow> socket \<Rightarrow> json option \<Rightarrow> ('c, 'r) Ws" where
  "message X W E s raw =
     (if s \<notin> ws_listening W then W
      else case raw of
        None \<Rightarrow> set_table W (sendError (ws_table W) s INVALID_OPERATION ''Invalid JSON'')
      | Some parsed \<Rightarrow>
          (case ws_getSession W s of
             None \<Rightarrow> handleJoin X (W\<lparr>ws_joinTimers := ws_joinTimers W - {s}, ws_pendingAuth := ws_pendingAuth W - 1\<rparr>) s parsed
           | Some i \<Rightarrow>
               (case ClientMessageSchema (wd_is_uuid X) parsed of
                  None \<Rightarrow> set_table W (sendError (ws_table W) s INVALID_OPERATION (wd_zodMessage X parsed))
                | Some m \<Rightarrow>
                    let T = set_session (ws_table W) i (\<lambda>x. x\<lparr>ss_lastActivity := ca_now (we_call E),
                          ss_messageQueue := enqueue_message (priority m) m (ss_messageQueue x)\<rparr>)
                    in if ss_isProcessing (st_objs T i) then set_table W T
                       else processNext X (set_table W (set_session T i (\<lambda>x. x\<lparr>ss_isProcessing := True\<rparr>))) E i)))"

section \<open>Fan-out\<close>

definition handleRedisOperation :: "('c, 'r) WsDeps \<Rightarrow> ('c, 'r) Ws \<Rightarrow> string \<Rightarrow> OperationEnvelope \<Rightarrow> ('c, 'r) Ws" where
  "handleRedisOperation X W d envelope =
     set_table W (broadcastToDocument (wd_sendQueueMax X) (ws_table W) d (BROADCAST envelope) None)"

text \<open>\<open>Map.set\<close>: an existing key keeps its place.\<close>

definition batch_set :: "UserPresence \<Rightarrow> (string \<times> UserPresence) list \<Rightarrow> (string \<times> UserPresence) list" where
  "batch_set p batch = AList.update (p_sessionId p) p batch"

definition batch_of :: "('c, 'r) Ws \<Rightarrow> string \<Rightarrow> (string \<times> UserPresence) list" where
  "batch_of W d = (case ws_batches W d of Some b \<Rightarrow> b | None \<Rightarrow> [])"

definition handleRedisPresence :: "('c, 'r) Ws \<Rightarrow> string \<Rightarrow> UserPresence \<Rightarrow> ('c, 'r) Ws" where
  "handleRedisPresence W d p =
     W\<lparr>ws_batches := (ws_batches W)(d \<mapsto> batch_set p (batch_of W d)),
       ws_presenceTimers := insert d (ws_presenceTimers W)\<rparr>"

definition presenceTimer :: "('c, 'r) WsDeps \<Rightarrow> ('c, 'r) Ws \<Rightarrow> string \<Rightarrow> ('c, 'r) Ws" where
  "presenceTimer X W d =
     (if d \<notin> ws_presenceTimers W then W
      else let W1 = W\<lparr>ws_batches := (ws_batches W)(d := None), ws_presenceTimers := ws_presenceTimers W - {d}\<rparr>
        in foldl (\<lambda>W p. set_table W (broadcastToDocument (wd_sendQueueMax X) (ws_table W) d (PRESENCE_UPDATE p) None)) W1
             (map snd (batch_of W d)))"

fun deliver_one ::
  "('c, 'r) WsDeps \<Rightarrow> ('c, 'r) Ws \<Rightarrow> (doc_handler, doc_handler, unit, user_handler) delivery \<Rightarrow> ('c, 'r) Ws" where
  "deliver_one X W (ToOp (DocHandler n d) envelope) = handleRedisOperation X W d envelope"
| "deliver_one X W (ToPresence (DocHandler n d) p) = handleRedisPresence W d p"
| "deliver_one X W (ToNotification (NotifyHandler n i) v) =
     set_table W (fst (sendToSession (wd_sendQueueMax X) (ws_table W) i (NOTIFICATION_CREATED v)))"
| "deliver_one X W (ToNotification (NoHandler n) v) = W"
| "deliver_one X W (ToUserLeft h i u d) = W"

definition redisMessage :: "('c, 'r) WsDeps \<Rightarrow> ('c, 'r) Ws \<Rightarrow> string \<times> bus_message \<Rightarrow> ('c, 'r) Ws" where
  "redisMessage X W cm = foldl (deliver_one X) W (receive (ws_bus W) cm)"

section \<open>Disconnecting\<close>

text \<open>The closures given to the unsubscriptions are new ones. Without Redis \<open>removePresence\<close> throws and the rest is skipped.\<close>

definition handleDisconnect :: "('c, 'r) WsDeps \<Rightarrow> ('c, 'r) Ws \<Rightarrow> WsEnv \<Rightarrow> string \<Rightarrow> ('c, 'r) Ws" where
  "handleDisconnect X W E i =
     (let session = st_objs (ws_table W) i; W1 = set_table W (fst (removeSession (ws_table W) i));
          finish = (\<lambda>W. W\<lparr>ws_bus := unsubscribeFromUser (ws_bus W) (ss_userId session) (NoHandler (ws_fresh W)),
            ws_fresh := ws_fresh W + 1, ws_rows := (if ca_pgUp (we_call E)
              then update_rows (\<lambda>r. sess_id r = ss_id session) (\<lambda>r. r\<lparr>sess_connected := False\<rparr>) (ws_rows W) else ws_rows W)\<rparr>)
      in case truthy (ss_docId session) of
           None \<Rightarrow> finish W1
         | Some d \<Rightarrow>
             if \<not> we_redisUp E then W1
             else (case removePresence (ws_presence W1) d (ss_id session) (ss_userId session) of (R, msgs) \<Rightarrow>
               let W2 = W1\<lparr>ws_presence := R, ws_table := broadcastToDocument (wd_sendQueueMax X) (ws_table W1) d
                       (USER_LEFT (ss_id session) (ss_userId session)) None,
                     ws_outbox := ws_outbox W1 @ msgs @ [publishUserLeft d (ss_id session) (ss_userId session)],
                     ws_bus := unsubscribeFromDocument (ws_bus W1) d (DocHandler (ws_fresh W1) d) (DocHandler (ws_fresh W1) d),
                     ws_fresh := ws_fresh W1 + 1\<rparr>
               in finish W2))"

definition socketClosed :: "('c, 'r) WsDeps \<Rightarrow> ('c, 'r) Ws \<Rightarrow> WsEnv \<Rightarrow> socket \<Rightarrow> ('c, 'r) Ws" where
  "socketClosed X W E s =
     (let W1 = W\<lparr>ws_clients := removeAll s (ws_clients W),
            ws_table := (ws_table W)\<lparr>st_sockets := (st_sockets (ws_table W))(s := SockClosed)\<rparr>\<rparr>
      in if s \<notin> ws_listening W then W1
         else let W2 = W1\<lparr>ws_joinTimers := ws_joinTimers W1 - {s}\<rparr>
           in case ws_getSession W2 s of None \<Rightarrow> W2 | Some i \<Rightarrow> handleDisconnect X W2 E i)"

section \<open>Heartbeat\<close>

definition pong :: "('c, 'r) Ws \<Rightarrow> socket \<Rightarrow> ('c, 'r) Ws" where
  "pong W s = (if s \<notin> ws_listening W then W
     else case ws_getSession W s of None \<Rightarrow> W
       | Some i \<Rightarrow> set_table W (set_session (ws_table W) i (\<lambda>x. x\<lparr>ss_isAlive := True\<rparr>)))"

text \<open>\<open>terminate\<close> destroys the connection; the close event follows.\<close>

definition heartbeat_one :: "('c, 'r) WsDeps \<Rightarrow> int \<Rightarrow> ('c, 'r) Ws \<Rightarrow> socket \<Rightarrow> ('c, 'r) Ws" where
  "heartbeat_one X now W s =
     (case ws_getSession W s of
        None \<Rightarrow> W
      | Some i \<Rightarrow>
          let session = st_objs (ws_table W) i
          in if \<not> ss_isAlive session \<or> now - ss_lastActivity session > wd_heartbeatTimeoutMs X * 2
             then set_table W ((ws_table W)\<lparr>st_sockets := (st_sockets (ws_table W))(s := SockClosed)\<rparr>)
             else (set_table W (set_session (ws_table W) i (\<lambda>x. x\<lparr>ss_isAlive := False\<rparr>)))\<lparr>ws_pings := ws_pings W @ [s]\<rparr>)"

definition heartbeat :: "('c, 'r) WsDeps \<Rightarrow> ('c, 'r) Ws \<Rightarrow> int \<Rightarrow> ('c, 'r) Ws" where
  "heartbeat X W now = foldl (heartbeat_one X now) W (ws_clients W)"

section \<open>Parts of the state\<close>

lemma set_table_parts [simp]:
  "ws_table (set_table W T) = T" "ws_bus (set_table W T) = ws_bus W" "ws_server (set_table W T) = ws_server W"
  "ws_socketToSession (set_table W T) = ws_socketToSession W" "ws_clients (set_table W T) = ws_clients W"
  "ws_listening (set_table W T) = ws_listening W" "ws_pendingAuth (set_table W T) = ws_pendingAuth W"
  "ws_joinTimers (set_table W T) = ws_joinTimers W" "ws_joining (set_table W T) = ws_joining W"
  "ws_batches (set_table W T) = ws_batches W" "ws_presenceTimers (set_table W T) = ws_presenceTimers W"
  "ws_fresh (set_table W T) = ws_fresh W" "ws_presence (set_table W T) = ws_presence W" "ws_outbox (set_table W T) = ws_outbox W"
  "ws_dir (set_table W T) = ws_dir W" "ws_pings (set_table W T) = ws_pings W" "ws_rows (set_table W T) = ws_rows W"
  by (simp_all add: set_table_def)

lemma close_socket_parts [simp]:
  "st_sessions (close_socket T s c) = st_sessions T" "st_objs (close_socket T s c) = st_objs T"
  "st_sent (close_socket T s c) = st_sent T" "st_docSessions (close_socket T s c) = st_docSessions T"
  "st_userSessions (close_socket T s c) = st_userSessions T"
  by (simp_all add: close_socket_def)

lemma sendError_parts [simp]:
  "st_sessions (sendError T s c m) = st_sessions T" "st_objs (sendError T s c m) = st_objs T"
  "st_sockets (sendError T s c m) = st_sockets T" "st_docSessions (sendError T s c m) = st_docSessions T"
  "st_userSessions (sendError T s c m) = st_userSessions T"
  by (simp_all add: sendError_def)

lemma set_session_parts [simp]:
  "st_sessions (set_session T i f) = st_sessions T" "st_sockets (set_session T i f) = st_sockets T"
  "st_sent (set_session T i f) = st_sent T" "st_docSessions (set_session T i f) = st_docSessions T"
  "st_userSessions (set_session T i f) = st_userSessions T"
  "st_objs (set_session T i f) j = (if j = i then f (st_objs T i) else st_objs T j)"
  by (simp_all add: set_session_def)

section \<open>Unauthenticated connections\<close>

lemma connection_accepted:
  assumes "ws_pendingAuth W < 100"
  shows "ws_pendingAuth (connection W s) = ws_pendingAuth W + 1" "s \<in> ws_listening (connection W s)"
    "ws_socketToSession (connection W s) = ws_socketToSession W" "st_sockets (ws_table (connection W s)) s = SockOpen"
  using assms by (simp_all add: connection_def MAX_PENDING_AUTH_def)

lemma connection_refused:
  assumes "100 \<le> ws_pendingAuth W"
  shows "ws_pendingAuth (connection W s) = ws_pendingAuth W" "ws_listening (connection W s) = ws_listening W"
    "ws_socketToSession (connection W s) = ws_socketToSession W" "st_sockets (ws_table (connection W s)) s = SockClosing 4029"
    "ws_joinTimers (connection W s) = ws_joinTimers W"
  using assms by (simp_all add: connection_def MAX_PENDING_AUTH_def close_socket_def)

lemma closed_without_session:
  assumes "ws_socketToSession W s = None"
  shows "ws_pendingAuth (socketClosed X W E s) = ws_pendingAuth W" "ws_socketToSession (socketClosed X W E s) = ws_socketToSession W"
    "ws_listening (socketClosed X W E s) = ws_listening W"
  using assms by (simp_all add: socketClosed_def ws_getSession_def truthy_def Let_def)

text \<open>A visit that sends nothing: the connection is opened and closed again.\<close>

definition visit :: "('c, 'r) WsDeps \<Rightarrow> WsEnv \<Rightarrow> ('c, 'r) Ws \<Rightarrow> socket \<Rightarrow> ('c, 'r) Ws" where
  "visit X E W s = socketClosed X (connection W s) E s"

lemma visit_effect:
  assumes "ws_socketToSession W s = None" "ws_pendingAuth W \<le> 100"
  shows "ws_pendingAuth (visit X E W s) = min 100 (ws_pendingAuth W + 1)" "ws_socketToSession (visit X E W s) = ws_socketToSession W"
    "ws_listening (visit X E W s) \<subseteq> insert s (ws_listening W)"
proof -
  have m: "ws_socketToSession (connection W s) = ws_socketToSession W" by (simp add: connection_def Let_def)
  then have n: "ws_socketToSession (connection W s) s = None" using assms(1) by simp
  show "ws_socketToSession (visit X E W s) = ws_socketToSession W" by (simp add: visit_def closed_without_session [OF n] m)
  show "ws_pendingAuth (visit X E W s) = min 100 (ws_pendingAuth W + 1)"
    using assms(2) by (cases "ws_pendingAuth W < 100")
      (simp_all add: visit_def closed_without_session [OF n] connection_accepted connection_refused)
  show "ws_listening (visit X E W s) \<subseteq> insert s (ws_listening W)"
    unfolding visit_def closed_without_session(3) [OF n] by (auto simp: connection_def Let_def)
qed

lemma visits_effect:
  assumes "\<forall>s \<in> set ss. ws_socketToSession W s = None" "ws_pendingAuth W \<le> 100"
  shows "ws_pendingAuth (foldl (visit X E) W ss) = min 100 (ws_pendingAuth W + int (length ss)) \<and>
    ws_listening (foldl (visit X E) W ss) \<subseteq> set ss \<union> ws_listening W"
  using assms
proof (induction ss arbitrary: W)
  case (Cons s ss)
  have v: "ws_pendingAuth (visit X E W s) = min 100 (ws_pendingAuth W + 1)" "ws_socketToSession (visit X E W s) = ws_socketToSession W"
    "ws_listening (visit X E W s) \<subseteq> insert s (ws_listening W)"
    using visit_effect [of W s X E] Cons.prems by auto
  have "ws_pendingAuth (foldl (visit X E) (visit X E W s) ss) = min 100 (ws_pendingAuth (visit X E W s) + int (length ss)) \<and>
    ws_listening (foldl (visit X E) (visit X E W s) ss) \<subseteq> set ss \<union> ws_listening (visit X E W s)"
    using Cons.prems v by (intro Cons.IH) auto
  then show ?case using v(1,3) Cons.prems(2) by (auto simp: min_def)
qed simp

text \<open>The count of unauthenticated connections leaks: a connection that closes before its first message is
  never counted down, so after a hundred of them - none of them open any more - every new connection is
  closed with 4029 and its messages are not listened to.\<close>

theorem pending_auth_leaks:
  assumes "ws_pendingAuth W = 0" "\<forall>s \<in> set ss. ws_socketToSession W s = None" "100 \<le> length ss"
    and "s \<notin> set ss" "s \<notin> ws_listening W"
  shows "ws_pendingAuth (foldl (visit X E) W ss) = 100 \<and>
    st_sockets (ws_table (connection (foldl (visit X E) W ss) s)) s = SockClosing 4029 \<and>
    message X (connection (foldl (visit X E) W ss) s) E' s raw = connection (foldl (visit X E) W ss) s"
proof -
  let ?W = "foldl (visit X E) W ss"
  have "ws_pendingAuth ?W = 100 \<and> ws_listening ?W \<subseteq> set ss \<union> ws_listening W"
    using visits_effect [OF assms(2)] assms(1,3) by auto
  then show ?thesis using assms(4,5) connection_refused [of ?W s] by (auto simp: message_def)
qed

text \<open>The messages of a socket that wait for the answer to its JOIN are each taken for a JOIN.\<close>

lemma early_message:
  assumes "s \<in> ws_listening W" "ws_getSession W s = None"
  shows "ws_pendingAuth (message X W E s (Some v)) = ws_pendingAuth W - 1" "s \<in> ws_listening (message X W E s (Some v))"
    "ws_getSession (message X W E s (Some v)) s = None"
proof -
  have "ws_getSession (reject_socket V s c m k) s = None \<and> ws_getSession (V\<lparr>ws_joining := x\<rparr>) s = None"
    if "ws_getSession V s = None" for V :: "('a, 'b) Ws" and c m k x
    using that by (auto simp: ws_getSession_def reject_socket_def split: option.splits if_splits)
  moreover have "ws_getSession (W\<lparr>ws_joinTimers := x, ws_pendingAuth := y\<rparr>) s = None" for x y
    using assms(2) by (auto simp: ws_getSession_def split: option.splits if_splits)
  ultimately show "ws_getSession (message X W E s (Some v)) s = None"
    using assms by (simp add: message_def handleJoin_def split: option.split)
qed (use assms in \<open>simp_all add: message_def handleJoin_def reject_socket_def split: option.split\<close>)

text \<open>The limit on unauthenticated connections can be lifted: until a JOIN is answered every message
  of the connection is taken for a JOIN and counts it down again, so one connection takes the count of
  the worker as far below zero as it likes.\<close>

theorem pending_auth_below_zero:
  assumes "ws_pendingAuth W < 100" "ws_socketToSession W s = None"
  shows "ws_pendingAuth (foldl (\<lambda>W v. message X W E s (Some v)) (connection W s) vs) = ws_pendingAuth W + 1 - int (length vs)"
proof -
  have "ws_pendingAuth (foldl (\<lambda>W v. message X W E s (Some v)) V vs) = ws_pendingAuth V - int (length vs)"
    if "s \<in> ws_listening V" "ws_getSession V s = None" for V
    using that by (induction vs arbitrary: V) (simp_all add: early_message)
  moreover have "ws_getSession (connection W s) s = None"
    using assms by (simp add: ws_getSession_def connection_accepted truthy_def)
  ultimately show ?thesis using assms(1) by (simp add: connection_accepted)
qed

section \<open>The message queue\<close>

lemma enqueue_stable_sort:
  assumes "sorted (map fst q)"
  shows "enqueue_message p m q = sort_key fst (q @ [(p, m)])"
proof -
  have e: "set (enqueue_message p m q) = insert (p, m) (set q)" for p m q
    by (induction p m q rule: enqueue_message.induct) auto
  have s: "sorted (map fst (enqueue_message p m q))"
    using assms by (induction p m q rule: enqueue_message.induct) (auto simp: e dest: bspec)
  have nil: "filter (\<lambda>x. k = fst x) xs = []" if "k < n" "\<forall>x \<in> set xs. n \<le> fst x"
    for k n and xs :: "(nat \<times> ClientMessage) list"
    using that by (force simp: filter_empty_conv)
  have f: "filter (\<lambda>x. k = fst x) (enqueue_message p m q) = filter (\<lambda>x. k = fst x) (q @ [(p, m)])" for k
    using assms by (induction p m q rule: enqueue_message.induct) (auto simp: nil)
  have mset: "mset (enqueue_message p m q) = mset (q @ [(p, m)])" for q
    by (induction p m q rule: enqueue_message.induct) auto
  show ?thesis
    by (rule properties_for_sort_key [symmetric]) (rule mset, rule f, rule s)
qed

text \<open>While a session is busy its messages wait in the order a stable sort by priority gives: every waiting
  operation before every other message, and messages of one kind in the order of arrival.\<close>

theorem waiting_operations_first:
  "foldl (\<lambda>q m. enqueue_message (priority m) m q) [] ms =
     map (\<lambda>m. (0, m)) (filter (\<lambda>m. \<exists>x. m = OPERATION x) ms) @ map (\<lambda>m. (1, m)) (filter (\<lambda>m. \<nexists>x. m = OPERATION x) ms)"
proof -
  have op: "enqueue_message 0 m (map (Pair 0) xs @ map (Pair 1) ys) = map (Pair 0) (xs @ [m]) @ map (Pair 1) ys" for m xs ys
    by (induction xs) (cases ys; simp)+
  have other: "enqueue_message 1 m (map (Pair 0) xs @ map (Pair 1) ys) = map (Pair 0) xs @ map (Pair 1) (ys @ [m])" for m xs ys
  proof (induction xs)
    case Nil
    show ?case by (induction ys) auto
  qed simp
  show ?thesis
    using op other by (induction ms rule: rev_induct) (auto simp: priority_def split: ClientMessage.split)
qed

section \<open>A worker to run\<close>

definition example_ws :: "(string \<Rightarrow> entry_ref option, (string \<Rightarrow> int) \<times> string set) Ws" where
  "example_ws = \<lparr>ws_server = example_server, ws_dir = example_directory, ws_table = no_sessions, ws_clients = [],
     ws_listening = {}, ws_socketToSession = Map.empty, ws_pendingAuth = 0, ws_joinTimers = {}, ws_joining = [],
     ws_bus = new_pubsub, ws_fresh = 0, ws_presence = [], ws_outbox = [], ws_batches = Map.empty,
     ws_presenceTimers = {}, ws_typing = Map.empty, ws_rows = [], ws_pings = []\<rparr>"

definition example_ws_deps :: "(string \<Rightarrow> entry_ref option, (string \<Rightarrow> int) \<times> string set) WsDeps" where
  "example_ws_deps = \<lparr>wd_deps = example_deps, wd_verify = example_verify, wd_is_uuid = (\<lambda>s. s \<noteq> []),
     wd_zodMessage = (\<lambda>_. ''invalid''), wd_sendQueueMax = 500, wd_heartbeatTimeoutMs = 10000\<rparr>"

definition example_ws_env :: "string \<Rightarrow> WsEnv" where
  "example_ws_env i = \<lparr>we_call = example_call i, we_loadOk = True, we_redisUp = True, we_subscribed = True, we_uuid = i, we_iso = ''now''\<rparr>"

theorem pending_auth_leaks_witness:
  "ws_pendingAuth (foldl (visit example_ws_deps (example_ws_env ''i'')) example_ws [0..<100]) = 100"
  using pending_auth_leaks [of example_ws "[0..<100]" 100 example_ws_deps "example_ws_env ''i''"]
  by (simp add: example_ws_def)

theorem pending_auth_below_zero_witness:
  "ws_pendingAuth (foldl (\<lambda>W v. message example_ws_deps W (example_ws_env ''i'') 7 (Some v)) (connection example_ws 7) [JNull, JNull, JNull]) = -2"
  using pending_auth_below_zero [of example_ws 7 example_ws_deps "example_ws_env ''i''" "[JNull, JNull, JNull]"]
  by (simp add: example_ws_def)

section \<open>Heartbeat\<close>

definition heartbeat_kills :: "('c, 'r) WsDeps \<Rightarrow> int \<Rightarrow> ServerSession \<Rightarrow> bool" where
  "heartbeat_kills X now x \<longleftrightarrow> \<not> ss_isAlive x \<or> now - ss_lastActivity x > wd_heartbeatTimeoutMs X * 2"

lemma heartbeat_one_parts [simp]:
  "st_sessions (ws_table (heartbeat_one X now W s)) = st_sessions (ws_table W)"
  "ws_socketToSession (heartbeat_one X now W s) = ws_socketToSession W" "ws_clients (heartbeat_one X now W s) = ws_clients W"
  "ws_listening (heartbeat_one X now W s) = ws_listening W"
  by (simp_all add: heartbeat_one_def Let_def split: option.split)

lemma heartbeat_one_getSession [simp]: "ws_getSession (heartbeat_one X now W s) t = ws_getSession W t"
  by (simp add: ws_getSession_def split: option.split)

text \<open>One round, for a socket whose session no other socket has.\<close>

lemma heartbeat_effect:
  assumes "distinct cs" "ws_getSession W s = Some i" "\<And>t. t \<noteq> s \<Longrightarrow> ws_getSession W t \<noteq> Some i"
  shows "let V = foldl (heartbeat_one X now) W cs; x = st_objs (ws_table W) i in
    ws_getSession V s = Some i \<and> (\<forall>t. t \<noteq> s \<longrightarrow> ws_getSession V t \<noteq> Some i) \<and>
    st_sockets (ws_table V) s = (if s \<in> set cs \<and> heartbeat_kills X now x then SockClosed else st_sockets (ws_table W) s) \<and>
    st_objs (ws_table V) i = (if s \<in> set cs \<and> \<not> heartbeat_kills X now x then x\<lparr>ss_isAlive := False\<rparr> else x)"
  using assms
proof (induction cs arbitrary: W)
  case (Cons c cs)
  let ?W = "heartbeat_one X now W c"
  have IH: "let V = foldl (heartbeat_one X now) ?W cs; x = st_objs (ws_table ?W) i in
    ws_getSession V s = Some i \<and> (\<forall>t. t \<noteq> s \<longrightarrow> ws_getSession V t \<noteq> Some i) \<and>
    st_sockets (ws_table V) s = (if s \<in> set cs \<and> heartbeat_kills X now x then SockClosed else st_sockets (ws_table ?W) s) \<and>
    st_objs (ws_table V) i = (if s \<in> set cs \<and> \<not> heartbeat_kills X now x then x\<lparr>ss_isAlive := False\<rparr> else x)"
    using Cons.prems by (intro Cons.IH) simp_all
  show ?case
  proof (cases "c = s")
    case True
    have "st_sockets (ws_table ?W) s = (if heartbeat_kills X now (st_objs (ws_table W) i) then SockClosed else st_sockets (ws_table W) s)"
      "st_objs (ws_table ?W) i = (if heartbeat_kills X now (st_objs (ws_table W) i) then st_objs (ws_table W) i
        else (st_objs (ws_table W) i)\<lparr>ss_isAlive := False\<rparr>)"
      using Cons.prems(2) True by (simp_all add: heartbeat_one_def heartbeat_kills_def Let_def)
    then show ?thesis using IH Cons.prems(1) True by (auto simp: Let_def)
  next
    case False
    have "st_sockets (ws_table ?W) s = st_sockets (ws_table W) s" "st_objs (ws_table ?W) i = st_objs (ws_table W) i"
      using False Cons.prems(3) [OF False] by (auto simp: heartbeat_one_def Let_def split: option.split)
    then show ?thesis using IH False by (auto simp: Let_def)
  qed
qed (simp add: Let_def)

text \<open>The heartbeat, for a connected client: it survives a round exactly if it is marked alive and its last
  message is no older than twice the timeout. A client that answers no ping is therefore
  terminated in the second round at the latest, but so is one that answers every ping
  and merely sends nothing - a reader - since answering does not count as activity.\<close>

theorem heartbeat_terminates:
  assumes "s \<in> set (ws_clients W)" "distinct (ws_clients W)" "ws_getSession W s = Some i" "\<And>t. t \<noteq> s \<Longrightarrow> ws_getSession W t \<noteq> Some i"
  shows "(st_sockets (ws_table W) s = SockOpen \<longrightarrow>
      (st_sockets (ws_table (heartbeat X W now)) s = SockOpen \<longleftrightarrow>
        ss_isAlive (st_objs (ws_table W) i) \<and> now \<le> ss_lastActivity (st_objs (ws_table W) i) + wd_heartbeatTimeoutMs X * 2)) \<and>
    st_sockets (ws_table (heartbeat X (heartbeat X W now) later)) s = SockClosed \<and>
    (ss_lastActivity (st_objs (ws_table W) i) + wd_heartbeatTimeoutMs X * 2 < later \<longrightarrow>
      st_sockets (ws_table (heartbeat X (pong (heartbeat X W now) s) later)) s = SockClosed)"
proof -
  let ?V = "heartbeat X W now" and ?x = "st_objs (ws_table W) i"
  have c: "ws_clients ?V = ws_clients W" "ws_listening ?V = ws_listening W"
  proof -
    have "ws_clients (foldl (heartbeat_one X now) W cs) = ws_clients W \<and> ws_listening (foldl (heartbeat_one X now) W cs) = ws_listening W"
      for cs by (induction cs arbitrary: W) simp_all
    then show "ws_clients ?V = ws_clients W" "ws_listening ?V = ws_listening W" by (simp_all add: heartbeat_def)
  qed
  have one: "ws_getSession ?V s = Some i" "\<And>t. t \<noteq> s \<Longrightarrow> ws_getSession ?V t \<noteq> Some i"
    "st_sockets (ws_table ?V) s = (if heartbeat_kills X now ?x then SockClosed else st_sockets (ws_table W) s)"
    "st_objs (ws_table ?V) i = (if heartbeat_kills X now ?x then ?x else ?x\<lparr>ss_isAlive := False\<rparr>)"
    using heartbeat_effect [OF assms(2-4), of X now] assms(1) by (simp_all add: heartbeat_def Let_def)
  have two: "st_sockets (ws_table (heartbeat X U later)) s = (if heartbeat_kills X later (st_objs (ws_table U) i) then SockClosed
      else st_sockets (ws_table U) s)"
    if "ws_getSession U s = Some i" "\<And>t. t \<noteq> s \<Longrightarrow> ws_getSession U t \<noteq> Some i" "ws_clients U = ws_clients W" for U
    using heartbeat_effect [OF assms(2) that(1,2), of X later] assms(1) that(3) by (simp add: heartbeat_def Let_def)
  have "st_sockets (ws_table (heartbeat X ?V later)) s = SockClosed"
    using two [OF one(1,2) c(1)] one(3,4) by (auto simp: heartbeat_kills_def)
  moreover have "st_sockets (ws_table (heartbeat X (pong ?V s) later)) s = SockClosed"
    if "ss_lastActivity ?x + wd_heartbeatTimeoutMs X * 2 < later"
  proof -
    have p: "ws_getSession (pong ?V s) t = ws_getSession ?V t" "ws_clients (pong ?V s) = ws_clients W"
      "ss_lastActivity (st_objs (ws_table (pong ?V s)) i) = ss_lastActivity ?x" for t
      using c(1) by (auto simp: pong_def ws_getSession_def one(4) split: option.splits)
    show ?thesis using two [of "pong ?V s"] one(1,2) p that by (simp add: heartbeat_kills_def)
  qed
  ultimately show ?thesis using one(3) by (auto simp: heartbeat_kills_def not_less)
qed

definition example_joined :: "(string \<Rightarrow> entry_ref option, (string \<Rightarrow> int) \<times> string set) Ws" where
  "example_joined = example_ws\<lparr>ws_table := fst (registerSession no_sessions 3 (example_session_params ''d'') ''s'' 7),
     ws_socketToSession := [3 \<mapsto> ''s''], ws_clients := [3], ws_listening := {3}\<rparr>"

lemma example_joined_parts:
  "st_sessions (ws_table example_joined) = {''s''}" "ws_socketToSession example_joined = [3 \<mapsto> ''s'']"
  "ws_clients example_joined = [3]" "ws_listening example_joined = {3}" "st_sockets (ws_table example_joined) = (\<lambda>_. SockOpen)"
  "ss_lastActivity (st_objs (ws_table example_joined) ''s'') = 7" "ss_isAlive (st_objs (ws_table example_joined) ''s'')"
  "ss_role (st_objs (ws_table example_joined) ''s'') = None" "ss_socket (st_objs (ws_table example_joined) ''s'') = 3"
  "ss_sendQueue (st_objs (ws_table example_joined) ''s'') = 0" "st_sent (ws_table example_joined) = []"
  by (simp_all add: example_joined_def example_ws_def registerSession_def no_sessions_def Let_def example_session_params_def truthy_def)

lemma example_joined_session: "ws_getSession example_joined t = (if t = 3 then Some ''s'' else None)"
  by (simp add: ws_getSession_def example_joined_parts truthy_def)

theorem heartbeat_terminates_witness:
  "st_sockets (ws_table (heartbeat example_ws_deps (pong (heartbeat example_ws_deps example_joined 10000) 3) 40000)) 3 = SockClosed"
  using heartbeat_terminates [of 3 example_joined "''s''" example_ws_deps 10000 40000]
  by (simp add: example_joined_parts example_joined_session example_ws_deps_def)

section \<open>Presence batches\<close>

fun latest :: "UserPresence list \<Rightarrow> string \<Rightarrow> UserPresence option" where
  "latest [] i = None"
| "latest (p # ps) i = (case latest ps i of Some q \<Rightarrow> Some q | None \<Rightarrow> if p_sessionId p = i then Some p else None)"

lemma latest_append: "latest (ps @ qs) i = (case latest qs i of Some q \<Rightarrow> Some q | None \<Rightarrow> latest ps i)"
  by (induction ps) (auto split: option.split)

lemma handleRedisPresence_parts [simp]:
  "batch_of (handleRedisPresence W d p) d = AList.update (p_sessionId p) p (batch_of W d)"
  "ws_table (handleRedisPresence W d p) = ws_table W" "d \<in> ws_presenceTimers (handleRedisPresence W d p)"
  by (simp_all add: handleRedisPresence_def batch_of_def batch_set_def)

lemma redis_presence_batch:
  assumes "ws_batches W d = None"
  shows "let V = foldl (\<lambda>W p. handleRedisPresence W d p) W ps in
    distinct (map fst (batch_of V d)) \<and> (\<forall>i. map_of (batch_of V d) i = latest ps i) \<and>
    (\<forall>(i, p) \<in> set (batch_of V d). p_sessionId p = i) \<and> ws_table V = ws_table W \<and> (ps \<noteq> [] \<longrightarrow> d \<in> ws_presenceTimers V)"
proof (induction ps rule: rev_induct)
  case Nil
  then show ?case using assms by (simp add: batch_of_def)
next
  case (snoc p ps)
  have u: "set (AList.update k v xs) \<subseteq> insert (k, v) (set xs)" for k v and xs :: "(string \<times> UserPresence) list"
    by (induction xs) auto
  show ?case
    using snoc.IH u by (auto simp: Let_def distinct_update update_conv' latest_append dest!: subsetD [OF u])
qed

definition broadcast_presence :: "('c, 'r) WsDeps \<Rightarrow> string \<Rightarrow> SessionTable \<Rightarrow> UserPresence \<Rightarrow> SessionTable" where
  "broadcast_presence X d T p = broadcastToDocument (wd_sendQueueMax X) T d (PRESENCE_UPDATE p) None"

text \<open>Presence updates are debounced without losing any: whatever updates arrive before the timer fires, it
  broadcasts to the document one message per session that was updated, with its last update, and the next
  update starts a new batch.\<close>

theorem presence_batch_keeps_last:
  assumes "ws_batches W d = None" "ps \<noteq> []"
  shows "\<exists>qs. let V = presenceTimer X (foldl (\<lambda>W p. handleRedisPresence W d p) W ps) d in
    ws_table V = foldl (broadcast_presence X d) (ws_table W) qs \<and> ws_batches V d = None \<and> d \<notin> ws_presenceTimers V \<and>
    distinct (map p_sessionId qs) \<and> set qs = {q. latest ps (p_sessionId q) = Some q}"
proof -
  let ?V = "foldl (\<lambda>W p. handleRedisPresence W d p) W ps"
  let ?b = "batch_of ?V d"
  have b: "distinct (map fst ?b)" "\<And>i. map_of ?b i = latest ps i" "\<And>i q. (i, q) \<in> set ?b \<Longrightarrow> p_sessionId q = i"
    "ws_table ?V = ws_table W" "d \<in> ws_presenceTimers ?V"
    using redis_presence_batch [OF assms(1), of ps] assms(2) by (auto simp: Let_def)
  have f: "ws_table (foldl (\<lambda>W p. set_table W (broadcastToDocument m (ws_table W) d (PRESENCE_UPDATE p) None)) U qs) =
      foldl (\<lambda>T p. broadcastToDocument m T d (PRESENCE_UPDATE p) None) (ws_table U) qs \<and>
    ws_batches (foldl (\<lambda>W p. set_table W (broadcastToDocument m (ws_table W) d (PRESENCE_UPDATE p) None)) U qs) = ws_batches U \<and>
    ws_presenceTimers (foldl (\<lambda>W p. set_table W (broadcastToDocument m (ws_table W) d (PRESENCE_UPDATE p) None)) U qs) = ws_presenceTimers U"
    for m qs and U :: "('a, 'b) Ws"
    by (induction qs arbitrary: U) simp_all
  have keys: "map p_sessionId (map snd ?b) = map fst ?b" using b(3) by (auto simp: map_eq_conv)
  have "set (map snd ?b) = {q. latest ps (p_sessionId q) = Some q}"
  proof (intro set_eqI iffI CollectI)
    fix q
    assume "q \<in> set (map snd ?b)"
    then obtain i where "(i, q) \<in> set ?b" by auto
    then show "latest ps (p_sessionId q) = Some q" using b(1-3) by (metis map_of_is_SomeI)
  next
    fix q
    assume "q \<in> {q. latest ps (p_sessionId q) = Some q}"
    then have "map_of ?b (p_sessionId q) = Some q" by (simp add: b(2))
    then show "q \<in> set (map snd ?b)" by (force dest: map_of_SomeD)
  qed
  moreover have "distinct (map p_sessionId (map snd ?b))" unfolding keys by (rule b(1))
  moreover have "ws_table (presenceTimer X ?V d) = foldl (broadcast_presence X d) (ws_table W) (map snd ?b)"
    using b(4,5) by (simp add: presenceTimer_def Let_def f broadcast_presence_def [abs_def])
  moreover have "ws_batches (presenceTimer X ?V d) d = None \<and> d \<notin> ws_presenceTimers (presenceTimer X ?V d)"
    using b(5) by (simp add: presenceTimer_def Let_def f)
  ultimately show ?thesis by (intro exI [of _ "map snd ?b"]) (simp add: Let_def)
qed

theorem presence_batch_keeps_last_witness:
  "ws_batches (presenceTimer example_ws_deps (handleRedisPresence example_joined ''d'' (buildInitialPresence ''s'' ''u'' ''n'' ''c'' ''t'')) ''d'') ''d'' = None"
  using presence_batch_keeps_last [of example_joined "''d''" "[buildInitialPresence ''s'' ''u'' ''n'' ''c'' ''t'']" example_ws_deps]
  by (auto simp: Let_def example_joined_def example_ws_def)

section \<open>Handlers accumulate\<close>

text \<open>What every event keeps of the bus: each JOIN registers one new closure, for both channels of its document.\<close>

definition bus_inv :: "('c, 'r) Ws \<Rightarrow> bool" where
  "bus_inv W \<longleftrightarrow> pubsub_ok (ws_bus W) \<and> userLeftHandlers (ws_bus W) = [] \<and>
     (\<forall>d. \<forall>h \<in> set (handlers_at (opHandlers (ws_bus W)) d). \<exists>n < ws_fresh W. h = DocHandler n d)"

definition joined :: "('c, 'r) Ws \<Rightarrow> string \<Rightarrow> nat" where
  "joined W d = length (handlers_at (opHandlers (ws_bus W)) d)"

lemma fresh_handler: "bus_inv W \<Longrightarrow> ws_fresh W \<le> n \<Longrightarrow> DocHandler n d \<notin> set (handlers_at (opHandlers (ws_bus W)) e)"
  by (fastforce simp: bus_inv_def)

lemma user_ops [simp]:
  "opHandlers (subscribeToUser ok B u n) = opHandlers B" "opHandlers (unsubscribeFromUser B u n) = opHandlers B"
  "userLeftHandlers (subscribeToUser ok B u n) = userLeftHandlers B" "userLeftHandlers (unsubscribeFromUser B u n) = userLeftHandlers B"
  "userLeftHandlers (subscribeToDocument ok B d x y) = userLeftHandlers B"
  "userLeftHandlers (unsubscribeFromDocument B d x y) = userLeftHandlers B"
  "opHandlers (subscribeToDocument ok B d x y) = handlers_add (opHandlers B) d x"
  by (simp_all add: subscribeToUser_def unsubscribeFromUser_def subscribeToDocument_def unsubscribeFromDocument_def Let_def)

lemma join_register_bus:
  assumes "join_docId msg = Some d" "d \<noteq> []" "we_redisUp E" "we_subscribed E"
  shows "\<exists>u n. ws_bus (join_register X W E s msg payload named) =
      subscribeToUser True (subscribeToDocument True (ws_bus W) d (DocHandler (ws_fresh W) d) (DocHandler (ws_fresh W) d)) u n \<and>
    ws_fresh (join_register X W E s msg payload named) = ws_fresh W + 2"
  using assms by (simp add: join_register_def truthy_def Let_def split: prod.split) blast

lemma handleDisconnect_bus:
  "let V = handleDisconnect X W E i in
    (ws_bus V = ws_bus W \<and> ws_fresh V = ws_fresh W) \<or>
    (\<exists>u n. ws_bus V = unsubscribeFromUser (ws_bus W) u n \<and> ws_fresh V = ws_fresh W + 1) \<or>
    (\<exists>d u n. ws_bus V = unsubscribeFromUser (unsubscribeFromDocument (ws_bus W) d (DocHandler (ws_fresh W) d) (DocHandler (ws_fresh W) d)) u n \<and>
       ws_fresh V = ws_fresh W + 2)"
  by (auto simp: handleDisconnect_def Let_def split: option.split prod.split)

lemma join_register_inv:
  assumes "bus_inv W" "join_docId msg = Some d" "d \<noteq> []" "we_redisUp E" "we_subscribed E"
  shows "bus_inv (join_register X W E s msg payload named) \<and> joined (join_register X W E s msg payload named) d = joined W d + 1"
proof -
  obtain u n where b: "ws_bus (join_register X W E s msg payload named) =
      subscribeToUser True (subscribeToDocument True (ws_bus W) d (DocHandler (ws_fresh W) d) (DocHandler (ws_fresh W) d)) u n"
    "ws_fresh (join_register X W E s msg payload named) = ws_fresh W + 2"
    using join_register_bus [OF assms(2-5)] by blast
  have f: "DocHandler (ws_fresh W) d \<notin> set (handlers_at (opHandlers (ws_bus W)) d)" by (rule fresh_handler [OF assms(1)]) simp
  have "\<exists>k < ws_fresh W + 2. h = DocHandler k e"
    if "h \<in> set (handlers_at (handlers_add (opHandlers (ws_bus W)) d (DocHandler (ws_fresh W) d)) e)" for h e
    using that assms(1) f by (fastforce simp: bus_inv_def set_add_def split: if_splits)
  then have "bus_inv (join_register X W E s msg payload named)"
    using assms(1) by (simp add: bus_inv_def b pubsub_ok_intros)
  then show ?thesis using f by (simp add: joined_def b set_add_def)
qed

lemma leave_fresh:
  assumes "bus_inv W"
  shows "handlers_at (opHandlers (unsubscribeFromDocument (ws_bus W) e (DocHandler (ws_fresh W) e) (DocHandler (ws_fresh W) e))) d =
    handlers_at (opHandlers (ws_bus W)) d"
proof -
  have "pubsub_ok (ws_bus W)" using assms by (simp add: bus_inv_def)
  then show ?thesis
    using ops_bus.leave_handlers [of "ws_bus W" e "DocHandler (ws_fresh W) e" d] fresh_handler [OF assms, of "ws_fresh W" e e]
    by (simp add: removeAll_id)
qed

lemma handleDisconnect_inv:
  assumes "bus_inv W"
  shows "bus_inv (handleDisconnect X W E i) \<and> joined (handleDisconnect X W E i) d = joined W d"
proof -
  have up: "\<exists>k < ws_fresh W + m. h = DocHandler k e" if "h \<in> set (handlers_at (opHandlers (ws_bus W)) e)" for h e m
    using that assms by (fastforce simp: bus_inv_def)
  have ok: "pubsub_ok (ws_bus W)" "userLeftHandlers (ws_bus W) = []" using assms by (simp_all add: bus_inv_def)
  let ?V = "handleDisconnect X W E i"
  consider "ws_bus ?V = ws_bus W" "ws_fresh ?V = ws_fresh W"
    | u n where "ws_bus ?V = unsubscribeFromUser (ws_bus W) u n" "ws_fresh ?V = ws_fresh W + 1"
    | e u n where "ws_bus ?V = unsubscribeFromUser (unsubscribeFromDocument (ws_bus W) e (DocHandler (ws_fresh W) e) (DocHandler (ws_fresh W) e)) u n"
      "ws_fresh ?V = ws_fresh W + 2"
    using handleDisconnect_bus [of X W E i] unfolding Let_def by blast
  then show ?thesis
  proof cases
    case 1
    then show ?thesis using assms by (simp add: bus_inv_def joined_def)
  next
    case 2
    then show ?thesis using ok up [of _ _ 1] by (simp add: bus_inv_def joined_def pubsub_ok_intros)
  next
    case 3
    then show ?thesis using ok up [of _ _ 2] by (simp add: bus_inv_def joined_def pubsub_ok_intros leave_fresh [OF assms])
  qed
qed

lemma deliver_ops:
  assumes "\<forall>h \<in> set hs. \<exists>n. h = DocHandler n d"
  shows "ws_table (foldl (deliver_one X) W (map (\<lambda>h. ToOp h env) hs)) =
    ((\<lambda>T. broadcastToDocument (wd_sendQueueMax X) T d (BROADCAST env) None) ^^ length hs) (ws_table W)"
  using assms
proof (induction hs arbitrary: W)
  case (Cons h hs)
  then obtain n where "h = DocHandler n d" by auto
  then show ?case using Cons by (simp add: handleRedisOperation_def funpow_Suc_right del: funpow.simps(2))
qed simp

lemma redis_operation:
  assumes "bus_inv W" "CHR '':'' \<notin> set d" "env_docId env = d"
  shows "ws_table (redisMessage X W (publishOperation env)) =
    ((\<lambda>T. broadcastToDocument (wd_sendQueueMax X) T d (BROADCAST env) None) ^^ joined W d) (ws_table W)"
proof -
  let ?hs = "handlers_at (opHandlers (ws_bus W)) d"
  have inv: "pubsub_ok (ws_bus W)" "\<forall>h \<in> set ?hs. \<exists>n. h = DocHandler n d" using assms(1) by (auto simp: bus_inv_def)
  have "receive (ws_bus W) (publishOperation env) = map (\<lambda>h. ToOp h env) ?hs"
  proof (cases "docChannel d \<in> bus_channels (ws_bus W)")
    case True
    then have "bus_subscribed (ws_bus W)" using inv(1) by (auto dest: pubsub_okD(3))
    then show ?thesis using True assms(2,3) by (simp add: receive_def publishOperation_def routeMessage_def)
  next
    case False
    then have "opHandlers (ws_bus W) d = None" using pubsub_okD(1) [OF inv(1), of d] by (auto simp: doc_ok_def)
    then show ?thesis using False assms(3) by (simp add: receive_def publishOperation_def)
  qed
  then show ?thesis by (simp add: redisMessage_def deliver_ops [OF inv(2)] joined_def)
qed

text \<open>Every JOIN on a document adds one more broadcast of every later operation on that worker, for good: a
  disconnect unsubscribes closures that were never subscribed, so after \<open>k\<close> joins each session of the document
  is sent each operation \<open>k\<close> times; and a worker never hears that a user left on another one.\<close>

theorem joins_multiply_broadcasts:
  assumes "bus_inv W" "CHR '':'' \<notin> set d" "d \<noteq> []" "join_docId msg = Some d" "we_redisUp E" "we_subscribed E" "env_docId env = d"
  shows "bus_inv (join_register X W E s msg payload named) \<and>
    joined (join_register X W E s msg payload named) d = joined W d + 1 \<and>
    bus_inv (handleDisconnect X W E' i) \<and> joined (handleDisconnect X W E' i) d = joined W d \<and>
    ws_table (redisMessage X W (publishOperation env)) =
      ((\<lambda>T. broadcastToDocument (wd_sendQueueMax X) T d (BROADCAST env) None) ^^ joined W d) (ws_table W) \<and>
    redisMessage X W (publishUserLeft d j u) = W"
proof -
  have inv: "userLeftHandlers (ws_bus W) = []" using assms(1) by (simp add: bus_inv_def)
  note redis_operation [OF assms(1,2,7), of X]
  moreover have "redisMessage X W (publishUserLeft d j u) = W"
    using inv by (simp add: redisMessage_def receive_def publishUserLeft_def routeMessage_def)
  ultimately show ?thesis
    using join_register_inv [OF assms(1,4,3,5,6)] handleDisconnect_inv [OF assms(1)] by blast
qed

definition example_join :: "string option \<Rightarrow> int \<Rightarrow> JoinMessage" where
  "example_join d n = \<lparr>join_docId = d, join_token = ''b'', join_lastSeq = n, join_clientId = ''c''\<rparr>"

definition example_payload :: "string \<Rightarrow> JWTPayload" where
  "example_payload u = \<lparr>jwt_sub = u, jwt_email = u @ ''@x'', jwt_displayName = ascii u\<rparr>"

definition example_envelope :: OperationEnvelope where
  "example_envelope = \<lparr>env_id = ''i'', env_docId = ''d'', env_sessionId = ''s'', env_userId = ''b'',
     env_op = DELETE (UID 1 ''c''), env_seq = 1, env_clientSeq = 1, env_timestamp = ''t'', env_vectorClock = [], env_nonce = ''n''\<rparr>"

theorem joins_multiply_broadcasts_witness:
  "joined (join_register example_ws_deps example_ws (example_ws_env ''i'') 3 (example_join (Some ''d'') 0) (example_payload ''b'') (''b'', ''c'')) ''d'' = 1"
proof -
  have "bus_inv example_ws" "joined example_ws ''d'' = 0" by (simp_all add: bus_inv_def example_ws_def joined_def)
  then show ?thesis
    using joins_multiply_broadcasts [of example_ws "''d''" "example_join (Some ''d'') 0" "example_ws_env ''i''" example_envelope
      example_ws_deps 3 "example_payload ''b''" "(''b'', ''c'')" "example_ws_env ''i''" "''s''" "''s''" "''u''"]
    by (simp add: example_join_def example_ws_env_def example_envelope_def)
qed

end
