(* ===== verification/Live_Session.thy ===== *)
theory Live_Session
  imports WebSocket_Server Client_Session
begin

text \<open>
  A worker and its browsers at work: the events of \<open>WebSocket_Server\<close> as a step relation with its
  invariant, the loop that drains the queue of a session, what a JOIN loads and sends, what an
  acknowledgement means, and how an accepted edit gets from one browser over the worker,
  the event store and Redis to the replica of another one (\<open>Client_Session\<close>).
\<close>

section \<open>What sending keeps\<close>

text \<open>The parts of the session table that no message changes.\<close>

definition same_session :: "ServerSession \<Rightarrow> ServerSession \<Rightarrow> bool" where
  "same_session x y \<longleftrightarrow> ss_id x = ss_id y \<and> ss_userId x = ss_userId y \<and> ss_docId x = ss_docId y \<and> ss_siteId x = ss_siteId y \<and>
     ss_socket x = ss_socket y \<and> ss_role x = ss_role y \<and> ss_messageQueue x = ss_messageQueue y \<and> ss_isProcessing x = ss_isProcessing y"

definition same_table :: "SessionTable \<Rightarrow> SessionTable \<Rightarrow> bool" where
  "same_table T U \<longleftrightarrow> st_sessions T = st_sessions U \<and> st_docSessions T = st_docSessions U \<and>
     st_userSessions T = st_userSessions U \<and> (\<forall>i. same_session (st_objs T i) (st_objs U i))"

lemma same_session_refl [simp]: "same_session x x"
  by (simp add: same_session_def)

lemma same_table_refl [simp]: "same_table T T"
  by (simp add: same_table_def)

lemma same_table_trans: "same_table T U \<Longrightarrow> same_table U V \<Longrightarrow> same_table T V"
  by (simp add: same_table_def same_session_def)

lemma same_table_send: "same_table T (fst (sendToSession m T i data))"
  by (simp add: same_table_def same_session_def send_effect)

lemma same_table_send_each: "same_table T (send_each m T ids exclude data)"
proof (induction ids arbitrary: T)
  case (Cons i ids)
  let ?U = "if exclude = Some (ss_id (st_objs T i)) then T else fst (sendToSession m T i data)"
  have "same_table T ?U" by (simp add: same_table_send)
  from same_table_trans [OF this Cons.IH] show ?case by simp
qed simp

lemma same_table_broadcast: "same_table T (broadcastToDocument m T d data exclude)"
  by (simp add: broadcastToDocument_def same_table_send_each)

lemma same_table_sockets [simp]: "same_table T (T\<lparr>st_sockets := f\<rparr>)" "same_table T (close_socket T s c)" "same_table T (sendError T s e m)"
  by (simp_all add: same_table_def close_socket_def sendError_def)

lemma same_tableD:
  assumes "same_table T U"
  shows "st_sessions U = st_sessions T" "ss_messageQueue (st_objs U i) = ss_messageQueue (st_objs T i)"
    "ss_isProcessing (st_objs U i) = ss_isProcessing (st_objs T i)" "ss_role (st_objs U i) = ss_role (st_objs T i)"
    "ss_socket (st_objs U i) = ss_socket (st_objs T i)"
  using assms by (simp_all add: same_table_def same_session_def)

lemma same_table_ok: "same_table T U \<Longrightarrow> sessions_ok T \<Longrightarrow> sessions_ok U"
  unfolding sessions_ok_def same_table_def same_session_def by auto

section \<open>The queue of a session is drained\<close>

lemma client_operation_table: "same_table (ws_table W) (ws_table (handleClientOperation X W E i msg))"
  by (auto simp: handleClientOperation_def Let_def same_table_send split: prod.split outcome.split option.split bool.split)

lemma presence_table [simp]: "ws_table (put_presence W now d p) = ws_table W" "ws_table (handleClientPresence W E i pm) = ws_table W"
  by (simp_all add: put_presence_def handleClientPresence_def Let_def split: prod.split)

lemma client_message_table: "same_table (ws_table W) (ws_table (handleClientMessage X W E i m))"
proof (cases m)
  case (OPERATION x)
  then show ?thesis by (simp add: handleClientMessage_def client_operation_table)
next
  case (PING t)
  have "same_table T (set_session T i (\<lambda>x. x\<lparr>ss_isAlive := True\<rparr>))" for T
    by (simp add: same_table_def same_session_def)
  from same_table_trans [OF same_table_send this] show ?thesis by (simp add: PING handleClientMessage_def Let_def)
qed (simp_all add: handleClientMessage_def)

text \<open>One round of the loop: it takes the first message, or ends.\<close>

lemma processNext_queue:
  "ss_messageQueue (st_objs (ws_table (processNext X W E i)) i) =
     (if ss_isProcessing (st_objs (ws_table W) i) then tl (ss_messageQueue (st_objs (ws_table W) i))
      else ss_messageQueue (st_objs (ws_table W) i))"
  "ss_isProcessing (st_objs (ws_table (processNext X W E i)) i) \<longleftrightarrow>
     ss_isProcessing (st_objs (ws_table W) i) \<and> ss_messageQueue (st_objs (ws_table W) i) \<noteq> []"
proof -
  have h: "ss_messageQueue (st_objs (ws_table (handleClientMessage X V E i m)) i) = ss_messageQueue (st_objs (ws_table V) i)"
    "ss_isProcessing (st_objs (ws_table (handleClientMessage X V E i m)) i) = ss_isProcessing (st_objs (ws_table V) i)"
    for V :: "('a, 'b) Ws" and m
    using same_tableD [OF client_message_table] by blast+
  show "ss_messageQueue (st_objs (ws_table (processNext X W E i)) i) =
     (if ss_isProcessing (st_objs (ws_table W) i) then tl (ss_messageQueue (st_objs (ws_table W) i))
      else ss_messageQueue (st_objs (ws_table W) i))"
    by (simp add: processNext_def Let_def h split: list.split)
  show "ss_isProcessing (st_objs (ws_table (processNext X W E i)) i) \<longleftrightarrow>
     ss_isProcessing (st_objs (ws_table W) i) \<and> ss_messageQueue (st_objs (ws_table W) i) \<noteq> []"
    by (simp add: processNext_def Let_def h split: list.split)
qed

section \<open>Joining a document\<close>

text \<open>What a JOIN of the document \<open>d\<close> is told, from the stored document.\<close>

definition join_answer :: "Database \<Rightarrow> JoinMessage \<Rightarrow> string \<Rightarrow> string \<Rightarrow> UserPresence list \<Rightarrow> JoinAckMessage" where
  "join_answer db msg d i present =
     (let missed = (if join_lastSeq msg > 0 then getMissedOperations db d (join_lastSeq msg) missedLimit else []);
          force = join_lastSeq msg > 0 \<and> shouldForceFullReload missed
      in \<lparr>ack_sessionId = i, ack_siteId = (if join_clientId msg = [] then ''global-client'' else join_clientId msg),
           ack_snapshot = \<lparr>ack_seq = getMaxSeq db d,
             ack_nodes = (if force \<or> join_lastSeq msg = 0 then serialize (pg.replica db d) else [])\<rparr>,
           ack_missedOps = (if force then [] else missed), ack_presence = present\<rparr>)"

lemma join_load_effect:
  assumes "lru_ok (dp_lru (wd_deps X)) view" "server_ok view (ws_server W)" "pg.pending (sv_db (ws_server W)) d \<le> 10000"
    and "truthy (join_docId msg) = Some d" "join_load X W E msg = (w, n, doc, missed, force)"
  shows "coherent view w (sv_db (ws_server W)) \<and> n = getMaxSeq (sv_db (ws_server W)) d \<and> doc = pg.replica (sv_db (ws_server W)) d \<and>
    force = (join_lastSeq msg > 0 \<and> shouldForceFullReload (getMissedOperations (sv_db (ws_server W)) d (join_lastSeq msg) missedLimit)) \<and>
    missed = (if force \<or> join_lastSeq msg \<le> 0 then [] else getMissedOperations (sv_db (ws_server W)) d (join_lastSeq msg) missedLimit)"
proof -
  obtain w' p where g: "getOrLoadDocument (dp_lru (wd_deps X)) (sv_worker (ws_server W)) (sv_db (ws_server W)) d (ca_now (we_call E)) = (w', p)"
    by (rule prod.exhaust)
  have ok: "store_ok (sv_db (ws_server W))" "coherent view (sv_worker (ws_server W)) (sv_db (ws_server W))"
    "pg.pending (sv_db (ws_server W)) d \<le> int defaultLoadLimit"
    using assms(2,3) by (simp_all add: server_ok_def docs_okD(1) defaultLoadLimit_def)
  note c = get_coherent [OF assms(1) ok g]
  show ?thesis
    using assms(4,5) c(1,3) by (auto simp: join_load_def g Let_def coherent_entry_def)
qed

lemma register_effect:
  "st_sessions (fst (registerSession T s ps i now)) = insert i (st_sessions T)" "st_sent (fst (registerSession T s ps i now)) = st_sent T"
  "st_sockets (fst (registerSession T s ps i now)) = st_sockets T"
  "ss_socket (st_objs (fst (registerSession T s ps i now)) i) = s" "ss_sendQueue (st_objs (fst (registerSession T s ps i now)) i) = 0"
  "ss_siteId (st_objs (fst (registerSession T s ps i now)) i) = sp_siteId ps"
  "ss_userId (st_objs (fst (registerSession T s ps i now)) i) = sp_userId ps"
  "ss_docId (st_objs (fst (registerSession T s ps i now)) i) = sp_docId ps"
  "ss_role (st_objs (fst (registerSession T s ps i now)) i) = None"
  "ss_messageQueue (st_objs (fst (registerSession T s ps i now)) i) = []"
  "j \<noteq> i \<Longrightarrow> st_objs (fst (registerSession T s ps i now)) j = st_objs T j"
  by (simp_all add: registerSession_def Let_def split: option.split)

text \<open>A JOIN whose permission query found the user.\<close>

lemma join_register_effect:
  assumes "lru_ok (dp_lru (wd_deps X)) view" "server_ok view (ws_server W)" "pg.pending (sv_db (ws_server W)) d \<le> 10000"
    and "join_docId msg = Some d" "d \<noteq> []" "we_redisUp E" "0 < wd_sendQueueMax X"
  shows "\<exists>w present T1. let V = join_register X W E s msg payload named in
    ws_server V = (ws_server W)\<lparr>sv_worker := w\<rparr> \<and> coherent view w (sv_db (ws_server W)) \<and>
    T1 = fst (registerSession (ws_table W) s \<lparr>sp_userId = jwt_sub payload, sp_docId = Some d,
      sp_siteId = (if join_clientId msg = [] then ''global-client'' else join_clientId msg), sp_displayName = fst named,
      sp_color = snd named, sp_lastSeq = getMaxSeq (sv_db (ws_server W)) d\<rparr> (we_uuid E) (ca_now (we_call E))) \<and>
    ws_table V = fst (sendToSession (wd_sendQueueMax X) T1 (we_uuid E) (JOIN_ACK (join_answer (sv_db (ws_server W)) msg d (we_uuid E) present))) \<and>
    ws_socketToSession V = (ws_socketToSession W)(s \<mapsto> we_uuid E)"
proof -
  have t: "truthy (join_docId msg) = Some d" using assms(4,5) by (simp add: truthy_def)
  obtain w n doc missed force where l: "join_load X W E msg = (w, n, doc, missed, force)" by (metis surj_pair)
  note e = join_load_effect [OF assms(1-3) t l]
  have a: "join_answer (sv_db (ws_server W)) msg d i present =
      \<lparr>ack_sessionId = i, ack_siteId = (if join_clientId msg = [] then ''global-client'' else join_clientId msg),
       ack_snapshot = \<lparr>ack_seq = n, ack_nodes = join_snapshot_nodes msg force doc\<rparr>, ack_missedOps = missed, ack_presence = present\<rparr>"
    for i present using e t by (auto simp: join_answer_def join_snapshot_nodes_def Let_def)
  obtain R msgs where u: "updatePresence (ws_presence W) (ca_now (we_call E)) d
      (buildInitialPresence (we_uuid E) (jwt_sub payload) (fst named) (snd named) (we_iso E)) = (R, msgs)" by (rule prod.exhaust)
  show ?thesis
    by (rule exI [of _ w], rule exI [of _ "getAllPresence R (ca_now (we_call E)) d"])
      (use e assms(4-6) in \<open>simp add: join_register_def l u a truthy_def Let_def\<close>)
qed

definition permitted :: "('c, 'r) Ws \<Rightarrow> string \<Rightarrow> JWTPayload \<Rightarrow> bool" where
  "permitted W d payload \<longleftrightarrow> permission_query (ws_dir W) d (jwt_sub payload) \<noteq> []"

lemma join_resume:
  assumes "lru_ok (dp_lru (wd_deps X)) view" "server_ok view (ws_server W)" "pg.pending (sv_db (ws_server W)) d \<le> 10000"
    and "join_docId msg = Some d" "d \<noteq> []" "ca_pgUp (we_call E)" "we_loadOk E" "we_redisUp E" "0 < wd_sendQueueMax X"
    and "(s, msg, payload) \<in> set (ws_joining W)" "st_sockets (ws_table W) s = SockOpen" "permitted W d payload"
  shows "\<exists>present. let V = joinResume X W E (s, msg, payload) in
    st_sent (ws_table V) = st_sent (ws_table W) @ [(s, JOIN_ACK (join_answer (sv_db (ws_server W)) msg d (we_uuid E) present))] \<and>
    st_sessions (ws_table V) = insert (we_uuid E) (st_sessions (ws_table W)) \<and>
    ss_docId (st_objs (ws_table V) (we_uuid E)) = Some d \<and> ss_userId (st_objs (ws_table V) (we_uuid E)) = jwt_sub payload \<and>
    ss_socket (st_objs (ws_table V) (we_uuid E)) = s \<and> ws_socketToSession V = (ws_socketToSession W)(s \<mapsto> we_uuid E) \<and>
    sv_db (ws_server V) = sv_db (ws_server W) \<and> server_ok view (ws_server V)"
proof -
  let ?x = "(s, msg, payload)"
  let ?W = "W\<lparr>ws_joining := remove1 ?x (ws_joining W)\<rparr>"
  obtain named rest where q: "permission_query (ws_dir W) d (jwt_sub payload) = named # rest"
    using assms(12) by (cases "permission_query (ws_dir W) d (jwt_sub payload)") (auto simp: permitted_def)
  have r: "joinResume X W E ?x = join_register X ?W E s msg payload named"
    using assms(4-7,10) q by (simp add: joinResume_def truthy_def join_document_def load_throws_def)
  have "server_ok view (ws_server ?W)" "pg.pending (sv_db (ws_server ?W)) d \<le> 10000" using assms(2,3) by simp_all
  from join_register_effect [OF assms(1) this assms(4,5,8,9), where s = s and payload = payload and named = named]
  obtain w present T1 where v: "ws_server (joinResume X W E ?x) = (ws_server W)\<lparr>sv_worker := w\<rparr>" "coherent view w (sv_db (ws_server W))"
    "T1 = fst (registerSession (ws_table W) s \<lparr>sp_userId = jwt_sub payload, sp_docId = Some d,
      sp_siteId = (if join_clientId msg = [] then ''global-client'' else join_clientId msg), sp_displayName = fst named,
      sp_color = snd named, sp_lastSeq = getMaxSeq (sv_db (ws_server W)) d\<rparr> (we_uuid E) (ca_now (we_call E)))"
    "ws_table (joinResume X W E ?x) = fst (sendToSession (wd_sendQueueMax X) T1 (we_uuid E)
      (JOIN_ACK (join_answer (sv_db (ws_server W)) msg d (we_uuid E) present)))"
    "ws_socketToSession (joinResume X W E ?x) = (ws_socketToSession W)(s \<mapsto> we_uuid E)"
    by (auto simp: r Let_def)
  have "reachable (wd_sendQueueMax X) T1 (we_uuid E)" using assms(9,11) by (simp add: reachable_def v(3) register_effect)
  then have "st_sent (ws_table (joinResume X W E ?x)) =
      st_sent (ws_table W) @ [(s, JOIN_ACK (join_answer (sv_db (ws_server W)) msg d (we_uuid E) present))]"
    unfolding v(4) by (simp add: send_effect) (simp add: v(3) register_effect)
  then show ?thesis
    unfolding Let_def
    by (intro exI [of _ present]) (use assms(2) v(1,2,5) in \<open>simp add: v(4) send_effect server_ok_def, simp add: v(3) register_effect\<close>)
qed

text \<open>C19: A JOIN is answered from the stored document: a user with a row of permissions gets a session under the
  id of the JOIN and exactly one message, the acknowledgement with the document's last seq, the nodes of the
  stored document if the browser knows no seq yet (or must reload), and otherwise the operations after the
  seq it knows; a user without one gets the error, the close code 4003 and no session.\<close>

theorem join_serves_document:
  assumes "lru_ok (dp_lru (wd_deps X)) view" "server_ok view (ws_server W)" "pg.pending (sv_db (ws_server W)) d \<le> 10000"
    and "join_docId msg = Some d" "d \<noteq> []" "ca_pgUp (we_call E)" "we_loadOk E" "we_redisUp E" "0 < wd_sendQueueMax X"
    and "(s, msg, payload) \<in> set (ws_joining W)" "st_sockets (ws_table W) s = SockOpen"
  shows "let V = joinResume X W E (s, msg, payload); db = sv_db (ws_server W) in
    if permission_query (ws_dir W) d (jwt_sub payload) \<noteq> []
    then (\<exists>ack. st_sent (ws_table V) = st_sent (ws_table W) @ [(s, JOIN_ACK ack)] \<and> ack_sessionId ack = we_uuid E \<and>
        ack_seq (ack_snapshot ack) = getMaxSeq db d \<and>
        (if join_lastSeq msg = 0
         then ack_nodes (ack_snapshot ack) = serialize (cd_doc (loadDocumentFromDB db d t)) \<and> ack_missedOps ack = []
         else if join_lastSeq msg > 0 \<and> \<not> shouldForceFullReload (getMissedOperations db d (join_lastSeq msg) missedLimit)
         then ack_nodes (ack_snapshot ack) = [] \<and> ack_missedOps ack = getMissedOperations db d (join_lastSeq msg) missedLimit
         else ack_missedOps ack = [])) \<and>
      st_sessions (ws_table V) = insert (we_uuid E) (st_sessions (ws_table W)) \<and> ss_docId (st_objs (ws_table V) (we_uuid E)) = Some d \<and>
      ss_userId (st_objs (ws_table V) (we_uuid E)) = jwt_sub payload \<and> sv_db (ws_server V) = db \<and> server_ok view (ws_server V)
    else st_sent (ws_table V) = st_sent (ws_table W) @ [(s, ERROR PERMISSION_DENIED ''No access to this document'' None)] \<and>
      st_sockets (ws_table V) s = SockClosing 4003 \<and> st_sessions (ws_table V) = st_sessions (ws_table W) \<and> ws_server V = ws_server W"
proof (cases "permitted W d payload")
  case True
  have "cd_doc (loadDocumentFromDB (sv_db (ws_server W)) d t) = pg.replica (sv_db (ws_server W)) d"
    using assms(2,3) by (simp add: load_doc server_ok_def docs_okD(1))
  with join_resume [OF assms True] True show ?thesis
    by (auto simp: Let_def join_answer_def permitted_def)
next
  case False
  then show ?thesis
    using assms(4-6,10,11) by (simp add: joinResume_def truthy_def permitted_def reject_socket_def sendError_def close_socket_def
        WS_PERMISSION_DENIED_def Let_def)
qed

text \<open>User \<open>b\<close> has sent a JOIN for \<open>d\<close>, and the permission query is on its way.\<close>

definition example_joining :: "int \<Rightarrow> (string \<Rightarrow> entry_ref option, (string \<Rightarrow> int) \<times> string set) Ws" where
  "example_joining n = example_ws\<lparr>ws_joining := [(3, example_join (Some ''d'') n, example_payload ''b'')]\<rparr>"

lemma example_joining_ok:
  "lru_ok (dp_lru (wd_deps example_ws_deps)) (\<lambda>c. c)" "server_ok (\<lambda>c. c) (ws_server (example_joining n))"
  "pg.pending (sv_db (ws_server (example_joining n))) ''d'' \<le> 10000" "join_docId (example_join (Some ''d'') n) = Some ''d''"
  "ca_pgUp (we_call (example_ws_env i))" "we_loadOk (example_ws_env i)" "we_redisUp (example_ws_env i)" "0 < wd_sendQueueMax example_ws_deps"
  "(3, example_join (Some ''d'') n, example_payload ''b'') \<in> set (ws_joining (example_joining n))"
  "st_sockets (ws_table (example_joining n)) 3 = SockOpen" "permitted (example_joining n) ''d'' (example_payload ''b'')"
  using example_server_ok by (simp_all add: example_joining_def example_ws_def example_ws_deps_def example_deps_def map_lru_ok example_store
      example_join_def example_ws_env_def example_call_def no_sessions_def permitted_def permission_query_def example_payload_def
      example_directory_def example_account_def is_permission_def)
     (simp_all add: example_server_def example_store)

theorem join_serves_document_witness:
  "\<exists>ack. st_sent (ws_table (joinResume example_ws_deps (example_joining 0) (example_ws_env ''i'') (3, example_join (Some ''d'') 0, example_payload ''b''))) =
     [(3, JOIN_ACK ack)] \<and> ack_nodes (ack_snapshot ack) = serialize (cd_doc (loadDocumentFromDB example_db ''d'' 0))"
proof -
  have "st_sent (ws_table (example_joining 0)) = []" "sv_db (ws_server (example_joining 0)) = example_db"
    by (simp_all add: example_joining_def example_ws_def no_sessions_def example_server_def)
  with join_serves_document [OF example_joining_ok(1-4) _ example_joining_ok(5-10), of 0 "''i''" 0] example_joining_ok(11) [of 0]
  show ?thesis by (auto simp: Let_def permitted_def example_join_def)
qed

section \<open>The browser's side of a JOIN\<close>

definition only_text :: "RGADocument \<Rightarrow> bool" where
  "only_text d \<longleftrightarrow> (\<forall>n \<in> set (toNodes d). \<exists>s. node_value n = JStr s)"

lemma text_of_nodes:
  assumes "only_text d"
  shows "toText d = concat (map js_join_part (map node_value (toNodes d)))"
proof -
  have "concat (text_parts ns) = concat (map js_join_part (map node_value (live ns)))"
    if "\<forall>n \<in> set (live ns). \<exists>s. node_value n = JStr s" for ns
    using that by (induction ns) (auto simp: live_def split: json.split)
  then show ?thesis using assms by (simp add: toText_def only_text_def toNodes_live)
qed

lemma client_text:
  assumes "only_text d" "cl_values c = map node_value (toNodes d)"
  shows "cl_toText c = toText d"
  unfolding text_of_nodes [OF assms(1)] by (simp add: cl_toText_def assms(2) join_with_nil)

lemma join_ack_effect:
  "cs_doc (fst (handleServerMessage s st room (JOIN_ACK ack))) = Some (foldl cl_applyOperation
     (cl_deserialize (ack_nodes (ack_snapshot ack)) (ack_siteId ack) 0) (map env_op (ack_missedOps ack)))"
  "cs_text (fst (handleServerMessage s st room (JOIN_ACK ack))) = cl_toText (foldl cl_applyOperation
     (cl_deserialize (ack_nodes (ack_snapshot ack)) (ack_siteId ack) 0) (map env_op (ack_missedOps ack)))"
  by (simp_all add: Let_def foldl_map)

text \<open>C21: The first join loads the document: the acknowledgement a worker sends to a browser that knows no seq gives
  the browser's replica, the document of its hook, at every index the character the stored document has there and a
  well-formed state, and the hook's \<open>text\<close>, which \<open>Editor\<close> hands to its component, the stored text. (What Slate then
  displays is another matter: it keeps what it was mounted with, see \<open>Rich_Text_Editor\<close>.)\<close>

theorem first_join_loads_document:
  assumes "lru_ok (dp_lru (wd_deps X)) view" "server_ok view (ws_server W)" "pg.pending (sv_db (ws_server W)) d \<le> 10000"
    and "join_docId msg = Some d" "d \<noteq> []" "ca_pgUp (we_call E)" "we_loadOk E" "we_redisUp E" "0 < wd_sendQueueMax X"
    and "(s, msg, payload) \<in> set (ws_joining W)" "st_sockets (ws_table W) s = SockOpen" "permitted W d payload"
    and "join_lastSeq msg = 0" "D = cd_doc (loadDocumentFromDB (sv_db (ws_server W)) d t)" "only_text D"
  shows "\<exists>ack. st_sent (ws_table (joinResume X W E (s, msg, payload))) = st_sent (ws_table W) @ [(s, JOIN_ACK ack)] \<and>
    (let C = fst (handleServerMessage c st room (JOIN_ACK ack)) in
      cs_text C = toText D \<and> cs_status C = Connected \<and>
      (\<exists>doc. cs_doc C = Some doc \<and> wf_client doc \<and> (\<forall>i. cl_indexToUID doc i = indexToUID D i)))"
proof -
  have D: "D = pg.replica (sv_db (ws_server W)) d" and wf: "wf_doc D"
    using assms(2,3,14) by (simp_all add: load_doc server_ok_def docs_okD)
  obtain present where s: "st_sent (ws_table (joinResume X W E (s, msg, payload))) =
      st_sent (ws_table W) @ [(s, JOIN_ACK (join_answer (sv_db (ws_server W)) msg d (we_uuid E) present))]"
    using join_resume [OF assms(1-12)] by (auto simp: Let_def)
  let ?ack = "join_answer (sv_db (ws_server W)) msg d (we_uuid E) present"
  have a: "ack_nodes (ack_snapshot ?ack) = serialize D" "ack_missedOps ?ack = []"
    using assms(13) D by (simp_all add: join_answer_def)
  let ?c = "cl_deserialize (serialize D) (ack_siteId ?ack) 0"
  have "cl_values ?c = map node_value (toNodes D) \<and> wf_client ?c \<and> (\<forall>i. cl_indexToUID ?c i = indexToUID D i)"
    using join_snapshot [OF wf order_refl refl] by blast
  moreover have "cs_status (fst (handleServerMessage c st room (JOIN_ACK ?ack))) = Connected" by (simp add: Let_def)
  ultimately show ?thesis
    using s client_text [OF assms(15), of ?c] join_ack_effect [of c st room ?ack] by (simp add: Let_def a)
qed

theorem first_join_loads_document_witness:
  "\<exists>ack. cs_text (fst (handleServerMessage (openSession ''d'' ''b'' ''c'' True Map.empty) Map.empty True (JOIN_ACK ack))) =
     toText (cd_doc (loadDocumentFromDB example_db ''d'' 0))"
proof -
  have db: "sv_db (ws_server (example_joining 0)) = example_db" by (simp add: example_joining_def example_ws_def example_server_def)
  have "toNodes (cd_doc (loadDocumentFromDB example_db ''d'' 0)) = []" by code_simp
  then have "only_text (cd_doc (loadDocumentFromDB example_db ''d'' 0))" by (simp add: only_text_def)
  with first_join_loads_document [where E = "example_ws_env ''i''" and t = 0 and c = "openSession ''d'' ''b'' ''c'' True Map.empty"
      and st = Map.empty and room = True, OF example_joining_ok(1-4) _ example_joining_ok(5-11) _ refl, of 0]
  show ?thesis by (auto simp: Let_def db example_join_def)
qed

text \<open>Reconnecting does not: the acknowledgement a worker sends to a browser that has seen a seq carries no
  nodes, and the browser builds its new document from them, so after a reconnect it shows what the missed operations
  alone make of an empty document - nothing when none was missed, whatever the stored document is.\<close>

theorem reconnect_loses_text:
  assumes "lru_ok (dp_lru (wd_deps X)) view" "server_ok view (ws_server W)" "pg.pending (sv_db (ws_server W)) d \<le> 10000"
    and "join_docId msg = Some d" "d \<noteq> []" "ca_pgUp (we_call E)" "we_loadOk E" "we_redisUp E" "0 < wd_sendQueueMax X"
    and "(s, msg, payload) \<in> set (ws_joining W)" "st_sockets (ws_table W) s = SockOpen" "permitted W d payload"
    and "0 < join_lastSeq msg" "missed = getMissedOperations (sv_db (ws_server W)) d (join_lastSeq msg) missedLimit"
    and "\<not> shouldForceFullReload missed"
  shows "\<exists>ack site. st_sent (ws_table (joinResume X W E (s, msg, payload))) = st_sent (ws_table W) @ [(s, JOIN_ACK ack)] \<and>
    (let C = fst (handleServerMessage c st room (JOIN_ACK ack)) in
      cs_doc C = Some (foldl cl_applyOperation (newClientRGADocument site 0) (map env_op missed)) \<and> cs_status C = Connected \<and>
      (join_lastSeq msg = getMaxSeq (sv_db (ws_server W)) d \<longrightarrow> cs_text C = []))"
proof -
  obtain present where s: "st_sent (ws_table (joinResume X W E (s, msg, payload))) =
      st_sent (ws_table W) @ [(s, JOIN_ACK (join_answer (sv_db (ws_server W)) msg d (we_uuid E) present))]"
    using join_resume [OF assms(1-12)] by (auto simp: Let_def)
  let ?ack = "join_answer (sv_db (ws_server W)) msg d (we_uuid E) present"
  have a: "ack_nodes (ack_snapshot ?ack) = []" "ack_missedOps ?ack = missed"
    using assms(13-15) by (simp_all add: join_answer_def)
  have wf: "wf_db (sv_db (ws_server W))" using assms(2) by (simp add: server_ok_def docs_okD(1) store_okD)
  have "missed = []" if "join_lastSeq msg = getMaxSeq (sv_db (ws_server W)) d"
    using assms(13) that by (simp add: assms(14) missed_rows [OF wf] getMaxSeq_length [OF wf])
  moreover have "cl_toText (newClientRGADocument site 0) = []" for site
    by (simp add: cl_toText_def newClientRGADocument_def)
  moreover have "cs_status (fst (handleServerMessage c st room (JOIN_ACK ?ack))) = Connected" by (simp add: Let_def)
  ultimately show ?thesis
    using s join_ack_effect [of c st room ?ack] by (auto simp: Let_def a cl_deserialize_def)
qed

text \<open>What handling an admissible message that passes the checks comes to.\<close>

definition passes_checks :: "('c, 'r) Deps \<Rightarrow> Call \<Rightarrow> ('c, 'r) Server \<Rightarrow> ServerSession \<Rightarrow> OperationMessage \<Rightarrow> bool" where
  "passes_checks D call sv session msg \<longleftrightarrow>
     (case checkRateLimit (dp_pipe D) (dp_rate D) (sv_redis sv) (ss_userId session) (ca_now call) of (r1, rate) \<Rightarrow>
        rl_allowed rate \<and> \<not> snd (isReplay (dp_setnx D) (dp_replayWindow D) r1 (Some (sv_db sv)) (msg_docId msg) (msg_nonce msg))) \<and>
     \<not> site_mismatch session (msg_op msg)"

lemma handled:
  assumes "lru_ok (dp_lru D) view" "server_ok view sv" "admissible (sv_db sv) session msg"
    and "pg.pending (sv_db sv) (msg_docId msg) < 10000" "ca_pgUp call" "ca_publishOk call" "passes_checks D call sv session msg"
  shows "\<exists>sv' env. handleOperation D call sv session msg =
      (sv', Returned \<lparr>or_success = True, or_envelope = Some env, or_error = None\<rparr>) \<and> server_ok view sv' \<and>
    processed (snapshotOpsThreshold (dp_compactor D)) (sv_db sv) msg (sv_db sv') env \<and> sv_published sv' = sv_published sv @ [env]"
proof -
  obtain r1 rate where r: "checkRateLimit (dp_pipe D) (dp_rate D) (sv_redis sv) (ss_userId session) (ca_now call) = (r1, rate)"
    by (rule prod.exhaust)
  obtain r2 b where i: "isReplay (dp_setnx D) (dp_replayWindow D) r1 (Some (sv_db sv)) (msg_docId msg) (msg_nonce msg) = (r2, b)"
    by (rule prod.exhaust)
  have ok: "rl_allowed rate" "\<not> b" "\<not> site_mismatch session (msg_op msg)" using assms(7) by (simp_all add: passes_checks_def r i)
  have h: "handleOperation D call sv session msg = process D call (sv\<lparr>sv_redis := r2\<rparr>) session msg"
    using assms(5) i ok by (intro handle_passes [OF r ok(1) _ ok(3)]) simp
  have "server_ok view (sv\<lparr>sv_redis := r2\<rparr>)" "admissible (sv_db (sv\<lparr>sv_redis := r2\<rparr>)) session msg"
    "pg.pending (sv_db (sv\<lparr>sv_redis := r2\<rparr>)) (msg_docId msg) < int defaultLoadLimit"
    using assms(2-4) by (simp_all add: server_ok_def defaultLoadLimit_def)
  from process_ok [OF assms(1) this assms(5,6)] show ?thesis
    unfolding h by (auto simp: server_ok_def)
qed

text \<open>The worker after its first operation.\<close>

definition example_after :: "(string \<Rightarrow> entry_ref option, (string \<Rightarrow> int) \<times> string set) Server" where
  "example_after = fst (handleOperation example_deps (example_call ''i'') example_server (example_session ''a'') (example_insert ''a'' 97 ''n''))"

lemma example_passes: "passes_checks example_deps (example_call i) (example_server\<lparr>sv_worker := w, sv_db := db\<rparr>) (example_session a) (example_insert a 97 n)"
  by (auto simp: passes_checks_def checkRateLimit_def example_deps_def example_pipeline_def map_pipeline_def example_server_def no_counters_def
      Let_def isReplay_def example_setnx_def always_setnx_def site_mismatch_def example_session_def example_insert_def split: prod.split)

lemma example_after_ok:
  "server_ok (\<lambda>c. c) example_after" "getMaxSeq (sv_db example_after) ''d'' = 1" "pg.pending (sv_db example_after) ''d'' \<le> 10000"
  "toText (cd_doc (loadDocumentFromDB (sv_db example_after) ''d'' 0)) = [97]"
proof -
  have pre: "lru_ok (dp_lru example_deps) (\<lambda>c. c)" "admissible (sv_db example_server) (example_session ''a'') (example_insert ''a'' 97 ''n'')"
    "pg.pending (sv_db example_server) (msg_docId (example_insert ''a'' 97 ''n'')) < 10000" "ca_pgUp (example_call ''i'')"
    "ca_publishOk (example_call ''i'')" "passes_checks example_deps (example_call ''i'') example_server (example_session ''a'') (example_insert ''a'' 97 ''n'')"
    using example_admissible example_passes [where i = "''i''" and w = "sv_worker example_server" and db = "sv_db example_server" and a = "''a''" and n = "''n''"]
    by (simp_all add: example_deps_def map_lru_ok example_server_def example_store example_call_def)
  obtain env where e: "server_ok (\<lambda>c. c) example_after"
    "processed (snapshotOpsThreshold (dp_compactor example_deps)) (sv_db example_server) (example_insert ''a'' 97 ''n'') (sv_db example_after) env"
    using handled [OF pre(1) example_server_ok pre(2-6)] by (auto simp: example_after_def)
  note p = processedD [OF e(2)] and p6 = processedD(6) [OF e(2), of "''d''"]
  have ok: "store_ok (sv_db example_after)" "store_ok example_db" using e(1) example_store by (simp_all add: server_ok_def docs_okD(1))
  have m: "msg_docId (example_insert ''a'' 97 ''n'') = ''d''" "sv_db example_server = example_db"
    by (simp_all add: example_insert_def example_server_def)
  have rows: "length (doc_rows (sv_db example_after) ''d'') = 1"
    using arg_cong [OF p(3), of length] by (simp add: m doc_rows_def example_db_def)
  show "server_ok (\<lambda>c. c) example_after" by (rule e)
  show "getMaxSeq (sv_db example_after) ''d'' = 1" using rows by (simp add: getMaxSeq_length store_okD ok)
  show pend: "pg.pending (sv_db example_after) ''d'' \<le> 10000" using p6 by (simp add: m example_store)
  have "toText (applyOp (cd_doc (loadDocumentFromDB example_db ''d'' 0)) (INSERT (UID 1 ''a'') None (JStr [97]))) = [97]" by code_simp
  then have "toText (applyOp (pg.replica example_db ''d'') (msg_op (example_insert ''a'' 97 ''n''))) = [97]"
    by (simp add: load_doc ok example_store example_insert_def)
  with p(5) show "toText (cd_doc (loadDocumentFromDB (sv_db example_after) ''d'' 0)) = [97]"
    by (simp add: load_doc ok pend m same_view_def)
qed

theorem reconnect_loses_text_witness:
  "\<exists>ack. toText (cd_doc (loadDocumentFromDB (sv_db example_after) ''d'' 0)) = [97] \<and>
     cs_text (fst (handleServerMessage (openSession ''d'' ''b'' ''c'' True Map.empty) Map.empty True (JOIN_ACK ack))) = []"
proof -
  let ?W = "(example_joining 1)\<lparr>ws_server := example_after\<rparr>" and ?c = "openSession ''d'' ''b'' ''c'' True Map.empty"
  have "st_sockets (ws_table ?W) 3 = SockOpen" "permitted ?W ''d'' (example_payload ''b'')"
    "(3, example_join (Some ''d'') 1, example_payload ''b'') \<in> set (ws_joining ?W)"
    using example_joining_ok(9-11) [of 1] by (simp_all add: permitted_def)
  moreover have "getMissedOperations (sv_db example_after) ''d'' 1 missedLimit = []"
    using example_after_ok(1,2) by (simp add: missed_rows server_ok_def docs_okD(1) store_okD getMaxSeq_length)
  then have "\<not> shouldForceFullReload (getMissedOperations (sv_db example_after) ''d'' 1 missedLimit)"
    by (simp add: shouldForceFullReload_def)
  ultimately have "\<exists>ack. cs_text (fst (handleServerMessage ?c Map.empty True (JOIN_ACK ack))) = []"
    using reconnect_loses_text [where W = ?W and E = "example_ws_env ''i''" and c = ?c and st = Map.empty and room = True,
        OF example_joining_ok(1) _ _ example_joining_ok(4) _ example_joining_ok(5-8) _ _ _ _ refl, of 3 1 "example_payload ''b''"]
      example_after_ok by (auto simp: Let_def example_join_def)
  then show ?thesis using example_after_ok(4) by blast
qed

section \<open>Acknowledgements\<close>

text \<open>What the server sends to a socket.\<close>

definition received :: "SessionTable \<Rightarrow> socket \<Rightarrow> ServerMessage list" where
  "received T s = map snd (filter (\<lambda>(t, _). t = s) (st_sent T))"

lemma next_doc_seq_operations: "db_operations (fst (next_doc_seq db d)) = db_operations db"
  by (simp add: next_doc_seq_def Let_def)

lemma appended_row:
  assumes "appendOperation db ps opId now = Inr (db', env)"
  shows "\<exists>row. db_operations db' = db_operations db @ [row] \<and> row_doc_id row = ap_docId ps \<and> row_op_data row = ap_op ps \<and>
    row_user_id row = ap_userId ps \<and> row_nonce row = ap_nonce ps \<and> env = rowToEnvelope row"
proof -
  obtain db1 n where n: "next_doc_seq db (ap_docId ps) = (db1, n)" by (rule prod.exhaust)
  then have "db_operations db1 = db_operations db" using next_doc_seq_operations [of db "ap_docId ps"] by simp
  then show ?thesis using assms by (auto simp: appendOperation_def n Let_def split: if_splits)
qed

lemma snapshot_operations: "maybeTakeSnapshot L cfg sha w db d now i t = (w', db') \<Longrightarrow> db_operations db' = db_operations db"
  by (auto simp: maybeTakeSnapshot_def saveSnapshot_def Let_def split: prod.splits if_splits sum.splits option.splits)

lemma stored_when_returned:
  assumes "handleOperation D call sv session msg = (sv', Returned res)" "or_success res"
  shows "\<exists>row. db_operations (sv_db sv') = db_operations (sv_db sv) @ [row] \<and> row_doc_id row = msg_docId msg \<and>
    row_op_data row = msg_op msg \<and> row_user_id row = ss_userId session \<and> row_nonce row = msg_nonce msg \<and>
    or_envelope res = Some (rowToEnvelope row) \<and> sv_published sv' = sv_published sv @ [rowToEnvelope row]"
proof -
  obtain r where p: "process D call (sv\<lparr>sv_redis := r\<rparr>) session msg = (sv', Returned res)"
    using assms by (auto simp: handleOperation_def Let_def refuse_def split: prod.splits if_splits)
  then obtain db1 env where a: "appendOperation (sv_db sv) (append_params session msg) (ca_opId call) (ca_created call) = Inr (db1, env)"
    by (auto simp: process_def Let_def split: prod.splits if_splits sum.splits)
  from appended_row [OF a] obtain row where row: "db_operations db1 = db_operations (sv_db sv) @ [row]" "row_doc_id row = msg_docId msg"
    "row_op_data row = msg_op msg" "row_user_id row = ss_userId session" "row_nonce row = msg_nonce msg" "env = rowToEnvelope row"
    by (auto simp: append_params_def)
  show ?thesis
    using p a row(2-6)
    by (auto simp: process_def Let_def row(1) intro!: exI [of _ row] dest: snapshot_operations split: prod.splits if_splits)
qed

text \<open>C23: An acknowledgement is a receipt: whatever the state of the worker, when a message makes it send \<open>OP_ACK\<close> under a
  seq to a socket, it is the socket of the session that sent the operation, and the last row of the operations table
  is this operation with this nonce, document, user and seq; exactly its envelope is published.\<close>

theorem acked_is_stored:
  assumes "received (ws_table (handleClientOperation X W E i msg)) s = received (ws_table W) s @ [OP_ACK c n t]"
  shows "s = ss_socket (st_objs (ws_table W) i) \<and> c = msg_clientSeq msg \<and>
    (\<exists>row. db_operations (sv_db (ws_server (handleClientOperation X W E i msg))) = db_operations (sv_db (ws_server W)) @ [row] \<and>
      row_seq row = n \<and> row_doc_id row = msg_docId msg \<and> row_op_data row = msg_op msg \<and> row_nonce row = msg_nonce msg \<and>
      row_user_id row = ss_userId (st_objs (ws_table W) i) \<and>
      ws_outbox (handleClientOperation X W E i msg) = ws_outbox W @ [publishOperation (rowToEnvelope row)])"
proof -
  let ?session = "st_objs (ws_table W) i"
  have sent: "s = ss_socket ?session \<and> m = m'"
    if "received (fst (sendToSession k (ws_table W) i m)) s = received (ws_table W) s @ [m']" for k m m'
    using that by (auto simp: received_def send_effect split: if_splits)
  obtain sv out where h: "handleOperation (wd_deps X) (we_call E) (ws_server W) ?session msg = (sv, out)" by (rule prod.exhaust)
  have not_error: "received (fst (sendToSession k (ws_table W) i (ERROR e m x))) s \<noteq> received (ws_table W) s @ [OP_ACK c n t]"
    for k e m x using sent by blast
  have v: "ss_role ?session \<noteq> Some ''viewer''"
    using assms not_error by (auto simp: handleClientOperation_def Let_def)
  obtain res where res: "out = Returned res" "or_success res"
    using assms not_error by (auto simp: handleClientOperation_def Let_def v h split: outcome.splits bool.splits option.splits prod.splits)
  obtain row where row: "db_operations (sv_db sv) = db_operations (sv_db (ws_server W)) @ [row]" "row_doc_id row = msg_docId msg"
    "row_op_data row = msg_op msg" "row_user_id row = ss_userId ?session" "row_nonce row = msg_nonce msg"
    "or_envelope res = Some (rowToEnvelope row)" "sv_published sv = sv_published (ws_server W) @ [rowToEnvelope row]"
    using stored_when_returned [OF h [unfolded res(1)] res(2)] by blast
  have "received (fst (sendToSession (wd_sendQueueMax X) (ws_table W) i
      (OP_ACK (msg_clientSeq msg) (env_seq (rowToEnvelope row)) (env_timestamp (rowToEnvelope row))))) s = received (ws_table W) s @ [OP_ACK c n t]"
    using assms by (simp add: handleClientOperation_def Let_def v h res row(6))
  from sent [OF this] row show ?thesis
    by (intro conjI exI [of _ row]) (simp_all add: handleClientOperation_def Let_def v h res rowToEnvelope_def)
qed

text \<open>An operation that passes the checks.\<close>

definition accepts :: "('c, 'r) WsDeps \<Rightarrow> ('c \<Rightarrow> string \<Rightarrow> entry_ref option) \<Rightarrow> ('c, 'r) Ws \<Rightarrow> WsEnv \<Rightarrow> string \<Rightarrow> OperationMessage \<Rightarrow> bool" where
  "accepts X view W E i msg \<longleftrightarrow> lru_ok (dp_lru (wd_deps X)) view \<and> server_ok view (ws_server W) \<and>
     admissible (sv_db (ws_server W)) (st_objs (ws_table W) i) msg \<and> pg.pending (sv_db (ws_server W)) (msg_docId msg) < 10000 \<and>
     ca_pgUp (we_call E) \<and> ca_publishOk (we_call E) \<and>
     passes_checks (wd_deps X) (we_call E) (ws_server W) (st_objs (ws_table W) i) msg \<and> ss_role (st_objs (ws_table W) i) = None"

lemma accepted_message:
  assumes "accepts X view W E i msg"
  shows "\<exists>env. let V = handleClientOperation X W E i msg; d = msg_docId msg in
    env_docId env = d \<and> env_op env = msg_op msg \<and> server_ok view (ws_server V) \<and>
    processed (snapshotOpsThreshold (dp_compactor (wd_deps X))) (sv_db (ws_server W)) msg (sv_db (ws_server V)) env \<and>
    ws_outbox V = ws_outbox W @ [publishOperation env] \<and> ws_bus V = ws_bus W \<and> ws_fresh V = ws_fresh W \<and>
    ws_table V = fst (sendToSession (wd_sendQueueMax X) (ws_table W) i (OP_ACK (msg_clientSeq msg) (env_seq env) (env_timestamp env)))"
proof -
  obtain sv env where h: "handleOperation (wd_deps X) (we_call E) (ws_server W) (st_objs (ws_table W) i) msg =
      (sv, Returned \<lparr>or_success = True, or_envelope = Some env, or_error = None\<rparr>)" "server_ok view sv"
    "processed (snapshotOpsThreshold (dp_compactor (wd_deps X))) (sv_db (ws_server W)) msg (sv_db sv) env"
    "sv_published sv = sv_published (ws_server W) @ [env]"
    using handled [of "wd_deps X" view "ws_server W" "st_objs (ws_table W) i" msg "we_call E"] assms by (auto simp: accepts_def)
  have "env_docId env = msg_docId msg" "env_op env = msg_op msg" using h(3) by (simp_all add: processed_def)
  then show ?thesis
    using assms h by (intro exI [of _ env]) (simp add: handleClientOperation_def Let_def accepts_def set_table_def)
qed

lemma processed_text:
  assumes "processed threshold db msg db' env" "docs_ok db" "docs_ok db'" "pg.pending db (msg_docId msg) < 10000"
  shows "toText (cd_doc (loadDocumentFromDB db' (msg_docId msg) t)) = toText (applyOp (pg.replica db (msg_docId msg)) (msg_op msg))"
proof -
  have "pg.pending db' (msg_docId msg) \<le> 10000" using processedD(6) [OF assms(1), of "msg_docId msg"] assms(4) by simp
  then show ?thesis using processedD(5) [OF assms(1)] by (simp add: load_doc docs_okD(1) assms(2,3) same_view_def)
qed

text \<open>C24: Editing needs no permission: a session edits any document, whatever document it joined - or none - and whether
  or not its user has any right on it: the operation is stored, published and acknowledged, since only the role of the
  session is looked at and nothing ever sets it.\<close>

theorem outsider_edits:
  assumes "accepts X view W E i msg" "reachable (wd_sendQueueMax X) (ws_table W) i"
    and "ss_docId (st_objs (ws_table W) i) \<noteq> Some (msg_docId msg)"
    and "permission_query (ws_dir W) (msg_docId msg) (ss_userId (st_objs (ws_table W) i)) = []"
  shows "\<exists>env. let V = handleClientOperation X W E i msg; d = msg_docId msg in
    map rowToEnvelope (doc_rows (sv_db (ws_server V)) d) = map rowToEnvelope (doc_rows (sv_db (ws_server W)) d) @ [env] \<and>
    env_op env = msg_op msg \<and> ws_outbox V = ws_outbox W @ [publishOperation env] \<and>
    toText (cd_doc (loadDocumentFromDB (sv_db (ws_server V)) d t)) = toText (applyOp (cd_doc (loadDocumentFromDB (sv_db (ws_server W)) d t)) (msg_op msg)) \<and>
    received (ws_table V) (ss_socket (st_objs (ws_table W) i)) =
      received (ws_table W) (ss_socket (st_objs (ws_table W) i)) @ [OP_ACK (msg_clientSeq msg) (env_seq env) (env_timestamp env)]"
proof -
  let ?V = "handleClientOperation X W E i msg" and ?d = "msg_docId msg"
  obtain env where e: "env_op env = msg_op msg" "server_ok view (ws_server ?V)"
    "processed (snapshotOpsThreshold (dp_compactor (wd_deps X))) (sv_db (ws_server W)) msg (sv_db (ws_server ?V)) env"
    "ws_outbox ?V = ws_outbox W @ [publishOperation env]"
    "ws_table ?V = fst (sendToSession (wd_sendQueueMax X) (ws_table W) i (OP_ACK (msg_clientSeq msg) (env_seq env) (env_timestamp env)))"
    using accepted_message [OF assms(1)] by (auto simp: Let_def)
  have ok: "docs_ok (sv_db (ws_server W))" "docs_ok (sv_db (ws_server ?V))" "pg.pending (sv_db (ws_server W)) ?d < 10000"
    using assms(1) e(2) by (simp_all add: accepts_def server_ok_def)
  have "cd_doc (loadDocumentFromDB (sv_db (ws_server W)) ?d t) = pg.replica (sv_db (ws_server W)) ?d"
    using ok by (simp add: load_doc docs_okD(1))
  then show ?thesis
    using processedD(3) [OF e(3)] processed_text [OF e(3) ok, of t] e assms(2)
    by (intro exI [of _ env]) (simp add: Let_def received_def send_effect)
qed

text \<open>A worker with one session, on socket 3, of user \<open>u\<close>.\<close>

definition example_live :: "string option \<Rightarrow> (string \<Rightarrow> entry_ref option, (string \<Rightarrow> int) \<times> string set) Ws" where
  "example_live d = example_ws\<lparr>ws_table := fst (registerSession no_sessions 3
     ((example_session_params ''d'')\<lparr>sp_docId := d, sp_siteId := ''a''\<rparr>) ''s'' 0)\<rparr>"

lemma example_live_accepts:
  "accepts example_ws_deps (\<lambda>c. c) (example_live d) (example_ws_env ''i'') ''s'' (example_insert ''a'' 97 ''n'')"
  "reachable (wd_sendQueueMax example_ws_deps) (ws_table (example_live d)) ''s''" "ss_docId (st_objs (ws_table (example_live d)) ''s'') = d"
  "ss_socket (st_objs (ws_table (example_live d)) ''s'') = 3" "ss_userId (st_objs (ws_table (example_live d)) ''s'') = ''u''"
  "received (ws_table (example_live d)) s = []" "ws_server (example_live d) = example_server"
proof -
  let ?x = "st_objs (ws_table (example_live d)) ''s''"
  have x: "ss_userId ?x = ''u''" "ss_siteId ?x = ''a''" "ss_role ?x = None" "ss_docId ?x = d" "ss_socket ?x = 3" "ss_sendQueue ?x = 0"
    by (simp_all add: example_live_def register_effect example_session_params_def)
  have "passes_checks example_deps (example_call ''i'') example_server ?x (example_insert ''a'' 97 ''n'') =
      passes_checks example_deps (example_call ''i'') example_server (example_session ''a'') (example_insert ''a'' 97 ''n'')"
    by (simp add: passes_checks_def site_mismatch_def x example_session_def cong: RGAOperation.case_cong)
  then have p: "passes_checks example_deps (example_call ''i'') example_server ?x (example_insert ''a'' 97 ''n'')"
    using example_passes [where i = "''i''" and w = "sv_worker example_server" and db = "sv_db example_server" and a = "''a''" and n = "''n''"]
    by simp
  have a: "admissible (sv_db example_server) ?x (example_insert ''a'' 97 ''n'')"
    using example_admissible [OF refl, of "''n''"] by (simp add: admissible_def x example_session_def example_server_def)
  have w: "ws_server (example_live d) = example_server" by (simp add: example_live_def example_ws_def)
  show "accepts example_ws_deps (\<lambda>c. c) (example_live d) (example_ws_env ''i'') ''s'' (example_insert ''a'' 97 ''n'')"
    using p a x(3) example_server_ok
    by (simp add: accepts_def w example_ws_deps_def example_ws_env_def) (simp add: example_deps_def map_lru_ok example_server_def example_store example_call_def)
  show "reachable (wd_sendQueueMax example_ws_deps) (ws_table (example_live d)) ''s''"
    using x(6) by (simp add: reachable_def example_live_def register_effect no_sessions_def example_ws_deps_def)
  show "ss_docId ?x = d" "ss_socket ?x = 3" "ss_userId ?x = ''u''" "ws_server (example_live d) = example_server"
    by (simp_all add: x w)
  show "received (ws_table (example_live d)) s = []"
    by (simp add: received_def example_live_def register_effect) (simp add: no_sessions_def)
qed

theorem acked_is_stored_witness:
  "\<exists>n t (row :: OperationRow). received (ws_table (handleClientOperation example_ws_deps (example_live (Some ''d'')) (example_ws_env ''i'') ''s''
       (example_insert ''a'' 97 ''n''))) 3 = [OP_ACK 1 n t] \<and> row_seq row = n \<and> row_nonce row = ''n''"
proof -
  note x = example_live_accepts [of "Some ''d''"]
  have q: "msg_clientSeq (example_insert ''a'' 97 ''n'') = 1" by (simp add: example_insert_def)
  obtain env :: OperationEnvelope where "ws_table (handleClientOperation example_ws_deps (example_live (Some ''d'')) (example_ws_env ''i'') ''s'' (example_insert ''a'' 97 ''n'')) =
      fst (sendToSession (wd_sendQueueMax example_ws_deps) (ws_table (example_live (Some ''d''))) ''s'' (OP_ACK 1 (env_seq env) (env_timestamp env)))"
    using accepted_message [OF x(1)] unfolding Let_def q by blast
  then have r: "received (ws_table (handleClientOperation example_ws_deps (example_live (Some ''d'')) (example_ws_env ''i'') ''s''
      (example_insert ''a'' 97 ''n''))) 3 = received (ws_table (example_live (Some ''d''))) 3 @ [OP_ACK 1 (env_seq env) (env_timestamp env)]"
    using x(2,4) by (simp add: received_def send_effect)
  from acked_is_stored [OF r] r x(6) show ?thesis by (auto simp: example_insert_def)
qed

theorem outsider_edits_witness:
  "\<exists>env. ws_outbox (handleClientOperation example_ws_deps (example_live None) (example_ws_env ''i'') ''s'' (example_insert ''a'' 97 ''n'')) =
     [publishOperation env]"
proof -
  note x = example_live_accepts [of None]
  have "permission_query (ws_dir (example_live None)) ''d'' ''u'' = []" "ws_outbox (example_live None) = []"
    by (simp_all add: example_live_def example_ws_def permission_query_def example_directory_def is_permission_def)
  with outsider_edits [OF x(1,2), of 0] x(3,5) show ?thesis by (auto simp: Let_def example_insert_def)
qed

section \<open>From editor to reader\<close>

lemma cl_insert_after_keys: "k \<in> cl_key ` set xs \<Longrightarrow> cl_key n \<in> cl_key ` set (cl_insert_after k n xs)"
proof (induction xs)
  case (Cons x xs)
  have "n \<in> set (cl_scan_insert n ys)" for ys by (induction ys) auto
  then show ?case using Cons by auto
qed simp

lemma cl_index_none: "cl_index_get c k = None \<longleftrightarrow> k \<notin> cl_key ` set (cl_chain c)"
  by (auto simp: cl_index_get_def find_None_iff)

lemma cl_delete_twice: "cl_applyDelete (cl_applyDelete c u) u = cl_applyDelete c u"
proof (cases "cl_index_get c (uidKey u)")
  case (Some n)
  have f: "find (\<lambda>n. cl_key n = k) (cl_update k (\<lambda>n. n\<lparr>c_tombstoned := True\<rparr>) xs) =
      map_option (\<lambda>n. n\<lparr>c_tombstoned := True\<rparr>) (find (\<lambda>n. cl_key n = k) xs)" for k xs
    by (induction xs) (auto simp: cl_key_def)
  show ?thesis using Some by (simp add: cl_applyDelete_def cl_index_get_def f del: cl_key_eq)
qed (simp add: cl_applyDelete_def)

lemma cl_apply_twice: "cl_applyOperation (cl_applyOperation c x) x = cl_applyOperation c x"
proof (cases x)
  case (INSERT u a v)
  show ?thesis
  proof (cases "cl_index_get (cl_applyInsert c u a v) (uidKey u) = None")
    case True
    then have "cl_applyInsert c u a v = c"
      using cl_insert_after_keys [of _ "cl_chain c" "\<lparr>c_uid = u, c_value = v, c_tombstoned = False\<rparr>"]
      by (auto simp: cl_applyInsert_def Let_def cl_index_none cl_key_def split: if_splits)
    then show ?thesis by (simp add: INSERT)
  next
    case False
    then show ?thesis by (simp add: INSERT cl_applyInsert_def [of "cl_applyInsert c u a v"])
  qed
qed (simp_all add: cl_delete_twice)

lemma cl_apply_repeated: "0 < k \<Longrightarrow> foldl cl_applyOperation c (replicate k x) = cl_applyOperation c x"
proof (induction k)
  case (Suc k)
  have "replicate (Suc k) x = replicate k x @ [x]" by (simp add: replicate_append_same)
  then show ?case using Suc.IH by (cases "k = 0") (simp_all add: cl_apply_twice del: replicate_Suc)
qed simp

lemma filter_one: "distinct xs \<Longrightarrow> inj_on f (set xs) \<Longrightarrow> j \<in> set xs \<Longrightarrow> P j \<Longrightarrow> filter (\<lambda>i. P i \<and> f i = f j) xs = [j]"
proof (induction xs)
  case (Cons x xs)
  then show ?case by (cases "x = j") (auto simp: filter_empty_conv inj_on_def)
qed simp

lemma send_each_queue:
  assumes "distinct ids" "inj_on (\<lambda>i. ss_socket (st_objs T i)) (insert j (set ids))" "reachable m T j"
  shows "ss_sendQueue (st_objs (send_each m T ids None data) j) = ss_sendQueue (st_objs T j) + (if j \<in> set ids then 1 else 0)"
  using assms
proof (induction ids arbitrary: T)
  case (Cons i ids)
  let ?U = "fst (sendToSession m T i data)"
  have inj: "inj_on (\<lambda>i. ss_socket (st_objs ?U i)) (insert j (set ids))"
    unfolding send_same_ids by (rule inj_on_subset [OF Cons.prems(2)]) auto
  show ?case
  proof (cases "i = j")
    case True
    have "ss_sendQueue (st_objs (send_each m U ids None data) j) = ss_sendQueue (st_objs U j)" if "j \<notin> set ids"
      "inj_on (\<lambda>i. ss_socket (st_objs U i)) (insert j (set ids))" for U
      using that
    proof (induction ids arbitrary: U)
      case (Cons k ids)
      have "inj_on (\<lambda>i. ss_socket (st_objs (fst (sendToSession m U k data)) i)) (insert j (set ids))"
        unfolding send_same_ids by (rule inj_on_subset [OF Cons.prems(2)]) auto
      with Cons.IH [of "fst (sendToSession m U k data)"] Cons.prems show ?case by (simp add: send_effect)
    qed simp
    from this [OF _ inj] show ?thesis using Cons.prems True by (simp add: send_effect)
  next
    case False
    then have "ss_socket (st_objs T j) \<noteq> ss_socket (st_objs T i)" using Cons.prems(2) by (auto simp: inj_on_def)
    then show ?thesis
      using Cons.IH [OF _ inj] Cons.prems False send_other [of j i T m data] by simp
  qed
qed simp

lemma broadcast_to:
  assumes "sessions_ok T" "d \<noteq> []" "inj_on (\<lambda>i. ss_socket (st_objs T i)) (st_sessions T)" "j \<in> st_sessions T"
    and "ss_docId (st_objs T j) = Some d" "reachable m T j" "T' = broadcastToDocument m T d data None" "s = ss_socket (st_objs T j)"
  shows "received T' s = received T s @ [data]" "st_sockets T' s = SockOpen" "ss_sendQueue (st_objs T' j) = ss_sendQueue (st_objs T j) + 1"
proof -
  note ds = doc_sessions [OF assms(1,2)]
  have inj: "inj_on (\<lambda>i. ss_socket (st_objs T i)) (set (getDocumentSessions T d))" and j: "j \<in> set (getDocumentSessions T d)"
    using assms(3-5) by (auto simp: ds(3) intro: inj_on_subset)
  have ids: "\<forall>i \<in> set (getDocumentSessions T d). ss_id (st_objs T i) = i" using assms(1) by (simp add: sessions_ok_def ds(3))
  note e = send_each_effect [OF ds(2) inj ids, where exclude = None and m = m and data = data]
  have "filter (\<lambda>i. reachable m T i \<and> ss_socket (st_objs T i) = ss_socket (st_objs T j)) (getDocumentSessions T d) = [j]"
    using filter_one [where P = "reachable m T" and f = "\<lambda>i. ss_socket (st_objs T i)", OF ds(2) inj j assms(6)] by simp
  then show "received T' s = received T s @ [data]"
    by (simp add: received_def assms(7,8) broadcastToDocument_def conjunct1 [OF e] filter_map comp_def)
  have "\<not> slow m T i" if "i \<in> set (getDocumentSessions T d)" "ss_socket (st_objs T i) = ss_socket (st_objs T j)" for i
    using inj_onD [OF inj that(2,1) j] assms(6) by (simp add: slow_def reachable_def)
  then show "st_sockets T' s = SockOpen"
    using assms(6) by (auto simp: assms(7,8) broadcastToDocument_def e reachable_def)
  show "ss_sendQueue (st_objs T' j) = ss_sendQueue (st_objs T j) + 1"
    using send_each_queue [OF ds(2) _ assms(6), of data] inj j by (simp add: assms(7) broadcastToDocument_def insert_absorb)
qed

lemma broadcast_times:
  assumes "sessions_ok T" "d \<noteq> []" "inj_on (\<lambda>i. ss_socket (st_objs T i)) (st_sessions T)" "j \<in> st_sessions T"
    and "ss_docId (st_objs T j) = Some d" "st_sockets T (ss_socket (st_objs T j)) = SockOpen"
    and "ss_sendQueue (st_objs T j) + int k \<le> m"
  shows "received (((\<lambda>T. broadcastToDocument m T d data None) ^^ k) T) (ss_socket (st_objs T j)) =
    received T (ss_socket (st_objs T j)) @ replicate k data"
  using assms
proof (induction k arbitrary: T)
  case (Suc k)
  let ?U = "broadcastToDocument m T d data None"
  have r: "reachable m T j" using Suc.prems(6,7) by (simp add: reachable_def)
  note b = broadcast_to [OF Suc.prems(1-5) r refl refl]
  note t = same_table_broadcast [of T m d data None]
  have same: "ss_socket (st_objs ?U i) = ss_socket (st_objs T i)" "ss_docId (st_objs ?U i) = ss_docId (st_objs T i)" "st_sessions ?U = st_sessions T" for i
    using t by (simp_all add: same_table_def same_session_def)
  have "received (((\<lambda>T. broadcastToDocument m T d data None) ^^ k) ?U) (ss_socket (st_objs ?U j)) =
      received ?U (ss_socket (st_objs ?U j)) @ replicate k data"
    by (rule Suc.IH) (use Suc.prems same_table_ok [OF t] b in \<open>simp_all add: same\<close>)
  then show ?case using b(1) by (simp add: same funpow_Suc_right del: funpow.simps(2))
qed simp

text \<open>A browser that is sent an operation any number of times shows it once.\<close>

lemma client_repeats:
  assumes "cs_doc c = Some D" "0 < k"
  shows "cs_doc (foldl (\<lambda>c m. fst (handleServerMessage c st room m)) c (replicate k (BROADCAST env))) = Some (cl_applyOperation D (env_op env)) \<and>
    cs_text (foldl (\<lambda>c m. fst (handleServerMessage c st room m)) c (replicate k (BROADCAST env))) = cl_toText (cl_applyOperation D (env_op env))"
  using assms(2)
proof (induction k)
  case (Suc k)
  have step: "cs_doc (fst (handleServerMessage c' st room (BROADCAST env))) = Some (cl_applyOperation C (env_op env)) \<and>
      cs_text (fst (handleServerMessage c' st room (BROADCAST env))) = cl_toText (cl_applyOperation C (env_op env))"
    if "cs_doc c' = Some C" for c' C
    using that by (simp add: Let_def)
  have rep: "replicate (Suc k) (BROADCAST env) = replicate k (BROADCAST env) @ [BROADCAST env]" by (simp add: replicate_append_same)
  show ?case
  proof (cases "k = 0")
    case True
    then show ?thesis using step [OF assms(1)] by (simp del: handleServerMessage.simps)
  next
    case False
    then have "cs_doc (foldl (\<lambda>c m. fst (handleServerMessage c st room m)) c (replicate k (BROADCAST env))) =
        Some (cl_applyOperation D (env_op env))"
      using Suc.IH by blast
    from step [OF this] show ?thesis unfolding rep foldl_append by (simp add: cl_apply_twice del: handleServerMessage.simps)
  qed
qed simp


text \<open>The editor on socket 3 and a reader on socket 4.\<close>

definition example_pair :: "(string \<Rightarrow> entry_ref option, (string \<Rightarrow> int) \<times> string set) Ws" where
  "example_pair = (example_live (Some ''d''))\<lparr>ws_fresh := 1,
     ws_table := fst (registerSession (ws_table (example_live (Some ''d''))) 4 (example_session_params ''d'') ''r'' 0),
     ws_bus := subscribeToDocument True new_pubsub ''d'' (DocHandler 0 ''d'') (DocHandler 0 ''d'')\<rparr>"

lemma example_pair_ok:
  "accepts example_ws_deps (\<lambda>c. c) example_pair (example_ws_env ''i'') ''s'' (example_insert ''a'' 97 ''n'')"
  "bus_inv example_pair" "joined example_pair ''d'' = 1" "sessions_ok (ws_table example_pair)" "st_sessions (ws_table example_pair) = {''r'', ''s''}"
  "inj_on (\<lambda>i. ss_socket (st_objs (ws_table example_pair) i)) (st_sessions (ws_table example_pair))"
  "ss_docId (st_objs (ws_table example_pair) ''r'') = Some ''d''" "st_sockets (ws_table example_pair) (ss_socket (st_objs (ws_table example_pair) ''r'')) = SockOpen"
  "ss_sendQueue (st_objs (ws_table example_pair) ''r'') = 0"
proof -
  note x = example_live_accepts [of "Some ''d''"]
  have T: "st_objs (ws_table example_pair) ''s'' = st_objs (ws_table (example_live (Some ''d''))) ''s''" "ws_server example_pair = ws_server (example_live (Some ''d''))"
    "ss_socket (st_objs (ws_table example_pair) ''r'') = 4"
    by (simp_all add: example_pair_def register_effect)
  show s: "st_sessions (ws_table example_pair) = {''r'', ''s''}"
    by (simp add: example_pair_def register_effect example_live_def no_sessions_ok)
  show "accepts example_ws_deps (\<lambda>c. c) example_pair (example_ws_env ''i'') ''s'' (example_insert ''a'' 97 ''n'')"
    using x(1) by (simp add: accepts_def T)
  show "inj_on (\<lambda>i. ss_socket (st_objs (ws_table example_pair) i)) (st_sessions (ws_table example_pair))"
    unfolding s using T x(4) by (simp add: inj_on_def)
  show "ss_docId (st_objs (ws_table example_pair) ''r'') = Some ''d''" "ss_sendQueue (st_objs (ws_table example_pair) ''r'') = 0"
    "st_sockets (ws_table example_pair) (ss_socket (st_objs (ws_table example_pair) ''r'')) = SockOpen"
    by (simp_all add: example_pair_def register_effect example_session_params_def example_live_def no_sessions_def)
  have "sessions_ok (ws_table (example_live (Some ''d'')))" "st_sessions (ws_table (example_live (Some ''d''))) = {''s''}"
    by (simp_all add: example_live_def register_ok no_sessions_ok register_effect)
  then show "sessions_ok (ws_table example_pair)" by (simp add: example_pair_def register_ok)
  show "bus_inv example_pair" "joined example_pair ''d'' = 1"
    by (simp_all add: bus_inv_def joined_def example_pair_def pubsub_ok_intros set_add_def)
qed


end
