(* ===== verification/Worker_Events.thy ===== *)
theory Worker_Events
  imports Live_Session
begin

text \<open>
  A worker as a state machine: every callback of \<^verbatim>\<open>websocket-server.ts\<close> is a step, in any order and with any
  environment, and what holds of the sessions and their queues in every reachable state. One lemma follows a
  JOIN whose connection closes while its queries are on the way.
\<close>

section \<open>Steps\<close>

definition fresh_id :: "('c, 'r) Ws \<Rightarrow> string \<Rightarrow> bool" where
  "fresh_id W i \<longleftrightarrow> i \<noteq> [] \<and> i \<notin> st_sessions (ws_table W) \<and> i \<notin> ran (ws_socketToSession W)"

inductive ws_step :: "('c, 'r) WsDeps \<Rightarrow> ('c, 'r) Ws \<Rightarrow> ('c, 'r) Ws \<Rightarrow> bool" for X where
  opened: "ws_socketToSession W s = None \<Longrightarrow> ws_step X W (connection W s)"
| join_expired: "ws_step X W (joinTimeout W s)"
| received_message: "ws_step X W (message X W E s raw)"
| join_answered: "fresh_id W (we_uuid E) \<Longrightarrow> ws_step X W (joinResume X W E x)"
| next_message: "ws_step X W (processNext X W E i)"
| typing_expired: "ws_step X W (typingTimer W E key)"
| presence_expired: "ws_step X W (presenceTimer X W d)"
| redis_message: "ws_step X W (redisMessage X W cm)"
| ponged: "ws_step X W (pong W s)"
| message_sent: "ws_step X W (set_table W (sent_callback (ws_table W) i))"
| closed: "ws_step X W (socketClosed X W E s)"
| heartbeat_due: "ws_step X W (heartbeat X W now)"

inductive ws_reach :: "('c, 'r) WsDeps \<Rightarrow> ('c, 'r) Ws \<Rightarrow> ('c, 'r) Ws \<Rightarrow> bool" for X W0 where
  start: "ws_reach X W0 W0"
| step: "ws_reach X W0 W \<Longrightarrow> ws_step X W W' \<Longrightarrow> ws_reach X W0 W'"

section \<open>The invariant\<close>

text \<open>A session has no role; its queue is sorted by priority and is empty unless the session is being processed.\<close>

definition queue_ok :: "ServerSession \<Rightarrow> bool" where
  "queue_ok x \<longleftrightarrow> ss_role x = None \<and> sorted (map fst (ss_messageQueue x)) \<and> (ss_isProcessing x \<or> ss_messageQueue x = [])"

definition table_ok :: "SessionTable \<Rightarrow> bool" where
  "table_ok T \<longleftrightarrow> sessions_ok T \<and> (\<forall>i \<in> st_sessions T. queue_ok (st_objs T i))"

definition worker_ok :: "('c, 'r) Ws \<Rightarrow> bool" where
  "worker_ok W \<longleftrightarrow> table_ok (ws_table W) \<and>
     (\<forall>s i. ws_socketToSession W s = Some i \<and> i \<in> st_sessions (ws_table W) \<longrightarrow> ss_socket (st_objs (ws_table W) i) = s)"

lemma same_table_queue:
  assumes "same_table T U" "table_ok T"
  shows "table_ok U"
  using assms(2) same_table_ok [OF assms(1)] by (simp add: table_ok_def queue_ok_def same_tableD [OF assms(1)])

lemma worker_same:
  assumes "worker_ok W" "same_table (ws_table W) (ws_table V)" "ws_socketToSession V = ws_socketToSession W"
  shows "worker_ok V"
  using assms same_tableD [OF assms(2)] same_table_queue [OF assms(2)] by (simp add: worker_ok_def)

lemma worker_set_session:
  assumes "worker_ok W" "i \<in> st_sessions (ws_table W) \<Longrightarrow> queue_ok (f (st_objs (ws_table W) i))"
    and "\<And>x. ss_id (f x) = ss_id x \<and> ss_docId (f x) = ss_docId x \<and> ss_userId (f x) = ss_userId x \<and> ss_socket (f x) = ss_socket x"
  shows "worker_ok (set_table W (set_session (ws_table W) i f))"
  using assms set_session_ok [of "ws_table W" f i] by (auto simp: worker_ok_def table_ok_def)

lemma same_table_session:
  assumes "\<And>x. same_session x (f x)"
  shows "same_table T (set_session T i f)"
  using assms by (simp add: same_table_def)

section \<open>Each step keeps it\<close>

lemma reject_worker: "worker_ok W \<Longrightarrow> worker_ok (reject_socket W s c m k)"
  by (erule worker_same) (auto simp: reject_socket_def intro: same_table_trans [of _ "sendError (ws_table W) s c m"])

lemma connection_worker: "worker_ok W \<Longrightarrow> worker_ok (connection W s)"
  by (erule worker_same) (auto simp: connection_def Let_def same_table_def close_socket_def)

lemma joinTimeout_worker: "worker_ok W \<Longrightarrow> worker_ok (joinTimeout W s)"
  by (erule worker_same) (auto simp: joinTimeout_def Let_def)

lemma processNext_map [simp]: "ws_socketToSession (handleClientMessage X W E i m) = ws_socketToSession W"
  by (auto simp: handleClientMessage_def handleClientOperation_def handleClientPresence_def put_presence_def Let_def
      split: ClientMessage.split prod.split outcome.split option.split bool.split)

lemma processNext_worker:
  assumes "worker_ok W"
  shows "worker_ok (processNext X W E i)"
proof -
  let ?x = "st_objs (ws_table W) i"
  have q: "queue_ok ?x" if "i \<in> st_sessions (ws_table W)" using assms that by (simp add: worker_ok_def table_ok_def)
  consider "\<not> ss_isProcessing ?x" | "ss_isProcessing ?x" "ss_messageQueue ?x = []"
    | pm rest where "ss_isProcessing ?x" "ss_messageQueue ?x = pm # rest"
    by (cases "ss_messageQueue ?x") auto
  then show ?thesis
  proof cases
    case 1
    then show ?thesis using assms by (simp add: processNext_def Let_def)
  next
    case 2
    then have "worker_ok (set_table W (set_session (ws_table W) i (\<lambda>x. x\<lparr>ss_isProcessing := False\<rparr>)))"
      using q by (intro worker_set_session [OF assms]) (simp_all add: queue_ok_def)
    then show ?thesis using 2 by (simp add: processNext_def Let_def)
  next
    case 3
    let ?W = "set_table W (set_session (ws_table W) i (\<lambda>x. x\<lparr>ss_messageQueue := rest\<rparr>))"
    have "worker_ok ?W" using q 3 by (intro worker_set_session [OF assms]) (simp_all add: queue_ok_def)
    then have "worker_ok (handleClientMessage X ?W E i (snd pm))"
      by (rule worker_same [OF _ client_message_table]) simp
    then show ?thesis using 3 by (cases pm) (simp add: processNext_def Let_def)
  qed
qed

lemma enqueue_sorted: "sorted (map fst q) \<Longrightarrow> sorted (map fst (enqueue_message p m q))"
  by (simp add: enqueue_stable_sort)

lemma getSession_member: "ws_getSession W s = Some i \<Longrightarrow> i \<in> st_sessions (ws_table W) \<and> ws_socketToSession W s = Some i"
  by (auto simp: ws_getSession_def truthy_def split: option.splits if_splits)

lemma message_worker:
  assumes "worker_ok W"
  shows "worker_ok (message X W E s raw)"
proof (cases "s \<in> ws_listening W \<and> raw \<noteq> None")
  case False
  have "worker_ok (set_table W (sendError (ws_table W) s c m))" for c m by (rule worker_same [OF assms]) simp_all
  then show ?thesis using False assms by (auto simp: message_def)
next
  case True
  then obtain v where v: "raw = Some v" by auto
  show ?thesis
  proof (cases "ws_getSession W s")
    case None
    let ?W = "W\<lparr>ws_joinTimers := ws_joinTimers W - {s}, ws_pendingAuth := ws_pendingAuth W - 1\<rparr>"
    have w: "worker_ok (?W\<lparr>ws_joining := x\<rparr>)" "worker_ok ?W" for x by (rule worker_same [OF assms]; simp)+
    show ?thesis using True v None reject_worker [OF w(2)] w(1)
      by (auto simp: message_def handleJoin_def split: option.split)
  next
    case (Some i)
    note i = getSession_member [OF Some]
    show ?thesis
    proof (cases "ClientMessageSchema (wd_is_uuid X) v")
      case None
      have "worker_ok (set_table W (sendError (ws_table W) s c m))" for c m by (rule worker_same [OF assms]) simp_all
      then show ?thesis using True v Some None by (simp add: message_def)
    next
      case m: (Some m)
      let ?x = "st_objs (ws_table W) i"
      let ?f = "\<lambda>x. x\<lparr>ss_lastActivity := ca_now (we_call E), ss_messageQueue := enqueue_message (priority m) m (ss_messageQueue x)\<rparr>"
      let ?g = "\<lambda>x. (?f x)\<lparr>ss_isProcessing := True\<rparr>"
      have q: "queue_ok ?x" using assms i by (simp add: worker_ok_def table_ok_def)
      then have "sorted (map fst (enqueue_message (priority m) m (ss_messageQueue ?x)))" by (simp add: queue_ok_def enqueue_sorted)
      then have f: "ss_isProcessing ?x \<Longrightarrow> worker_ok (set_table W (set_session (ws_table W) i ?f))"
        and g: "worker_ok (set_table W (set_session (ws_table W) i ?g))"
        using q by (intro worker_set_session [OF assms]; simp add: queue_ok_def)+
      have "set_session (set_session (ws_table W) i ?f) i (\<lambda>x. x\<lparr>ss_isProcessing := True\<rparr>) = set_session (ws_table W) i ?g"
        by (simp add: set_session_def)
      then show ?thesis using True v Some m f processNext_worker [OF g] by (simp add: message_def Let_def)
    qed
  qed
qed

lemma register_worker:
  assumes "worker_ok W" "fresh_id W i" "T1 = fst (registerSession (ws_table W) s ps i now)" "same_table T1 (ws_table V)"
    and "ws_socketToSession V = (ws_socketToSession W)(s \<mapsto> i)"
  shows "worker_ok V"
proof -
  have i: "i \<notin> st_sessions (ws_table W)" "\<And>t. ws_socketToSession W t \<noteq> Some i"
    using assms(2) by (auto simp: fresh_id_def ran_def)
  have T1: "table_ok T1"
    using register_ok [of "ws_table W" i s ps now] assms(1) i(1)
    by (auto simp: worker_ok_def table_ok_def assms(3) register_effect queue_ok_def) (metis register_effect(11))+
  have "table_ok (ws_table V)" by (rule same_table_queue [OF assms(4) T1])
  moreover have "ss_socket (st_objs (ws_table V) j) = t"
    if "ws_socketToSession V t = Some j" "j \<in> st_sessions (ws_table V)" for t j
    using that assms(1) i same_tableD [OF assms(4)]
    by (cases "j = i") (auto simp: assms(3,5) register_effect worker_ok_def split: if_splits)
  ultimately show ?thesis by (simp add: worker_ok_def)
qed

lemma join_register_worker:
  assumes "worker_ok W" "fresh_id W (we_uuid E)"
  shows "worker_ok (join_register X W E s msg payload named)"
proof -
  obtain w n doc missed force where l: "join_load X W E msg = (w, n, doc, missed, force)" by (metis surj_pair)
  let ?ps = "\<lparr>sp_userId = jwt_sub payload, sp_docId = join_docId msg, sp_siteId = (if join_clientId msg = [] then ''global-client'' else join_clientId msg),
    sp_displayName = fst named, sp_color = snd named, sp_lastSeq = n\<rparr>"
  let ?T = "fst (registerSession (ws_table W) s ?ps (we_uuid E) (ca_now (we_call E)))"
  let ?V = "join_register X W E s msg payload named"
  have "(\<exists>m. ws_table ?V = fst (sendToSession (wd_sendQueueMax X) ?T (we_uuid E) m)) \<or> ws_table ?V = ?T"
    "ws_socketToSession ?V = (ws_socketToSession W)(s \<mapsto> we_uuid E)"
    by (auto simp: join_register_def l Let_def split: prod.split)
  then show ?thesis
    using register_worker [OF assms refl, where V = ?V] same_table_send by (metis same_table_refl)
qed

lemma joinResume_worker:
  assumes "worker_ok W" "fresh_id W (we_uuid E)"
  shows "worker_ok (joinResume X W E x)"
proof -
  obtain s msg payload where x: "x = (s, msg, payload)" by (rule prod_cases3)
  let ?W = "W\<lparr>ws_joining := remove1 x (ws_joining W)\<rparr>"
  have w: "worker_ok ?W" "fresh_id ?W (we_uuid E)"
    using assms by (auto simp: fresh_id_def intro: worker_same)
  show ?thesis
    using assms(1) w(1) reject_worker [OF w(1)] join_register_worker [OF w] unfolding x
    by (simp add: joinResume_def join_document_def Let_def split: option.split list.split)
qed

lemma fold_worker:
  assumes "\<And>U x. same_table (ws_table U) (ws_table (f U x)) \<and> ws_socketToSession (f U x) = ws_socketToSession U" "worker_ok W"
  shows "worker_ok (foldl f W xs)"
  using assms(2)
proof (induction xs arbitrary: W)
  case (Cons x xs)
  have "worker_ok (f W x)" using assms(1) by (intro worker_same [OF Cons.prems]) simp_all
  with Cons.IH show ?case by simp
qed simp

lemma fold_same:
  assumes "\<And>U x. same_table (ws_table U) (ws_table (f U x))"
  shows "same_table (ws_table W) (ws_table (foldl f W xs))"
proof (induction xs arbitrary: W)
  case (Cons x xs)
  from same_table_trans [OF assms Cons.IH] show ?case by simp
qed simp

lemma heartbeat_one_same: "same_table (ws_table U) (ws_table (heartbeat_one X now U s))"
  by (auto simp: heartbeat_one_def Let_def same_session_def intro!: same_table_session split: option.split)

lemma heartbeat_same: "same_table (ws_table U) (ws_table (heartbeat X U now))"
  unfolding heartbeat_def by (rule fold_same) (rule heartbeat_one_same)

lemma heartbeat_map: "ws_socketToSession (heartbeat X U now) = ws_socketToSession U"
proof -
  have "ws_socketToSession (foldl (heartbeat_one X now) U ss) = ws_socketToSession U" for ss
    by (induction ss arbitrary: U) simp_all
  then show ?thesis by (simp add: heartbeat_def)
qed

lemma timer_worker:
  assumes "worker_ok W"
  shows "worker_ok (typingTimer W E key)" "worker_ok (presenceTimer X W d)" "worker_ok (pong W s)"
    "worker_ok (set_table W (sent_callback (ws_table W) i))" "worker_ok (heartbeat X W now)" "worker_ok (redisMessage X W cm)"
proof -
  show "worker_ok (typingTimer W E key)"
    by (rule worker_same [OF assms]) (auto simp: typingTimer_def put_presence_def Let_def split: option.split prod.split)
  have "worker_ok (W\<lparr>ws_batches := (ws_batches W)(d := None), ws_presenceTimers := ws_presenceTimers W - {d}\<rparr>)"
    by (rule worker_same [OF assms]) simp_all
  then show "worker_ok (presenceTimer X W d)"
    using assms by (auto simp: presenceTimer_def same_table_broadcast intro!: fold_worker)
  show "worker_ok (pong W s)"
    by (rule worker_same [OF assms]) (auto simp: pong_def same_session_def intro!: same_table_session split: option.split)
  show "worker_ok (set_table W (sent_callback (ws_table W) i))"
    by (rule worker_same [OF assms]) (auto simp: sent_callback_def same_session_def intro!: same_table_session)
  show "worker_ok (heartbeat X W now)"
    by (rule worker_same [OF assms]) (simp_all add: heartbeat_same heartbeat_map)
  have "same_table (ws_table U) (ws_table (deliver_one X U x)) \<and> ws_socketToSession (deliver_one X U x) = ws_socketToSession U"
    for U :: "('a, 'b) Ws" and x
    by (cases "(X, U, x)" rule: deliver_one.cases)
      (simp_all add: handleRedisOperation_def handleRedisPresence_def same_table_broadcast same_table_send)
  then show "worker_ok (redisMessage X W cm)" unfolding redisMessage_def by (intro fold_worker assms)
qed

lemma remove_worker:
  assumes "worker_ok W" "same_table (fst (removeSession (ws_table W) i)) (ws_table V)" "ws_socketToSession V = ws_socketToSession W"
  shows "worker_ok V"
proof -
  have o: "st_objs (fst (removeSession (ws_table W) i)) = st_objs (ws_table W)"
    "st_sessions (fst (removeSession (ws_table W) i)) = st_sessions (ws_table W) - {i}"
    by (auto simp: removeSession_def getSession_def Let_def split: option.split)
  have "table_ok (fst (removeSession (ws_table W) i))"
    using assms(1) remove_ok by (auto simp: worker_ok_def table_ok_def o)
  from same_table_queue [OF assms(2) this] show ?thesis
    using assms(1,3) by (auto simp: worker_ok_def same_tableD [OF assms(2)] o)
qed

lemma closed_worker:
  assumes "worker_ok W"
  shows "worker_ok (socketClosed X W E s)"
proof -
  let ?W = "W\<lparr>ws_clients := removeAll s (ws_clients W),
            ws_table := (ws_table W)\<lparr>st_sockets := (st_sockets (ws_table W))(s := SockClosed)\<rparr>\<rparr>"
  let ?V = "?W\<lparr>ws_joinTimers := ws_joinTimers ?W - {s}\<rparr>"
  have w: "worker_ok ?W" by (rule worker_same [OF assms]) simp_all
  have v: "worker_ok ?V" by (rule worker_same [OF w]) simp_all
  have "same_table (fst (removeSession (ws_table ?V) i)) (ws_table (handleDisconnect X ?V E i)) \<and>
    ws_socketToSession (handleDisconnect X ?V E i) = ws_socketToSession ?V" for i
    by (auto simp: handleDisconnect_def Let_def same_table_broadcast split: option.split prod.split)
  then have "worker_ok (handleDisconnect X ?V E i)" for i by (metis remove_worker [OF v])
  then show ?thesis using w v by (simp add: socketClosed_def Let_def split: option.split)
qed

lemma step_worker: "ws_step X W V \<Longrightarrow> worker_ok W \<Longrightarrow> worker_ok V"
  by (induction rule: ws_step.induct)
    (auto intro: connection_worker joinTimeout_worker message_worker joinResume_worker processNext_worker timer_worker closed_worker)

lemma reach_worker: "ws_reach X W0 W \<Longrightarrow> worker_ok W0 \<Longrightarrow> worker_ok W"
  by (induction rule: ws_reach.induct) (auto intro: step_worker)

section \<open>Every reachable state\<close>

text \<open>C18: Whatever events a worker sees, in every state it reaches the maps of its sessions agree, no session ever has a role,
  the messages that wait in a session stand in order of priority, none waits in a session that nobody is working on,
  and no two sockets have the same session.\<close>

theorem worker_invariant:
  assumes "ws_reach X W0 W" "sessions_ok (ws_table W0)" "st_sessions (ws_table W0) = {}" "i \<in> st_sessions (ws_table W)"
  shows "sessions_ok (ws_table W) \<and> ss_role (st_objs (ws_table W) i) = None \<and>
    sorted (map fst (ss_messageQueue (st_objs (ws_table W) i))) \<and>
    (\<not> ss_isProcessing (st_objs (ws_table W) i) \<longrightarrow> ss_messageQueue (st_objs (ws_table W) i) = []) \<and>
    (\<forall>s t. ws_getSession W s = Some i \<and> ws_getSession W t = Some i \<longrightarrow> s = t)"
proof -
  have "worker_ok W0" using assms(2,3) by (simp add: worker_ok_def table_ok_def)
  from reach_worker [OF assms(1) this] have w: "worker_ok W" .
  have "s = t" if "ws_getSession W s = Some i" "ws_getSession W t = Some i" for s t
    using getSession_member [OF that(1)] getSession_member [OF that(2)] w unfolding worker_ok_def by blast
  then show ?thesis using w assms(4) by (auto simp: worker_ok_def table_ok_def queue_ok_def)
qed

theorem worker_invariant_witness:
  "ss_role (st_objs (ws_table (joinResume example_ws_deps (example_joining 0) (example_ws_env ''i'')
     (3, example_join (Some ''d'') 0, example_payload ''b''))) ''i'') = None"
proof -
  let ?V = "joinResume example_ws_deps (example_joining 0) (example_ws_env ''i'') (3, example_join (Some ''d'') 0, example_payload ''b'')"
  have e: "fresh_id (example_joining 0) (we_uuid (example_ws_env ''i''))" "sessions_ok (ws_table (example_joining 0))"
    "st_sessions (ws_table (example_joining 0)) = {}" "we_uuid (example_ws_env ''i'') = ''i''"
    by (simp_all add: fresh_id_def example_joining_def example_ws_def no_sessions_ok example_ws_env_def)
  have "ws_reach example_ws_deps (example_joining 0) ?V"
    by (rule ws_reach.step [OF ws_reach.start ws_step.join_answered [OF e(1)]])
  moreover have "''i'' \<in> st_sessions (ws_table ?V)"
    using join_resume [OF example_joining_ok(1-4) _ example_joining_ok(5-11), of 0 "''i''"] e(4) by (auto simp: Let_def)
  ultimately show ?thesis using worker_invariant [of example_ws_deps "example_joining 0" ?V "''i''"] e(2,3) by blast
qed

text \<open>A JOIN that is answered after its connection has closed leaves a session behind: the session is registered for a
  closed socket, nothing is sent, and as the close event is over and the heartbeat looks only at open connections
  it stays among the sessions of the document.\<close>

theorem late_join_leaks_session:
  assumes "(s, msg, payload) \<in> set (ws_joining W)" "ws_socketToSession W s = None" "sessions_ok (ws_table W)"
    and "we_uuid E' \<notin> st_sessions (ws_table W)" "join_docId msg = Some d" "d \<noteq> []" "permitted W d payload" "ca_pgUp (we_call E')" "we_loadOk E'"
    and "V = joinResume X (socketClosed X W E s) E' (s, msg, payload)"
  shows "we_uuid E' \<in> set (getDocumentSessions (ws_table (foldl (heartbeat X) V ts)) d) \<and>
    st_sockets (ws_table V) s = SockClosed \<and> st_sent (ws_table V) = st_sent (ws_table W)"
proof -
  let ?W = "socketClosed X W E s" and ?i = "we_uuid E'"
  have W: "ws_joining ?W = ws_joining W" "ws_dir ?W = ws_dir W" "st_sessions (ws_table ?W) = st_sessions (ws_table W)"
    "st_sockets (ws_table ?W) s = SockClosed" "st_sent (ws_table ?W) = st_sent (ws_table W)" "same_table (ws_table W) (ws_table ?W)"
    using assms(2) by (auto simp: socketClosed_def ws_getSession_def truthy_def Let_def)
  let ?U = "?W\<lparr>ws_joining := remove1 (s, msg, payload) (ws_joining ?W)\<rparr>"
  obtain named rest where q: "permission_query (ws_dir W) d (jwt_sub payload) = named # rest"
    using assms(7) by (cases "permission_query (ws_dir W) d (jwt_sub payload)") (auto simp: permitted_def)
  have V: "V = join_register X ?U E' s msg payload named"
    using assms(1,5,6,8,9) q by (simp add: assms(10) joinResume_def W truthy_def join_document_def load_throws_def)
  obtain w n doc missed force where l: "join_load X ?U E' msg = (w, n, doc, missed, force)" by (metis surj_pair)
  define T where "T = fst (registerSession (ws_table ?U) s \<lparr>sp_userId = jwt_sub payload, sp_docId = join_docId msg,
    sp_siteId = (if join_clientId msg = [] then ''global-client'' else join_clientId msg), sp_displayName = fst named,
    sp_color = snd named, sp_lastSeq = n\<rparr> ?i (ca_now (we_call E')))"
  have T: "ss_socket (st_objs T ?i) = s" "st_sockets T s = SockClosed" "st_sent T = st_sent (ws_table W)"
    by (simp_all add: T_def register_effect W)
  have "ws_table V = T \<or> (\<exists>m. ws_table V = fst (sendToSession (wd_sendQueueMax X) T ?i m))"
    by (auto simp: V join_register_def l T_def Let_def split: prod.split)
  then have VT: "ws_table V = T" using T(1,2) by (auto simp: sendToSession_def)
  have ok: "sessions_ok T" unfolding T_def
    by (rule register_ok) (use same_table_ok [OF W(6) assms(3)] assms(4) W(3) in simp_all)
  have h: "sessions_ok (ws_table (foldl (heartbeat X) U ts)) \<and> st_sessions (ws_table (foldl (heartbeat X) U ts)) = st_sessions (ws_table U) \<and>
    ss_docId (st_objs (ws_table (foldl (heartbeat X) U ts)) ?i) = ss_docId (st_objs (ws_table U) ?i)"
    if "sessions_ok (ws_table U)" for U
  proof -
    have "same_table (ws_table U) (ws_table (foldl (heartbeat X) U ts))" by (rule fold_same) (rule heartbeat_same)
    then show ?thesis using same_table_ok that by (auto simp: same_table_def same_session_def)
  qed
  have "ss_docId (st_objs T ?i) = Some d" "?i \<in> st_sessions T" using assms(5) by (simp_all add: T_def register_effect)
  then have "?i \<in> set (getDocumentSessions (ws_table (foldl (heartbeat X) V ts)) d)"
    using h [of V] ok by (simp add: VT doc_sessions(3) [OF _ assms(6)])
  then show ?thesis using T(2,3) VT by simp
qed

theorem late_join_leaks_session_witness:
  "''i'' \<in> set (getDocumentSessions (ws_table (foldl (heartbeat example_ws_deps) (joinResume example_ws_deps
     (socketClosed example_ws_deps (example_joining 0) (example_ws_env ''j'') 3) (example_ws_env ''i'')
     (3, example_join (Some ''d'') 0, example_payload ''b'')) [30000, 60000, 90000])) ''d'')"
proof -
  have "ws_socketToSession (example_joining 0) 3 = None" "sessions_ok (ws_table (example_joining 0))"
    "we_uuid (example_ws_env ''i'') \<notin> st_sessions (ws_table (example_joining 0))" "we_uuid (example_ws_env ''i'') = ''i''"
    by (simp_all add: example_joining_def example_ws_def no_sessions_ok example_ws_env_def)
  with late_join_leaks_session [OF example_joining_ok(9) _ _ _ example_joining_ok(4) _ example_joining_ok(11,5,6) refl,
      of 0 "''i''" example_ws_deps "example_ws_env ''j''" "[30000, 60000, 90000]"]
  show ?thesis by simp
qed

end
