(* ===== verification/Auth.thy ===== *)
theory Auth
  imports Document_Routes "HOL-Library.Countable"
begin

text \<open>
  Accounts and tokens: \<^verbatim>\<open>src/server/security/jwt.ts\<close> and \<^verbatim>\<open>src/server/api/routes/auth.ts\<close> over the tables \<open>users\<close> and
  \<open>refresh_tokens\<close> of \<^verbatim>\<open>schema.sql\<close>. The libraries \<open>jsonwebtoken\<close> and \<open>bcryptjs\<close> are parameters, with what their documentation
  promises as hypotheses; UUIDs, salts and times are arguments. Rotating a token is modelled in the two parts the
  code awaits, the search and the replacement, so that requests can overlap.
\<close>

section \<open>Tables and libraries\<close>

record LoginRow =
  log_id :: string
  log_email :: string
  log_displayName :: js_text
  log_color :: string
  log_passwordHash :: js_text

record RefreshRow =
  rt_id :: string
  rt_user_id :: string
  rt_token_hash :: js_text
  rt_token_prefix :: js_text
  rt_expires_at :: int
  rt_revoked :: bool

record AuthDb =
  au_users :: "LoginRow list"
  au_tokens :: "RefreshRow list"

record Crypto =
  cr_hash :: "int \<Rightarrow> string \<Rightarrow> js_text \<Rightarrow> js_text"
  cr_compare :: "js_text \<Rightarrow> js_text \<Rightarrow> bool"
  cr_sign :: "string \<Rightarrow> string \<Rightarrow> js_text \<Rightarrow> int \<Rightarrow> string"
  cr_verify :: "string \<Rightarrow> int \<Rightarrow> JWTPayload option"

record AuthConfig =
  jwt_accessExpiry :: int
  jwt_refreshExpiry :: int

record AuthEnv =
  ae_now :: int
  ae_uuid1 :: js_text
  ae_uuid2 :: js_text
  ae_salt :: string
  ae_id :: string
  ae_pgUp :: bool
  ae_insertOk :: bool

record TokenPair =
  tp_accessToken :: string
  tp_refreshToken :: js_text
  tp_expiresIn :: int

definition TOKEN_PREFIX_LEN :: nat where
  "TOKEN_PREFIX_LEN = 8"

section \<open>Operations\<close>

text \<open>Returns the raw token; the table keeps its hash and prefix.\<close>

definition createRefreshToken :: "Crypto \<Rightarrow> AuthConfig \<Rightarrow> AuthEnv \<Rightarrow> AuthDb \<Rightarrow> string \<Rightarrow> db_error + AuthDb \<times> js_text" where
  "createRefreshToken C cfg E A userId =
     (let raw = ae_uuid1 E @ ae_uuid2 E; tokenPrefix = take TOKEN_PREFIX_LEN raw; h = cr_hash C 10 (ae_salt E) raw;
          expiresAt = ae_now E + jwt_refreshExpiry cfg * 1000
      in if \<not> ae_insertOk E then Inl ConnectionLost
         else if userId \<notin> log_id ` set (au_users A) then Inl ForeignKeyViolation
         else if ae_id E \<in> rt_id ` set (au_tokens A) \<or> h \<in> rt_token_hash ` set (au_tokens A) then Inl UniqueViolation
         else Inr (A\<lparr>au_tokens := au_tokens A @ [\<lparr>rt_id = ae_id E, rt_user_id = userId, rt_token_hash = h,
                rt_token_prefix = tokenPrefix, rt_expires_at = expiresAt, rt_revoked = False\<rparr>]\<rparr>, raw))"

definition candidates :: "AuthDb \<Rightarrow> js_text \<Rightarrow> int \<Rightarrow> (RefreshRow \<times> LoginRow) list" where
  "candidates A tokenPrefix now = concat (map (\<lambda>r. map (Pair r) (filter (\<lambda>u. log_id u = rt_user_id r) (au_users A)))
     (filter (\<lambda>r. rt_token_prefix r = tokenPrefix \<and> \<not> rt_revoked r \<and> rt_expires_at r > now) (au_tokens A)))"

definition find_token :: "Crypto \<Rightarrow> AuthDb \<Rightarrow> js_text \<Rightarrow> int \<Rightarrow> (RefreshRow \<times> LoginRow) option" where
  "find_token C A rawToken now =
     (if length rawToken < TOKEN_PREFIX_LEN then None
      else find (\<lambda>x. cr_compare C rawToken (rt_token_hash (fst x))) (candidates A (take TOKEN_PREFIX_LEN rawToken) now))"

definition revoke_token :: "AuthDb \<Rightarrow> string \<Rightarrow> AuthDb" where
  "revoke_token A i = A\<lparr>au_tokens := update_rows (\<lambda>r. rt_id r = i) (\<lambda>r. r\<lparr>rt_revoked := True\<rparr>) (au_tokens A)\<rparr>"

text \<open>Not in a transaction: a failing insert leaves the old token revoked.\<close>

definition replace_token ::
  "Crypto \<Rightarrow> AuthConfig \<Rightarrow> AuthEnv \<Rightarrow> AuthDb \<Rightarrow> RefreshRow \<times> LoginRow \<Rightarrow> AuthDb \<times> (db_error + string \<times> TokenPair)" where
  "replace_token C cfg E A x =
     (let A1 = revoke_token A (rt_id (fst x));
          accessToken = cr_sign C (rt_user_id (fst x)) (log_email (snd x)) (log_displayName (snd x)) (ae_now E)
      in case createRefreshToken C cfg E A1 (rt_user_id (fst x)) of
           Inl e \<Rightarrow> (A1, Inl e)
         | Inr (A2, newRefresh) \<Rightarrow> (A2, Inr (rt_user_id (fst x), \<lparr>tp_accessToken = accessToken, tp_refreshToken = newRefresh,
             tp_expiresIn = jwt_accessExpiry cfg\<rparr>)))"

definition rotateRefreshToken ::
  "Crypto \<Rightarrow> AuthConfig \<Rightarrow> AuthEnv \<Rightarrow> AuthDb \<Rightarrow> js_text \<Rightarrow> AuthDb \<times> (db_error + (string \<times> TokenPair) option)" where
  "rotateRefreshToken C cfg E A rawToken =
     (if length rawToken \<ge> TOKEN_PREFIX_LEN \<and> \<not> ae_pgUp E then (A, Inl ConnectionLost)
      else case find_token C A rawToken (ae_now E) of
          None \<Rightarrow> (A, Inr None)
        | Some x \<Rightarrow> (case replace_token C cfg E A x of (A', Inl e) \<Rightarrow> (A', Inl e) | (A', Inr t) \<Rightarrow> (A', Inr (Some t))))"

definition authenticateUser ::
  "Crypto \<Rightarrow> AuthConfig \<Rightarrow> AuthEnv \<Rightarrow> AuthDb \<Rightarrow> string \<Rightarrow> js_text \<Rightarrow> AuthDb \<times> (db_error + TokenPair option)" where
  "authenticateUser C cfg E A email password =
     (if \<not> ae_pgUp E then (A, Inl ConnectionLost)
      else case filter (\<lambda>u. log_email u = email) (au_users A) of
          [] \<Rightarrow> (A, Inr None)
        | user # _ \<Rightarrow>
            if \<not> cr_compare C password (log_passwordHash user) then (A, Inr None)
            else let accessToken = cr_sign C (log_id user) (log_email user) (log_displayName user) (ae_now E)
              in case createRefreshToken C cfg E A (log_id user) of
                   Inl e \<Rightarrow> (A, Inl e)
                 | Inr (A', refreshToken) \<Rightarrow> (A', Inr (Some \<lparr>tp_accessToken = accessToken, tp_refreshToken = refreshToken,
                     tp_expiresIn = jwt_accessExpiry cfg\<rparr>)))"

text \<open>The code \<open>23505\<close> is a unique violation, of the address or of the generated id.\<close>

definition registerUser :: "Crypto \<Rightarrow> AuthEnv \<Rightarrow> AuthDb \<Rightarrow> Registration \<Rightarrow> AuthDb \<times> (db_error + (string + string))" where
  "registerUser C E A ps =
     (let h = cr_hash C 12 (ae_salt E) (reg_password ps) in
      if \<not> ae_insertOk E then (A, Inl ConnectionLost)
      else if reg_email ps \<in> log_email ` set (au_users A) \<or> ae_id E \<in> log_id ` set (au_users A)
        then (A, Inr (Inl ''Email already registered''))
      else (A\<lparr>au_users := au_users A @ [\<lparr>log_id = ae_id E, log_email = reg_email ps, log_displayName = reg_displayName ps,
                log_color = (case reg_color ps of Some c \<Rightarrow> c | None \<Rightarrow> ''#4F46E5''), log_passwordHash = h\<rparr>]\<rparr>,
            Inr (Inr (ae_id E))))"

section \<open>Routes\<close>

datatype cookie = SameCookie | RefreshCookie js_text int | ClearedCookie

datatype auth_body = AuthError string | RegisteredBody string | TokenBody string int | LoggedOutBody

datatype auth_response = Answer int cookie auth_body | NoAnswer db_error

datatype auth_request = Register json | Login json | Refresh "js_text option" | Logout

definition cookieMaxAge :: int where
  "cookieMaxAge = 7 * 24 * 60 * 60 * 1000"

definition postRegister :: "(js_text \<Rightarrow> bool) \<Rightarrow> Crypto \<Rightarrow> AuthEnv \<Rightarrow> AuthDb \<Rightarrow> json \<Rightarrow> AuthDb \<times> auth_response" where
  "postRegister is_email C E A v =
     (case RegisterSchema is_email v of
        None \<Rightarrow> (A, Answer 400 SameCookie (AuthError ''Validation failed''))
      | Some ps \<Rightarrow>
          (case registerUser C E A ps of
             (A', Inl e) \<Rightarrow> (A', NoAnswer e)
           | (A', Inr (Inl m)) \<Rightarrow> (A', Answer 409 SameCookie (AuthError m))
           | (A', Inr (Inr userId)) \<Rightarrow> (A', Answer 201 SameCookie (RegisteredBody userId))))"

definition postLogin :: "(js_text \<Rightarrow> bool) \<Rightarrow> Crypto \<Rightarrow> AuthConfig \<Rightarrow> AuthEnv \<Rightarrow> AuthDb \<Rightarrow> json \<Rightarrow> AuthDb \<times> auth_response" where
  "postLogin is_email C cfg E A v =
     (case LoginSchema is_email v of
        None \<Rightarrow> (A, Answer 400 SameCookie (AuthError ''Validation failed''))
      | Some (email, password) \<Rightarrow>
          (case authenticateUser C cfg E A email password of
             (A', Inl e) \<Rightarrow> (A', NoAnswer e)
           | (A', Inr None) \<Rightarrow> (A', Answer 401 SameCookie (AuthError ''Invalid email or password''))
           | (A', Inr (Some t)) \<Rightarrow> (A', Answer 200 (RefreshCookie (tp_refreshToken t) cookieMaxAge) (TokenBody (tp_accessToken t) (tp_expiresIn t)))))"

definition postRefresh :: "Crypto \<Rightarrow> AuthConfig \<Rightarrow> AuthEnv \<Rightarrow> AuthDb \<Rightarrow> js_text option \<Rightarrow> AuthDb \<times> auth_response" where
  "postRefresh C cfg E A refreshCookie =
     (case refreshCookie of
        None \<Rightarrow> (A, Answer 401 SameCookie (AuthError ''No refresh token''))
      | Some rawToken \<Rightarrow>
          if rawToken = [] then (A, Answer 401 SameCookie (AuthError ''No refresh token''))
          else (case rotateRefreshToken C cfg E A rawToken of
             (A', Inl e) \<Rightarrow> (A', NoAnswer e)
           | (A', Inr None) \<Rightarrow> (A', Answer 401 SameCookie (AuthError ''Invalid or expired refresh token''))
           | (A', Inr (Some (_, t))) \<Rightarrow> (A', Answer 200 (RefreshCookie (tp_refreshToken t) cookieMaxAge) (TokenBody (tp_accessToken t) (tp_expiresIn t)))))"

definition postLogout :: "AuthDb \<Rightarrow> AuthDb \<times> auth_response" where
  "postLogout A = (A, Answer 200 ClearedCookie LoggedOutBody)"

definition authRoute :: "(js_text \<Rightarrow> bool) \<Rightarrow> Crypto \<Rightarrow> AuthConfig \<Rightarrow> AuthEnv \<Rightarrow> AuthDb \<Rightarrow> auth_request \<Rightarrow> AuthDb \<times> auth_response" where
  "authRoute is_email C cfg E A req =
     (case req of
        Register v \<Rightarrow> postRegister is_email C E A v
      | Login v \<Rightarrow> postLogin is_email C cfg E A v
      | Refresh c \<Rightarrow> postRefresh C cfg E A c
      | Logout \<Rightarrow> postLogout A)"

section \<open>What the libraries promise\<close>

text \<open>\<open>bcryptjs\<close>: a text matches its own hash, and of two ASCII texts without NUL one matches a hash of the other exactly if their
  first 72 bytes agree. \<open>jsonwebtoken\<close> counts in seconds: \<open>iat\<close> is the time of signing rounded down, \<open>exp\<close> is \<open>iat\<close> plus the expiry,
  and the token verifies to its payload while the clock, rounded down, is before \<open>exp\<close>.\<close>

definition ascii_text :: "js_text \<Rightarrow> bool" where
  "ascii_text w \<longleftrightarrow> list_all (\<lambda>u. 0 < u \<and> u < 128) w"

definition bcrypt_ok :: "Crypto \<Rightarrow> bool" where
  "bcrypt_ok C \<longleftrightarrow> (\<forall>c s p. cr_compare C p (cr_hash C c s p)) \<and>
     (\<forall>c s p q. ascii_text p \<and> ascii_text q \<longrightarrow> (cr_compare C p (cr_hash C c s q) \<longleftrightarrow> take 72 p = take 72 q))"

definition jwt_ok :: "Crypto \<Rightarrow> AuthConfig \<Rightarrow> bool" where
  "jwt_ok C cfg \<longleftrightarrow> (\<forall>u e n t t'. t \<le> t' \<and> t' div 1000 < t div 1000 + jwt_accessExpiry cfg \<longrightarrow>
     cr_verify C (cr_sign C u e n t) t' = Some \<lparr>jwt_sub = u, jwt_email = e, jwt_displayName = n\<rparr>)"

section \<open>The tables stay consistent\<close>

text \<open>Each row of \<open>refresh_tokens\<close> was made for a raw token of 72 ASCII characters, no two for the same one.\<close>

definition made_for :: "Crypto \<Rightarrow> RefreshRow \<Rightarrow> js_text \<Rightarrow> bool" where
  "made_for C r w \<longleftrightarrow> (\<exists>s. rt_token_hash r = cr_hash C 10 s w) \<and> rt_token_prefix r = take 8 w \<and> length w = 72 \<and> ascii_text w"

definition tokens_ok :: "Crypto \<Rightarrow> RefreshRow list \<Rightarrow> bool" where
  "tokens_ok C rs \<longleftrightarrow> (\<exists>ws. list_all2 (made_for C) rs ws \<and> distinct ws)"

definition auth_ok :: "Crypto \<Rightarrow> AuthDb \<Rightarrow> bool" where
  "auth_ok C A \<longleftrightarrow> distinct (map log_id (au_users A)) \<and> distinct (map log_email (au_users A)) \<and> distinct (map rt_id (au_tokens A)) \<and>
     (\<forall>r \<in> set (au_tokens A). rt_user_id r \<in> log_id ` set (au_users A)) \<and> tokens_ok C (au_tokens A)"

text \<open>What generated UUIDs are assumed to be.\<close>

definition new_raw :: "AuthEnv \<Rightarrow> js_text" where
  "new_raw E = ae_uuid1 E @ ae_uuid2 E"

definition fresh_token :: "Crypto \<Rightarrow> AuthEnv \<Rightarrow> AuthDb \<Rightarrow> bool" where
  "fresh_token C E A \<longleftrightarrow> length (new_raw E) = 72 \<and> ascii_text (new_raw E) \<and> ae_id E \<notin> rt_id ` set (au_tokens A) \<and>
     (\<forall>r \<in> set (au_tokens A). \<not> cr_compare C (new_raw E) (rt_token_hash r))"

lemma made_for_compare:
  assumes "bcrypt_ok C" "made_for C r w" "ascii_text p"
  shows "cr_compare C p (rt_token_hash r) \<longleftrightarrow> take 72 p = w"
  using assms by (auto simp: made_for_def bcrypt_ok_def)

lemma unique_match:
  assumes "bcrypt_ok C" "tokens_ok C rs" "ascii_text p" "r \<in> set rs" "r' \<in> set rs"
    and "cr_compare C p (rt_token_hash r)" "cr_compare C p (rt_token_hash r')"
  shows "r = r'"
proof -
  obtain ws where ws: "list_all2 (made_for C) rs ws" "distinct ws" using assms(2) by (auto simp: tokens_ok_def)
  obtain i j where i: "i < length rs" "rs ! i = r" and j: "j < length rs" "rs ! j = r'"
    using assms(4,5) by (auto simp: in_set_conv_nth)
  have "made_for C r (ws ! i)" "made_for C r' (ws ! j)" using ws(1) i j by (auto simp: list_all2_conv_all_nth)
  then have "ws ! i = ws ! j" using assms(6,7) made_for_compare [OF assms(1) _ assms(3)] by metis
  then have "i = j" using ws i(1) j(1) by (simp add: list_all2_lengthD distinct_conv_nth) (metis list_all2_lengthD)
  then show ?thesis using i j by simp
qed

lemma tokens_ok_append:
  assumes "bcrypt_ok C" "tokens_ok C rs" "made_for C r w" "\<forall>x \<in> set rs. \<not> cr_compare C w (rt_token_hash x)"
  shows "tokens_ok C (rs @ [r])"
proof -
  obtain ws where ws: "list_all2 (made_for C) rs ws" "distinct ws" using assms(2) by (auto simp: tokens_ok_def)
  have "w \<notin> set ws"
  proof
    assume "w \<in> set ws"
    then obtain i where "i < length ws" "ws ! i = w" by (auto simp: in_set_conv_nth)
    then have "rs ! i \<in> set rs" "made_for C (rs ! i) w" using ws(1) by (auto simp: list_all2_conv_all_nth)
    moreover have "ascii_text w" "length w = 72" using assms(3) by (auto simp: made_for_def)
    ultimately show False using assms(4) made_for_compare [OF assms(1)] by fastforce
  qed
  then show ?thesis
    unfolding tokens_ok_def using ws assms(3) by (intro exI [of _ "ws @ [w]"]) (simp add: list_all2_appendI)
qed

lemma tokens_ok_map:
  assumes "tokens_ok C rs" "\<And>r. rt_token_hash (f r) = rt_token_hash r \<and> rt_token_prefix (f r) = rt_token_prefix r"
  shows "tokens_ok C (map f rs)"
proof -
  have "made_for C (f r) w = made_for C r w" for r w by (simp add: made_for_def assms(2))
  then show ?thesis using assms(1) by (simp add: tokens_ok_def list_all2_map1)
qed

lemma create_effect:
  assumes "bcrypt_ok C" "auth_ok C A" "fresh_token C E A" "ae_insertOk E" "u \<in> log_id ` set (au_users A)"
  shows "\<exists>r. createRefreshToken C cfg E A u = Inr (A\<lparr>au_tokens := au_tokens A @ [r]\<rparr>, new_raw E) \<and>
    r = \<lparr>rt_id = ae_id E, rt_user_id = u, rt_token_hash = cr_hash C 10 (ae_salt E) (new_raw E), rt_token_prefix = take 8 (new_raw E),
      rt_expires_at = ae_now E + jwt_refreshExpiry cfg * 1000, rt_revoked = False\<rparr> \<and> made_for C r (new_raw E) \<and>
    auth_ok C (A\<lparr>au_tokens := au_tokens A @ [r]\<rparr>)"
proof -
  let ?r = "\<lparr>rt_id = ae_id E, rt_user_id = u, rt_token_hash = cr_hash C 10 (ae_salt E) (new_raw E), rt_token_prefix = take 8 (new_raw E),
      rt_expires_at = ae_now E + jwt_refreshExpiry cfg * 1000, rt_revoked = False\<rparr>"
  have m: "made_for C ?r (new_raw E)" using assms(3) by (auto simp: made_for_def fresh_token_def)
  have "cr_compare C (new_raw E) (rt_token_hash ?r)" using assms(1) by (simp add: bcrypt_ok_def)
  then have "rt_token_hash ?r \<notin> rt_token_hash ` set (au_tokens A)" using assms(3) by (auto simp: fresh_token_def)
  then have c: "createRefreshToken C cfg E A u = Inr (A\<lparr>au_tokens := au_tokens A @ [?r]\<rparr>, new_raw E)"
    using assms(3-5) by (auto simp: createRefreshToken_def fresh_token_def new_raw_def TOKEN_PREFIX_LEN_def Let_def)
  have "tokens_ok C (au_tokens A @ [?r])"
    using assms(2,3) by (intro tokens_ok_append [OF assms(1) _ m]) (auto simp: auth_ok_def fresh_token_def)
  then have "auth_ok C (A\<lparr>au_tokens := au_tokens A @ [?r]\<rparr>)"
    using assms(2,3,5) by (auto simp: auth_ok_def fresh_token_def)
  then show ?thesis using c m by blast
qed

lemma create_cases:
  assumes "createRefreshToken C cfg E A u = Inr x"
  shows "ae_insertOk E \<and> u \<in> log_id ` set (au_users A)"
  using assms by (auto simp: createRefreshToken_def Let_def split: if_splits)

lemma revoke_ok: "auth_ok C A \<Longrightarrow> auth_ok C (revoke_token A i)"
  by (auto simp: auth_ok_def revoke_token_def update_rows_def comp_def if_distrib if_distribR intro!: tokens_ok_map cong: if_cong)

lemma find_token_Some:
  assumes "find_token C A raw now = Some (r, u)"
  shows "r \<in> set (au_tokens A)" "u \<in> set (au_users A)" "log_id u = rt_user_id r" "\<not> rt_revoked r" "now < rt_expires_at r"
    "cr_compare C raw (rt_token_hash r)" "8 \<le> length raw"
  using assms by (auto simp: find_token_def candidates_def TOKEN_PREFIX_LEN_def find_Some_iff split: if_splits dest!: nth_mem)

lemma find_token_new:
  assumes "bcrypt_ok C" "auth_ok C A" "r \<in> set (au_tokens A)" "made_for C r w" "\<not> rt_revoked r" "now < rt_expires_at r"
    and "u \<in> set (au_users A)" "log_id u = rt_user_id r"
  shows "find_token C A w now = Some (r, u)"
proof -
  have w: "ascii_text w" "length w = 72" "rt_token_prefix r = take 8 w" using assms(4) by (auto simp: made_for_def)
  have c: "cr_compare C w (rt_token_hash r)" using made_for_compare [OF assms(1,4) w(1)] w(2) by simp
  have "(r, u) \<in> set (candidates A (take 8 w) now)" using assms(3,5-8) w(3) by (auto simp: candidates_def)
  then obtain x where x: "find (\<lambda>x. cr_compare C w (rt_token_hash (fst x))) (candidates A (take 8 w) now) = Some x"
    using c by (cases "find (\<lambda>x. cr_compare C w (rt_token_hash (fst x))) (candidates A (take 8 w) now)") (auto simp: find_None_iff)
  then have f: "find_token C A w now = Some x" using w(2) by (simp add: find_token_def TOKEN_PREFIX_LEN_def)
  obtain r' u' where x': "x = (r', u')" by (rule prod.exhaust)
  note F = find_token_Some [OF f [unfolded x']]
  have "r' = r" using unique_match [OF assms(1) _ w(1) F(1) assms(3) F(6) c] assms(2) by (simp add: auth_ok_def)
  moreover have "inj_on log_id (set (au_users A))" using assms(2) by (simp add: auth_ok_def distinct_map)
  then have "u' = u" using F(2,3) assms(7,8) calculation by (intro inj_onD [of log_id "set (au_users A)" u' u]) simp_all
  ultimately show ?thesis using f x' by simp
qed

lemma replace_effect:
  assumes "bcrypt_ok C" "auth_ok C A" "fresh_token C E A" "ae_insertOk E" "rt_user_id r \<in> log_id ` set (au_users A)"
  shows "\<exists>A' n t. replace_token C cfg E A (r, u) = (A', Inr (rt_user_id r, t)) \<and> auth_ok C A' \<and> au_users A' = au_users A \<and>
    au_tokens A' = au_tokens (revoke_token A (rt_id r)) @ [n] \<and> made_for C n (new_raw E) \<and> rt_user_id n = rt_user_id r \<and>
    \<not> rt_revoked n \<and> rt_expires_at n = ae_now E + jwt_refreshExpiry cfg * 1000 \<and> tp_refreshToken t = new_raw E \<and>
    tp_accessToken t = cr_sign C (rt_user_id r) (log_email u) (log_displayName u) (ae_now E)"
proof -
  let ?A = "revoke_token A (rt_id r)"
  have maps: "map rt_id (au_tokens ?A) = map rt_id (au_tokens A)" "map rt_token_hash (au_tokens ?A) = map rt_token_hash (au_tokens A)"
    by (auto simp: revoke_token_def update_rows_def)
  have same: "au_users ?A = au_users A" "rt_id ` set (au_tokens ?A) = rt_id ` set (au_tokens A)"
    "rt_token_hash ` set (au_tokens ?A) = rt_token_hash ` set (au_tokens A)"
    using arg_cong [OF maps(1), of set] arg_cong [OF maps(2), of set] by (simp_all add: revoke_token_def)
  have "(\<forall>x \<in> set (au_tokens ?A). \<not> cr_compare C w (rt_token_hash x)) \<longleftrightarrow> (\<forall>x \<in> set (au_tokens A). \<not> cr_compare C w (rt_token_hash x))" for w
    using same(3) by (metis (no_types, lifting) image_iff)
  then have "fresh_token C E ?A" using assms(3) same(2) by (simp add: fresh_token_def)
  from create_effect [OF assms(1) revoke_ok [OF assms(2)] this assms(4), of "rt_user_id r" cfg] assms(5)
  obtain n where n: "createRefreshToken C cfg E ?A (rt_user_id r) = Inr (?A\<lparr>au_tokens := au_tokens ?A @ [n]\<rparr>, new_raw E)"
    "n = \<lparr>rt_id = ae_id E, rt_user_id = rt_user_id r, rt_token_hash = cr_hash C 10 (ae_salt E) (new_raw E), rt_token_prefix = take 8 (new_raw E),
      rt_expires_at = ae_now E + jwt_refreshExpiry cfg * 1000, rt_revoked = False\<rparr>" "made_for C n (new_raw E)"
    "auth_ok C (?A\<lparr>au_tokens := au_tokens ?A @ [n]\<rparr>)"
    by (auto simp: same(1))
  have p: "rt_user_id n = rt_user_id r" "\<not> rt_revoked n" "rt_expires_at n = ae_now E + jwt_refreshExpiry cfg * 1000" by (simp_all add: n(2))
  show ?thesis
    by (rule exI [of _ "?A\<lparr>au_tokens := au_tokens ?A @ [n]\<rparr>"], rule exI [of _ n],
      rule exI [of _ "\<lparr>tp_accessToken = cr_sign C (rt_user_id r) (log_email u) (log_displayName u) (ae_now E),
        tp_refreshToken = new_raw E, tp_expiresIn = jwt_accessExpiry cfg\<rparr>"])
      (use n(3,4) p same(1) in \<open>simp add: replace_token_def n(1) Let_def\<close>)
qed

section \<open>Logging in\<close>


section \<open>Rotation\<close>

text \<open>Two requests that overlap both succeed with one token: when both have found its row before either revokes it, each
  gets a pair of tokens, and both new refresh tokens are live.\<close>

theorem rotation_race:
  assumes "bcrypt_ok C" "auth_ok C A" "find_token C A raw now = Some (r, u)" "fresh_token C E1 A" "ae_insertOk E1" "ae_insertOk E2"
    and "replace_token C cfg E1 A (r, u) = (A1, Inr x)" "fresh_token C E2 A1" "replace_token C cfg E2 A1 (r, u) = (A2, y)"
    and "t < ae_now E1 + jwt_refreshExpiry cfg * 1000" "t < ae_now E2 + jwt_refreshExpiry cfg * 1000"
  shows "\<exists>tokens. y = Inr (rt_user_id r, tokens) \<and> fst x = rt_user_id r \<and>
    find_token C A2 (tp_refreshToken (snd x)) t \<noteq> None \<and> find_token C A2 (tp_refreshToken tokens) t \<noteq> None \<and>
    tp_refreshToken tokens \<noteq> tp_refreshToken (snd x)"
proof -
  note F = find_token_Some [OF assms(3)]
  have user: "rt_user_id r \<in> log_id ` set (au_users A)" using F(2,3) by (intro image_eqI [of _ _ u]) simp_all
  obtain n where n: "auth_ok C A1" "au_users A1 = au_users A" "au_tokens A1 = au_tokens (revoke_token A (rt_id r)) @ [n]"
    "made_for C n (new_raw E1)" "rt_user_id n = rt_user_id r" "\<not> rt_revoked n" "rt_expires_at n = ae_now E1 + jwt_refreshExpiry cfg * 1000"
    "tp_refreshToken (snd x) = new_raw E1" "fst x = rt_user_id r"
    using replace_effect [OF assms(1,2,4,5) user, of cfg u] assms(7) by auto
  from replace_effect [OF assms(1) n(1) assms(8,6), of r cfg u] user assms(9) n(2)
  obtain m tokens where m: "auth_ok C A2" "au_users A2 = au_users A" "au_tokens A2 = au_tokens (revoke_token A1 (rt_id r)) @ [m]"
    "made_for C m (new_raw E2)" "rt_user_id m = rt_user_id r" "\<not> rt_revoked m" "rt_expires_at m = ae_now E2 + jwt_refreshExpiry cfg * 1000"
    "tp_refreshToken tokens = new_raw E2" "y = Inr (rt_user_id r, tokens)" by auto
  have "n \<in> set (au_tokens A1)" using n(3) by simp
  moreover have "r' \<in> set (au_tokens A1) \<Longrightarrow> rt_id r' = rt_id r \<Longrightarrow> rt_revoked r'" for r'
    using n(1,3) F(1) by (auto simp: revoke_token_def update_rows_def auth_ok_def)
  ultimately have "n \<in> set (au_tokens A2)" using n(6) by (force simp: m(3) revoke_token_def update_rows_def)
  then have "find_token C A2 (new_raw E1) t = Some (n, u)"
    using F(2,3) assms(10) n(5-7) m(2) by (intro find_token_new [OF assms(1) m(1) _ n(4)]) simp_all
  moreover have "find_token C A2 (new_raw E2) t = Some (m, u)"
    using F(2,3) assms(11) m by (intro find_token_new [OF assms(1) m(1) _ m(4)]) simp_all
  moreover have "new_raw E1 \<noteq> new_raw E2"
  proof
    assume "new_raw E1 = new_raw E2"
    then have "cr_compare C (new_raw E2) (rt_token_hash n)" using n(4) assms(1) by (auto simp: made_for_def bcrypt_ok_def)
    then show False using assms(8) n(3) by (simp add: fresh_token_def)
  qed
  ultimately show ?thesis using m(8,9) n(8,9) by (intro exI [of _ tokens]) auto
qed

section \<open>Every route\<close>

lemma create_ok:
  assumes "bcrypt_ok C" "auth_ok C A" "fresh_token C E A" "createRefreshToken C cfg E A u = Inr (A', raw)"
  shows "\<exists>r. A' = A\<lparr>au_tokens := au_tokens A @ [r]\<rparr> \<and> auth_ok C A'"
  using create_effect [OF assms(1-3), of u cfg] create_cases [OF assms(4)] assms(4) by auto

definition keeps_rows :: "AuthDb \<Rightarrow> AuthDb \<Rightarrow> bool" where
  "keeps_rows A A' \<longleftrightarrow> (\<exists>new. au_users A' = au_users A @ new \<and> length new \<le> 1) \<and>
     (\<forall>r \<in> set (au_tokens A). rt_revoked r \<longrightarrow> r \<in> set (au_tokens A'))"

lemma revoke_keeps: "keeps_rows A (revoke_token A i)"
  by (force simp: keeps_rows_def revoke_token_def update_rows_def)

lemma replace_ok:
  assumes "bcrypt_ok C" "auth_ok C A" "fresh_token C E A" "rt_user_id r \<in> log_id ` set (au_users A)" "replace_token C cfg E A (r, u) = (A', res)"
  shows "auth_ok C A' \<and> keeps_rows A A'"
proof (cases "ae_insertOk E")
  case True
  have "keeps_rows A B" if "au_users B = au_users A" "au_tokens B = au_tokens (revoke_token A (rt_id r)) @ [n]" for B n
    using that revoke_keeps [of A "rt_id r"] by (simp add: keeps_rows_def)
  then show ?thesis using replace_effect [OF assms(1-3) True assms(4), of cfg u] assms(5) by auto
next
  case False
  then have "A' = revoke_token A (rt_id r)" using assms(5) by (simp add: replace_token_def createRefreshToken_def Let_def)
  then show ?thesis using revoke_ok [OF assms(2)] revoke_keeps by simp
qed

text \<open>Every request to the authentication routes, whatever it carries and however its statements end, keeps user ids,
  addresses and token ids unique, every token bound to an account and made for a raw token of its own, adds at most one
  account, changes none, and never brings a revoked token back.\<close>

theorem auth_stays_consistent:
  assumes "bcrypt_ok C" "auth_ok C A" "fresh_token C E A" "authRoute is_email C cfg E A req = (A', resp)"
  shows "auth_ok C A' \<and> (\<exists>new. au_users A' = au_users A @ new \<and> length new \<le> 1) \<and>
    (\<forall>r \<in> set (au_tokens A). rt_revoked r \<longrightarrow> r \<in> set (au_tokens A'))"
proof -
  have refl: "auth_ok C A \<and> keeps_rows A A" using assms(2) by (simp add: keeps_rows_def)
  have new: "auth_ok C B \<and> keeps_rows A B" if "createRefreshToken C cfg E A u = Inr (B, raw)" for u B raw
    using create_ok [OF assms(1-3) that] by (auto simp: keeps_rows_def)
  have registered: "auth_ok C B \<and> keeps_rows A B" if "registerUser C E A ps = (B, res)" for ps B res
    using that assms(2) by (auto simp: registerUser_def keeps_rows_def auth_ok_def Let_def split: if_splits)
  have logged: "auth_ok C B \<and> keeps_rows A B" if "authenticateUser C cfg E A e p = (B, res)" for e p B res
    using that refl new by (auto simp: authenticateUser_def Let_def split: if_splits list.splits sum.splits prod.splits)
  have rotated: "auth_ok C B \<and> keeps_rows A B" if rot: "rotateRefreshToken C cfg E A raw = (B, res)" for raw B res
  proof (cases "find_token C A raw (ae_now E)")
    case None
    then show ?thesis using rot refl by (auto simp: rotateRefreshToken_def split: if_splits)
  next
    case (Some x)
    obtain r u where x: "x = (r, u)" by (rule prod.exhaust)
    note F = find_token_Some [OF Some [unfolded x]]
    have user: "rt_user_id r \<in> log_id ` set (au_users A)" using F(2,3) by (intro image_eqI [of _ _ u]) simp_all
    have "B = A \<or> (\<exists>res. replace_token C cfg E A (r, u) = (B, res))"
      using rot Some by (auto simp: rotateRefreshToken_def x split: if_splits prod.splits sum.splits)
    then show ?thesis using replace_ok [OF assms(1-3) user] refl by blast
  qed
  have "auth_ok C A' \<and> keeps_rows A A'"
  proof (cases req)
    case (Register v)
    then show ?thesis using assms(4) registered refl
      by (auto simp: authRoute_def postRegister_def split: option.splits prod.splits sum.splits)
  next
    case (Login v)
    then show ?thesis using assms(4) logged refl
      by (auto simp: authRoute_def postLogin_def split: option.splits prod.splits sum.splits)
  next
    case (Refresh c)
    then show ?thesis using assms(4) rotated refl
      by (auto simp: authRoute_def postRefresh_def split: option.splits prod.splits sum.splits if_splits)
  next
    case Logout
    then show ?thesis using assms(4) refl by (simp add: authRoute_def postLogout_def)
  qed
  then show ?thesis by (simp add: keeps_rows_def)
qed

section \<open>A token works once\<close>

text \<open>Requests to the authentication routes, one after the other.\<close>

fun auth_run :: "(js_text \<Rightarrow> bool) \<Rightarrow> Crypto \<Rightarrow> AuthConfig \<Rightarrow> AuthDb \<Rightarrow> (AuthEnv \<times> auth_request) list \<Rightarrow> AuthDb" where
  "auth_run is_email C cfg A [] = A"
| "auth_run is_email C cfg A ((E, req) # reqs) = auth_run is_email C cfg (fst (authRoute is_email C cfg E A req)) reqs"

text \<open>The UUIDs of each are new.\<close>

fun fresh_run :: "(js_text \<Rightarrow> bool) \<Rightarrow> Crypto \<Rightarrow> AuthConfig \<Rightarrow> AuthDb \<Rightarrow> (AuthEnv \<times> auth_request) list \<Rightarrow> bool" where
  "fresh_run is_email C cfg A [] \<longleftrightarrow> True"
| "fresh_run is_email C cfg A ((E, req) # reqs) \<longleftrightarrow>
     fresh_token C E A \<and> fresh_run is_email C cfg (fst (authRoute is_email C cfg E A req)) reqs"

lemma run_keeps:
  assumes "bcrypt_ok C" "auth_ok C A" "fresh_run is_email C cfg A reqs" "r \<in> set (au_tokens A)" "rt_revoked r"
  shows "auth_ok C (auth_run is_email C cfg A reqs) \<and> r \<in> set (au_tokens (auth_run is_email C cfg A reqs))"
  using assms(2-)
proof (induction reqs arbitrary: A)
  case (Cons x reqs)
  obtain E req A1 resp where r: "x = (E, req)" "authRoute is_email C cfg E A req = (A1, resp)" by (metis surj_pair)
  have "auth_ok C A1" "r \<in> set (au_tokens A1)"
    using auth_stays_consistent [OF assms(1) Cons.prems(1) _ r(2)] Cons.prems r by auto
  then show ?case using Cons.IH Cons.prems r by simp
qed simp

lemma revoked_refused:
  assumes "bcrypt_ok C" "auth_ok C A" "ascii_text raw" "r \<in> set (au_tokens A)" "rt_revoked r" "cr_compare C raw (rt_token_hash r)"
  shows "find_token C A raw now = None"
proof (rule ccontr)
  assume "find_token C A raw now \<noteq> None"
  then obtain x v where "find_token C A raw now = Some (x, v)" by auto
  note X = find_token_Some [OF this]
  have "x = r" using unique_match [OF assms(1) _ assms(3) X(1) assms(4) X(6) assms(6)] assms(2) by (simp add: auth_ok_def)
  then show False using X(4) assms(5) by simp
qed

text \<open>C25: A refresh token works once: when a request has rotated it, it is refused - and nothing changes - after whatever
  further requests to register, log in, refresh and log out are handled, one after the other, with whatever tokens; the new one
  rotates for the same user until it expires. (Two requests that overlap are another matter, see \<open>rotation_race\<close>.)\<close>

theorem rotation_once:
  assumes "bcrypt_ok C" "auth_ok C A" "ascii_text raw" "fresh_token C E A" "ae_insertOk E"
    and "rotateRefreshToken C cfg E A raw = (A1, Inr (Some (uid, tokens)))"
    and "fresh_run is_email C cfg A1 reqs" "A2 = auth_run is_email C cfg A1 reqs" "ae_pgUp E'"
  shows "auth_ok C A2 \<and> tp_refreshToken tokens = new_raw E \<and> rotateRefreshToken C cfg E' A2 raw = (A2, Inr None) \<and>
    (fresh_token C E' A1 \<and> ae_insertOk E' \<and> ae_now E' < ae_now E + jwt_refreshExpiry cfg * 1000 \<longrightarrow>
      (\<exists>A3 tokens'. rotateRefreshToken C cfg E' A1 (tp_refreshToken tokens) = (A3, Inr (Some (uid, tokens')))))"
proof -
  obtain r u where f: "find_token C A raw (ae_now E) = Some (r, u)" and rep: "replace_token C cfg E A (r, u) = (A1, Inr (uid, tokens))"
    using assms(6) by (auto simp: rotateRefreshToken_def split: if_splits option.splits prod.splits sum.splits)
  note F = find_token_Some [OF f]
  have user: "rt_user_id r \<in> log_id ` set (au_users A)" using F(2,3) by (intro image_eqI [of _ _ u]) simp_all
  obtain n where n: "auth_ok C A1" "au_users A1 = au_users A" "au_tokens A1 = au_tokens (revoke_token A (rt_id r)) @ [n]"
    "made_for C n (new_raw E)" "rt_user_id n = rt_user_id r" "\<not> rt_revoked n" "rt_expires_at n = ae_now E + jwt_refreshExpiry cfg * 1000"
    "tp_refreshToken tokens = new_raw E" "uid = rt_user_id r"
    using replace_effect [OF assms(1,2,4,5) user, of cfg u] rep by auto
  let ?r = "r\<lparr>rt_revoked := True\<rparr>"
  have "?r \<in> set (au_tokens A1)" using F(1) by (auto simp: n(3) revoke_token_def update_rows_def)
  then have kept: "auth_ok C A2" "?r \<in> set (au_tokens A2)"
    using run_keeps [OF assms(1) n(1) assms(7), of ?r] by (simp_all add: assms(8))
  then have "find_token C A2 raw (ae_now E') = None"
    using F(6) by (intro revoked_refused [OF assms(1) _ assms(3), where r = ?r]) simp_all
  then have once: "rotateRefreshToken C cfg E' A2 raw = (A2, Inr None)" using assms(9) by (simp add: rotateRefreshToken_def)
  have "\<exists>A3 tokens'. rotateRefreshToken C cfg E' A1 (new_raw E) = (A3, Inr (Some (uid, tokens')))"
    if H: "fresh_token C E' A1" "ae_insertOk E'" "ae_now E' < ae_now E + jwt_refreshExpiry cfg * 1000"
  proof -
    have "find_token C A1 (new_raw E) (ae_now E') = Some (n, u)"
      using F(2,3) H(3) n by (intro find_token_new [OF assms(1) n(1) _ n(4)]) simp_all
    moreover obtain A3 tokens' where "replace_token C cfg E' A1 (n, u) = (A3, Inr (rt_user_id n, tokens'))"
      using replace_effect [OF assms(1) n(1) H(1,2), of n cfg u] user n(2,5) by auto
    ultimately show ?thesis using assms(9) n(5,9) by (simp add: rotateRefreshToken_def)
  qed
  then show ?thesis using n(8) kept(1) once by simp
qed

text \<open>What a request can add to the table of tokens.\<close>

lemma route_rows:
  assumes "authRoute is_email C cfg E A req = (A', resp)"
  shows "set (map (\<lambda>r. (rt_id r, rt_token_hash r)) (au_tokens A')) \<subseteq>
    insert (ae_id E, cr_hash C 10 (ae_salt E) (new_raw E)) (set (map (\<lambda>r. (rt_id r, rt_token_hash r)) (au_tokens A)))"
proof -
  let ?f = "\<lambda>A. set (map (\<lambda>r. (rt_id r, rt_token_hash r)) (au_tokens A))"
  have create: "?f B \<subseteq> insert (ae_id E, cr_hash C 10 (ae_salt E) (new_raw E)) (?f A)" if "createRefreshToken C cfg E A u = Inr (B, raw)" for A B u raw
    using that by (auto simp: createRefreshToken_def new_raw_def Let_def split: if_splits)
  have revoke: "?f (revoke_token A i) = ?f A" for A i
    by (force simp: revoke_token_def update_rows_def)
  have replace: "?f B \<subseteq> insert (ae_id E, cr_hash C 10 (ae_salt E) (new_raw E)) (?f A)" if "replace_token C cfg E A x = (B, res)" for B x res
    using that create [of "revoke_token A (rt_id (fst x))" "rt_user_id (fst x)"] revoke [of A "rt_id (fst x)"]
    by (auto simp: replace_token_def Let_def split: sum.splits prod.splits)
  show ?thesis
  proof (cases req)
    case (Register v)
    then show ?thesis using assms
      by (auto simp: authRoute_def postRegister_def registerUser_def Let_def split: option.splits prod.splits sum.splits if_splits)
  next
    case (Login v)
    then show ?thesis using assms create [of A]
      by (auto simp: authRoute_def postLogin_def authenticateUser_def Let_def split: option.splits prod.splits sum.splits if_splits list.splits)
  next
    case (Refresh c)
    then have "A' = A \<or> (\<exists>x res. replace_token C cfg E A x = (A', res))" using assms
      by (auto simp: authRoute_def postRefresh_def rotateRefreshToken_def split: option.splits prod.splits sum.splits if_splits)
    then show ?thesis using replace by blast
  next
    case Logout
    then show ?thesis using assms by (auto simp: authRoute_def postLogout_def)
  qed
qed

section \<open>Instances\<close>

text \<open>Hashing that keeps the first 72 characters, and tokens that number their payload.\<close>

definition example_crypto :: Crypto where
  "example_crypto = \<lparr>cr_hash = (\<lambda>c s p. take 72 p), cr_compare = (\<lambda>p h. take 72 p = h),
     cr_sign = (\<lambda>u e n t. replicate (to_nat (u, e, n, t)) CHR ''x''),
     cr_verify = (\<lambda>token t'. case from_nat (length token) of (u, e, n, t) \<Rightarrow>
       if (t :: int) \<le> t' \<and> t' div 1000 < t div 1000 + 900 then Some \<lparr>jwt_sub = u, jwt_email = e, jwt_displayName = n\<rparr> else None)\<rparr>"

definition example_auth_config :: AuthConfig where
  "example_auth_config = \<lparr>jwt_accessExpiry = 900, jwt_refreshExpiry = 604800\<rparr>"

lemma example_crypto_ok: "bcrypt_ok example_crypto" "jwt_ok example_crypto example_auth_config"
  by (simp_all add: bcrypt_ok_def jwt_ok_def example_crypto_def example_auth_config_def)

definition example_auth_env :: "int \<Rightarrow> code_unit \<Rightarrow> string \<Rightarrow> AuthEnv" where
  "example_auth_env now c i = \<lparr>ae_now = now, ae_uuid1 = replicate 36 c, ae_uuid2 = replicate 36 c, ae_salt = [], ae_id = i,
     ae_pgUp = True, ae_insertOk = True\<rparr>"

definition example_auth :: AuthDb where
  "example_auth = \<lparr>au_users = [], au_tokens = []\<rparr>"

definition example_registration :: Registration where
  "example_registration = \<lparr>reg_email = ''a@x'', reg_displayName = [65], reg_password = replicate 8 65, reg_color = None\<rparr>"

text \<open>One account with one live token, for the raw token of 72 letters \<open>A\<close>.\<close>

definition example_row :: RefreshRow where
  "example_row = \<lparr>rt_id = ''1'', rt_user_id = ''u'', rt_token_hash = replicate 72 65, rt_token_prefix = replicate 8 65,
     rt_expires_at = 1000, rt_revoked = False\<rparr>"

definition example_account_row :: LoginRow where
  "example_account_row = \<lparr>log_id = ''u'', log_email = ''a@x'', log_displayName = [65], log_color = ''#4F46E5'', log_passwordHash = replicate 8 65\<rparr>"

definition example_logged_in :: AuthDb where
  "example_logged_in = \<lparr>au_users = [example_account_row], au_tokens = [example_row]\<rparr>"

lemma example_auth_ok: "auth_ok example_crypto example_auth" "auth_ok example_crypto example_logged_in"
proof -
  show "auth_ok example_crypto example_auth" by (auto simp: auth_ok_def example_auth_def tokens_ok_def)
  have "made_for example_crypto example_row (replicate 72 65)"
    by (simp add: made_for_def example_crypto_def example_row_def ascii_text_def list_all_iff)
  then have "tokens_ok example_crypto [example_row]" unfolding tokens_ok_def by (intro exI [of _ "[replicate 72 65]"]) simp
  then show "auth_ok example_crypto example_logged_in"
    by (simp add: auth_ok_def example_logged_in_def example_row_def example_account_row_def)
qed

lemma example_fresh:
  assumes "0 < c" "c < 128" "\<forall>r \<in> set (au_tokens A). rt_id r \<noteq> i \<and> rt_token_hash r \<noteq> replicate 72 c"
  shows "fresh_token example_crypto (example_auth_env now c i) A"
proof -
  have "new_raw (example_auth_env now c i) = replicate 72 c" by (simp add: new_raw_def example_auth_env_def replicate_add [symmetric])
  then show ?thesis using assms by (auto simp: fresh_token_def example_auth_env_def example_crypto_def ascii_text_def list_all_iff)
qed

theorem auth_stays_consistent_witness:
  "auth_ok example_crypto (fst (authRoute (\<lambda>_. True) example_crypto example_auth_config (example_auth_env 5 66 ''2'') example_logged_in
     (Refresh (Some (replicate 72 65)))))"
proof -
  have f: "fresh_token example_crypto (example_auth_env 5 66 ''2'') example_logged_in"
    by (rule example_fresh) (simp_all add: example_logged_in_def example_row_def)
  show ?thesis by (rule conjunct1 [OF auth_stays_consistent [OF example_crypto_ok(1) example_auth_ok(2) f prod.collapse [symmetric]]])
qed


lemma example_find: "find_token example_crypto example_logged_in (replicate 72 65) 5 = Some (example_row, example_account_row)"
proof -
  have "made_for example_crypto example_row (replicate 72 65)"
    by (simp add: made_for_def example_crypto_def example_row_def ascii_text_def list_all_iff)
  then show ?thesis
    by (intro find_token_new [OF example_crypto_ok(1) example_auth_ok(2)])
      (simp_all add: example_logged_in_def example_row_def example_account_row_def)
qed

lemma example_fresh_logged_in: "fresh_token example_crypto (example_auth_env 5 66 ''2'') example_logged_in"
  by (rule example_fresh) (simp_all add: example_logged_in_def example_row_def)

text \<open>The new token is rotated and the user logs out, then the first one is tried again.\<close>

theorem rotation_once_witness:
  "\<exists>A1 tokens. rotateRefreshToken example_crypto example_auth_config (example_auth_env 5 66 ''2'') example_logged_in (replicate 72 65) =
       (A1, Inr (Some (''u'', tokens))) \<and>
     (let A2 = auth_run (\<lambda>_. True) example_crypto example_auth_config A1 [(example_auth_env 6 67 ''3'', Refresh (Some (replicate 72 66))),
        (example_auth_env 7 68 ''4'', Logout)]
      in rotateRefreshToken example_crypto example_auth_config (example_auth_env 8 69 ''5'') A2 (replicate 72 65) = (A2, Inr None))"
proof -
  let ?E = "example_auth_env 5 66 ''2''" and ?E' = "example_auth_env 8 69 ''5''"
  let ?reqs = "[(example_auth_env 6 67 ''3'', Refresh (Some (replicate 72 66))), (example_auth_env 7 68 ''4'', Logout)]"
  have e: "ae_insertOk ?E" "ae_pgUp ?E" "ae_now ?E = 5" "ae_pgUp ?E'" "rt_user_id example_row = ''u''" "''u'' \<in> log_id ` set (au_users example_logged_in)"
    "new_raw ?E = replicate 72 66"
    by (simp_all add: example_auth_env_def example_row_def example_logged_in_def example_account_row_def new_raw_def replicate_add [symmetric])
  obtain A1 tokens n where A1: "replace_token example_crypto example_auth_config ?E example_logged_in (example_row, example_account_row) = (A1, Inr (''u'', tokens))"
    using replace_effect [OF example_crypto_ok(1) example_auth_ok(2) example_fresh_logged_in e(1),
        of example_row example_auth_config example_account_row] e(5,6) by auto
  then have r: "rotateRefreshToken example_crypto example_auth_config ?E example_logged_in (replicate 72 65) = (A1, Inr (Some (''u'', tokens)))"
    using e(2,3) by (simp add: rotateRefreshToken_def example_find)
  have rows: "set (map (\<lambda>r. (rt_id r, rt_token_hash r)) (au_tokens A1)) \<subseteq> {(''1'', replicate 72 65), (''2'', replicate 72 66)}"
    using A1 e(7) by (auto simp: replace_token_def createRefreshToken_def revoke_token_def update_rows_def example_logged_in_def example_row_def
        example_crypto_def example_auth_env_def new_raw_def Let_def split: if_splits)
  have f1: "fresh_token example_crypto (example_auth_env 6 67 ''3'') A1" using rows by (intro example_fresh) auto
  have "fresh_token example_crypto (example_auth_env 7 68 ''4'') A'" if "authRoute (\<lambda>_. True) example_crypto example_auth_config (example_auth_env 6 67 ''3'') A1 req = (A', resp)" for A' req resp
  proof (rule example_fresh)
    have "set (map (\<lambda>r. (rt_id r, rt_token_hash r)) (au_tokens A')) \<subseteq> {(''1'', replicate 72 65), (''2'', replicate 72 66), (''3'', replicate 72 67)}"
      by (rule subset_trans [OF route_rows [OF that]]) (use rows in \<open>auto simp: new_raw_def example_auth_env_def example_crypto_def replicate_add [symmetric]\<close>)
    then show "\<forall>r \<in> set (au_tokens A'). rt_id r \<noteq> ''4'' \<and> rt_token_hash r \<noteq> replicate 72 68" by auto
  qed simp_all
  then have fresh: "fresh_run (\<lambda>_. True) example_crypto example_auth_config A1 ?reqs" using f1 by (simp add: prod_eq_iff)
  have "ascii_text (replicate 72 65)" by (simp add: ascii_text_def list_all_iff)
  with rotation_once [OF example_crypto_ok(1) example_auth_ok(2) _ example_fresh_logged_in e(1) r fresh refl e(4)] r
  show ?thesis by (simp add: Let_def)
qed

theorem rotation_race_witness:
  "\<exists>A1 A2 x tokens. replace_token example_crypto example_auth_config (example_auth_env 5 66 ''2'') example_logged_in (example_row, example_account_row) = (A1, Inr x) \<and>
     replace_token example_crypto example_auth_config (example_auth_env 6 67 ''3'') A1 (example_row, example_account_row) = (A2, Inr (''u'', tokens))"
proof -
  let ?E1 = "example_auth_env 5 66 ''2''" and ?E2 = "example_auth_env 6 67 ''3''" and ?x = "(example_row, example_account_row)"
  have e: "ae_insertOk ?E1" "ae_insertOk ?E2" "rt_user_id example_row = ''u''" "''u'' \<in> log_id ` set (au_users example_logged_in)"
    "7 < ae_now ?E1 + jwt_refreshExpiry example_auth_config * 1000" "7 < ae_now ?E2 + jwt_refreshExpiry example_auth_config * 1000"
    "new_raw ?E1 = replicate 72 66"
    by (simp_all add: example_auth_env_def example_row_def example_logged_in_def example_account_row_def example_auth_config_def
        new_raw_def replicate_add [symmetric])
  have fresh: "fresh_token example_crypto ?E2 A'" if "replace_token example_crypto example_auth_config ?E1 example_logged_in ?x = (A', Inr x)" for A' x
  proof (rule example_fresh)
    show "\<forall>r \<in> set (au_tokens A'). rt_id r \<noteq> ''3'' \<and> rt_token_hash r \<noteq> replicate 72 67"
      using that e(7) by (auto simp: replace_token_def createRefreshToken_def revoke_token_def update_rows_def example_logged_in_def example_row_def
          example_crypto_def example_auth_env_def new_raw_def Let_def split: if_splits)
  qed simp_all
  obtain A1 x where r1: "replace_token example_crypto example_auth_config ?E1 example_logged_in ?x = (A1, Inr x)"
    using replace_effect [OF example_crypto_ok(1) example_auth_ok(2) example_fresh_logged_in e(1),
        of example_row example_auth_config example_account_row] e(3,4) by auto
  obtain A2 y where r2: "replace_token example_crypto example_auth_config ?E2 A1 ?x = (A2, y)" by (rule prod.exhaust)
  from rotation_race [OF example_crypto_ok(1) example_auth_ok(2) example_find example_fresh_logged_in e(1,2) r1 fresh [OF r1] r2 e(5,6)] r1 r2 e(3)
  show ?thesis by auto
qed

end
