(* ===== verification/Client_App.thy ===== *)
theory Client_App
  imports Auth "HOL-Library.AList"
begin

text \<open>
  The pages around the editor: the shell \<^verbatim>\<open>src/client/index.tsx\<close> (token, document, page), the dashboard
  \<^verbatim>\<open>components/Dashboard.tsx\<close>, the share dialog \<^verbatim>\<open>components/ShareModal.tsx\<close> and the notifications,
  \<^verbatim>\<open>hooks/useNotifications.ts\<close> with \<^verbatim>\<open>components/NotificationCenter.tsx\<close>. React state is a record, a handler a
  function on it and on what \<open>fetch\<close> brought. The lemmas compose them with the routes of the server. Rendering is not
  modelled.
\<close>

section \<open>The shell\<close>

datatype auth_reply = AuthData string | AuthRefused "string option" | AuthUnreachable string

record App =
  ap_token :: string
  ap_docId :: "string option"
  ap_details :: "(js_text \<times> string) option"
  ap_isRegister :: bool
  ap_authError :: string
  ap_stored :: "string option"
  ap_url :: "string option"

definition openApp :: "string option \<Rightarrow> string option \<Rightarrow> App" where
  "openApp stored url = \<lparr>ap_token = (case stored of Some t \<Rightarrow> t | None \<Rightarrow> []), ap_docId = url, ap_details = None,
     ap_isRegister = False, ap_authError = [], ap_stored = stored, ap_url = url\<rparr>"

definition handleAuth :: "App \<Rightarrow> auth_reply \<Rightarrow> App" where
  "handleAuth a reply =
     (let a1 = a\<lparr>ap_authError := []\<rparr>
      in case reply of
           AuthUnreachable m \<Rightarrow> a1\<lparr>ap_authError := m\<rparr>
         | AuthRefused e \<Rightarrow> a1\<lparr>ap_authError := (case truthy e of Some m \<Rightarrow> m | None \<Rightarrow> ''Authentication failed'')\<rparr>
         | AuthData accessToken \<Rightarrow>
             if ap_isRegister a1
             then a1\<lparr>ap_isRegister := False, ap_authError := ''Registration successful! Please login.''\<rparr>
             else a1\<lparr>ap_stored := Some accessToken, ap_token := accessToken\<rparr>)"

definition selectDocument :: "App \<Rightarrow> string \<Rightarrow> App" where
  "selectDocument a i = a\<lparr>ap_docId := Some i, ap_url := Some i\<rparr>"

definition handleLogout :: "App \<Rightarrow> App" where
  "handleLogout a = a\<lparr>ap_stored := None, ap_token := [], ap_docId := None, ap_url := None\<rparr>"

definition backToDashboard :: "App \<Rightarrow> App" where
  "backToDashboard a = a\<lparr>ap_docId := None, ap_details := None, ap_url := None\<rparr>"

definition toggleRegister :: "App \<Rightarrow> App" where
  "toggleRegister a = a\<lparr>ap_isRegister := \<not> ap_isRegister a, ap_authError := []\<rparr>"

text \<open>The effect that loads the details of the selected document: whether it asks for them, and the two ends of the
  request; a missing \<open>ownerName\<close> is \<open>Unknown\<close>.\<close>

definition wants_details :: "App \<Rightarrow> string option" where
  "wants_details a = (if ap_token a = [] then None else truthy (ap_docId a))"

definition detailsLoaded :: "App \<Rightarrow> js_text \<Rightarrow> string option \<Rightarrow> App" where
  "detailsLoaded a title ownerName = a\<lparr>ap_details := Some (title, case truthy ownerName of Some n \<Rightarrow> n | None \<Rightarrow> ''Unknown'')\<rparr>"

definition detailsFailed :: "App \<Rightarrow> App" where
  "detailsFailed a = a\<lparr>ap_docId := None, ap_url := None\<rparr>"

datatype app_page = AuthGate | Workspace string "js_text \<times> string" | DashboardPage

definition page :: "App \<Rightarrow> app_page" where
  "page a = (if ap_token a = [] then AuthGate
     else case (truthy (ap_docId a), ap_details a) of (Some d, Some x) \<Rightarrow> Workspace d x | _ \<Rightarrow> DashboardPage)"

inductive app_step :: "App \<Rightarrow> App \<Rightarrow> bool" where
  auth: "page a = AuthGate \<Longrightarrow> app_step a (handleAuth a reply)"
| toggle: "page a = AuthGate \<Longrightarrow> app_step a (toggleRegister a)"
| select: "page a = DashboardPage \<Longrightarrow> app_step a (selectDocument a i)"
| logout: "page a \<noteq> AuthGate \<Longrightarrow> app_step a (handleLogout a)"
| home: "page a = Workspace d x \<Longrightarrow> app_step a (backToDashboard a)"
| loaded: "app_step a (detailsLoaded a title owner_name)"
| failed: "app_step a (detailsFailed a)"

inductive app_reach :: "App \<Rightarrow> App \<Rightarrow> bool" for a0 where
  start: "app_reach a0 a0"
| step: "app_reach a0 a \<Longrightarrow> app_step a a' \<Longrightarrow> app_reach a0 a'"

inductive_cases app_stepE: "app_step a a'"

lemmas app_defs = handleAuth_def selectDocument_def handleLogout_def backToDashboard_def toggleRegister_def
  detailsLoaded_def detailsFailed_def openApp_def

text \<open>What survives a reload of the page: the state and what the browser stores agree.\<close>

definition app_ok :: "App \<Rightarrow> bool" where
  "app_ok a \<longleftrightarrow> ap_token a = (case ap_stored a of Some t \<Rightarrow> t | None \<Rightarrow> []) \<and> ap_url a = ap_docId a"

lemma app_step_ok: "app_step a a' \<Longrightarrow> app_ok a \<Longrightarrow> app_ok a'"
  by (erule app_stepE) (auto simp: app_ok_def app_defs Let_def split: auth_reply.splits option.splits)

text \<open>A reload loses nothing but the form: in every reachable state of the shell the token is the stored one and the
  document the one of the address, so opening the application again shows the log-in form exactly if it is shown now, and
  selects the same document.\<close>

theorem reload_keeps_place:
  assumes "app_reach (openApp stored url) a"
  shows "ap_token (openApp (ap_stored a) (ap_url a)) = ap_token a \<and> ap_docId (openApp (ap_stored a) (ap_url a)) = ap_docId a \<and>
    (page (openApp (ap_stored a) (ap_url a)) = AuthGate \<longleftrightarrow> page a = AuthGate)"
proof -
  have "app_ok a"
    using assms
  proof induction
    case start
    show ?case by (simp add: app_ok_def openApp_def)
  qed (rule app_step_ok)
  then show ?thesis
    by (simp add: app_ok_def openApp_def page_def split: option.split)
qed

theorem reload_keeps_place_witness:
  "page (openApp (Some ''t'') (Some ''d'')) \<noteq> AuthGate"
proof -
  let ?a = "selectDocument (handleAuth (openApp None None) (AuthData ''t'')) ''d''"
  have "app_reach (openApp None None) ?a"
    by (intro app_reach.step [OF app_reach.step [OF app_reach.start app_step.auth [where reply = "AuthData ''t''"]]] app_step.select)
      (simp_all add: page_def app_defs truthy_def)
  from reload_keeps_place [OF this] show ?thesis by (simp add: page_def app_defs truthy_def)
qed

text \<open>Logging out keeps the details of the document that was open: the next user who selects any document is
  in its workspace at once, under the old title, before the server has said whether the document exists or may be
  read.\<close>

theorem logout_keeps_details:
  assumes "page a = Workspace d x" "\<not> ap_isRegister a" "t \<noteq> []" "i \<noteq> []"
  shows "page (selectDocument (handleAuth (handleLogout a) (AuthData t)) i) = Workspace i x"
proof -
  have "ap_details a = Some x"
    using assms(1) by (auto simp: page_def split: if_splits option.splits)
  then show ?thesis
    using assms(2-4) by (simp add: page_def app_defs truthy_def)
qed

theorem logout_keeps_details_witness:
  "page (selectDocument (handleAuth (handleLogout (detailsLoaded (openApp (Some ''t'') (Some ''d'')) (ascii ''Plan'') None))
     (AuthData ''u'')) ''e'') = Workspace ''e'' (ascii ''Plan'', ''Unknown'')"
  by (rule logout_keeps_details [where d = "''d''"]) (simp_all add: page_def app_defs truthy_def)

section \<open>The dashboard\<close>

text \<open>What \<open>fetch\<close> brought: nothing, or an answer with a status.\<close>

datatype fetch_result = Unreachable | Fetched int

definition fetch_ok :: "fetch_result \<Rightarrow> bool" where
  "fetch_ok r = (case r of Fetched s \<Rightarrow> 200 \<le> s \<and> s \<le> 299 | Unreachable \<Rightarrow> False)"

datatype dashboard_tab = Recent | MyDocs | Shared | Starred | Archived

record Dash =
  da_docs :: "DocumentWithPermission list"
  da_starred :: "DocumentWithPermission list"
  da_unread :: nat

text \<open>The third component of the result: whether \<open>onLogout\<close> is called. A request that fails keeps the state.\<close>

definition loadDashboard :: "Dash \<Rightarrow> response option \<Rightarrow> Dash \<times> bool" where
  "loadDashboard s res =
     (case res of
        Some (Reply status b) \<Rightarrow>
          if status = 401 then (s, True)
          else (case b of
              DashboardBody recents starred unread \<Rightarrow> (\<lparr>da_docs = recents, da_starred = starred, da_unread = unread\<rparr>, False)
            | _ \<Rightarrow> (\<lparr>da_docs = [], da_starred = [], da_unread = 0\<rparr>, False))
      | _ \<Rightarrow> (s, False))"

definition getFilteredDocs :: "Dash \<Rightarrow> dashboard_tab \<Rightarrow> string option \<Rightarrow> DocumentWithPermission list" where
  "getFilteredDocs s tab user =
     (case tab of
        Recent \<Rightarrow> da_docs s
      | MyDocs \<Rightarrow> da_docs s
      | Shared \<Rightarrow> filter (\<lambda>d. Some (doc_ownerId d) \<noteq> user) (da_docs s)
      | Starred \<Rightarrow> da_starred s
      | Archived \<Rightarrow> [])"

text \<open>The tab of shared documents shows the documents of others among the user's ten most recent ones, and only those:
  when these ten are the user's own it is empty, whatever has been shared.\<close>

theorem shared_tab_shows_recent:
  assumes "getDashboard toISO D who = (D', published, reply)"
  shows "getFilteredDocs (fst (loadDashboard s (Some reply))) Shared (Some (jwt_sub who)) =
      filter (\<lambda>d. doc_ownerId d \<noteq> jwt_sub who) (take 10 (listDocuments toISO D (jwt_sub who))) \<and>
    getFilteredDocs (fst (loadDashboard s (Some reply))) Recent (Some (jwt_sub who)) =
      take 10 (listDocuments toISO D (jwt_sub who)) \<and> D' = D"
  using assms by (auto simp: getDashboard_def Let_def answer_def loadDashboard_def getFilteredDocs_def)

theorem shared_tab_shows_recent_witness:
  "\<exists>s. getFilteredDocs s Shared (Some ''a'') = filter (\<lambda>d. doc_ownerId d \<noteq> ''a'') (take 10 (listDocuments example_iso example_directory ''a''))"
proof -
  obtain D' p r where g: "getDashboard example_iso example_directory \<lparr>jwt_sub = ''a'', jwt_email = [], jwt_displayName = []\<rparr> = (D', p, r)"
    by (metis prod_cases3)
  show ?thesis using shared_tab_shows_recent [OF g] by auto
qed

text \<open>\<open>handleCreateDocument\<close>: its request, and what its answer does to the shell and the input field; and the answer to the
  request for the details.\<close>

definition createRequest :: "js_text \<Rightarrow> request option" where
  "createRequest newTitle = (if js_trim newTitle = [] then None else Some (PostDocument (JObj [(''title'', JStr newTitle)])))"

definition createAnswered :: "App \<Rightarrow> js_text \<Rightarrow> response \<Rightarrow> App \<times> js_text" where
  "createAnswered a newTitle res =
     (case res of
        Reply n (DocumentBody doc) \<Rightarrow> if fetch_ok (Fetched n) then (selectDocument a (doc_id doc), []) else (a, newTitle)
      | _ \<Rightarrow> (a, newTitle))"

definition detailsAnswered :: "App \<Rightarrow> response \<Rightarrow> App" where
  "detailsAnswered a res =
     (case res of
        Reply n b \<Rightarrow> if \<not> fetch_ok (Fetched n) then detailsFailed a
          else (case b of PermittedBody doc \<Rightarrow> detailsLoaded a (doc_title doc) None | _ \<Rightarrow> a)
      | Unanswered _ \<Rightarrow> a)"

text \<open>Creating a document opens it: a title that is not blank and has at most 200 characters makes the server store a new
  document of the user under the trimmed title, and the shell, once the two answers are in, shows its workspace.\<close>

theorem created_document_opens:
  assumes "directory_ok D" "has_user D (jwt_sub who)" "\<not> has_document D (rq_docId E)" "rq_docId E \<noteq> []" "ap_token a \<noteq> []"
    and "js_trim title \<noteq> []" "length title \<le> 200"
  shows "\<exists>req D1 res. createRequest title = Some req \<and> dispatch toISO db D E who req = (D1, [], res) \<and>
    role_of D1 (rq_docId E) (jwt_sub who) = Some ''owner'' \<and> snd (createAnswered a title res) = [] \<and>
    (let a1 = fst (createAnswered a title res)
     in wants_details a1 = Some (rq_docId E) \<and>
        page (detailsAnswered a1 (snd (snd (dispatch toISO db D1 E' who (GetDocument (rq_docId E)))))) =
          Workspace (rq_docId E) (js_trim title, ''Unknown''))"
proof -
  let ?d = "rq_docId E"
  have "title \<noteq> []" using assms(6) by (auto simp: js_trim_def)
  then have schema: "CreateDocumentSchema (JObj [(''title'', JStr title)]) = Some (js_trim title)"
    using assms(7) by (simp add: CreateDocumentSchema_def field_def Suc_le_eq)
  have perms: "\<forall>p \<in> set (dir_permissions D). perm_doc_id p \<noteq> ?d"
    using assms(1,3) unfolding directory_ok_def permissions_ok_def has_document_def by metis
  obtain D1 doc where c: "createDocument toISO D (js_trim title) (jwt_sub who) ?d (rq_now E) = Inr (D1, doc)" "doc_id doc = ?d"
      "dir_documents D1 = dir_documents D @ [\<lparr>drow_id = ?d, drow_title = js_trim title, drow_owner_id = jwt_sub who,
         drow_created_at = rq_now E, drow_updated_at = rq_now E, drow_is_deleted = False\<rparr>]"
      "dir_permissions D1 = dir_permissions D @ [\<lparr>perm_doc_id = ?d, perm_user_id = jwt_sub who, perm_role = ''owner''\<rparr>]"
    using assms(2,3) perms by (auto simp: createDocument_def Let_def rowToDocument_def)
  have "filter (is_permission ?d (jwt_sub who)) (dir_permissions D) = []"
    using perms by (auto simp: filter_empty_conv is_permission_def)
  then have role: "role_of D1 ?d (jwt_sub who) = Some ''owner''"
    by (simp add: role_of_def c(4) is_permission_def)
  have "live_documents D ?d = []"
    using assms(3) by (force simp: live_documents_def has_document_def filter_empty_conv)
  then have found: "\<exists>x. getDocumentWithPermission toISO D1 ?d (jwt_sub who) = Some x \<and> doc_title x = js_trim title"
    using role by (simp add: permission_lookup [OF createDocument_ok [OF assms(1) c(1)]] live_documents_def c(3) withRole_def
        Document.defs rowToDocument_def)
  have post: "dispatch toISO db D E who (PostDocument (JObj [(''title'', JStr title)])) = (D1, [], Reply 201 (DocumentBody doc))"
    by (simp add: postDocument_def validate_def schema c(1) answer_def)
  show ?thesis
    using assms(4-6) role post found
    by (auto simp: createRequest_def createAnswered_def fetch_ok_def selectDocument_def c(2) wants_details_def truthy_def Let_def
        getDocumentRoute_def answer_def detailsAnswered_def detailsLoaded_def page_def)
qed

theorem created_document_opens_witness:
  "page (detailsAnswered (fst (createAnswered (openApp (Some ''t'') None) (ascii ''New'')
      (snd (snd (dispatch example_iso example_db example_directory example_env \<lparr>jwt_sub = ''a'', jwt_email = [], jwt_displayName = []\<rparr>
        (the (createRequest (ascii ''New''))))))))
    (snd (snd (dispatch example_iso example_db (fst (dispatch example_iso example_db example_directory example_env
        \<lparr>jwt_sub = ''a'', jwt_email = [], jwt_displayName = []\<rparr> (the (createRequest (ascii ''New'')))))
      example_env \<lparr>jwt_sub = ''a'', jwt_email = [], jwt_displayName = []\<rparr> (GetDocument ''e''))))) =
    Workspace ''e'' (js_trim (ascii ''New''), ''Unknown'')"
proof -
  let ?who = "\<lparr>jwt_sub = ''a'', jwt_email = [], jwt_displayName = []\<rparr> :: JWTPayload"
  have h: "has_user example_directory (jwt_sub ?who)" "\<not> has_document example_directory (rq_docId example_env)"
      "rq_docId example_env = ''e''" "ap_token (openApp (Some ''t'') None) \<noteq> []"
    by (simp_all add: example_defs has_user_def has_document_def openApp_def)
  have t: "js_trim (ascii ''New'') \<noteq> []" "length (ascii ''New'') \<le> 200"
    by (simp_all add: ascii_def js_trim_def js_whitespace_def)
  from created_document_opens [OF example_directory_ok h(1,2) _ h(4) t, of example_iso example_db example_env] show ?thesis
    by (auto simp: h(3) Let_def)
qed

section \<open>Notifications\<close>

record ClientNotification =
  cn_id :: string
  cn_user_id :: string
  cn_type :: string
  cn_message :: js_text
  cn_read_at :: "string option"
  cn_title :: "string option"
  cn_link :: "string option"
  cn_created_at :: string

definition notificationCreated :: "ClientNotification list \<Rightarrow> ClientNotification \<Rightarrow> ClientNotification list" where
  "notificationCreated prev n = n # prev"

text \<open>\<open>new Map(prev.map(...))\<close>, then the entries of the history that are missing, newest first.\<close>

definition merge_map :: "ClientNotification list \<Rightarrow> (string \<times> ClientNotification) list" where
  "merge_map prev = foldl (\<lambda>m n. AList.update (cn_id n) n m) [] prev"

definition add_missing :: "(string \<times> ClientNotification) list \<Rightarrow> ClientNotification list \<Rightarrow> (string \<times> ClientNotification) list" where
  "add_missing m data = foldl (\<lambda>m n. if map_of m (cn_id n) = None then AList.update (cn_id n) n m else m) m data"

definition mergeHistory ::
  "(string \<Rightarrow> int) \<Rightarrow> ClientNotification list \<Rightarrow> ClientNotification list \<Rightarrow> ClientNotification list" where
  "mergeHistory getTime prev data = sort_key (\<lambda>n. - getTime (cn_created_at n)) (map snd (add_missing (merge_map prev) data))"

definition is_unread :: "ClientNotification \<Rightarrow> bool" where
  "is_unread n \<longleftrightarrow> truthy (cn_read_at n) = None"

definition unreadCount :: "ClientNotification list \<Rightarrow> nat" where
  "unreadCount ns = length (filter is_unread ns)"

definition markAsRead :: "ClientNotification list \<Rightarrow> string \<Rightarrow> string \<Rightarrow> fetch_result \<Rightarrow> ClientNotification list" where
  "markAsRead ns i now r = (if r = Unreachable then ns
     else map (\<lambda>n. if cn_id n = i then n\<lparr>cn_read_at := Some now\<rparr> else n) ns)"

definition markAllAsRead :: "ClientNotification list \<Rightarrow> string \<Rightarrow> fetch_result \<Rightarrow> ClientNotification list" where
  "markAllAsRead ns now r = (if r = Unreachable then ns else map (\<lambda>n. n\<lparr>cn_read_at := Some now\<rparr>) ns)"

text \<open>The request of \<open>handleAction\<close>: of an invitation with a link, to accept or to reject it.\<close>

definition actionRequest :: "ClientNotification \<Rightarrow> bool \<Rightarrow> request option" where
  "actionRequest n accept =
     (if cn_type n = ''INVITATION''
      then (case truthy (cn_link n) of
          Some link \<Rightarrow> (let tokenStr = last (split_on (CHR ''/'') link)
            in Some (if accept then AcceptInvite tokenStr else RejectInvite tokenStr))
        | None \<Rightarrow> None)
      else None)"

datatype action_end = Done | Reload | Alert

definition handleAction ::
  "ClientNotification list \<Rightarrow> ClientNotification \<Rightarrow> bool \<Rightarrow> string \<Rightarrow> fetch_result \<Rightarrow> fetch_result \<Rightarrow> ClientNotification list \<times> action_end" where
  "handleAction ns n accept now r markResult =
     (case actionRequest n accept of
        None \<Rightarrow> (markAsRead ns (cn_id n) now markResult, Done)
      | Some _ \<Rightarrow>
          if r = Unreachable then (ns, Done)
          else if fetch_ok r then (markAsRead ns (cn_id n) now markResult, if accept then Reload else Done)
          else (ns, Alert))"

text \<open>A row as the browser gets it, from the route and on the channel alike.\<close>

definition as_seen :: "(int \<Rightarrow> string) \<Rightarrow> NotificationRow \<Rightarrow> ClientNotification" where
  "as_seen toISO r = \<lparr>cn_id = ntf_id r, cn_user_id = ntf_user_id r, cn_type = ntf_type r, cn_message = ntf_message r,
     cn_read_at = map_option toISO (ntf_read_at r), cn_title = Some (ntf_title r), cn_link = ntf_link r,
     cn_created_at = toISO (ntf_created_at r)\<rparr>"

section \<open>Notifications and the server\<close>

text \<open>The list of the browser is in step with the table: every notification in it is a row of the user, as the browser gets
  it but for the time at which it was read.\<close>

definition in_step :: "(int \<Rightarrow> string) \<Rightarrow> Directory \<Rightarrow> string \<Rightarrow> ClientNotification list \<Rightarrow> bool" where
  "in_step toISO D u ns \<longleftrightarrow> (\<forall>n \<in> set ns. \<exists>r \<in> set (dir_notifications D). ntf_user_id r = u \<and>
     n\<lparr>cn_read_at := None\<rparr> = (as_seen toISO r)\<lparr>cn_read_at := None\<rparr> \<and> (is_unread n \<longleftrightarrow> ntf_read_at r = None))"

lemma merge_map_keys: "\<forall>(k, n) \<in> set (merge_map ns). k = cn_id n \<and> n \<in> set ns"
proof -
  have "\<forall>(k, n) \<in> set (foldl (\<lambda>m n. AList.update (cn_id n) n m) m ns). (k, n) \<in> set m \<or> k = cn_id n \<and> n \<in> set ns" for m
  proof (induction ns arbitrary: m)
    case (Cons a ns)
    have "set (AList.update (cn_id a) a m) \<subseteq> insert (cn_id a, a) (set m)" for m :: "(string \<times> ClientNotification) list"
      by (induction m) auto
    with Cons.IH [of "AList.update (cn_id a) a m"] show ?case by fastforce
  qed auto
  from this [of "[]"] show ?thesis by (auto simp: merge_map_def)
qed

lemma merge_map_ids: "fst ` set (merge_map ns) = cn_id ` set ns \<and> distinct (map fst (merge_map ns))"
proof -
  have "fst ` set (foldl (\<lambda>m n. AList.update (cn_id n) n m) m ns) = fst ` set m \<union> cn_id ` set ns \<and>
      (distinct (map fst m) \<longrightarrow> distinct (map fst (foldl (\<lambda>m n. AList.update (cn_id n) n m) m ns)))" for m
    by (induction ns arbitrary: m) (auto simp: dom_update distinct_update)
  from this [of "[]"] show ?thesis by (simp add: merge_map_def)
qed

lemma add_missing_spec:
  assumes "distinct (map fst m)" "\<forall>(k, n) \<in> set m. k = cn_id n"
  shows "distinct (map fst (add_missing m data)) \<and> (\<forall>(k, n) \<in> set (add_missing m data). k = cn_id n) \<and>
    set m \<subseteq> set (add_missing m data) \<and> snd ` set (add_missing m data) \<subseteq> snd ` set m \<union> set data \<and>
    cn_id ` set data \<subseteq> fst ` set (add_missing m data)"
  using assms
proof (induction data arbitrary: m)
  case (Cons a data)
  define M where "M = (if map_of m (cn_id a) = None then AList.update (cn_id a) a m else m)"
  define N where "N = add_missing M data"
  have app: "AList.update k v m = m @ [(k, v)]" if "k \<notin> fst ` set m" for k v and m :: "(string \<times> ClientNotification) list"
    using that by (induction m) auto
  have m: "M = (if cn_id a \<in> fst ` set m then m else m @ [(cn_id a, a)])"
    by (simp add: M_def map_of_eq_None_iff app)
  have d: "distinct (map fst M)" and k: "\<forall>(k, n) \<in> set M. k = cn_id n"
    using Cons.prems unfolding m by auto
  have sub: "set m \<subseteq> set M" "snd ` set M \<subseteq> snd ` set m \<union> {a}" "cn_id a \<in> fst ` set M"
    unfolding m by auto
  have e: "add_missing m (a # data) = N"
    by (simp add: N_def M_def add_missing_def)
  have ih: "distinct (map fst N)" "\<forall>(k, n) \<in> set N. k = cn_id n" "set M \<subseteq> set N"
      "snd ` set N \<subseteq> snd ` set M \<union> set data" "cn_id ` set data \<subseteq> fst ` set N"
    using Cons.IH [OF d k] unfolding N_def by argo+
  have "fst ` set M \<subseteq> fst ` set N" using ih(3) by (rule image_mono)
  then have "cn_id ` set (a # data) \<subseteq> fst ` set N" using sub(3) ih(5) by auto
  moreover have "snd ` set N \<subseteq> snd ` set m \<union> set (a # data)" 
    using subset_trans [OF ih(4) Un_mono [OF sub(2) subset_refl]] by (simp add: Un_assoc)
  ultimately show ?case
    unfolding e using ih(1,2) subset_trans [OF sub(1) ih(3)] by (intro conjI)
qed (simp add: add_missing_def)

lemma mergeHistory_set:
  "set (mergeHistory getTime prev data) \<subseteq> set prev \<union> set data"
  "cn_id ` set (mergeHistory getTime prev data) = cn_id ` set prev \<union> cn_id ` set data"
  "distinct (map cn_id (mergeHistory getTime prev data))"
  "sorted (map (\<lambda>n. - getTime (cn_created_at n)) (mergeHistory getTime prev data))"
proof -
  define m where "m = merge_map prev"
  define N where "N = add_missing m data"
  have k: "\<forall>(k, n) \<in> set m. k = cn_id n" "snd ` set m \<subseteq> set prev" "fst ` set m = cn_id ` set prev" "distinct (map fst m)"
    using merge_map_keys [of prev] merge_map_ids [of prev] by (auto simp: m_def)
  have a: "distinct (map fst N)" "\<forall>(k, n) \<in> set N. k = cn_id n" "set m \<subseteq> set N" "snd ` set N \<subseteq> snd ` set m \<union> set data"
      "cn_id ` set data \<subseteq> fst ` set N"
    using add_missing_spec [OF k(4,1), of data] unfolding N_def by argo+
  have h: "mergeHistory getTime prev data = sort_key (\<lambda>n. - getTime (cn_created_at n)) (map snd N)"
    by (simp add: mergeHistory_def N_def m_def)
  have ids: "map cn_id (map snd N) = map fst N"
    using a(2) by auto
  have fst_ids: "fst ` set N = cn_id ` snd ` set N"
    using arg_cong [OF ids, of set] by (simp add: image_image)
  show sub: "set (mergeHistory getTime prev data) \<subseteq> set prev \<union> set data"
    using a(4) k(2) by (auto simp: h)
  have "cn_id ` set prev \<subseteq> fst ` set N"
    using image_mono [OF a(3), of fst] by (simp add: k(3))
  then show "cn_id ` set (mergeHistory getTime prev data) = cn_id ` set prev \<union> cn_id ` set data"
    using a(5) image_mono [OF sub, of cn_id] by (simp add: h fst_ids image_Un) blast
  have "mset (map cn_id (mergeHistory getTime prev data)) = mset (map fst N)"
    unfolding h ids [symmetric] by (simp add: multiset.map_comp)
  then show "distinct (map cn_id (mergeHistory getTime prev data))"
    using a(1) mset_eq_imp_distinct_iff by blast
  show "sorted (map (\<lambda>n. - getTime (cn_created_at n)) (mergeHistory getTime prev data))"
    unfolding h by (rule sorted_sort_key)
qed

lemma as_seen_update: "(as_seen toISO (r\<lparr>ntf_read_at := t\<rparr>))\<lparr>cn_read_at := None\<rparr> = (as_seen toISO r)\<lparr>cn_read_at := None\<rparr>"
  by (simp add: as_seen_def)

lemma in_step_append: "in_step toISO D u (ns @ ms) \<longleftrightarrow> in_step toISO D u ns \<and> in_step toISO D u ms"
  by (auto simp: in_step_def)

lemma in_step_subset: "in_step toISO D u ns \<Longrightarrow> set ms \<subseteq> set ns \<Longrightarrow> in_step toISO D u ms"
  by (auto simp: in_step_def)

lemma in_step_rows:
  assumes "\<And>t. toISO t \<noteq> []" "\<forall>r \<in> set rs. r \<in> set (dir_notifications D) \<and> ntf_user_id r = u"
  shows "in_step toISO D u (map (as_seen toISO) rs)"
  using assms by (fastforce simp: in_step_def is_unread_def truthy_def as_seen_def split: option.splits)

text \<open>The table after an update that marks the rows of \<open>u\<close> with \<open>P\<close>, the list after the update that marks \<open>Q\<close>.\<close>

lemma in_step_mark:
  assumes "in_step toISO D u ns" "now' \<noteq> []"
    and "\<And>n r. n \<in> set ns \<Longrightarrow> r \<in> set (dir_notifications D) \<Longrightarrow> ntf_user_id r = u \<Longrightarrow> cn_id n = ntf_id r \<Longrightarrow>
      (is_unread n \<longleftrightarrow> ntf_read_at r = None) \<Longrightarrow> (\<not> Q n \<and> is_unread n) \<longleftrightarrow> (\<not> P r \<and> ntf_read_at r = None)"
  shows "in_step toISO (D\<lparr>dir_notifications := update_rows P (\<lambda>r. r\<lparr>ntf_read_at := Some now\<rparr>) (dir_notifications D)\<rparr>) u
    (map (\<lambda>n. if Q n then n\<lparr>cn_read_at := Some now'\<rparr> else n) ns)"
  unfolding in_step_def
proof
  fix x assume "x \<in> set (map (\<lambda>n. if Q n then n\<lparr>cn_read_at := Some now'\<rparr> else n) ns)"
  then obtain n where n: "n \<in> set ns" "x = (if Q n then n\<lparr>cn_read_at := Some now'\<rparr> else n)" by auto
  obtain r where r: "r \<in> set (dir_notifications D)" "ntf_user_id r = u"
      "n\<lparr>cn_read_at := None\<rparr> = (as_seen toISO r)\<lparr>cn_read_at := None\<rparr>" "is_unread n \<longleftrightarrow> ntf_read_at r = None"
    using assms(1) n(1) by (auto simp: in_step_def)
  let ?r = "if P r then r\<lparr>ntf_read_at := Some now\<rparr> else r"
  have "cn_id n = ntf_id r"
    using arg_cong [OF r(3), of cn_id] by (simp add: as_seen_def)
  then have e: "(\<not> Q n \<and> is_unread n) \<longleftrightarrow> (\<not> P r \<and> ntf_read_at r = None)"
    using assms(3) n(1) r by blast
  have "is_unread x \<longleftrightarrow> \<not> Q n \<and> is_unread n"
    using assms(2) by (simp add: n(2) is_unread_def truthy_def)
  moreover have "ntf_read_at ?r = None \<longleftrightarrow> \<not> P r \<and> ntf_read_at r = None" by simp
  moreover have "x\<lparr>cn_read_at := None\<rparr> = (as_seen toISO ?r)\<lparr>cn_read_at := None\<rparr>"
    using r(3) as_seen_update by (simp add: n(2))
  moreover have "?r \<in> set (update_rows P (\<lambda>r. r\<lparr>ntf_read_at := Some now\<rparr>) (dir_notifications D))"
    using r(1) by (auto simp: update_rows_def)
  ultimately show "\<exists>r \<in> set (dir_notifications (D\<lparr>dir_notifications :=
      update_rows P (\<lambda>r. r\<lparr>ntf_read_at := Some now\<rparr>) (dir_notifications D)\<rparr>)). ntf_user_id r = u \<and>
      x\<lparr>cn_read_at := None\<rparr> = (as_seen toISO r)\<lparr>cn_read_at := None\<rparr> \<and> (is_unread x \<longleftrightarrow> ntf_read_at r = None)"
    using e r(2) by (intro bexI [of _ ?r]) simp_all
qed

lemma in_step_merge:
  assumes "in_step toISO D u ns" "\<And>t. toISO t \<noteq> []"
  shows "in_step toISO D u (mergeHistory getTime ns (map (as_seen toISO) (getUserNotifications D u l k)))"
proof -
  have "\<forall>r \<in> set (getUserNotifications D u l k). r \<in> set (dir_notifications D) \<and> ntf_user_id r = u"
    unfolding getUserNotifications_def by (auto dest!: in_set_takeD in_set_dropD)
  then have "in_step toISO D u (ns @ map (as_seen toISO) (getUserNotifications D u l k))"
    using assms(1) in_step_rows [OF assms(2)] by (simp add: in_step_append)
  then show ?thesis
    by (rule in_step_subset) (use mergeHistory_set(1) [of getTime ns "map (as_seen toISO) (getUserNotifications D u l k)"] in simp)
qed

text \<open>The notification list stays in step with the server: merging the history of the route keeps it in step, complete
  for what the two held, free of duplicates and newest first; and reading one or all of them on both sides, the request of
  the browser having been served, leaves the same notifications unread on both sides.\<close>

theorem notifications_stay_in_step:
  assumes "in_step toISO D (jwt_sub who) ns" "\<forall>t. toISO t \<noteq> []" "now \<noteq> []"
  shows "(\<forall>rows. getNotifications D who limit offset = answer D 200 (NotificationsBody rows) \<longrightarrow>
      (let merged = mergeHistory getTime ns (map (as_seen toISO) rows)
       in in_step toISO D (jwt_sub who) merged \<and> distinct (map cn_id merged) \<and>
         cn_id ` set merged = cn_id ` set ns \<union> ntf_id ` set rows \<and> sorted (map (\<lambda>n. - getTime (cn_created_at n)) merged))) \<and>
    in_step toISO (fst (readNotification D E who i)) (jwt_sub who) (markAsRead ns i now (Fetched 200)) \<and>
    in_step toISO (fst (readAllNotifications D E who)) (jwt_sub who) (markAllAsRead ns now (Fetched 200))"
proof (intro conjI allI impI)
  fix rows
  let ?merged = "mergeHistory getTime ns (map (as_seen toISO) rows)"
  assume "getNotifications D who limit offset = answer D 200 (NotificationsBody rows)"
  then have "rows = getUserNotifications D (jwt_sub who) (nat (number_or 20 limit)) (nat (number_or 0 offset))"
    by (auto simp: getNotifications_def Let_def answer_def split: if_splits)
  then have "in_step toISO D (jwt_sub who) ?merged"
    using in_step_merge [OF assms(1)] assms(2) by blast
  then show "let merged = ?merged in in_step toISO D (jwt_sub who) merged \<and> distinct (map cn_id merged) \<and>
      cn_id ` set merged = cn_id ` set ns \<union> ntf_id ` set rows \<and> sorted (map (\<lambda>n. - getTime (cn_created_at n)) merged)"
    using mergeHistory_set(2-4) [of getTime ns "map (as_seen toISO) rows"] by (simp add: image_image as_seen_def)
next
  show "in_step toISO (fst (readNotification D E who i)) (jwt_sub who) (markAsRead ns i now (Fetched 200))"
    using in_step_mark [OF assms(1,3), of "\<lambda>n. cn_id n = i" "\<lambda>r. ntf_id r = i \<and> ntf_user_id r = jwt_sub who" "rq_now E"]
    by (simp add: readNotification_def answer_def markNotificationAsRead_def markAsRead_def)
next
  show "in_step toISO (fst (readAllNotifications D E who)) (jwt_sub who) (markAllAsRead ns now (Fetched 200))"
    using in_step_mark [OF assms(1,3), of "\<lambda>_. True" "\<lambda>r. ntf_user_id r = jwt_sub who \<and> ntf_read_at r = None" "rq_now E"]
    by (auto simp: readAllNotifications_def answer_def markAllNotificationsAsRead_def markAllAsRead_def)
qed

definition example_note :: NotificationRow where
  "example_note = \<lparr>ntf_id = ''n'', ntf_user_id = ''b'', ntf_type = ''INVITATION'', ntf_title = [], ntf_message = [],
     ntf_link = None, ntf_read_at = None, ntf_created_at = 0\<rparr>"

theorem notifications_stay_in_step_witness:
  "in_step (\<lambda>_. ''t'') (fst (readNotification (example_directory\<lparr>dir_notifications := [example_note]\<rparr>) example_env
     \<lparr>jwt_sub = ''b'', jwt_email = [], jwt_displayName = []\<rparr> ''n'')) ''b''
     (markAsRead (map (as_seen (\<lambda>_. ''t'')) [example_note]) ''n'' ''now'' (Fetched 200))"
proof -
  let ?who = "\<lparr>jwt_sub = ''b'', jwt_email = [], jwt_displayName = []\<rparr> :: JWTPayload"
  have "in_step (\<lambda>_. ''t'') (example_directory\<lparr>dir_notifications := [example_note]\<rparr>) (jwt_sub ?who) (map (as_seen (\<lambda>_. ''t'')) [example_note])"
    by (rule in_step_rows) (simp_all add: example_note_def)
  from notifications_stay_in_step [OF this, of "''now''" Absent Absent "\<lambda>_. 0" example_env "''n''"] show ?thesis by simp
qed

text \<open>An answer is not looked at: the list shows a notification as read after any answer of the server, an error
  included, and the rows of the table are as unread as before.\<close>

theorem refused_read_shown_as_read:
  assumes "in_step toISO D u ns" "n \<in> set ns" "is_unread n" "now \<noteq> []" "\<not> fetch_ok (Fetched status)"
    and "distinct (map ntf_id (dir_notifications D))"
  shows "\<not> in_step toISO D u (markAsRead ns (cn_id n) now (Fetched status))"
proof
  let ?n = "n\<lparr>cn_read_at := Some now\<rparr>"
  assume "in_step toISO D u (markAsRead ns (cn_id n) now (Fetched status))"
  moreover have "?n \<in> set (markAsRead ns (cn_id n) now (Fetched status))"
    using assms(2) by (force simp: markAsRead_def)
  ultimately obtain r where r: "r \<in> set (dir_notifications D)" "?n\<lparr>cn_read_at := None\<rparr> = (as_seen toISO r)\<lparr>cn_read_at := None\<rparr>"
      "is_unread ?n \<longleftrightarrow> ntf_read_at r = None"
    by (auto simp: in_step_def)
  obtain q where q: "q \<in> set (dir_notifications D)" "n\<lparr>cn_read_at := None\<rparr> = (as_seen toISO q)\<lparr>cn_read_at := None\<rparr>"
      "ntf_read_at q = None"
    using assms(1-3) by (auto simp: in_step_def)
  have "ntf_id r = ntf_id q"
    using arg_cong [OF r(2), of cn_id] arg_cong [OF q(2), of cn_id] by (simp add: as_seen_def)
  then have "r = q"
    using assms(6) r(1) q(1) by (simp add: distinct_map inj_on_def)
  then show False
    using r(3) q(3) assms(4) by (simp add: is_unread_def truthy_def)
qed

theorem refused_read_shown_as_read_witness:
  "\<not> in_step (\<lambda>_. ''t'') (example_directory\<lparr>dir_notifications := [example_note]\<rparr>) ''b''
     (markAsRead (map (as_seen (\<lambda>_. ''t'')) [example_note]) (cn_id (as_seen (\<lambda>_. ''t'') example_note)) ''now'' (Fetched 500))"
proof (rule refused_read_shown_as_read)
  show "in_step (\<lambda>_. ''t'') (example_directory\<lparr>dir_notifications := [example_note]\<rparr>) ''b'' (map (as_seen (\<lambda>_. ''t'')) [example_note])"
    by (rule in_step_rows) (simp_all add: example_note_def)
qed (simp_all add: example_note_def as_seen_def is_unread_def truthy_def fetch_ok_def)

section \<open>Inviting and accepting\<close>

lemma split_on_no: "x \<notin> set s \<Longrightarrow> split_on x s = [s]"
  by (induction s) auto

lemma split_on_join: "split_on x (s @ x # t) = split_on x s @ split_on x t"
proof (induction s)
  case (Cons c s)
  have "split_on x u \<noteq> []" for u by (cases u) (auto split: list.split)
  then obtain w ws where w: "split_on x s = w # ws" by (cases "split_on x s") auto
  show ?case using Cons by (simp add: w)
qed simp

lemma last_split_link: "CHR ''/'' \<notin> set token \<Longrightarrow> last (split_on (CHR ''/'') (''/invite/'' @ token)) = token"
  using split_on_join [of "CHR ''/''" "''/invite''" token] by (simp add: split_on_no)

text \<open>C27: An invitation from end to end: when the route answers an invitation with 201, the invitee is sent a notification, and
  the browser that accepts it names the token of that invitation. The server, asked before the invitation has run out, gives
  the invitee the role it was made for and changes no other right - if that is a role of \<open>document_permissions\<close>. The table of
  invitations admits \<open>commenter\<close> as well: such an invitation is answered with 400 when it is accepted, and nothing changes.\<close>

theorem invitation_accepted_end_to_end:
  assumes "directory_ok D" "postInvite toISO D E who d email role type = (D1, published, Reply 201 b)"
    and "CHR ''/'' \<notin> set (rq_token E)" "rq_now E' < rq_addHours E (rq_now E) 72"
  shows "\<exists>n. last (dir_notifications D1) = n \<and> published = [publishUserNotification (ntf_user_id n) (notification_json toISO n)] \<and>
    actionRequest (as_seen toISO n) True = Some (AcceptInvite (rq_token E)) \<and>
    (\<forall>invitee. jwt_sub invitee = ntf_user_id n \<longrightarrow>
      (if (case role of Some r \<Rightarrow> r | None \<Rightarrow> ''viewer'') \<in> set permission_roles
       then \<exists>D2. dispatch toISO db D1 E' invitee (AcceptInvite (rq_token E)) = (D2, [], Reply 200 (JoinedBody d)) \<and>
         (\<forall>v. role_of D2 d v = (if v = ntf_user_id n then Some (case role of Some r \<Rightarrow> r | None \<Rightarrow> ''viewer'') else role_of D d v))
       else \<exists>m. dispatch toISO db D1 E' invitee (AcceptInvite (rq_token E)) = (D1, [], Reply 400 m)))"
proof -
  let ?role = "case role of Some r \<Rightarrow> r | None \<Rightarrow> ''viewer''"
  obtain target :: Account and i n where e: "has_user D (acc_id target)" "dir_invitations D1 = dir_invitations D @ [i]" "inv_doc_id i = d"
      "inv_role i = ?role" "inv_expires_at i = rq_addHours E (rq_now E) 72" "dir_notifications D1 = dir_notifications D @ [n]"
      "ntf_user_id n = acc_id target" "published = [publishUserNotification (acc_id target) (notification_json toISO n)]"
      "inv_token i = rq_token E" "rq_token E \<notin> inv_token ` set (dir_invitations D)" "ntf_type n = ''INVITATION''"
      "ntf_link n = Some (''/invite/'' @ rq_token E)" "dir_users D1 = dir_users D" and same: "same_rights D D1" and live: "is_live D d"
    using invite_effect [OF assms(1,2)] by (elim conjE bexE exE) (rule that; assumption)
  have tok: "filter (\<lambda>x. inv_token x = rq_token E \<and> inv_expires_at x > rq_now E') (dir_invitations D) = []"
    using e(10) by (force simp: filter_empty_conv)
  have found: "getInvitationByToken D1 (rq_token E) (rq_now E') = Some i"
    using assms(4) e(5,9) tok by (simp add: getInvitationByToken_def e(2))
  have doc: "has_document D1 d"
    using live same by (auto simp: is_live_def live_documents_def has_document_def same_rights_def filter_empty_conv)
  have user: "has_user D1 (acc_id target)"
    using e(1,13) by (simp add: has_user_def)
  have req: "actionRequest (as_seen toISO n) True = Some (AcceptInvite (rq_token E))"
    using last_split_link [OF assms(3)] by (simp add: actionRequest_def as_seen_def e(11,12) truthy_def Let_def)
  have accepted: "\<exists>D2. dispatch toISO db D1 E' invitee (AcceptInvite (rq_token E)) = (D2, [], Reply 200 (JoinedBody d)) \<and>
      (\<forall>v. role_of D2 d v = (if v = ntf_user_id n then Some ?role else role_of D d v))"
    if i: "jwt_sub invitee = ntf_user_id n" and r: "?role \<in> set permission_roles" for invitee
  proof -
    have "usable D1 (rq_token E) (rq_now E') d ?role" using r found e(3,4) doc by (simp add: usable_def)
    then obtain D2 where "acceptInvitation D1 (rq_token E) (acc_id target) (rq_now E') = Inr (D2, d)"
        "\<forall>v. role_of D2 d v = (if v = acc_id target then Some ?role else role_of D1 d v)"
      using accept_usable [OF _ user] by blast
    then show ?thesis
      using i same_rights_role [OF same] by (intro exI [of _ D2]) (simp add: acceptInvite_def answer_def e(7))
  qed
  have refused: "\<exists>m. dispatch toISO db D1 E' invitee (AcceptInvite (rq_token E)) = (D1, [], Reply 400 m)"
    if "?role \<notin> set permission_roles" for invitee
    using that by (simp add: acceptInvite_def acceptInvitation_def found upsert_permission_def e(4) answer_def)
  show ?thesis
    using req accepted refused by (intro exI [of _ n]) (simp add: e(6-8))
qed

theorem invitation_accepted_end_to_end_witness:
  "\<exists>D1 p b. postInvite example_iso example_directory example_env \<lparr>jwt_sub = ''b'', jwt_email = ''b@x'', jwt_displayName = []\<rparr>
     ''d'' (Some ''c@x'') (Some ''editor'') None = (D1, p, Reply 201 b) \<and>
     actionRequest (as_seen example_iso (last (dir_notifications D1))) True = Some (AcceptInvite (rq_token example_env))"
proof -
  let ?p = "postInvite example_iso example_directory example_env \<lparr>jwt_sub = ''b'', jwt_email = ''b@x'', jwt_displayName = []\<rparr>
     ''d'' (Some ''c@x'') (Some ''editor'') None"
  have "\<exists>b. snd (snd ?p) = Reply 201 b"
    by (simp add: example_defs postInvite_def getDocumentWithPermission_def join_permissions_def live_documents_def
        withRole_def Document.defs DocumentPermission_of_def truthy_def is_permission_def collaborator_count_def
        pending_invitations_def send_invitation_def createEmailInvitation_def insert_invitation_def invitation_roles_def
        has_document_def has_user_def createNotification_def Let_def)
  then obtain D1 p b where e: "?p = (D1, p, Reply 201 b)" by (metis prod.collapse)
  show ?thesis
    using invitation_accepted_end_to_end [OF example_directory_ok e, of example_env] e
    by (simp add: example_env_def)
qed

section \<open>The share dialog\<close>

datatype share_status = ShareIdle | ShareLoading | ShareSuccess | ShareError

record ShareState =
  sh_email :: string
  sh_role :: string
  sh_status :: share_status
  sh_errorMsg :: string
  sh_collaborators :: "Collaborator list"
  sh_invites :: "(string \<times> string option \<times> string \<times> int) list"

definition openShare :: ShareState where
  "openShare = \<lparr>sh_email = [], sh_role = ''editor'', sh_status = ShareIdle, sh_errorMsg = [], sh_collaborators = [], sh_invites = []\<rparr>"

text \<open>The two answers of \<open>fetchData\<close>; if one does not come, neither is used.\<close>

definition fetchData :: "ShareState \<Rightarrow> response option \<Rightarrow> response option \<Rightarrow> ShareState" where
  "fetchData s collabRes inviteRes =
     (case (collabRes, inviteRes) of
        (Some (Reply n b), Some (Reply k b')) \<Rightarrow>
          (let s1 = (case b of CollaboratorsBody cs \<Rightarrow> if fetch_ok (Fetched n) then s\<lparr>sh_collaborators := cs\<rparr> else s | _ \<Rightarrow> s)
           in case b' of PendingBody is \<Rightarrow> if fetch_ok (Fetched k) then s1\<lparr>sh_invites := is\<rparr> else s1 | _ \<Rightarrow> s1)
      | _ \<Rightarrow> s)"

text \<open>\<open>String.trim\<close> on ASCII text.\<close>

definition ascii_space :: "char \<Rightarrow> bool" where
  "ascii_space c \<longleftrightarrow> c \<in> set [CHR 0x09, CHR 0x0A, CHR 0x0B, CHR 0x0C, CHR 0x0D, CHR '' '']"

definition trim_ascii :: "string \<Rightarrow> string" where
  "trim_ascii s = rev (dropWhile ascii_space (rev (dropWhile ascii_space s)))"

text \<open>\<open>handleInvite\<close>: its request, and what it does with the answer (the text of the error when there is none). The
  lists are then fetched again.\<close>

definition inviteRequest :: "ShareState \<Rightarrow> string \<Rightarrow> request option" where
  "inviteRequest s docId = (if trim_ascii (sh_email s) = [] then None
     else Some (PostInvite docId (Some (trim_ascii (sh_email s))) (Some (sh_role s)) None))"

definition inviteStarted :: "ShareState \<Rightarrow> ShareState" where
  "inviteStarted s = s\<lparr>sh_status := ShareLoading, sh_errorMsg := []\<rparr>"

definition inviteAnswered :: "ShareState \<Rightarrow> string + response \<Rightarrow> ShareState" where
  "inviteAnswered s res =
     (case res of
        Inl m \<Rightarrow> s\<lparr>sh_status := ShareError, sh_errorMsg := m\<rparr>
      | Inr (Reply n b) \<Rightarrow>
          if fetch_ok (Fetched n) then s\<lparr>sh_status := ShareSuccess, sh_email := []\<rparr>
          else s\<lparr>sh_status := ShareError, sh_errorMsg := (case b of ErrorBody m \<Rightarrow> if m = [] then ''Failed to send invite'' else m
            | _ \<Rightarrow> ''Failed to send invite'')\<rparr>
      | Inr (Unanswered _) \<Rightarrow> s)"

definition statusTimer :: "ShareState \<Rightarrow> ShareState" where
  "statusTimer s = s\<lparr>sh_status := ShareIdle\<rparr>"

text \<open>The invitation the user sends from the dialog, answered by the server, and the lists fetched at \<open>E'\<close>.\<close>

definition invite_round ::
  "(int \<Rightarrow> string) \<Rightarrow> Database \<Rightarrow> Directory \<Rightarrow> RequestEnv \<Rightarrow> RequestEnv \<Rightarrow> JWTPayload \<Rightarrow> ShareState \<Rightarrow> string \<Rightarrow> ShareState \<times> Directory" where
  "invite_round toISO db D E E' who s docId =
     (case inviteRequest s docId of
        None \<Rightarrow> (s, D)
      | Some req \<Rightarrow>
          (case dispatch toISO db D E who req of
             (D1, _, res) \<Rightarrow>
               (let s1 = inviteAnswered (inviteStarted s) (Inr res)
                in (if sh_status s1 = ShareSuccess
                    then fetchData s1 (Some (snd (snd (dispatch toISO db D1 E' who (GetCollaborators docId)))))
                      (Some (snd (snd (dispatch toISO db D1 E' who (GetInvites docId)))))
                    else s1, D1))))"

lemma fetchData_same [simp]: "sh_status (fetchData s a b) = sh_status s" "sh_email (fetchData s a b) = sh_email s"
  by (simp_all add: fetchData_def Let_def split: option.split response.split body.split)

text \<open>An invitation is answered with 201, or refused with the tables as they were.\<close>

definition answered_well :: "Directory \<Rightarrow> effect \<Rightarrow> bool" where
  "answered_well D e \<longleftrightarrow> (case snd (snd e) of
     Reply n b \<Rightarrow> n \<in> {201, 400, 403, 404} \<and> (n \<noteq> 201 \<longrightarrow> fst e = D) | Unanswered _ \<Rightarrow> True)"

lemma answered_well_answer: "n \<in> {400, 403, 404} \<Longrightarrow> answered_well D (answer D n b)"
  by (auto simp: answered_well_def answer_def)

lemma answered_well_send: "answered_well D (send_invitation toISO D E who doc d target email role)"
  by (simp add: answered_well_def send_invitation_def split: sum.split prod.split)

lemma postInvite_reply: "answered_well D (postInvite toISO D E who d email role type)"
  by (simp add: postInvite_def Let_def answered_well_answer answered_well_send split: option.split list.split)

text \<open>The share dialog tells the truth: when it reports success the invitation is in the table and in the list of
  pending invitations it shows; when it shows an error, the message is the server's and no invitation was made.\<close>

theorem share_dialog_truthful:
  assumes "directory_ok D" "invite_round toISO db D E E' who s d = (s', D')" "rq_now E' < rq_addHours E (rq_now E) 72"
    and "inviteRequest s d \<noteq> None"
  shows "(sh_status s' = ShareSuccess \<longrightarrow>
      sh_email s' = [] \<and> (\<exists>i. dir_invitations D' = dir_invitations D @ [i] \<and> inv_doc_id i = d \<and>
        inv_invitee_email i = Some (trim_ascii (sh_email s)) \<and> inv_role i = sh_role s \<and>
        (inv_id i, Some (trim_ascii (sh_email s)), sh_role s, inv_expires_at i) \<in> set (sh_invites s') \<and>
        sh_collaborators s' = getCollaborators D' d)) \<and>
    (sh_status s' = ShareError \<longrightarrow> dir_invitations D' = dir_invitations D \<and> sh_email s' = sh_email s)"
proof -
  let ?mail = "trim_ascii (sh_email s)"
  obtain p res where r: "postInvite toISO D E who d (Some ?mail) (Some (sh_role s)) None = (D', p, res)"
    using assms(2,4) by (auto simp: invite_round_def inviteRequest_def Let_def split: prod.splits if_splits)
  define s1 where "s1 = inviteAnswered (inviteStarted s) (Inr res)"
  have s': "s' = (if sh_status s1 = ShareSuccess
      then fetchData s1 (Some (snd (snd (getCollaboratorsRoute toISO D' who d)))) (Some (snd (snd (getInvites toISO D' E' who d))))
      else s1)"
    using assms(2,4) r by (auto simp: invite_round_def inviteRequest_def Let_def s1_def split: if_splits)
  have codes: "n \<in> {201, 400, 403, 404} \<and> (n \<noteq> 201 \<longrightarrow> D' = D)" if "res = Reply n b" for n b
    using postInvite_reply [of D toISO E who d "Some ?mail" "Some (sh_role s)" None] by (simp add: answered_well_def r that)
  show ?thesis
  proof (intro conjI impI)
    assume "sh_status s' = ShareSuccess"
    then have ok: "sh_status s1 = ShareSuccess" unfolding s' by (auto split: if_splits)
    then obtain n b where n: "res = Reply n b" "fetch_ok (Fetched n)"
      by (cases res) (auto simp: s1_def inviteAnswered_def inviteStarted_def split: if_splits)
    then have "n = 201" using codes [OF n(1)] by (auto simp: fetch_ok_def)
    then obtain target :: Account and i where e: "dir_invitations D' = dir_invitations D @ [i]" "inv_doc_id i = d"
        "Some ?mail = Some (acc_email target)" "inv_invitee_email i = Some (acc_email target)" "inv_status i = ''pending''"
        "inv_role i = sh_role s" "inv_expires_at i = rq_addHours E (rq_now E) 72"
        "is_live D d" "role_of D d (jwt_sub who) \<in> {Some ''owner'', Some ''editor''}" and same: "same_rights D D'"
      using invite_effect [OF assms(1), of toISO E who d "Some ?mail" "Some (sh_role s)" None D' p b] r n(1)
      by simp (elim conjE bexE exE; rule that; simp)
    have "getDocumentWithPermission toISO D d (jwt_sub who) \<noteq> None"
    proof
      assume "getDocumentWithPermission toISO D d (jwt_sub who) = None"
      then have "snd (snd (postInvite toISO D E who d (Some ?mail) (Some (sh_role s)) None)) = Reply 404 (ErrorBody ''Document not found'')"
        by (simp add: postInvite_def answer_def)
      then show False using r n(1) \<open>n = 201\<close> by simp
    qed
    then obtain doc where doc: "getDocumentWithPermission toISO D' d (jwt_sub who) = Some doc"
      using same by (auto simp: getDocumentWithPermission_def join_permissions_def live_documents_def same_rights_def)
    have lists: "sh_invites s' = map (\<lambda>i. (inv_id i, inv_invitee_email i, inv_role i, inv_expires_at i)) (pending_invitations D' d (rq_now E'))"
        "sh_collaborators s' = getCollaborators D' d"
      by (simp_all add: s' ok doc getInvites_def getCollaboratorsRoute_def answer_def fetchData_def Let_def fetch_ok_def)
    have "i \<in> set (pending_invitations D' d (rq_now E'))"
      using e assms(3) by (simp add: pending_invitations_def)
    then have "(inv_id i, Some ?mail, sh_role s, inv_expires_at i) \<in> set (sh_invites s')"
      using e(3,4,6) by (force simp: lists(1))
    then show "\<exists>i. dir_invitations D' = dir_invitations D @ [i] \<and> inv_doc_id i = d \<and>
        inv_invitee_email i = Some ?mail \<and> inv_role i = sh_role s \<and>
        (inv_id i, Some ?mail, sh_role s, inv_expires_at i) \<in> set (sh_invites s') \<and>
        sh_collaborators s' = getCollaborators D' d"
      using e(1-4,6) lists(2) by (intro exI [of _ i]) simp
    show "sh_email s' = []"
      using ok n by (simp add: s' s1_def inviteAnswered_def)
  next
    assume err: "sh_status s' = ShareError"
    then have e1: "s' = s1" "sh_status s1 = ShareError"
      by (auto simp: s' split: if_splits)
    then obtain n b where n: "res = Reply n b" "\<not> fetch_ok (Fetched n)"
      by (cases res) (auto simp: s1_def inviteAnswered_def inviteStarted_def split: if_splits)
    then show "dir_invitations D' = dir_invitations D"
      using codes [OF n(1)] by (auto simp: fetch_ok_def)
    show "sh_email s' = sh_email s"
      using n by (simp add: e1(1) s1_def inviteAnswered_def inviteStarted_def)
  qed
qed

theorem share_dialog_truthful_witness:
  "\<exists>s' D'. invite_round example_iso example_db example_directory example_env example_env
     \<lparr>jwt_sub = ''b'', jwt_email = ''b@x'', jwt_displayName = []\<rparr> (openShare\<lparr>sh_email := ''c@x ''\<rparr>) ''d'' = (s', D') \<and>
     sh_status s' = ShareSuccess \<and> length (sh_invites s') \<ge> 1"
proof -
  let ?r = "invite_round example_iso example_db example_directory example_env example_env
     \<lparr>jwt_sub = ''b'', jwt_email = ''b@x'', jwt_displayName = []\<rparr> (openShare\<lparr>sh_email := ''c@x ''\<rparr>) ''d''"
  obtain s' D' where r: "?r = (s', D')" by (metis surj_pair)
  have trim: "trim_ascii ''c@x '' = ''c@x''"
    by (simp add: trim_ascii_def ascii_space_def)
  have ask: "inviteRequest (openShare\<lparr>sh_email := ''c@x ''\<rparr>) ''d'' =
      Some (PostInvite ''d'' (Some ''c@x'') (Some ''editor'') None)"
    by (simp add: inviteRequest_def trim openShare_def)
  let ?p = "postInvite example_iso example_directory example_env \<lparr>jwt_sub = ''b'', jwt_email = ''b@x'', jwt_displayName = []\<rparr>
     ''d'' (Some ''c@x'') (Some ''editor'') None"
  have "\<exists>b. snd (snd ?p) = Reply 201 b"
    by (simp add: example_defs postInvite_def getDocumentWithPermission_def join_permissions_def live_documents_def
        withRole_def Document.defs DocumentPermission_of_def truthy_def is_permission_def collaborator_count_def
        pending_invitations_def send_invitation_def createEmailInvitation_def insert_invitation_def invitation_roles_def
        has_document_def has_user_def createNotification_def Let_def)
  then obtain D1 p b where e: "?p = (D1, p, Reply 201 b)" by (metis prod.collapse)
  have "sh_status s' = ShareSuccess"
    using r by (auto simp: invite_round_def ask e inviteAnswered_def inviteStarted_def fetch_ok_def Let_def)
  moreover have "rq_now example_env < rq_addHours example_env (rq_now example_env) 72" by (simp add: example_env_def)
  ultimately show ?thesis
    using share_dialog_truthful [OF example_directory_ok r] r ask by (fastforce simp: Suc_le_eq intro: length_pos_if_in_set)
qed

text \<open>\<open>removeCollaborator\<close> after its confirmation, answered by the server, and the lists fetched again whatever the answer
  was.\<close>

definition remove_round ::
  "(int \<Rightarrow> string) \<Rightarrow> Database \<Rightarrow> Directory \<Rightarrow> RequestEnv \<Rightarrow> RequestEnv \<Rightarrow> JWTPayload \<Rightarrow> ShareState \<Rightarrow> string \<Rightarrow> string \<Rightarrow> ShareState \<times> Directory" where
  "remove_round toISO db D E E' who s docId userId =
     (case dispatch toISO db D E who (DeleteCollaborator docId userId) of
        (D1, _, _) \<Rightarrow>
          (fetchData s (Some (snd (snd (dispatch toISO db D1 E' who (GetCollaborators docId)))))
             (Some (snd (snd (dispatch toISO db D1 E' who (GetInvites docId))))), D1))"

text \<open>Removing a collaborator takes effect and shows: when the owner of a live document removes another user, that
  user has no right on it any more, everybody else has what he had, and the dialog lists the collaborators of the
  table.\<close>

theorem removed_collaborator_gone:
  assumes "directory_ok D" "is_live D d" "role_of D d (jwt_sub who) = Some ''owner''" "target \<noteq> jwt_sub who"
    and "remove_round toISO db D E E' who s d target = (s', D')"
  shows "(\<forall>v. role_of D' d v = (if v = target then None else role_of D d v)) \<and>
    sh_collaborators s' = getCollaborators D' d \<and> (\<forall>c \<in> set (sh_collaborators s'). col_user_id c \<noteq> target)"
proof -
  obtain r rs where r: "live_documents D d = r # rs"
    using assms(2) by (cases "live_documents D d") (auto simp: is_live_def)
  have doc: "getDocumentWithPermission toISO D d (jwt_sub who) = Some (withRole toISO r ''owner'')"
    by (simp add: permission_lookup [OF assms(1)] r assms(3))
  have D': "D' = removeCollaborator D d target"
    using assms(5) by (simp add: remove_round_def deleteCollaborator_def doc answer_def)
  have roles: "role_of D' d v = (if v = target then None else role_of D d v)" for v
    by (simp add: D' role_of_remove)
  have live: "live_documents D' d = r # rs"
    using r by (simp add: D' removeCollaborator_def live_documents_def)
  have ok: "directory_ok D'"
    unfolding D' by (rule removeCollaborator_ok [OF assms(1)])
  have doc': "getDocumentWithPermission toISO D' d (jwt_sub who) = Some (withRole toISO r ''owner'')"
    using roles assms(3,4) by (simp add: permission_lookup [OF ok] live)
  have shown: "sh_collaborators s' = getCollaborators D' d"
    using assms(5) by (auto simp: remove_round_def deleteCollaborator_def doc answer_def D' [symmetric] getCollaboratorsRoute_def
        getInvites_def doc' fetchData_def fetch_ok_def Let_def)
  have "role_of D' d target = None" using roles by simp
  then have "\<forall>c \<in> set (getCollaborators D' d). col_user_id c \<noteq> target"
    by (auto simp: role_of_None getCollaborators_def is_permission_def)
  with roles shown show ?thesis by simp
qed

theorem removed_collaborator_gone_witness:
  "role_of (snd (remove_round example_iso example_db example_directory example_env example_env
     \<lparr>jwt_sub = ''a'', jwt_email = [], jwt_displayName = []\<rparr> openShare ''d'' ''b'')) ''d'' ''b'' = None"
proof -
  let ?who = "\<lparr>jwt_sub = ''a'', jwt_email = [], jwt_displayName = []\<rparr> :: JWTPayload"
  obtain s' D' where r: "remove_round example_iso example_db example_directory example_env example_env ?who openShare ''d'' ''b'' = (s', D')"
    by (metis surj_pair)
  from removed_collaborator_gone [OF example_directory_ok example_roles(4) _ _ r] r show ?thesis by simp
qed

end
