(* ===== verification/Revision_Panel.thy ===== *)
theory Revision_Panel
  imports Client_App Operation_Handler
begin

text \<open>
  The side panel of the editor: the milestones of \<^verbatim>\<open>src/client/components/RevisionHistory.tsx\<close> with their
  \<open>Revert\<close> buttons, the form of \<^verbatim>\<open>components/Editor.tsx\<close> that tags one, and the peers of
  \<^verbatim>\<open>components/PresenceOverlay.tsx\<close>. React state is a record, a handler a function on it and on what
  \<open>fetch\<close> brought, \<open>alert\<close>s are collected. The lemmas compose the panel with the routes of the server:
  what a restore does to the stored and the served document, and that the panel's \<open>Revert\<close> never gets there:
  \<open>revisions.seq\<close> is a \<open>BIGINT\<close>, which \<open>pg\<close> returns as text, the panel sends it back as it is, and the
  schema of the route wants a number.
\<close>

section \<open>The list\<close>

record RevPanel =
  rv_revisions :: "ListedRevision list"
  rv_loading :: bool
  rv_error :: "string option"
  rv_restoring :: "json option"
  rv_alerts :: "string list"
  rv_restored :: "int option"

definition openPanel :: RevPanel where
  "openPanel = \<lparr>rv_revisions = [], rv_loading = True, rv_error = None, rv_restoring = None, rv_alerts = [], rv_restored = None\<rparr>"

text \<open>\<open>fetchRevisions\<close> up to its \<open>await\<close>, and with the answer: the text of the exception, or a response. A
  request whose handler threw is never answered.\<close>

definition fetchStarted :: "RevPanel \<Rightarrow> RevPanel" where
  "fetchStarted p = p\<lparr>rv_loading := True\<rparr>"

definition fetchAnswered :: "RevPanel \<Rightarrow> string + response \<Rightarrow> RevPanel" where
  "fetchAnswered p res =
     (case res of
        Inl m \<Rightarrow> p\<lparr>rv_error := Some m, rv_loading := False\<rparr>
      | Inr (Reply n b) \<Rightarrow>
          if \<not> fetch_ok (Fetched n) then p\<lparr>rv_error := Some ''Failed to fetch revisions'', rv_loading := False\<rparr>
          else (case b of RevisionsBody rs \<Rightarrow> p\<lparr>rv_revisions := rs, rv_loading := False\<rparr> | _ \<Rightarrow> p\<lparr>rv_loading := False\<rparr>)
      | Inr (Unanswered _) \<Rightarrow> p)"

text \<open>What is on the screen.\<close>

datatype panel_screen = PanelLoading | PanelError string | PanelEmpty | PanelRows "(json \<times> string option \<times> bool) list"

definition panel_view :: "RevPanel \<Rightarrow> panel_screen" where
  "panel_view p =
     (if rv_loading p then PanelLoading
      else case rv_error p of
        Some m \<Rightarrow> if m = [] then (if rv_revisions p = [] then PanelEmpty
            else PanelRows (map (\<lambda>r. (lr_seq r, lr_label r, rv_restoring p \<noteq> None)) (rv_revisions p)))
          else PanelError m
      | None \<Rightarrow> if rv_revisions p = [] then PanelEmpty
          else PanelRows (map (\<lambda>r. (lr_seq r, lr_label r, rv_restoring p \<noteq> None)) (rv_revisions p)))"

section \<open>Revert\<close>

text \<open>\<open>handleRestore\<close>: nothing without the user's confirmation; the buttons are disabled during a restore. \<open>seq\<close> is
  the value the answer's JSON had, whatever its declared type.\<close>

definition handleRestore :: "RevPanel \<Rightarrow> json \<Rightarrow> bool \<Rightarrow> RevPanel \<times> json option" where
  "handleRestore p seq confirmed =
     (if \<not> confirmed then (p, None)
      else (p\<lparr>rv_restoring := Some seq\<rparr>, Some (JObj [(''targetSeq'', seq)])))"

definition restoreAnswered :: "RevPanel \<Rightarrow> string + restore_response \<Rightarrow> RevPanel" where
  "restoreAnswered p res =
     (case res of
        Inl m \<Rightarrow> p\<lparr>rv_alerts := rv_alerts p @ [''Error: '' @ m], rv_restoring := None\<rparr>
      | Inr (RestoreError n m) \<Rightarrow> p\<lparr>rv_alerts := rv_alerts p @ [''Error: '' @ m], rv_restoring := None\<rparr>
      | Inr (Restored newSeq targetSeq textLength preview) \<Rightarrow>
          p\<lparr>rv_restored := Some newSeq, rv_alerts := rv_alerts p @ [''Document successfully restored!''], rv_restoring := None\<rparr>
      | Inr (RestoreThrew e) \<Rightarrow> p)"

text \<open>The route with its validation and the caller's role.\<close>

definition postRestore ::
  "(int \<Rightarrow> string) \<Rightarrow> Directory \<Rightarrow> ('c, 'r) Deps \<Rightarrow> Call \<Rightarrow> ('c, 'r) Server \<Rightarrow> JWTPayload \<Rightarrow> string \<Rightarrow> json \<Rightarrow> string \<Rightarrow>
     string \<Rightarrow> ('c, 'r) Server \<times> restore_response" where
  "postRestore toISO Dir D call sv who docId req_body sessionUuid nonce =
     (case RestoreRevisionSchema req_body of
        None \<Rightarrow> (sv, RestoreError 400 ''Validation failed'')
      | Some (targetSeq, label) \<Rightarrow>
          restoreRoute D call sv (map_option doc_role (getDocumentWithPermission toISO Dir docId (jwt_sub who)))
            (jwt_sub who) docId targetSeq sessionUuid nonce)"

definition revert_round ::
  "(int \<Rightarrow> string) \<Rightarrow> Directory \<Rightarrow> ('c, 'r) Deps \<Rightarrow> Call \<Rightarrow> ('c, 'r) Server \<Rightarrow> JWTPayload \<Rightarrow> RevPanel \<Rightarrow> string \<Rightarrow> json \<Rightarrow>
     string \<Rightarrow> string \<Rightarrow> RevPanel \<times> ('c, 'r) Server" where
  "revert_round toISO Dir D call sv who p docId seq sessionUuid nonce =
     (case handleRestore p seq True of
        (p1, Some v) \<Rightarrow>
          (case postRestore toISO Dir D call sv who docId v sessionUuid nonce of
             (sv', res) \<Rightarrow> (restoreAnswered p1 (Inr res), sv'))
      | (p1, None) \<Rightarrow> (p1, sv))"

section \<open>Tagging\<close>

record TagForm =
  tg_name :: js_text
  tg_saving :: bool
  tg_alerts :: "string list"
  tg_reloaded :: bool

text \<open>\<open>handleSaveTag\<close>: its request, the form while it runs, and the form after the answer's status.\<close>

definition saveTagRequest :: "TagForm \<Rightarrow> json option" where
  "saveTagRequest f = (if js_trim (tg_name f) = [] then None else Some (JObj [(''label'', JStr (tg_name f))]))"

definition saveTagStarted :: "TagForm \<Rightarrow> TagForm" where
  "saveTagStarted f = (if js_trim (tg_name f) = [] then f else f\<lparr>tg_saving := True\<rparr>)"

definition saveTagAnswered :: "TagForm \<Rightarrow> string + int \<Rightarrow> TagForm" where
  "saveTagAnswered f res =
     (case res of
        Inl m \<Rightarrow> f\<lparr>tg_alerts := tg_alerts f @ [''Error: '' @ m], tg_saving := False\<rparr>
      | Inr n \<Rightarrow>
          if \<not> fetch_ok (Fetched n)
          then f\<lparr>tg_alerts := tg_alerts f @ [''Error: Failed to create revision tag''], tg_saving := False\<rparr>
          else f\<lparr>tg_name := [], tg_alerts := tg_alerts f @ [''Revision tag saved!''], tg_reloaded := True, tg_saving := False\<rparr>)"

section \<open>Peers and status\<close>

definition activePeers :: "UserPresence list \<Rightarrow> string option \<Rightarrow> UserPresence list" where
  "activePeers presence me = filter (\<lambda>p. Some (p_sessionId p) \<noteq> me) presence"

definition statusColor :: "string \<Rightarrow> string" where
  "statusColor status =
     (if status = ''connected'' then ''var(--signal-success)''
      else if status = ''connecting'' then ''var(--signal-warning)'' else ''var(--signal-error)'')"

section \<open>A restore\<close>

lemma schema_target: "RestoreRevisionSchema (JObj [(''targetSeq'', JNum n)]) = (if 0 < n then Some (n, None) else None)"
  by (simp add: RestoreRevisionSchema_def field_def)

lemma schema_text: "RestoreRevisionSchema (JObj [(''targetSeq'', JStr t)]) = None"
  by (simp add: RestoreRevisionSchema_def field_def)

lemma listed_seq:
  assumes "x \<in> set (listRevisions db d)"
  shows "\<exists>r \<in> set (db_revisions db). rrow_doc_id r = d \<and> lr_seq x = JStr (ascii (show_int (rrow_seq r)))"
  using assms by (auto simp: listRevisions_def split: option.splits)

lemma restoreRoute_done:
  assumes "restoreToRevision (dp_sha256 D) (ca_commits call) (sv_db sv)
      \<lparr>rp_docId = d, rp_targetSeq = n, rp_userId = u, rp_sessionId = sess\<rparr> (ca_opId call) nonce (ca_snapId call) (ca_created call) =
      (db, Inr (env, txt, newSeq))" "ca_publishOk call" "role \<noteq> viewer"
  shows "restoreRoute D call sv (Some role) u d n sess nonce =
    (sv\<lparr>sv_db := db, sv_worker := invalidateDocument (dp_lru D) (sv_worker sv) d, sv_published := sv_published sv @ [env]\<rparr>,
     Restored newSeq n (length txt) (take 200 txt))"
  using assms by (simp add: restoreRoute_def split: DocumentPermission.split)

text \<open>C32: A restore takes effect at once and for everybody: when an owner or editor asks for the version at a positive
  seq, on a worker reached from an empty cache, and PostgreSQL commits and Redis takes the publication, the
  answer names the next seq and the text of that version, and that version is what the store now holds and what the worker serves to
  whoever joins next - not the document it had in its cache -, and one envelope with the next seq is published.\<close>

theorem restore_request_served:
  assumes "server_reach D view s0 sv" "fresh_worker D view s0" "lru_ok (dp_lru D) view"
    and "snapshotOpsThreshold (dp_compactor D) \<le> 10000"
    and "document_exists (sv_db sv) d" "user_exists (sv_db sv) (jwt_sub who)" "ca_commits call" "ca_publishOk call"
    and "getDocumentWithPermission toISO Dir d (jwt_sub who) = Some doc" "doc_role doc \<noteq> viewer" "0 < n"
    and "postRestore toISO Dir D call sv who d (JObj [(''targetSeq'', JNum n)]) sess nonce = (sv', resp)"
    and "old = fst (reconstructAtSeq (sv_db sv) d n)" "lastSeq = getMaxSeq (sv_db sv) d"
    and "getOrLoadDocument (dp_lru D) (sv_worker sv') (sv_db sv') d now = (w, e)"
  shows "resp = Restored (lastSeq + 1) n (length (toText old)) (take 200 (toText old)) \<and>
    cd_doc (loadDocumentFromDB (sv_db sv') d t) = old \<and> cd_doc (w_heap w e) = old \<and> getMaxSeq (sv_db sv') d = lastSeq + 1 \<and>
    (\<exists>env. sv_published sv' = sv_published sv @ [env] \<and> env_seq env = lastSeq + 1)"
proof -
  let ?u = "jwt_sub who" and ?L = "snapshotOpsThreshold (dp_compactor D)"
  let ?ps = "\<lparr>rp_docId = d, rp_targetSeq = n, rp_userId = ?u, rp_sessionId = sess\<rparr>"
  have inv: "server_inv ?L view sv" using reach_inv [OF assms(1,3) fresh_inv [OF assms(2)] assms(4)] by blast
  then have docs: "docs_ok (sv_db sv)" by (simp add: server_inv_def server_ok_def)
  obtain db res where rs: "restoreToRevision (dp_sha256 D) True (sv_db sv) ?ps (ca_opId call) nonce (ca_snapId call)
      (ca_created call) = (db, res)" by (rule prod.exhaust)
  note k = restore_keeps [OF docs _ _ _ rs, of d, simplified, OF assms(5,6)]
  from k obtain env where res: "res = Inr (env, toText (pg.replica db d), lastSeq + 1)" by (auto simp: assms(14))
  have env: "env_seq env = lastSeq + 1"
    using restore_history(2) [OF docs refl _ _ rs TrueI] assms(5,6) by (auto simp: res assms(14))
  note route = restoreRoute_done [OF rs [unfolded res, folded assms(7) [THEN eqTrueI]] assms(8,10)]
  have post: "sv' = sv\<lparr>sv_db := db, sv_worker := invalidateDocument (dp_lru D) (sv_worker sv) d, sv_published := sv_published sv @ [env]\<rparr>"
    "resp = Restored (lastSeq + 1) n (length (toText (pg.replica db d))) (take 200 (toText (pg.replica db d)))"
    using assms(9,11,12) route by (simp_all add: postRestore_def schema_target)
  have rep: "pg.replica db d = old" using k by (simp add: assms(13))
  have "server_inv ?L view sv'" using restore_inv [OF assms(3) inv assms(5,6,7) route] by (simp add: post(1))
  then have ok: "docs_ok (sv_db sv')" "coherent view (sv_worker sv') (sv_db sv')"
    and bound: "pg.pending (sv_db sv') d \<le> int defaultLoadLimit"
    using assms(4) by (auto simp: server_inv_def server_ok_def defaultLoadLimit_def dest!: spec [of _ d])
  have "cd_doc (w_heap w e) = pg.replica (sv_db sv') d"
    using get_coherent(3) [OF assms(3) docs_okD(1) [OF ok(1)] ok(2) bound assms(15)] by (simp add: coherent_entry_def)
  moreover have "cd_doc (loadDocumentFromDB (sv_db sv') d t) = pg.replica (sv_db sv') d"
    using load_doc [OF docs_okD(1) [OF ok(1)], of d t] bound by (simp add: defaultLoadLimit_def)
  moreover have "getMaxSeq db d = lastSeq + 1" using k by (simp add: assms(14))
  ultimately show ?thesis using rep env by (simp add: post)
qed


text \<open>A store with two letters typed, the first one tagged.\<close>

definition milestone_db :: Database where
  "milestone_db = typed_db\<lparr>db_revisions := [\<lparr>rrow_id = ''r'', rrow_doc_id = ''d'', rrow_seq = 1, rrow_label = Some ''m'',
     rrow_created_by = ''u'', rrow_created_at = ''t''\<rparr>]\<rparr>"

definition milestone_directory :: Directory where
  "milestone_directory = example_directory\<lparr>dir_permissions := [\<lparr>perm_doc_id = ''d'', perm_user_id = ''u'', perm_role = ''editor''\<rparr>]\<rparr>"

lemma milestone_access:
  "\<exists>doc. getDocumentWithPermission example_iso milestone_directory ''d'' ''u'' = Some doc \<and> doc_role doc = editor"
  by (simp add: getDocumentWithPermission_def join_permissions_def live_documents_def milestone_directory_def
      example_directory_def) (simp add: DocumentPermission_of_def)

theorem restore_request_served_witness:
  "\<exists>sv'. postRestore example_iso milestone_directory example_deps (example_call ''i'') typed_server
      \<lparr>jwt_sub = ''u'', jwt_email = [], jwt_displayName = []\<rparr> ''d'' (JObj [(''targetSeq'', JNum 1)]) ''x'' ''y'' =
        (sv', Restored 3 1 1 [97]) \<and>
    toText (cd_doc (loadDocumentFromDB (sv_db sv') ''d'' 0)) = [97]"
proof -
  let ?who = "\<lparr>jwt_sub = ''u'', jwt_email = [], jwt_displayName = []\<rparr> :: JWTPayload"
  obtain sv' resp where post: "postRestore example_iso milestone_directory example_deps (example_call ''i'') typed_server
      ?who ''d'' (JObj [(''targetSeq'', JNum 1)]) ''x'' ''y'' = (sv', resp)" by (rule prod.exhaust)
  obtain w e where load: "getOrLoadDocument (dp_lru example_deps) (sv_worker sv') (sv_db sv') ''d'' 0 = (w, e)" by (rule prod.exhaust)
  obtain doc where doc: "getDocumentWithPermission example_iso milestone_directory ''d'' (jwt_sub ?who) = Some doc" "doc_role doc \<noteq> viewer"
    using milestone_access by auto
  have pre: "lru_ok (dp_lru example_deps) (\<lambda>c. c)" "snapshotOpsThreshold (dp_compactor example_deps) \<le> 10000"
    "document_exists (sv_db typed_server) ''d''" "user_exists (sv_db typed_server) (jwt_sub ?who)"
    "ca_commits (example_call ''i'')" "ca_publishOk (example_call ''i'')"
    by (simp_all add: example_deps_def map_lru_ok example_call_def typed_server_def typed_db_def example_db_def document_exists_def user_exists_def)
  have old: "toText (fst (reconstructAtSeq typed_db ''d'' 1)) = [97]" by code_simp
  have db: "sv_db typed_server = typed_db" by (simp add: typed_server_def)
  show ?thesis
    using restore_request_served [OF server_reach.start typed_fresh pre doc zero_less_one post refl refl load, of 0] post
    by (simp add: db old typed_store)
qed


section \<open>Peers\<close>

text \<open>Everyone else is shown, and the user is not.\<close>

lemma active_peers: "p \<in> set (activePeers ps (Some me)) \<longleftrightarrow> p \<in> set ps \<and> p_sessionId p \<noteq> me"
  by (auto simp: activePeers_def)

end
