(* ===== verification/Http_Router.thy ===== *)
theory Http_Router
  imports Revision_Panel
begin

text \<open>
  The HTTP surface of the server: the routers \<^verbatim>\<open>src/server/transport/http-server.ts\<close> mounts, the method and
  path of every handler under \<^verbatim>\<open>src/server/api/routes/\<close>, and the requests the pages of \<^verbatim>\<open>src/client/\<close> send. Express
  takes the first route that matches; a router behind \<open>requireAuth\<close> answers 401 as soon as its
  prefix matches; what no route takes is answered with 404. Literal segments match in any case, a
  parameter is one segment that is not empty, one trailing slash is ignored. The lemmas say what a
  client without a token reaches and that the client's requests arrive where they are meant to.
\<close>

section \<open>Matching\<close>

datatype http_method = GET | POST | PATCH | DEL

datatype segment = Lit string | Param

definition ascii_lower :: "char \<Rightarrow> char" where
  "ascii_lower c = (let n = of_char c :: nat in if 65 \<le> n \<and> n \<le> 90 then char_of (n + 32) else c)"

definition segments :: "string \<Rightarrow> string list" where
  "segments p = (case split_on (CHR ''/'') p of
      [] # ss \<Rightarrow> if ss \<noteq> [] \<and> last ss = [] then butlast ss else ss
    | _ \<Rightarrow> [])"

text \<open>The parameters and what is left of the path.\<close>

fun match_prefix :: "segment list \<Rightarrow> string list \<Rightarrow> (string list \<times> string list) option" where
  "match_prefix [] ss = Some ([], ss)"
| "match_prefix (p # ps) [] = None"
| "match_prefix (Lit l # ps) (s # ss) = (if map ascii_lower s = l then match_prefix ps ss else None)"
| "match_prefix (Param # ps) (s # ss) =
     (if s = [] then None else map_option (\<lambda>(xs, rest). (s # xs, rest)) (match_prefix ps ss))"

section \<open>The routers\<close>

datatype handler =
    Health | Auth_register | Auth_login | Auth_refresh | Auth_logout
  | Docs_post | Docs_get | Doc_get | Doc_delete | Invites_post | Invites_get | Collaborators_get | Collaborator_patch
  | Collaborator_delete | History_get | Revisions_get | Snapshots_get | Restore_post | Invite_get | Invite_accept
  | Invite_reject | Invite_revoke | Notifications_get | Notifications_read_all | Notification_read | Notification_delete
  | Dashboard_get

type_synonym router_entry = "http_method \<times> segment list \<times> handler"

record mount =
  mt_prefix :: "segment list"
  mt_auth :: bool
  mt_routes :: "router_entry list"

definition authRouter :: "router_entry list" where
  "authRouter = [(POST, [Lit ''register''], Auth_register), (POST, [Lit ''login''], Auth_login),
     (POST, [Lit ''refresh''], Auth_refresh), (POST, [Lit ''logout''], Auth_logout)]"

definition documentsRouter :: "router_entry list" where
  "documentsRouter = [(POST, [], Docs_post), (GET, [], Docs_get), (GET, [Param], Doc_get), (DEL, [Param], Doc_delete),
     (POST, [Param, Lit ''invites''], Invites_post), (GET, [Param, Lit ''invites''], Invites_get),
     (GET, [Param, Lit ''collaborators''], Collaborators_get),
     (PATCH, [Param, Lit ''collaborators'', Param], Collaborator_patch),
     (DEL, [Param, Lit ''collaborators'', Param], Collaborator_delete)]"

definition historyRouter :: "router_entry list" where
  "historyRouter = [(GET, [], History_get), (GET, [Lit ''revisions''], Revisions_get), (GET, [Lit ''snapshots''], Snapshots_get)]"

definition restoreRouter :: "router_entry list" where
  "restoreRouter = [(POST, [], Restore_post)]"

definition invitesRouter :: "router_entry list" where
  "invitesRouter = [(GET, [Param], Invite_get), (POST, [Param, Lit ''accept''], Invite_accept),
     (POST, [Param, Lit ''reject''], Invite_reject), (DEL, [Param], Invite_revoke)]"

definition notificationsRouter :: "router_entry list" where
  "notificationsRouter = [(GET, [], Notifications_get), (PATCH, [Lit ''read-all''], Notifications_read_all),
     (PATCH, [Param, Lit ''read''], Notification_read), (DEL, [Param], Notification_delete)]"

definition dashboardRouter :: "router_entry list" where
  "dashboardRouter = [(GET, [], Dashboard_get)]"

definition mounts :: "mount list" where
  "mounts =
     [\<lparr>mt_prefix = [Lit ''api'', Lit ''auth''], mt_auth = False, mt_routes = authRouter\<rparr>,
      \<lparr>mt_prefix = [Lit ''api'', Lit ''docs''], mt_auth = True, mt_routes = documentsRouter\<rparr>,
      \<lparr>mt_prefix = [Lit ''api'', Lit ''docs'', Param, Lit ''history''], mt_auth = True, mt_routes = historyRouter\<rparr>,
      \<lparr>mt_prefix = [Lit ''api'', Lit ''docs'', Param, Lit ''restore''], mt_auth = True, mt_routes = restoreRouter\<rparr>,
      \<lparr>mt_prefix = [Lit ''api'', Lit ''invites''], mt_auth = True, mt_routes = invitesRouter\<rparr>,
      \<lparr>mt_prefix = [Lit ''api'', Lit ''notifications''], mt_auth = True, mt_routes = notificationsRouter\<rparr>,
      \<lparr>mt_prefix = [Lit ''api'', Lit ''dashboard''], mt_auth = True, mt_routes = dashboardRouter\<rparr>]"

datatype routed = Handled handler "string list" | Status int

fun find_route :: "http_method \<Rightarrow> string list \<Rightarrow> router_entry list \<Rightarrow> (handler \<times> string list) option" where
  "find_route m ss [] = None"
| "find_route m ss ((m', pat, h) # rs) =
     (if m' = m then case match_prefix pat ss of Some (ps, []) \<Rightarrow> Some (h, ps) | _ \<Rightarrow> find_route m ss rs
      else find_route m ss rs)"

fun try_mounts :: "bool \<Rightarrow> http_method \<Rightarrow> string list \<Rightarrow> mount list \<Rightarrow> routed" where
  "try_mounts authed m ss [] = Status 404"
| "try_mounts authed m ss (r # rs) =
     (case match_prefix (mt_prefix r) ss of
        None \<Rightarrow> try_mounts authed m ss rs
      | Some (ps, rest) \<Rightarrow>
          if mt_auth r \<and> \<not> authed then Status 401
          else (case find_route m rest (mt_routes r) of
              Some (h, qs) \<Rightarrow> Handled h (ps @ qs) | None \<Rightarrow> try_mounts authed m ss rs))"

definition route :: "bool \<Rightarrow> http_method \<Rightarrow> string \<Rightarrow> routed" where
  "route authed m path =
     (case find_route m (segments path) [(GET, [Lit ''health''], Health)] of
        Some (h, ps) \<Rightarrow> Handled h ps | None \<Rightarrow> try_mounts authed m (segments path) mounts)"

definition healthCheck :: "bool \<Rightarrow> bool \<Rightarrow> int" where
  "healthCheck pgUp redisUp = (if pgUp \<and> redisUp then 200 else 503)"

section \<open>Without a token\<close>

definition public_handlers :: "handler set" where
  "public_handlers = {Health, Auth_register, Auth_login, Auth_refresh, Auth_logout}"

lemma find_route_in: "find_route m ss rs = Some (h, ps) \<Longrightarrow> h \<in> snd ` snd ` set rs"
  by (induction rs) (auto split: if_splits option.splits list.splits)

lemma try_mounts_public:
  assumes "try_mounts False m ss ms = Handled h ps" "\<And>r. r \<in> set ms \<Longrightarrow> \<not> mt_auth r \<Longrightarrow> snd ` snd ` set (mt_routes r) \<subseteq> H"
  shows "h \<in> H"
  using assms
proof (induction ms)
  case (Cons r ms)
  have rest: "h \<in> H" if "try_mounts False m ss ms = Handled h ps" using Cons.IH [OF that] Cons.prems(2) by simp
  show ?case
  proof (cases "match_prefix (mt_prefix r) ss")
    case None
    then show ?thesis using Cons.prems(1) rest by simp
  next
    case (Some x)
    obtain qs left where x: "x = (qs, left)" by (cases x)
    have public: "\<not> mt_auth r" using Cons.prems(1) Some x by (simp split: if_splits)
    show ?thesis
    proof (cases "find_route m left (mt_routes r)")
      case None
      then show ?thesis using Cons.prems(1) rest Some x public by simp
    next
      case (Some y)
      then have "h = fst y" using Cons.prems(1) \<open>match_prefix (mt_prefix r) ss = Some x\<close> x public by (cases y) simp
      moreover have "fst y \<in> snd ` snd ` set (mt_routes r)"
        using find_route_in [of m left "mt_routes r" "fst y" "snd y"] Some by simp
      ultimately show ?thesis using Cons.prems(2) [of r] public by auto
    qed
  qed
qed simp

text \<open>C28: No handler but the health check and the four of \<^verbatim>\<open>auth.ts\<close> runs without a valid access token,
  whatever the method and the path: every other request without one is answered with 401 or 404.\<close>

theorem handlers_need_token:
  assumes "route False m path = Handled h ps"
  shows "h \<in> public_handlers"
proof (cases "find_route m (segments path) [(GET, [Lit ''health''], Health)]")
  case None
  then have "try_mounts False m (segments path) mounts = Handled h ps" using assms by (simp add: route_def)
  then show ?thesis
    by (rule try_mounts_public) (auto simp: mounts_def authRouter_def public_handlers_def)
next
  case (Some x)
  then have "h = Health" using assms by (auto simp: route_def split: if_splits option.splits list.splits)
  then show ?thesis by (simp add: public_handlers_def)
qed

section \<open>The client's requests\<close>

datatype client_fetch =
    SubmitAuth bool | FetchDetails string | FetchDashboard | CreateDocument | FetchCollaborators string | FetchInvites string
  | SendInvite string | RemoveCollaborator string string | FetchRevisions string | SendRestore string | SaveTag string
  | FetchNotifications | ReadAll | ReadOne string | AnswerInvite string bool

fun client_request :: "client_fetch \<Rightarrow> http_method \<times> string" where
  "client_request (SubmitAuth isRegister) = (POST, if isRegister then ''/api/auth/register'' else ''/api/auth/login'')"
| "client_request (FetchDetails d) = (GET, ''/api/docs/'' @ d)"
| "client_request FetchDashboard = (GET, ''/api/dashboard'')"
| "client_request CreateDocument = (POST, ''/api/docs'')"
| "client_request (FetchCollaborators d) = (GET, ''/api/docs/'' @ d @ ''/collaborators'')"
| "client_request (FetchInvites d) = (GET, ''/api/docs/'' @ d @ ''/invites'')"
| "client_request (SendInvite d) = (POST, ''/api/docs/'' @ d @ ''/invites'')"
| "client_request (RemoveCollaborator d u) = (DEL, ''/api/docs/'' @ d @ ''/collaborators/'' @ u)"
| "client_request (FetchRevisions d) = (GET, ''/api/docs/'' @ d @ ''/history/revisions'')"
| "client_request (SendRestore d) = (POST, ''/api/docs/'' @ d @ ''/restore'')"
| "client_request (SaveTag d) = (POST, ''/api/docs/'' @ d @ ''/history/revisions'')"
| "client_request FetchNotifications = (GET, ''/api/notifications'')"
| "client_request ReadAll = (PATCH, ''/api/notifications/read-all'')"
| "client_request (ReadOne i) = (PATCH, ''/api/notifications/'' @ i @ ''/read'')"
| "client_request (AnswerInvite token accepted) =
     (POST, ''/api/invites/'' @ token @ (if accepted then ''/accept'' else ''/reject''))"

text \<open>Where a request is meant to arrive, with its parameters.\<close>

fun meant_for :: "client_fetch \<Rightarrow> routed" where
  "meant_for (SubmitAuth isRegister) = Handled (if isRegister then Auth_register else Auth_login) []"
| "meant_for (FetchDetails d) = Handled Doc_get [d]"
| "meant_for FetchDashboard = Handled Dashboard_get []"
| "meant_for CreateDocument = Handled Docs_post []"
| "meant_for (FetchCollaborators d) = Handled Collaborators_get [d]"
| "meant_for (FetchInvites d) = Handled Invites_get [d]"
| "meant_for (SendInvite d) = Handled Invites_post [d]"
| "meant_for (RemoveCollaborator d u) = Handled Collaborator_delete [d, u]"
| "meant_for (FetchRevisions d) = Handled Revisions_get [d]"
| "meant_for (SendRestore d) = Handled Restore_post [d]"
| "meant_for (SaveTag d) = Status 404"
| "meant_for FetchNotifications = Handled Notifications_get []"
| "meant_for ReadAll = Handled Notifications_read_all []"
| "meant_for (ReadOne i) = Handled Notification_read [i]"
| "meant_for (AnswerInvite token accepted) = Handled (if accepted then Invite_accept else Invite_reject) [token]"

text \<open>Identifiers and tokens: not empty and without a slash.\<close>

definition plain_segment :: "string \<Rightarrow> bool" where
  "plain_segment s \<longleftrightarrow> s \<noteq> [] \<and> CHR ''/'' \<notin> set s"

fun plain_fetch :: "client_fetch \<Rightarrow> bool" where
  "plain_fetch (RemoveCollaborator d u) = (plain_segment d \<and> plain_segment u)"
| "plain_fetch f = (case f of FetchDetails d \<Rightarrow> plain_segment d | FetchCollaborators d \<Rightarrow> plain_segment d
     | FetchInvites d \<Rightarrow> plain_segment d | SendInvite d \<Rightarrow> plain_segment d | FetchRevisions d \<Rightarrow> plain_segment d
     | SendRestore d \<Rightarrow> plain_segment d | SaveTag d \<Rightarrow> plain_segment d | ReadOne d \<Rightarrow> plain_segment d
     | AnswerInvite d b \<Rightarrow> plain_segment d | _ \<Rightarrow> True)"

lemma split_segment: "CHR ''/'' \<notin> set s \<Longrightarrow> split_on (CHR ''/'') (s @ CHR ''/'' # t) = s # split_on (CHR ''/'') t"
  by (simp add: split_on_join split_on_no)

lemma plain_split:
  "plain_segment s \<Longrightarrow> split_on (CHR ''/'') (s @ CHR ''/'' # t) = s # split_on (CHR ''/'') t"
  "plain_segment s \<Longrightarrow> split_on (CHR ''/'') s = [s]" "plain_segment s \<Longrightarrow> s \<noteq> []"
  by (simp_all add: plain_segment_def split_segment split_on_no)

lemmas routing = route_def segments_def mounts_def authRouter_def documentsRouter_def historyRouter_def restoreRouter_def
  invitesRouter_def notificationsRouter_def dashboardRouter_def ascii_lower_def plain_split

lemma requests_routed: "plain_fetch f \<Longrightarrow> route True (fst (client_request f)) (snd (client_request f)) = meant_for f"
  by (cases f) (simp_all add: routing)

text \<open>C33: Client and server agree on the API. Every request the pages send, for identifiers that are
  single path segments, arrives at the handler it is meant for with the identifiers as its parameters - save
  one: the request that tags a milestone is answered with 404, so the form always reports the failure.\<close>

theorem client_requests_arrive:
  assumes "plain_fetch f"
  shows "route True (fst (client_request f)) (snd (client_request f)) = meant_for f"
  using assms by (rule requests_routed)

theorem client_requests_arrive_witness:
  "route True DEL ''/api/docs/d/collaborators/u'' = Handled Collaborator_delete [''d'', ''u'']"
  using client_requests_arrive [of "RemoveCollaborator ''d'' ''u''"] by (simp add: plain_segment_def)

theorem handlers_need_token_witness:
  "route False POST ''/API/auth/login/'' = Handled Auth_login [] \<and> Auth_login \<in> public_handlers \<and>
   route False GET ''/api/docs/d/history'' = Status 401 \<and> route False GET ''/api'' = Status 404"
proof -
  have "route False POST ''/API/auth/login/'' = Handled Auth_login []" by code_simp
  from handlers_need_token [OF this] this show ?thesis by (simp add: routing)
qed

text \<open>The whole of tagging: whatever the user types, nothing is tagged, the form shows the error and keeps the name.\<close>

theorem tagging_always_fails:
  assumes "saveTagRequest f = Some v" "plain_segment d"
    and "route True (fst (client_request (SaveTag d))) (snd (client_request (SaveTag d))) = Status n"
  shows "saveTagAnswered (saveTagStarted f) (Inr n) =
    f\<lparr>tg_alerts := tg_alerts f @ [''Error: Failed to create revision tag''], tg_saving := False\<rparr>"
proof -
  have "n = 404" using requests_routed [of "SaveTag d"] assms(2,3) by simp
  then show ?thesis
    using assms(1) by (simp add: saveTagAnswered_def saveTagStarted_def saveTagRequest_def fetch_ok_def split: if_splits)
qed

theorem tagging_always_fails_witness:
  "tg_alerts (saveTagAnswered (saveTagStarted \<lparr>tg_name = [109], tg_saving = False, tg_alerts = [], tg_reloaded = False\<rparr>) (Inr 404)) =
     [''Error: Failed to create revision tag'']"
  using tagging_always_fails [of "\<lparr>tg_name = [109], tg_saving = False, tg_alerts = [], tg_reloaded = False\<rparr>" _ "''d''" 404]
    requests_routed [of "SaveTag ''d''"]
  by (simp add: saveTagRequest_def js_trim_def js_whitespace_def plain_segment_def)

end
