(* ===== verification/Interleaved_Handlers.thy ===== *)
theory Interleaved_Handlers
  imports Operation_Handler
begin

text \<open>
  One worker with many handlers at once. Node.js runs the code between two \<open>await\<close>s without
  interruption, but at each \<open>await\<close> of \<^verbatim>\<open>sync/document-cache.ts\<close> (the two queries of
  \<open>loadDocumentFromDB\<close>, the shared promises of \<open>loadingPromises\<close>) and of steps 4 to 8 of
  \<^verbatim>\<open>sync/operation-handler.ts\<close> other handlers may run. A state holds the worker, the database, the
  loads and the handlers with the \<open>await\<close> each has reached; one step function per stretch of code
  between two \<open>await\<close>s moves it, and \<open>do_event\<close> puts them together with what the environment does:
  the cache package dropping an entry, another writer, an invalidation. The background
  snapshots of step 9 are not among the steps.
\<close>

section \<open>Loads and handlers\<close>

datatype load_phase =
    Load_started
  | Base_read "SnapshotRecord option"
  | Ops_read "SnapshotRecord option" "OperationEnvelope list"
  | Load_done entry_ref
  | Load_failed db_error

record Load =
  ld_docId :: string
  ld_phase :: load_phase

datatype caller = Operate ServerSession OperationMessage | Open string

datatype stage =
    Awaiting nat
  | Holding entry_ref
  | Appending
  | Appended OperationEnvelope
  | Publishing OperationEnvelope
  | Finished OperationEnvelope
  | Failed db_error

record Task =
  tk_caller :: caller
  tk_stage :: stage

record Sched =
  sc_worker :: "(string \<Rightarrow> entry_ref option) Worker"
  sc_db :: Database
  sc_loading :: "string \<rightharpoonup> nat"
  sc_loads :: "nat \<rightharpoonup> Load"
  sc_nextLoad :: nat
  sc_tasks :: "nat \<rightharpoonup> Task"
  sc_published :: "OperationEnvelope list"

fun caller_doc :: "caller \<Rightarrow> string" where
  "caller_doc (Operate session msg) = msg_docId msg"
| "caller_doc (Open d) = d"

abbreviation cached :: "Sched \<Rightarrow> string \<Rightarrow> entry_ref option" where
  "cached s \<equiv> w_cache (sc_worker s)"

abbreviation entry :: "Sched \<Rightarrow> entry_ref \<Rightarrow> CachedDocument" where
  "entry s \<equiv> w_heap (sc_worker s)"

definition put_task :: "nat \<Rightarrow> Task \<Rightarrow> Sched \<Rightarrow> Sched" where
  "put_task t k s = s\<lparr>sc_tasks := (sc_tasks s)(t \<mapsto> k)\<rparr>"

definition put_load :: "nat \<Rightarrow> Load \<Rightarrow> Sched \<Rightarrow> Sched" where
  "put_load l ld s = s\<lparr>sc_loads := (sc_loads s)(l \<mapsto> ld)\<rparr>"

section \<open>The code between two awaits\<close>

text \<open>\<open>getOrLoadDocument\<close> up to its first \<open>await\<close>: the cached entry, a load already under way, or a new one.\<close>

definition get_or_load :: "nat \<Rightarrow> caller \<Rightarrow> Sched \<Rightarrow> Sched" where
  "get_or_load t c s =
     (let d = caller_doc c
      in case lru_get map_lru (w_cache (sc_worker s)) d of
        (m, Some p) \<Rightarrow> put_task t \<lparr>tk_caller = c, tk_stage = Holding p\<rparr> (s\<lparr>sc_worker := (sc_worker s)\<lparr>w_cache := m\<rparr>\<rparr>)
      | (m, None) \<Rightarrow>
          let s1 = s\<lparr>sc_worker := (sc_worker s)\<lparr>w_cache := m\<rparr>\<rparr>
          in (case sc_loading s d of
                Some l \<Rightarrow> put_task t \<lparr>tk_caller = c, tk_stage = Awaiting l\<rparr> s1
              | None \<Rightarrow>
                  let l = sc_nextLoad s
                  in put_task t \<lparr>tk_caller = c, tk_stage = Awaiting l\<rparr>
                       (put_load l \<lparr>ld_docId = d, ld_phase = Load_started\<rparr>
                         (s1\<lparr>sc_loading := (sc_loading s)(d \<mapsto> l), sc_nextLoad := l + 1\<rparr>))))"

text \<open>The two queries of \<open>loadDocumentFromDB\<close>, and the entry built from their answers.\<close>

definition query_snapshot :: "Load \<Rightarrow> Database \<Rightarrow> Load" where
  "query_snapshot ld db = ld\<lparr>ld_phase := Base_read (loadLatestSnapshot db (ld_docId ld))\<rparr>"

definition from_seq :: "SnapshotRecord option \<Rightarrow> int" where
  "from_seq snapshot = (case snapshot of Some s \<Rightarrow> snap_seq s + 1 | None \<Rightarrow> 1)"

definition query_operations :: "Load \<Rightarrow> SnapshotRecord option \<Rightarrow> Database \<Rightarrow> Load" where
  "query_operations ld snapshot db =
     ld\<lparr>ld_phase := Ops_read snapshot
       (loadOperationsAfterSeq db (ld_docId ld) (from_seq snapshot - 1) defaultLoadLimit)\<rparr>"

definition build_entry :: "SnapshotRecord option \<Rightarrow> OperationEnvelope list \<Rightarrow> int \<Rightarrow> CachedDocument" where
  "build_entry snapshot deltaOps now =
     (let doc = (case snapshot of Some s \<Rightarrow> deserialize (snap_data s) | None \<Rightarrow> newRGADocument)
      in \<lparr>cd_doc = foldl (\<lambda>d env. fst (applyOperation d (env_op env))) doc deltaOps,
          cd_lastSeq = foldl max (case snapshot of Some s \<Rightarrow> snap_seq s | None \<Rightarrow> 0) (map env_seq deltaOps),
          cd_opsSinceSnapshot = int (length deltaOps), cd_loadedAt = now\<rparr>)"

text \<open>The call that started the load resumes: it caches the entry and withdraws the promise. When the
  load throws, the promise is withdrawn all the same.\<close>

definition finish_load :: "nat \<Rightarrow> Load \<Rightarrow> CachedDocument \<Rightarrow> Sched \<Rightarrow> Sched" where
  "finish_load l ld e s =
     (let w = sc_worker s; p = w_next w
      in put_load l (ld\<lparr>ld_phase := Load_done p\<rparr>)
        (s\<lparr>sc_worker := w\<lparr>w_cache := lru_set map_lru (w_cache w) (ld_docId ld) p, w_heap := (w_heap w)(p := e),
             w_next := p + 1\<rparr>,
           sc_loading := (sc_loading s)(ld_docId ld := None)\<rparr>))"

definition fail_load :: "nat \<Rightarrow> Load \<Rightarrow> db_error \<Rightarrow> Sched \<Rightarrow> Sched" where
  "fail_load l ld e s =
     put_load l (ld\<lparr>ld_phase := Load_failed e\<rparr>) (s\<lparr>sc_loading := (sc_loading s)(ld_docId ld := None)\<rparr>)"

text \<open>Steps 5 to 8 of the handler.\<close>

definition apply_step :: "nat \<Rightarrow> Task \<Rightarrow> OperationMessage \<Rightarrow> entry_ref \<Rightarrow> Sched \<Rightarrow> Sched" where
  "apply_step t k msg p s =
     put_task t (k\<lparr>tk_stage := Appending\<rparr>)
       (s\<lparr>sc_worker := set_doc (sc_worker s) p (fst (applyOperation (cd_doc (entry s p)) (msg_op msg)))\<rparr>)"

definition commit_step ::
  "nat \<Rightarrow> Task \<Rightarrow> ServerSession \<Rightarrow> OperationMessage \<Rightarrow> string \<Rightarrow> string \<Rightarrow> Sched \<Rightarrow> Sched" where
  "commit_step t k session msg uuid created s =
     (case appendOperation (sc_db s) (append_params session msg) uuid created of
        Inl e \<Rightarrow> put_task t (k\<lparr>tk_stage := Failed e\<rparr>) s
      | Inr (db, envelope) \<Rightarrow> put_task t (k\<lparr>tk_stage := Appended envelope\<rparr>) (s\<lparr>sc_db := db\<rparr>))"

definition update_step :: "nat \<Rightarrow> Task \<Rightarrow> OperationEnvelope \<Rightarrow> Sched \<Rightarrow> Sched" where
  "update_step t k envelope s =
     put_task t (k\<lparr>tk_stage := Publishing envelope\<rparr>)
       (s\<lparr>sc_worker := updateCachedDocument map_lru (sc_worker s) (caller_doc (tk_caller k))
            (\<lambda>e. e\<lparr>cd_lastSeq := env_seq envelope, cd_opsSinceSnapshot := cd_opsSinceSnapshot e + 1\<rparr>)\<rparr>)"

definition publish_step :: "nat \<Rightarrow> Task \<Rightarrow> OperationEnvelope \<Rightarrow> bool \<Rightarrow> Sched \<Rightarrow> Sched" where
  "publish_step t k envelope publishOk s =
     (if publishOk
      then put_task t (k\<lparr>tk_stage := Finished envelope\<rparr>) (s\<lparr>sc_published := sc_published s @ [envelope]\<rparr>)
      else put_task t (k\<lparr>tk_stage := Failed PublishFailed\<rparr>) s)"

section \<open>Events\<close>

datatype event =
    Call_load nat caller
  | Query_snapshot nat
  | Query_operations nat
  | Loaded nat int
  | Load_error nat db_error
  | Resume nat
  | Apply_op nat
  | Commit nat string string
  | Append_error nat db_error
  | Update_cache nat
  | Publish nat bool
  | Evict string
  | Invalidate string
  | Write AppendParams string string

text \<open>An event that cannot happen in a state gives no state.\<close>

definition on_load :: "nat \<Rightarrow> Sched \<Rightarrow> (Load \<Rightarrow> Sched option) \<Rightarrow> Sched option" where
  "on_load l s f = Option.bind (sc_loads s l) f"

definition on_task :: "nat \<Rightarrow> Sched \<Rightarrow> (Task \<Rightarrow> Sched option) \<Rightarrow> Sched option" where
  "on_task t s f = Option.bind (sc_tasks s t) f"

fun in_flight :: "load_phase \<Rightarrow> bool" where
  "in_flight (Load_done p) = False"
| "in_flight (Load_failed e) = False"
| "in_flight _ = True"

fun do_event :: "event \<Rightarrow> Sched \<Rightarrow> Sched option" where
  "do_event (Call_load t c) s = (if sc_tasks s t = None then Some (get_or_load t c s) else None)"
| "do_event (Query_snapshot l) s = on_load l s (\<lambda>ld. case ld_phase ld of
     Load_started \<Rightarrow> Some (put_load l (query_snapshot ld (sc_db s)) s) | _ \<Rightarrow> None)"
| "do_event (Query_operations l) s = on_load l s (\<lambda>ld. case ld_phase ld of
     Base_read b \<Rightarrow> Some (put_load l (query_operations ld b (sc_db s)) s) | _ \<Rightarrow> None)"
| "do_event (Loaded l now) s = on_load l s (\<lambda>ld. case ld_phase ld of
     Ops_read b ops \<Rightarrow> Some (finish_load l ld (build_entry b ops now) s) | _ \<Rightarrow> None)"
| "do_event (Load_error l e) s = on_load l s (\<lambda>ld.
     if in_flight (ld_phase ld) then Some (fail_load l ld e s) else None)"
| "do_event (Resume t) s = on_task t s (\<lambda>k. case tk_stage k of
     Awaiting l \<Rightarrow> on_load l s (\<lambda>ld. case ld_phase ld of
       Load_done p \<Rightarrow> Some (put_task t (k\<lparr>tk_stage := Holding p\<rparr>) s)
     | Load_failed e \<Rightarrow> Some (put_task t (k\<lparr>tk_stage := Failed e\<rparr>) s)
     | _ \<Rightarrow> None)
   | _ \<Rightarrow> None)"
| "do_event (Apply_op t) s = on_task t s (\<lambda>k. case (tk_caller k, tk_stage k) of
     (Operate session msg, Holding p) \<Rightarrow> Some (apply_step t k msg p s) | _ \<Rightarrow> None)"
| "do_event (Commit t uuid created) s = on_task t s (\<lambda>k. case (tk_caller k, tk_stage k) of
     (Operate session msg, Appending) \<Rightarrow> Some (commit_step t k session msg uuid created s) | _ \<Rightarrow> None)"
| "do_event (Append_error t e) s = on_task t s (\<lambda>k. case tk_stage k of
     Appending \<Rightarrow> Some (put_task t (k\<lparr>tk_stage := Failed e\<rparr>) s) | _ \<Rightarrow> None)"
| "do_event (Update_cache t) s = on_task t s (\<lambda>k. case tk_stage k of
     Appended env \<Rightarrow> Some (update_step t k env s) | _ \<Rightarrow> None)"
| "do_event (Publish t ok) s = on_task t s (\<lambda>k. case tk_stage k of
     Publishing env \<Rightarrow> Some (publish_step t k env ok s) | _ \<Rightarrow> None)"
| "do_event (Evict d) s = Some (s\<lparr>sc_worker := invalidateDocument map_lru (sc_worker s) d\<rparr>)"
| "do_event (Invalidate d) s = Some (s\<lparr>sc_worker := invalidateDocument map_lru (sc_worker s) d\<rparr>)"
| "do_event (Write ps uuid created) s = (case appendOperation (sc_db s) ps uuid created of
     Inr (db, envelope) \<Rightarrow> Some (s\<lparr>sc_db := db\<rparr>) | Inl e \<Rightarrow> None)"

text \<open>The states a worker reaches from one in which nothing is cached, loaded or handled.\<close>

definition idle :: "Database \<Rightarrow> Sched \<Rightarrow> bool" where
  "idle db s \<longleftrightarrow> sc_db s = db \<and> cached s = Map.empty \<and> sc_loading s = Map.empty \<and>
     sc_loads s = Map.empty \<and> sc_tasks s = Map.empty \<and> sc_published s = []"

inductive reaches :: "(Sched \<Rightarrow> event \<Rightarrow> bool) \<Rightarrow> Sched \<Rightarrow> Sched \<Rightarrow> bool" for fits s0 where
  start: "reaches fits s0 s0"
| more: "reaches fits s0 s \<Longrightarrow> fits s ev \<Longrightarrow> do_event ev s = Some s' \<Longrightarrow> reaches fits s0 s'"

abbreviation any_event :: "Sched \<Rightarrow> event \<Rightarrow> bool" where
  "any_event \<equiv> \<lambda>s ev. True"

lemma reaches_mono: "reaches fits s0 s \<Longrightarrow> reaches any_event s0 s"
  by (induction rule: reaches.induct) (auto intro: reaches.intros)

section \<open>The steps, case by case\<close>

named_theorems sched_simps

lemma sched_fields [sched_simps]:
  "sc_worker (put_task t k s) = sc_worker s" "sc_db (put_task t k s) = sc_db s"
  "sc_loading (put_task t k s) = sc_loading s" "sc_loads (put_task t k s) = sc_loads s"
  "sc_nextLoad (put_task t k s) = sc_nextLoad s" "sc_tasks (put_task t k s) = (sc_tasks s)(t \<mapsto> k)"
  "sc_published (put_task t k s) = sc_published s"
  "sc_worker (put_load l ld s) = sc_worker s" "sc_db (put_load l ld s) = sc_db s"
  "sc_loading (put_load l ld s) = sc_loading s" "sc_loads (put_load l ld s) = (sc_loads s)(l \<mapsto> ld)"
  "sc_nextLoad (put_load l ld s) = sc_nextLoad s" "sc_tasks (put_load l ld s) = sc_tasks s"
  "sc_published (put_load l ld s) = sc_published s"
  by (simp_all add: put_task_def put_load_def)

lemma on_load_Some: "on_load l s f = Some s' \<longleftrightarrow> (\<exists>ld. sc_loads s l = Some ld \<and> f ld = Some s')"
  by (simp add: on_load_def bind_eq_Some_conv)

lemma on_task_Some: "on_task t s f = Some s' \<longleftrightarrow> (\<exists>k. sc_tasks s t = Some k \<and> f k = Some s')"
  by (simp add: on_task_def bind_eq_Some_conv)

lemma get_or_load_cases:
  obtains
    (hit) p where "cached s (caller_doc c) = Some p"
      "get_or_load t c s = put_task t \<lparr>tk_caller = c, tk_stage = Holding p\<rparr> s"
  | (wait) l where "cached s (caller_doc c) = None" "sc_loading s (caller_doc c) = Some l"
      "get_or_load t c s = put_task t \<lparr>tk_caller = c, tk_stage = Awaiting l\<rparr> s"
  | (new) "cached s (caller_doc c) = None" "sc_loading s (caller_doc c) = None"
      "get_or_load t c s = put_task t \<lparr>tk_caller = c, tk_stage = Awaiting (sc_nextLoad s)\<rparr>
         (put_load (sc_nextLoad s) \<lparr>ld_docId = caller_doc c, ld_phase = Load_started\<rparr>
           (s\<lparr>sc_loading := (sc_loading s)(caller_doc c \<mapsto> sc_nextLoad s), sc_nextLoad := sc_nextLoad s + 1\<rparr>))"
  by (cases "cached s (caller_doc c)"; cases "sc_loading s (caller_doc c)")
     (auto simp: get_or_load_def map_lru_def Let_def)

text \<open>What one event can have done.\<close>

lemma event_cases:
  assumes "do_event ev s = Some s'"
  obtains
    (called) t c where "ev = Call_load t c" "sc_tasks s t = None" "s' = get_or_load t c s"
  | (base) l ld where "ev = Query_snapshot l" "sc_loads s l = Some ld" "ld_phase ld = Load_started"
      "s' = put_load l (query_snapshot ld (sc_db s)) s"
  | (ops) l ld b where "ev = Query_operations l" "sc_loads s l = Some ld" "ld_phase ld = Base_read b"
      "s' = put_load l (query_operations ld b (sc_db s)) s"
  | (loaded) l ld b xs now where "ev = Loaded l now" "sc_loads s l = Some ld" "ld_phase ld = Ops_read b xs"
      "s' = finish_load l ld (build_entry b xs now) s"
  | (load_failed) l ld e where "ev = Load_error l e" "sc_loads s l = Some ld" "in_flight (ld_phase ld)"
      "s' = fail_load l ld e s"
  | (resumed) t k l ld p where "ev = Resume t" "sc_tasks s t = Some k" "tk_stage k = Awaiting l"
      "sc_loads s l = Some ld" "ld_phase ld = Load_done p" "s' = put_task t (k\<lparr>tk_stage := Holding p\<rparr>) s"
  | (failed) t k e where "\<And>p. ev \<noteq> Evict p" "sc_tasks s t = Some k" "s' = put_task t (k\<lparr>tk_stage := Failed e\<rparr>) s"
      "(\<exists>l ld. tk_stage k = Awaiting l \<and> sc_loads s l = Some ld \<and> ld_phase ld = Load_failed e) \<or>
       tk_stage k = Appending \<or> (\<exists>env. tk_stage k = Publishing env)"
  | (applied) t k session msg p where "ev = Apply_op t" "sc_tasks s t = Some k" "tk_caller k = Operate session msg"
      "tk_stage k = Holding p" "s' = apply_step t k msg p s"
  | (committed) t k session msg uuid created db env where "ev = Commit t uuid created" "sc_tasks s t = Some k"
      "tk_caller k = Operate session msg" "tk_stage k = Appending"
      "appendOperation (sc_db s) (append_params session msg) uuid created = Inr (db, env)"
      "s' = put_task t (k\<lparr>tk_stage := Appended env\<rparr>) (s\<lparr>sc_db := db\<rparr>)"
  | (updated) t k env where "ev = Update_cache t" "sc_tasks s t = Some k" "tk_stage k = Appended env"
      "s' = update_step t k env s"
  | (published) t k env where "ev = Publish t True" "sc_tasks s t = Some k" "tk_stage k = Publishing env"
      "s' = put_task t (k\<lparr>tk_stage := Finished env\<rparr>) (s\<lparr>sc_published := sc_published s @ [env]\<rparr>)"
  | (dropped) d where "ev = Evict d \<or> ev = Invalidate d" "s' = s\<lparr>sc_worker := invalidateDocument map_lru (sc_worker s) d\<rparr>"
  | (written) ps uuid created db env where "ev = Write ps uuid created"
      "appendOperation (sc_db s) ps uuid created = Inr (db, env)" "s' = s\<lparr>sc_db := db\<rparr>"
proof (cases ev)
  case (Call_load t c)
  then show thesis using assms called by (auto split: if_splits)
next
  case (Query_snapshot l)
  then obtain ld where "sc_loads s l = Some ld"
    "(case ld_phase ld of Load_started \<Rightarrow> Some (put_load l (query_snapshot ld (sc_db s)) s) | _ \<Rightarrow> None) = Some s'"
    using assms by (auto simp: on_load_Some)
  then show thesis using base [OF Query_snapshot] by (cases "ld_phase ld") auto
next
  case (Query_operations l)
  then obtain ld where "sc_loads s l = Some ld"
    "(case ld_phase ld of Base_read b \<Rightarrow> Some (put_load l (query_operations ld b (sc_db s)) s) | _ \<Rightarrow> None) = Some s'"
    using assms by (auto simp: on_load_Some)
  then show thesis using ops [OF Query_operations] by (cases "ld_phase ld") auto
next
  case (Loaded l now)
  then obtain ld where "sc_loads s l = Some ld"
    "(case ld_phase ld of Ops_read b xs \<Rightarrow> Some (finish_load l ld (build_entry b xs now) s) | _ \<Rightarrow> None) = Some s'"
    using assms by (auto simp: on_load_Some)
  then show thesis using loaded [OF Loaded] by (cases "ld_phase ld") auto
next
  case (Load_error l e)
  then show thesis using assms load_failed by (auto simp: on_load_Some split: if_splits)
next
  case (Resume t)
  then obtain k where k: "sc_tasks s t = Some k"
    "(case tk_stage k of Awaiting l \<Rightarrow> on_load l s (\<lambda>ld. case ld_phase ld of
        Load_done p \<Rightarrow> Some (put_task t (k\<lparr>tk_stage := Holding p\<rparr>) s)
      | Load_failed e \<Rightarrow> Some (put_task t (k\<lparr>tk_stage := Failed e\<rparr>) s) | _ \<Rightarrow> None) | _ \<Rightarrow> None) = Some s'"
    using assms by (auto simp: on_task_Some)
  then obtain l where l: "tk_stage k = Awaiting l" by (cases "tk_stage k") auto
  with k obtain ld where ld: "sc_loads s l = Some ld" "(case ld_phase ld of
        Load_done p \<Rightarrow> Some (put_task t (k\<lparr>tk_stage := Holding p\<rparr>) s)
      | Load_failed e \<Rightarrow> Some (put_task t (k\<lparr>tk_stage := Failed e\<rparr>) s) | _ \<Rightarrow> None) = Some s'"
    by (auto simp: on_load_Some)
  then show thesis
    using resumed [OF Resume k(1) l ld(1)] failed [OF _ k(1)] Resume l by (cases "ld_phase ld") auto
next
  case (Apply_op t)
  then obtain k where "sc_tasks s t = Some k" "(case (tk_caller k, tk_stage k) of
     (Operate session msg, Holding p) \<Rightarrow> Some (apply_step t k msg p s) | _ \<Rightarrow> None) = Some s'"
    using assms by (auto simp: on_task_Some)
  then show thesis using applied [OF Apply_op] by (cases "tk_caller k"; cases "tk_stage k") auto
next
  case (Commit t uuid created)
  then obtain k where kt: "sc_tasks s t = Some k"
    "(case (tk_caller k, tk_stage k) of (Operate session msg, Appending) \<Rightarrow> Some (commit_step t k session msg uuid created s)
      | _ \<Rightarrow> None) = Some s'"
    using assms by (auto simp: on_task_Some)
  then obtain session msg where k: "sc_tasks s t = Some k" "tk_caller k = Operate session msg" "tk_stage k = Appending"
    "commit_step t k session msg uuid created s = s'"
    by (cases "tk_caller k"; cases "tk_stage k") auto
  then show thesis
    using committed [OF Commit k(1-3)] failed [OF _ k(1)] Commit
    by (auto simp: commit_step_def split: sum.splits)
next
  case (Append_error t e)
  then obtain k where k: "sc_tasks s t = Some k"
    "(case tk_stage k of Appending \<Rightarrow> Some (put_task t (k\<lparr>tk_stage := Failed e\<rparr>) s) | _ \<Rightarrow> None) = Some s'"
    using assms by (auto simp: on_task_Some)
  then show thesis using failed [OF _ k(1)] Append_error by (cases "tk_stage k") auto
next
  case (Update_cache t)
  then obtain k where "sc_tasks s t = Some k"
    "(case tk_stage k of Appended env \<Rightarrow> Some (update_step t k env s) | _ \<Rightarrow> None) = Some s'"
    using assms by (auto simp: on_task_Some)
  then show thesis using updated [OF Update_cache] by (cases "tk_stage k") auto
next
  case (Publish t ok)
  then obtain k where k: "sc_tasks s t = Some k"
    "(case tk_stage k of Publishing env \<Rightarrow> Some (publish_step t k env ok s) | _ \<Rightarrow> None) = Some s'"
    using assms by (auto simp: on_task_Some)
  then obtain env where env: "tk_stage k = Publishing env" "publish_step t k env ok s = s'"
    by (cases "tk_stage k") auto
  then show thesis
    using published [OF _ k(1)] failed [OF _ k(1)] Publish by (cases ok) (auto simp: publish_step_def)
next
  case (Write ps uuid created)
  then show thesis
    using assms written [OF Write] by (cases "appendOperation (sc_db s) ps uuid created") auto
qed (use assms dropped in auto)

section \<open>One load per document\<close>

definition flights_ok :: "Sched \<Rightarrow> bool" where
  "flights_ok s \<longleftrightarrow>
     (\<forall>d l. sc_loading s d = Some l \<longrightarrow>
        (\<exists>ld. sc_loads s l = Some ld \<and> ld_docId ld = d \<and> in_flight (ld_phase ld))) \<and>
     (\<forall>l ld. sc_loads s l = Some ld \<longrightarrow> l < sc_nextLoad s \<and>
        (in_flight (ld_phase ld) \<longrightarrow> sc_loading s (ld_docId ld) = Some l \<and> cached s (ld_docId ld) = None)) \<and>
     (\<forall>t k l. sc_tasks s t = Some k \<longrightarrow> tk_stage k = Awaiting l \<longrightarrow>
        (\<exists>ld. sc_loads s l = Some ld \<and> ld_docId ld = caller_doc (tk_caller k)))"

lemma flights_okD:
  assumes "flights_ok s"
  shows "sc_loading s d = Some l \<Longrightarrow> \<exists>ld. sc_loads s l = Some ld \<and> ld_docId ld = d \<and> in_flight (ld_phase ld)"
    and "sc_loads s l = Some ld \<Longrightarrow> l < sc_nextLoad s"
    and "sc_loads s l = Some ld \<Longrightarrow> in_flight (ld_phase ld) \<Longrightarrow>
      sc_loading s (ld_docId ld) = Some l \<and> cached s (ld_docId ld) = None"
    and "sc_tasks s t = Some k \<Longrightarrow> tk_stage k = Awaiting l \<Longrightarrow>
      \<exists>ld. sc_loads s l = Some ld \<and> ld_docId ld = caller_doc (tk_caller k)"
  using assms unfolding flights_ok_def by blast+

lemma flights_put_task:
  assumes "flights_ok s"
    and "\<And>l. tk_stage k = Awaiting l \<Longrightarrow> \<exists>ld. sc_loads s l = Some ld \<and> ld_docId ld = caller_doc (tk_caller k)"
  shows "flights_ok (put_task t k s)"
  using assms unfolding flights_ok_def sched_simps by auto

lemma flights_frame:
  assumes "flights_ok s" "sc_loading s' = sc_loading s" "sc_loads s' = sc_loads s" "sc_nextLoad s' = sc_nextLoad s"
    and "sc_tasks s' = sc_tasks s" "\<And>d. cached s d = None \<Longrightarrow> cached s' d = None"
  shows "flights_ok s'"
  using assms(1,6) unfolding flights_ok_def assms(2-5) by blast

text \<open>A load moves on, or it ends and its promise is withdrawn.\<close>

lemma flights_put_load:
  assumes "flights_ok s" "sc_loads s l = Some ld" "in_flight (ld_phase ld)" "ld_docId ld' = ld_docId ld"
    and "in_flight (ld_phase ld')"
  shows "flights_ok (put_load l ld' s)"
  unfolding flights_ok_def sched_simps
proof (intro conjI allI impI)
  note f = flights_okD [OF assms(1)]
  show "\<exists>m. ((sc_loads s)(l \<mapsto> ld')) n = Some m \<and> ld_docId m = d \<and> in_flight (ld_phase m)"
    if "sc_loading s d = Some n" for d n
    using f(1) [OF that] assms(2,4,5) by auto
  show "n < sc_nextLoad s" if "((sc_loads s)(l \<mapsto> ld')) n = Some m" for n m
    using that f(2) [of n] f(2) [OF assms(2)] by (auto split: if_splits)
  show "sc_loading s (ld_docId m) = Some n" "cached s (ld_docId m) = None"
    if "((sc_loads s)(l \<mapsto> ld')) n = Some m" "in_flight (ld_phase m)" for n m
    using that f(3) [of n m] f(3) [OF assms(2,3)] assms(4) by (auto split: if_splits)
  show "\<exists>m. ((sc_loads s)(l \<mapsto> ld')) n = Some m \<and> ld_docId m = caller_doc (tk_caller k)"
    if "sc_tasks s t = Some k" "tk_stage k = Awaiting n" for t k n
    using f(4) [OF that] assms(2,4) by auto
qed

lemma flights_end_load:
  assumes "flights_ok s" "sc_loads s l = Some ld" "in_flight (ld_phase ld)" "ld_docId ld' = ld_docId ld"
    and "\<not> in_flight (ld_phase ld')" "sc_loading s' = (sc_loading s)(ld_docId ld := None)"
    and "sc_loads s' = (sc_loads s)(l \<mapsto> ld')" "sc_nextLoad s' = sc_nextLoad s" "sc_tasks s' = sc_tasks s"
    and "\<And>d. d \<noteq> ld_docId ld \<Longrightarrow> cached s' d = cached s d"
  shows "flights_ok s'"
  unfolding flights_ok_def
proof (intro conjI allI impI)
  note f = flights_okD [OF assms(1)] and own = flights_okD(3) [OF assms(1-3)]
  show "\<exists>m. sc_loads s' n = Some m \<and> ld_docId m = d \<and> in_flight (ld_phase m)" if "sc_loading s' d = Some n" for d n
    using that f(1) [of d n] own assms(2,6,7) by (auto split: if_splits)
  fix n m assume m: "sc_loads s' n = Some m"
  show "n < sc_nextLoad s'" using m f(2) [of n m] f(2) [OF assms(2)] assms(7,8) by (auto split: if_splits)
  assume fl: "in_flight (ld_phase m)"
  then have n: "n \<noteq> l" "sc_loads s n = Some m" using m assms(5,7) by (auto split: if_splits)
  then have "ld_docId m \<noteq> ld_docId ld" using f(3) [OF n(2) fl] own by auto
  then show "sc_loading s' (ld_docId m) = Some n" "cached s' (ld_docId m) = None"
    using f(3) [OF n(2) fl] assms(6,10) by simp_all
next
  fix t k n assume "sc_tasks s' t = Some k" "tk_stage k = Awaiting n"
  then show "\<exists>m. sc_loads s' n = Some m \<and> ld_docId m = caller_doc (tk_caller k)"
    using flights_okD(4) [OF assms(1), of t k n] assms(2,4,7,9) by auto
qed

lemma updated_cache [simp]:
  "w_cache (updateCachedDocument map_lru w d f) = w_cache w" "w_next (updateCachedDocument map_lru w d f) = w_next w"
  by (auto simp: updateCachedDocument_def map_lru_def fun_upd_idem split: option.split)

lemma flights_new_load:
  assumes "flights_ok s" "sc_loading s d = None" "cached s d = None"
  shows "flights_ok (put_load (sc_nextLoad s) \<lparr>ld_docId = d, ld_phase = Load_started\<rparr>
    (s\<lparr>sc_loading := (sc_loading s)(d \<mapsto> sc_nextLoad s), sc_nextLoad := sc_nextLoad s + 1\<rparr>))"
  unfolding flights_ok_def sched_simps
proof (intro conjI allI impI)
  let ?n = "sc_nextLoad s" and ?ld = "\<lparr>ld_docId = d, ld_phase = Load_started\<rparr> :: Load"
  let ?s = "s\<lparr>sc_loading := (sc_loading s)(d \<mapsto> sc_nextLoad s), sc_nextLoad := sc_nextLoad s + 1\<rparr>"
  note f = flights_okD [OF assms(1)]
  have fresh: "sc_loads s ?n = None" using f(2) by (cases "sc_loads s ?n") auto
  show "\<exists>m. ((sc_loads ?s)(?n \<mapsto> ?ld)) n = Some m \<and> ld_docId m = e \<and> in_flight (ld_phase m)"
    if "sc_loading ?s e = Some n" for e n
    using that f(1) [of e n] fresh by (auto split: if_splits)
  show "n < sc_nextLoad ?s" if "((sc_loads ?s)(?n \<mapsto> ?ld)) n = Some m" for n m
    using that f(2) [of n m] by (auto split: if_splits)
  show "sc_loading ?s (ld_docId m) = Some n" "cached ?s (ld_docId m) = None"
    if "((sc_loads ?s)(?n \<mapsto> ?ld)) n = Some m" "in_flight (ld_phase m)" for n m
    using that f(3) [of n m] assms(2,3) by (auto split: if_splits)
  show "\<exists>m. ((sc_loads ?s)(?n \<mapsto> ?ld)) n = Some m \<and> ld_docId m = caller_doc (tk_caller k)"
    if "sc_tasks ?s t = Some k" "tk_stage k = Awaiting n" for t k n
    using f(4) [of t k n] that fresh by auto
qed

lemma flights_step: "flights_ok s \<Longrightarrow> do_event ev s = Some s' \<Longrightarrow> flights_ok s'"
proof -
  assume f: "flights_ok s" and ev: "do_event ev s = Some s'"
  show "flights_ok s'"
    using ev
  proof (cases rule: event_cases)
    case (called t c)
    show ?thesis
    proof (cases rule: get_or_load_cases [of s c t])
      case (hit p)
      show ?thesis unfolding called(3) hit(2) by (rule flights_put_task [OF f]) simp
    next
      case (wait l)
      then show ?thesis using called(3) flights_put_task [OF f] flights_okD(1) [OF f] by fastforce
    next
      case new
      show ?thesis
        unfolding called(3) new(3) by (rule flights_put_task [OF flights_new_load [OF f new(2,1)]]) (simp add: sched_simps)
    qed
  next
    case (base l ld)
    then show ?thesis using flights_put_load [OF f] by (simp add: query_snapshot_def)
  next
    case (ops l ld b)
    then show ?thesis using flights_put_load [OF f] by (simp add: query_operations_def)
  next
    case (loaded l ld b xs now)
    show ?thesis
      by (rule flights_end_load [OF f loaded(2), where ld' = "ld\<lparr>ld_phase := Load_done (w_next (sc_worker s))\<rparr>"])
         (use loaded in \<open>simp_all add: finish_load_def Let_def sched_simps map_lru_def\<close>)
  next
    case (load_failed l ld e)
    show ?thesis
      by (rule flights_end_load [OF f load_failed(2,3), where ld' = "ld\<lparr>ld_phase := Load_failed e\<rparr>"])
         (use load_failed in \<open>simp_all add: fail_load_def sched_simps\<close>)
  next
    case (resumed t k l ld p)
    show ?thesis unfolding resumed(6) by (rule flights_put_task [OF f]) simp
  next
    case (failed t k e)
    show ?thesis unfolding failed(3) by (rule flights_put_task [OF f]) simp
  next
    case (applied t k session msg p)
    show ?thesis unfolding applied(5) apply_step_def
      by (rule flights_put_task, rule flights_frame [OF f]) (simp_all add: set_doc_def)
  next
    case (committed t k session msg uuid created db env)
    show ?thesis unfolding committed(6) by (rule flights_put_task, rule flights_frame [OF f]) simp_all
  next
    case (updated t k env)
    show ?thesis unfolding updated(4) update_step_def
      by (rule flights_put_task, rule flights_frame [OF f]) simp_all
  next
    case (published t k env)
    show ?thesis unfolding published(4) by (rule flights_put_task, rule flights_frame [OF f]) simp_all
  next
    case (dropped d)
    show ?thesis unfolding dropped(2)
      by (rule flights_frame [OF f]) (simp_all add: invalidateDocument_def map_lru_def)
  next
    case (written ps uuid created db env)
    show ?thesis unfolding written(3) by (rule flights_frame [OF f]) simp_all
  qed
qed

lemma flights_idle: "idle db s \<Longrightarrow> flights_ok s"
  by (simp add: idle_def flights_ok_def)

lemma reaches_flights: "reaches fits s0 s \<Longrightarrow> flights_ok s0 \<Longrightarrow> flights_ok s"
  by (induction rule: reaches.induct) (auto intro: flights_step)

text \<open>C17: The promise of \<open>loadingPromises\<close>, that a document is never loaded twice at the same
  time. In every state a worker reaches, whatever loads, handlers, failures, evictions,
  invalidations and other writers are interleaved, two loads under way for one document are the
  same load, it is the one \<open>loadingPromises\<close> has, the document is not cached meanwhile, and
  every call that awaits a load awaits one of its own document.\<close>

theorem single_flight:
  assumes "reaches any_event s0 s" "idle db s0"
  shows "(\<forall>l ld. sc_loads s l = Some ld \<longrightarrow> in_flight (ld_phase ld) \<longrightarrow>
      sc_loading s (ld_docId ld) = Some l \<and> cached s (ld_docId ld) = None \<and>
      (\<forall>n m. sc_loads s n = Some m \<longrightarrow> in_flight (ld_phase m) \<longrightarrow> ld_docId m = ld_docId ld \<longrightarrow> n = l)) \<and>
    (\<forall>t k l. sc_tasks s t = Some k \<longrightarrow> tk_stage k = Awaiting l \<longrightarrow>
      (\<exists>ld. sc_loads s l = Some ld \<and> ld_docId ld = caller_doc (tk_caller k)))"
proof -
  note f = flights_okD [OF reaches_flights [OF assms(1) flights_idle [OF assms(2)]]]
  have "n = l" if "sc_loads s l = Some ld" "in_flight (ld_phase ld)" "sc_loads s n = Some m"
    "in_flight (ld_phase m)" "ld_docId m = ld_docId ld" for l ld n m
    using f(3) [OF that(1,2)] f(3) [OF that(3,4)] that(5) by simp
  then show ?thesis using f(3,4) by blast
qed

section \<open>What an answer stands for\<close>

fun stage_env :: "stage \<Rightarrow> OperationEnvelope option" where
  "stage_env (Appended env) = Some env"
| "stage_env (Publishing env) = Some env"
| "stage_env (Finished env) = Some env"
| "stage_env _ = None"

lemma append_success:
  assumes "store_ok db" "appendOperation db ps uuid now = Inr (db', env)"
  obtains row where "env = rowToEnvelope row" "row_appended db (ap_docId ps) (ap_op ps) db'" "store_ok db'"
    "row_seq row = getMaxSeq db (ap_docId ps) + 1" "row_op_data row = ap_op ps" "row_doc_id row = ap_docId ps"
    "db_operations db' = db_operations db @ [row]" "db_documents db' = db_documents db" "db_users db' = db_users db"
    "db_snapshots db' = db_snapshots db"
proof -
  have "valid_params db ps"
    using assms(2) by (auto simp: appendOperation_def valid_params_def split: if_splits)
  from append_is_append [OF assms(1) this, of uuid now] obtain row where
    "env = rowToEnvelope row" "row_appended db (ap_docId ps) (ap_op ps) db'"
    "row_seq row = getMaxSeq db (ap_docId ps) + 1" "row_op_data row = ap_op ps" "row_doc_id row = ap_docId ps"
    "db_operations db' = db_operations db @ [row]" "db_documents db' = db_documents db" "db_users db' = db_users db"
    using assms(2) by auto
  with that show thesis using store_append(1) [OF assms(1)] by (simp add: row_appended_def)
qed

definition answers_ok :: "Sched \<Rightarrow> bool" where
  "answers_ok s \<longleftrightarrow> store_ok (sc_db s) \<and>
     (\<forall>t k env. sc_tasks s t = Some k \<longrightarrow> stage_env (tk_stage k) = Some env \<longrightarrow>
        (\<exists>session msg. tk_caller k = Operate session msg \<and> env_op env = msg_op msg) \<and>
        env \<in> set (map rowToEnvelope (doc_rows (sc_db s) (caller_doc (tk_caller k))))) \<and>
     (\<forall>t t' k k' env env'. t \<noteq> t' \<longrightarrow> sc_tasks s t = Some k \<longrightarrow> sc_tasks s t' = Some k' \<longrightarrow>
        stage_env (tk_stage k) = Some env \<longrightarrow> stage_env (tk_stage k') = Some env' \<longrightarrow>
        caller_doc (tk_caller k) = caller_doc (tk_caller k') \<longrightarrow> env_seq env \<noteq> env_seq env')"

lemma answers_okD:
  assumes "answers_ok s"
  shows "store_ok (sc_db s)"
    and "sc_tasks s t = Some k \<Longrightarrow> stage_env (tk_stage k) = Some env \<Longrightarrow>
      \<exists>session msg. tk_caller k = Operate session msg \<and> env_op env = msg_op msg"
    and "sc_tasks s t = Some k \<Longrightarrow> stage_env (tk_stage k) = Some env \<Longrightarrow>
      env \<in> set (map rowToEnvelope (doc_rows (sc_db s) (caller_doc (tk_caller k))))"
    and "t \<noteq> t' \<Longrightarrow> sc_tasks s t = Some k \<Longrightarrow> sc_tasks s t' = Some k' \<Longrightarrow>
      stage_env (tk_stage k) = Some env \<Longrightarrow> stage_env (tk_stage k') = Some env' \<Longrightarrow>
      caller_doc (tk_caller k) = caller_doc (tk_caller k') \<Longrightarrow> env_seq env \<noteq> env_seq env'"
  using assms unfolding answers_ok_def by blast+

text \<open>Steps that leave the store alone and give no new answer.\<close>

lemma answers_frame:
  assumes "answers_ok s" "sc_db s' = sc_db s"
    and "\<And>t k env. sc_tasks s' t = Some k \<Longrightarrow> stage_env (tk_stage k) = Some env \<Longrightarrow>
      \<exists>k0. sc_tasks s t = Some k0 \<and> stage_env (tk_stage k0) = Some env \<and> tk_caller k0 = tk_caller k"
  shows "answers_ok s'"
  unfolding answers_ok_def assms(2)
proof (intro conjI allI impI)
  note a = answers_okD [OF assms(1)]
  show "store_ok (sc_db s)" by (rule a(1))
  fix t k env assume k: "sc_tasks s' t = Some k" "stage_env (tk_stage k) = Some env"
  from assms(3) [OF this] obtain k0 where k0: "sc_tasks s t = Some k0" "stage_env (tk_stage k0) = Some env"
    "tk_caller k0 = tk_caller k" by blast
  show "\<exists>session msg. tk_caller k = Operate session msg \<and> env_op env = msg_op msg"
    using a(2) [OF k0(1,2)] k0(3) by simp
  show "env \<in> set (map rowToEnvelope (doc_rows (sc_db s) (caller_doc (tk_caller k))))"
    using a(3) [OF k0(1,2)] k0(3) by simp
next
  fix t t' k k' env env' assume n: "t \<noteq> t'" "sc_tasks s' t = Some k" "sc_tasks s' t' = Some k'"
    "stage_env (tk_stage k) = Some env" "stage_env (tk_stage k') = Some env'"
    "caller_doc (tk_caller k) = caller_doc (tk_caller k')"
  from assms(3) [OF n(2,4)] assms(3) [OF n(3,5)] show "env_seq env \<noteq> env_seq env'"
    using answers_okD(4) [OF assms(1) n(1)] n(6) by metis
qed

text \<open>One more stored row, and at most one handler that has it as its answer.\<close>

lemma env_of_row: "env_seq (rowToEnvelope r) = row_seq r" "env_op (rowToEnvelope r) = row_op_data r"
  by (simp_all add: rowToEnvelope_def)

lemma answers_append:
  assumes "answers_ok s" "appendOperation (sc_db s) ps uuid now = Inr (db, env)" "sc_db s' = db"
    and "\<And>t k e. sc_tasks s' t = Some k \<Longrightarrow> stage_env (tk_stage k) = Some e \<Longrightarrow>
      (T = Some t \<and> e = env \<and> (\<exists>session msg. tk_caller k = Operate session msg \<and> ap_op ps = msg_op msg) \<and>
         caller_doc (tk_caller k) = ap_docId ps) \<or>
      (T \<noteq> Some t \<and> sc_tasks s t = Some k)"
  shows "answers_ok s'"
proof -
  note a = answers_okD [OF assms(1)]
  from append_success [OF a(1) assms(2)] obtain row where row: "env = rowToEnvelope row"
    "store_ok db" "row_seq row = getMaxSeq (sc_db s) (ap_docId ps) + 1" "row_op_data row = ap_op ps"
    "row_doc_id row = ap_docId ps" "db_operations db = db_operations (sc_db s) @ [row]" .
  have rows: "doc_rows db d = doc_rows (sc_db s) d @ (if d = ap_docId ps then [row] else [])" for d
    using row(5,6) by (simp add: doc_rows_def)
  have old: "env_seq e < env_seq env" if "e \<in> set (map rowToEnvelope (doc_rows (sc_db s) (ap_docId ps)))" for e
  proof -
    have wf: "wf_db (sc_db s)" using a(1) by (rule store_okD)
    have "set (map row_seq (doc_rows (sc_db s) (ap_docId ps))) = {1..getMaxSeq (sc_db s) (ap_docId ps)}"
      using wf by (simp add: getMaxSeq_length wf_db_def log_ok_def del: set_map)
    then show ?thesis using that row(1,3) by (auto simp: env_of_row)
  qed
  show ?thesis
    unfolding answers_ok_def assms(3)
  proof (intro conjI allI impI)
    show "store_ok db" by (rule row(2))
    fix t k e assume k: "sc_tasks s' t = Some k" "stage_env (tk_stage k) = Some e"
    show "\<exists>session msg. tk_caller k = Operate session msg \<and> env_op e = msg_op msg"
      using assms(4) [OF k] a(2) [OF _ k(2)] row(1,4) by (auto simp: env_of_row)
    show "e \<in> set (map rowToEnvelope (doc_rows db (caller_doc (tk_caller k))))"
      using assms(4) [OF k] a(3) [OF _ k(2)] row(1) by (auto simp: rows)
  next
    fix t t' k k' e e' assume n: "t \<noteq> t'" "sc_tasks s' t = Some k" "sc_tasks s' t' = Some k'"
      "stage_env (tk_stage k) = Some e" "stage_env (tk_stage k') = Some e'"
      "caller_doc (tk_caller k) = caller_doc (tk_caller k')"
    have "env_seq e < env_seq env" if "sc_tasks s t = Some k" "caller_doc (tk_caller k) = ap_docId ps"
      using old a(3) [OF that(1) n(4)] that(2) by simp
    moreover have "env_seq e' < env_seq env" if "sc_tasks s t' = Some k'" "caller_doc (tk_caller k') = ap_docId ps"
      using old a(3) [OF that(1) n(5)] that(2) by simp
    moreover have "env_seq e \<noteq> env_seq e'" if "sc_tasks s t = Some k" "sc_tasks s t' = Some k'"
      using a(4) [OF n(1) that n(4-6)] .
    ultimately show "env_seq e \<noteq> env_seq e'"
      using assms(4) [OF n(2,4)] assms(4) [OF n(3,5)] n(1,6) by fastforce
  qed
qed

lemma answers_step:
  assumes "answers_ok s" "do_event ev s = Some s'"
  shows "answers_ok s'"
  using assms(2)
proof (cases rule: event_cases)
  case (called t c)
  show ?thesis
  proof (cases rule: get_or_load_cases [of s c t])
    case (hit p)
    show ?thesis unfolding called(3) hit(2)
      by (rule answers_frame [OF assms(1)]) (auto simp: sched_simps split: if_splits)
  next
    case (wait l)
    show ?thesis unfolding called(3) wait(3)
      by (rule answers_frame [OF assms(1)]) (auto simp: sched_simps split: if_splits)
  next
    case new
    show ?thesis unfolding called(3) new(3)
      by (rule answers_frame [OF assms(1)]) (auto simp: sched_simps split: if_splits)
  qed
next
  case (base l ld)
  show ?thesis unfolding base(4) by (rule answers_frame [OF assms(1)]) (auto simp: sched_simps)
next
  case (ops l ld b)
  show ?thesis unfolding ops(4) by (rule answers_frame [OF assms(1)]) (auto simp: sched_simps)
next
  case (loaded l ld b xs now)
  show ?thesis unfolding loaded(4)
    by (rule answers_frame [OF assms(1)]) (auto simp: finish_load_def Let_def sched_simps)
next
  case (load_failed l ld e)
  show ?thesis unfolding load_failed(4)
    by (rule answers_frame [OF assms(1)]) (auto simp: fail_load_def sched_simps)
next
  case (resumed t k l ld p)
  show ?thesis unfolding resumed(6)
    by (rule answers_frame [OF assms(1)]) (auto simp: sched_simps split: if_splits)
next
  case (failed t k e)
  show ?thesis unfolding failed(3)
    by (rule answers_frame [OF assms(1)]) (auto simp: sched_simps split: if_splits)
next
  case (applied t k session msg p)
  show ?thesis unfolding applied(5) apply_step_def
    by (rule answers_frame [OF assms(1)]) (auto simp: sched_simps split: if_splits)
next
  case (committed t k session msg uuid created db env)
  show ?thesis
    by (rule answers_append [OF assms(1) committed(5), where T = "Some t"])
       (use committed(3,6) in \<open>auto simp: sched_simps append_params_def split: if_splits\<close>)
next
  case (updated t k env)
  show ?thesis unfolding updated(4) update_step_def
    by (rule answers_frame [OF assms(1)]) (use updated(2,3) in \<open>auto simp: sched_simps split: if_splits\<close>)
next
  case (published t k env)
  show ?thesis unfolding published(4)
    by (rule answers_frame [OF assms(1)]) (use published(2,3) in \<open>auto simp: sched_simps split: if_splits\<close>)
next
  case (dropped d)
  show ?thesis unfolding dropped(2) by (rule answers_frame [OF assms(1)]) auto
next
  case (written ps uuid created db env)
  show ?thesis
    by (rule answers_append [OF assms(1) written(2), where T = None]) (use written(3) in auto)
qed

lemma reaches_answers: "reaches fits s0 s \<Longrightarrow> answers_ok s0 \<Longrightarrow> answers_ok s"
  by (induction rule: reaches.induct) (auto intro: answers_step)

lemma answers_idle: "idle db s \<Longrightarrow> store_ok db \<Longrightarrow> answers_ok s"
  by (simp add: idle_def answers_ok_def)

text \<open>C22: An acknowledgement under any interleaving. A worker answers \<open>success\<close> with an envelope only
  when that envelope is in the document's log with the client's operation, and two handlers on
  one document never answer with the same seq - whatever is loaded, evicted, invalidated,
  written by others or fails in between.\<close>

theorem interleaved_answers_stored:
  assumes "reaches any_event s0 s" "idle db s0" "store_ok db"
    and "sc_tasks s t = Some \<lparr>tk_caller = Operate session msg, tk_stage = Finished env\<rparr>"
  shows "env_op env = msg_op msg \<and> env \<in> set (map rowToEnvelope (doc_rows (sc_db s) (msg_docId msg))) \<and>
    (\<forall>t' session' msg' env'. t' \<noteq> t \<longrightarrow>
      sc_tasks s t' = Some \<lparr>tk_caller = Operate session' msg', tk_stage = Finished env'\<rparr> \<longrightarrow>
      msg_docId msg' = msg_docId msg \<longrightarrow> env_seq env' \<noteq> env_seq env)"
proof -
  note a = answers_okD [OF reaches_answers [OF assms(1) answers_idle [OF assms(2,3)]]]
  have "env_seq env' \<noteq> env_seq env"
    if "t' \<noteq> t" "sc_tasks s t' = Some \<lparr>tk_caller = Operate session' msg', tk_stage = Finished env'\<rparr>"
      "msg_docId msg' = msg_docId msg" for t' session' msg' env'
    using a(4) [OF that(1,2) assms(4)] that(3) by simp
  then show ?thesis using a(2) [OF assms(4)] a(3) [OF assms(4)] by auto
qed

section \<open>Examples\<close>

fun events :: "event list \<Rightarrow> Sched \<Rightarrow> Sched option" where
  "events [] s = Some s"
| "events (ev # evs) s = Option.bind (do_event ev s) (events evs)"

lemma events_reaches: "reaches any_event s0 s \<Longrightarrow> events evs s = Some s' \<Longrightarrow> reaches any_event s0 s'"
proof (induction evs arbitrary: s)
  case (Cons ev evs)
  then obtain s1 where "do_event ev s = Some s1" "events evs s1 = Some s'" by (auto simp: bind_eq_Some_conv)
  then show ?case using Cons.IH reaches.more [OF Cons.prems(1)] by blast
qed simp

lemmas events_run = events_reaches [OF reaches.start]

definition example_sched :: Sched where
  "example_sched = \<lparr>sc_worker = empty_worker, sc_db = example_db, sc_loading = Map.empty, sc_loads = Map.empty,
     sc_nextLoad = 0, sc_tasks = Map.empty, sc_published = []\<rparr>"

lemma example_idle: "idle example_db example_sched"
  by (simp add: idle_def example_sched_def empty_worker_def)

definition example_handler :: "nat \<Rightarrow> event list" where
  "example_handler t = [Resume t, Apply_op t, Commit t ''i'' ''t'', Update_cache t, Publish t True]"

text \<open>Two calls share one load.\<close>

theorem single_flight_witness:
  "\<exists>s. events [Call_load 1 (Open ''d''), Call_load 2 (Open ''d''), Query_snapshot 0] example_sched = Some s \<and>
     sc_loads s 0 \<noteq> None \<and> sc_tasks s 2 = Some \<lparr>tk_caller = Open ''d'', tk_stage = Awaiting 0\<rparr> \<and>
     (\<forall>ld. sc_loads s 0 = Some ld \<longrightarrow> in_flight (ld_phase ld) \<longrightarrow> sc_loading s (ld_docId ld) = Some 0)"
proof -
  obtain s where s: "events [Call_load 1 (Open ''d''), Call_load 2 (Open ''d''), Query_snapshot 0] example_sched = Some s"
    "sc_loads s 0 \<noteq> None" "sc_tasks s 2 = Some \<lparr>tk_caller = Open ''d'', tk_stage = Awaiting 0\<rparr>"
    by (simp add: get_or_load_def map_lru_def example_sched_def empty_worker_def put_task_def put_load_def Let_def
        on_load_def)
  from single_flight [OF events_run [OF s(1)] example_idle] s show ?thesis by blast
qed

text \<open>Two handlers whose steps alternate.\<close>

definition both_operate :: "event list" where
  "both_operate = [Call_load 1 (Operate (example_session ''a'') (example_insert ''a'' 97 ''n'')),
     Call_load 2 (Operate (example_session ''b'') (example_insert ''b'' 98 ''m'')),
     Query_snapshot 0, Query_operations 0, Loaded 0 7, Resume 1, Resume 2, Apply_op 1, Apply_op 2,
     Commit 2 ''i2'' ''t'', Commit 1 ''i1'' ''t'', Update_cache 1, Update_cache 2, Publish 1 True, Publish 2 True]"

lemmas example_run = get_or_load_def map_lru_def put_task_def put_load_def Let_def on_load_def on_task_def
  query_snapshot_def query_operations_def finish_load_def build_entry_def apply_step_def commit_step_def
  update_step_def publish_step_def set_doc_def updateCachedDocument_def invalidateDocument_def

lemmas example_data = example_sched_def empty_worker_def example_session_def example_insert_def example_db_def
  append_params_def appendOperation_def next_doc_seq_def document_exists_def user_exists_def
  loadLatestSnapshot_def doc_snapshots_def newest_def loadOperationsAfterSeq_def doc_rows_def from_seq_def

lemma both_operate_run:
  "\<exists>s env env'. events both_operate example_sched = Some s \<and>
     sc_tasks s 1 = Some \<lparr>tk_caller = Operate (example_session ''a'') (example_insert ''a'' 97 ''n''), tk_stage = Finished env\<rparr> \<and>
     sc_tasks s 2 = Some \<lparr>tk_caller = Operate (example_session ''b'') (example_insert ''b'' 98 ''m''), tk_stage = Finished env'\<rparr> \<and>
     (\<forall>t. t \<noteq> 1 \<and> t \<noteq> 2 \<longrightarrow> sc_tasks s t = None) \<and>
     map row_nonce (db_operations (sc_db s)) = [''m'', ''n''] \<and> cached s ''d'' = Some 0"
  by (simp add: both_operate_def example_run example_data)

theorem interleaved_answers_stored_witness:
  "\<exists>s env. events both_operate example_sched = Some s \<and> env_op env = INSERT (UID 1 ''a'') None (JStr [97]) \<and>
     env \<in> set (map rowToEnvelope (doc_rows (sc_db s) ''d''))"
proof -
  obtain s env where s: "events both_operate example_sched = Some s" "sc_tasks s 1 =
      Some \<lparr>tk_caller = Operate (example_session ''a'') (example_insert ''a'' 97 ''n''), tk_stage = Finished env\<rparr>"
    using both_operate_run by blast
  from interleaved_answers_stored [OF events_run [OF s(1)] example_idle example_store(1) s(2)] s(1)
  show ?thesis by (auto simp: example_insert_def)
qed

section \<open>No handler waits for ever\<close>

text \<open>The steps a handler has still to make, those of the load it waits for included.\<close>

fun phase_work :: "load_phase \<Rightarrow> nat" where
  "phase_work Load_started = 3"
| "phase_work (Base_read b) = 2"
| "phase_work (Ops_read b xs) = 1"
| "phase_work _ = 0"

fun stage_work :: "caller \<Rightarrow> (nat \<rightharpoonup> Load) \<Rightarrow> stage \<Rightarrow> nat" where
  "stage_work c loads (Awaiting l) = 5 + (case loads l of Some ld \<Rightarrow> phase_work (ld_phase ld) | None \<Rightarrow> 0)"
| "stage_work (Operate session msg) loads (Holding p) = 4"
| "stage_work (Open d) loads (Holding p) = 0"
| "stage_work c loads Appending = 3"
| "stage_work c loads (Appended env) = 2"
| "stage_work c loads (Publishing env) = 1"
| "stage_work c loads (Finished env) = 0"
| "stage_work c loads (Failed e) = 0"

definition work :: "Sched \<Rightarrow> nat \<Rightarrow> nat" where
  "work s t = (case sc_tasks s t of Some k \<Rightarrow> stage_work (tk_caller k) (sc_loads s) (tk_stage k) | None \<Rightarrow> 0)"

fun settled :: "Task \<Rightarrow> bool" where
  "settled k = (case tk_stage k of Finished env \<Rightarrow> True | Failed e \<Rightarrow> True
     | Holding p \<Rightarrow> (case tk_caller k of Open d \<Rightarrow> True | _ \<Rightarrow> False) | _ \<Rightarrow> False)"

fun is_failure :: "event \<Rightarrow> bool" where
  "is_failure (Load_error l e) = True"
| "is_failure (Append_error t e) = True"
| "is_failure (Publish t ok) = (\<not> ok)"
| "is_failure _ = False"

lemma work_bound: "work s t \<le> 8"
proof (cases "sc_tasks s t")
  case (Some k)
  have "phase_work ph \<le> 3" for ph by (cases ph) auto
  then have "stage_work (tk_caller k) (sc_loads s) (tk_stage k) \<le> 8"
    by (cases "tk_stage k"; cases "tk_caller k") (auto split: option.split intro: order_trans)
  with Some show ?thesis by (simp add: work_def)
qed (simp add: work_def)

lemma work_other: "t' \<noteq> t \<Longrightarrow> work (put_task t' k s) t = work s t"
  by (simp add: work_def sched_simps split: option.split)

lemma work_frame: "sc_tasks s' = sc_tasks s \<Longrightarrow> sc_loads s' = sc_loads s \<Longrightarrow> work s' t = work s t"
  by (simp add: work_def split: option.split)

lemma work_task:
  assumes "sc_tasks s t' = Some k" "sc_tasks s' = (sc_tasks s)(t' \<mapsto> k')" "sc_loads s' = sc_loads s"
    and "stage_work (tk_caller k') (sc_loads s) (tk_stage k') \<le> stage_work (tk_caller k) (sc_loads s) (tk_stage k)"
  shows "work s' t \<le> work s t"
  using assms by (auto simp: work_def split: option.split)

lemma work_load:
  assumes "sc_loads s l = Some ld" "phase_work (ld_phase ld') \<le> phase_work (ld_phase ld)"
    and "sc_loads s' = (sc_loads s)(l \<mapsto> ld')" "sc_tasks s' = sc_tasks s"
  shows "work s' t \<le> work s t"
proof -
  have "stage_work c (sc_loads s') st \<le> stage_work c (sc_loads s) st" for c st
    using assms(1,2) by (cases st; cases c) (auto simp: assms(3))
  then show ?thesis by (auto simp: work_def assms(4) split: option.split)
qed

definition callers_ok :: "Sched \<Rightarrow> bool" where
  "callers_ok s \<longleftrightarrow> (\<forall>t k. sc_tasks s t = Some k \<longrightarrow> tk_stage k = Appending \<longrightarrow> (\<exists>session msg. tk_caller k = Operate session msg))"

lemma callers_step: "callers_ok s \<Longrightarrow> do_event ev s = Some s' \<Longrightarrow> callers_ok s'"
proof -
  assume c: "callers_ok s" and ev: "do_event ev s = Some s'"
  have put: "callers_ok (put_task t k r)" if "sc_tasks r = sc_tasks s"
    "tk_stage k = Appending \<Longrightarrow> \<exists>session msg. tk_caller k = Operate session msg" for t k r
    using c that by (auto simp: callers_ok_def sched_simps)
  have frame: "callers_ok r" if "sc_tasks r = sc_tasks s" for r
    using c that by (simp add: callers_ok_def)
  show ?thesis
    using ev
  proof (cases rule: event_cases)
    case (called t c)
    then show ?thesis
      by (cases rule: get_or_load_cases [of s c t]) (auto intro!: put simp: sched_simps)
  next
    case (applied t k session msg p)
    then show ?thesis unfolding applied(5) apply_step_def by (auto intro!: put)
  next
    case (base l ld)
    show ?thesis unfolding base(4) by (rule frame) (simp add: sched_simps)
  next
    case (ops l ld b)
    show ?thesis unfolding ops(4) by (rule frame) (simp add: sched_simps)
  next
    case (loaded l ld b xs now)
    show ?thesis unfolding loaded(4) by (rule frame) (simp add: finish_load_def Let_def sched_simps)
  next
    case (load_failed l ld e)
    show ?thesis unfolding load_failed(4) by (rule frame) (simp add: fail_load_def sched_simps)
  next
    case (dropped d)
    show ?thesis unfolding dropped(2) by (rule frame) simp
  next
    case (written ps uuid created db env)
    show ?thesis unfolding written(3) by (rule frame) simp
  qed (auto intro!: put simp: update_step_def)
qed

lemma callers_idle: "idle db s \<Longrightarrow> callers_ok s"
  by (simp add: idle_def callers_ok_def)

lemma reaches_callers: "reaches fits s0 s \<Longrightarrow> callers_ok s0 \<Longrightarrow> callers_ok s"
  by (induction rule: reaches.induct) (auto intro: callers_step)

lemma work_never_grows:
  assumes "flights_ok s" "do_event ev s = Some s'" "sc_tasks s t \<noteq> None"
  shows "work s' t \<le> work s t"
  using assms(2)
proof (cases rule: event_cases)
  case (called t' c)
  then have n: "t' \<noteq> t" using assms(3) by auto
  show ?thesis
  proof (cases rule: get_or_load_cases [of s c t'])
    case (hit p)
    then show ?thesis using called(3) work_other [OF n] by simp
  next
    case (wait l)
    then show ?thesis using called(3) work_other [OF n] by simp
  next
    case new
    let ?ld = "\<lparr>ld_docId = caller_doc c, ld_phase = Load_started\<rparr> :: Load"
    let ?s = "put_load (sc_nextLoad s) ?ld
      (s\<lparr>sc_loading := (sc_loading s)(caller_doc c \<mapsto> sc_nextLoad s), sc_nextLoad := sc_nextLoad s + 1\<rparr>)"
    obtain k where k: "sc_tasks s t = Some k" using assms(3) by auto
    have "stage_work (tk_caller k) (sc_loads ?s) (tk_stage k) = stage_work (tk_caller k) (sc_loads s) (tk_stage k)"
    proof (cases "tk_stage k")
      case (Awaiting l)
      then have "l \<noteq> sc_nextLoad s"
        using flights_okD(4) [OF assms(1) k, of l] flights_okD(2) [OF assms(1), of l] by auto
      with Awaiting show ?thesis by (cases "tk_caller k") (simp_all add: sched_simps)
    qed (cases "tk_caller k"; simp)+
    then have "work ?s t = work s t" using k by (simp add: work_def sched_simps)
    then show ?thesis unfolding called(3) new(3) by (simp add: work_other [OF n])
  qed
next
  case (base l ld)
  show ?thesis unfolding base(4)
    by (rule work_load [OF base(2), where ld' = "query_snapshot ld (sc_db s)"])
       (simp_all add: base query_snapshot_def sched_simps)
next
  case (ops l ld b)
  show ?thesis unfolding ops(4)
    by (rule work_load [OF ops(2), where ld' = "query_operations ld b (sc_db s)"])
       (simp_all add: ops query_operations_def sched_simps)
next
  case (loaded l ld b xs now)
  show ?thesis unfolding loaded(4)
    by (rule work_load [OF loaded(2), where ld' = "ld\<lparr>ld_phase := Load_done (w_next (sc_worker s))\<rparr>"])
       (simp_all add: finish_load_def Let_def sched_simps)
next
  case (load_failed l ld e)
  show ?thesis unfolding load_failed(4)
    by (rule work_load [OF load_failed(2), where ld' = "ld\<lparr>ld_phase := Load_failed e\<rparr>"])
       (simp_all add: fail_load_def sched_simps)
next
  case (resumed t' k l ld p)
  show ?thesis
    by (rule work_task [OF resumed(2), where k' = "k\<lparr>tk_stage := Holding p\<rparr>"])
       (simp_all add: resumed sched_simps, cases "tk_caller k", simp_all)
next
  case (failed t' k e)
  show ?thesis
    by (rule work_task [OF failed(2), where k' = "k\<lparr>tk_stage := Failed e\<rparr>"])
       (simp_all add: failed(3) sched_simps)
next
  case (applied t' k session msg p)
  show ?thesis
    by (rule work_task [OF applied(2), where k' = "k\<lparr>tk_stage := Appending\<rparr>"])
       (simp_all add: applied apply_step_def sched_simps)
next
  case (committed t' k session msg uuid created db env)
  show ?thesis
    by (rule work_task [OF committed(2), where k' = "k\<lparr>tk_stage := Appended env\<rparr>"])
       (simp_all add: committed(3,4,6) sched_simps)
next
  case (updated t' k env)
  show ?thesis
    by (rule work_task [OF updated(2), where k' = "k\<lparr>tk_stage := Publishing env\<rparr>"], simp_all add: updated(4))
       (cases "tk_caller k"; simp add: updated(3) update_step_def sched_simps)+
next
  case (published t' k env)
  show ?thesis
    by (rule work_task [OF published(2), where k' = "k\<lparr>tk_stage := Finished env\<rparr>"])
       (simp_all add: published(4) sched_simps)
next
  case (dropped d)
  show ?thesis unfolding dropped(2) by (rule eq_refl [OF work_frame]) simp_all
next
  case (written ps uuid created db env)
  show ?thesis unfolding written(3) by (rule eq_refl [OF work_frame]) simp_all
qed

lemma load_moves:
  assumes "sc_loads s l = Some ld" "in_flight (ld_phase ld)"
  obtains ev s' ld' where "do_event ev s = Some s'" "\<not> is_failure ev" "sc_tasks s' = sc_tasks s"
    "sc_loads s' = (sc_loads s)(l \<mapsto> ld')" "phase_work (ld_phase ld') < phase_work (ld_phase ld)"
proof (cases "ld_phase ld")
  case Load_started
  then show thesis
    using that [of "Query_snapshot l" _ "query_snapshot ld (sc_db s)"] assms
    by (simp add: on_load_def query_snapshot_def sched_simps)
next
  case (Base_read b)
  then show thesis
    using that [of "Query_operations l" _ "query_operations ld b (sc_db s)"] assms
    by (simp add: on_load_def query_operations_def sched_simps)
next
  case (Ops_read b xs)
  then show thesis
    using that [of "Loaded l 0" _ "ld\<lparr>ld_phase := Load_done (w_next (sc_worker s))\<rparr>"] assms
    by (simp add: on_load_def finish_load_def Let_def sched_simps)
qed (use assms in simp_all)

lemma handler_moves:
  assumes "flights_ok s" "callers_ok s" "sc_tasks s t = Some k" "\<not> settled k"
  shows "\<exists>ev s'. do_event ev s = Some s' \<and> \<not> is_failure ev \<and> work s' t < work s t"
proof (cases "tk_stage k")
  case (Awaiting l)
  obtain ld where ld: "sc_loads s l = Some ld" using flights_okD(4) [OF assms(1,3) Awaiting] by blast
  show ?thesis
  proof (cases "in_flight (ld_phase ld)")
    case True
    from load_moves [OF ld True] obtain ev s' ld' where "do_event ev s = Some s'" "\<not> is_failure ev"
      "sc_tasks s' = sc_tasks s" "sc_loads s' = (sc_loads s)(l \<mapsto> ld')" "phase_work (ld_phase ld') < phase_work (ld_phase ld)" .
    then show ?thesis
      using assms(3) Awaiting ld by (intro exI [of _ ev] exI [of _ s']) (simp add: work_def)
  next
    case False
    then show ?thesis
      using assms(3) Awaiting ld
      by (intro exI [of _ "Resume t"], cases "ld_phase ld"; cases "tk_caller k")
         (auto simp: on_task_def on_load_def work_def sched_simps)
  qed
next
  case (Holding p)
  then obtain session msg where "tk_caller k = Operate session msg" using assms(4) by (cases "tk_caller k") auto
  then show ?thesis
    using assms(3) Holding
    by (intro exI [of _ "Apply_op t"]) (simp add: on_task_def work_def apply_step_def sched_simps)
next
  case Appending
  then obtain session msg where c: "tk_caller k = Operate session msg"
    using assms(2,3) unfolding callers_ok_def by blast
  then show ?thesis
    using assms(3) Appending
    by (intro exI [of _ "Commit t [] []"] exI [of _ "commit_step t k session msg [] [] s"] conjI)
       (auto simp: on_task_def work_def commit_step_def sched_simps split: sum.split)
next
  case (Appended env)
  then show ?thesis
    using assms(3)
    by (intro exI [of _ "Update_cache t"], cases "tk_caller k")
       (simp_all add: on_task_def work_def update_step_def sched_simps)
next
  case (Publishing env)
  then show ?thesis
    using assms(3)
    by (intro exI [of _ "Publish t True"], cases "tk_caller k")
       (simp_all add: on_task_def work_def publish_step_def sched_simps)
qed (use assms in simp_all)

text \<open>C31: No handler waits for ever. The work a handler has still to do, its load included, is
  at most eight steps; no step of any other handler, of a load or of the environment - an eviction,
  an invalidation, a failure - adds to it; and until the handler has its entry, has answered or
  has thrown, some step that is not a failure is possible that lessens it.\<close>

theorem handlers_finish:
  assumes "reaches any_event s0 s" "idle db s0" "sc_tasks s t = Some k"
  shows "work s t \<le> 8 \<and> (\<forall>ev s'. do_event ev s = Some s' \<longrightarrow> work s' t \<le> work s t) \<and>
    (settled k \<or> (\<exists>ev s'. do_event ev s = Some s' \<and> \<not> is_failure ev \<and> work s' t < work s t))"
proof -
  have f: "flights_ok s" using assms(1) flights_idle [OF assms(2)] by (rule reaches_flights)
  have c: "callers_ok s" using assms(1) callers_idle [OF assms(2)] by (rule reaches_callers)
  show ?thesis
    using work_bound work_never_grows [OF f] handler_moves [OF f c assms(3)] assms(3) by blast
qed

theorem handlers_finish_witness:
  "\<exists>s. events [Call_load 1 (Open ''d''), Call_load 2 (Open ''d''), Query_snapshot 0] example_sched = Some s \<and>
     (\<exists>ev s'. do_event ev s = Some s' \<and> \<not> is_failure ev \<and> work s' 2 < work s 2)"
proof -
  obtain s where s: "events [Call_load 1 (Open ''d''), Call_load 2 (Open ''d''), Query_snapshot 0] example_sched = Some s"
    "sc_tasks s 2 = Some \<lparr>tk_caller = Open ''d'', tk_stage = Awaiting 0\<rparr>"
    by (simp add: get_or_load_def map_lru_def example_sched_def empty_worker_def put_task_def put_load_def Let_def
        on_load_def)
  from handlers_finish [OF events_run [OF s(1)] example_idle s(2)] s(1) show ?thesis by simp
qed

section \<open>Interleaved handlers agree with the log\<close>

text \<open>Two causal runs from one document: what is ready after the one with fewer operations is ready
  after the other.\<close>

fun inserted :: "RGAOperation \<Rightarrow> UID set" where
  "inserted (INSERT u a v) = {u}"
| "inserted _ = {}"

lemma uids_causal: "causal d xs \<Longrightarrow> uids (applyAll d xs) = uids d \<union> \<Union> (inserted ` set xs)"
proof (induction xs arbitrary: d)
  case (Cons x xs)
  then have "uids (applyOp d x) = uids d \<union> inserted x"
    by (cases x) (auto simp: uids_applyOp)
  with Cons show ?case by auto
qed simp

lemma op_ready_uids: "op_ready d x \<Longrightarrow> uids d \<subseteq> uids e \<Longrightarrow> op_ready e x"
  by (cases x) auto

lemma ready_with_more:
  assumes "causal d xs" "causal d ys" "set xs \<subseteq> set ys" "op_ready (applyAll d xs) x"
  shows "op_ready (applyAll d ys) x"
  using assms(3) by (intro op_ready_uids [OF assms(4)]) (auto simp: uids_causal [OF assms(1)] uids_causal [OF assms(2)])

text \<open>The handlers that use a document's entry, and those that have changed it without having stored
  their operation.\<close>

fun in_use :: "Task \<Rightarrow> bool" where
  "in_use k = (case tk_stage k of Awaiting l \<Rightarrow> True | Appending \<Rightarrow> True
     | Holding p \<Rightarrow> (case tk_caller k of Operate session msg \<Rightarrow> True | _ \<Rightarrow> False) | _ \<Rightarrow> False)"

definition busy :: "Sched \<Rightarrow> string \<Rightarrow> bool" where
  "busy s d \<longleftrightarrow> (\<exists>t k. sc_tasks s t = Some k \<and> caller_doc (tk_caller k) = d \<and> in_use k)"

definition ops_in :: "(stage \<Rightarrow> bool) \<Rightarrow> Sched \<Rightarrow> string \<Rightarrow> RGAOperation set" where
  "ops_in P s d = {x. \<exists>t k session msg. sc_tasks s t = Some k \<and> tk_caller k = Operate session msg \<and>
     P (tk_stage k) \<and> msg_docId msg = d \<and> msg_op msg = x}"

abbreviation unstored :: "Sched \<Rightarrow> string \<Rightarrow> RGAOperation set" where
  "unstored \<equiv> ops_in (\<lambda>st. st = Appending)"

abbreviation failures :: "Sched \<Rightarrow> string \<Rightarrow> RGAOperation set" where
  "failures \<equiv> ops_in (\<lambda>st. \<exists>e. st = Failed e)"

text \<open>The runs considered: clients refer only to characters that are stored when their operation
  arrives - their own are, since a session's messages are handled one after the other, and those
  of others reach them after they are stored -, an entry in use is not dropped, other
  writers leave a document that is in memory alone, and the log's tail fits into one query.\<close>

fun orderly :: "RGAOperation set \<Rightarrow> Sched \<Rightarrow> event \<Rightarrow> bool" where
  "orderly A s (Call_load t (Operate session msg)) \<longleftrightarrow> admissible (sc_db s) session msg \<and> msg_op msg \<in> A \<and>
     op_ready (pg.replica (sc_db s) (msg_docId msg)) (msg_op msg)"
| "orderly A s (Query_operations l) \<longleftrightarrow>
     (\<forall>ld. sc_loads s l = Some ld \<longrightarrow> pg.pending (sc_db s) (ld_docId ld) \<le> int defaultLoadLimit)"
| "orderly A s (Evict d) \<longleftrightarrow> \<not> busy s d"
| "orderly A s (Invalidate d) \<longleftrightarrow> \<not> busy s d"
| "orderly A s (Write ps uuid created) \<longleftrightarrow> cached s (ap_docId ps) = None \<and> sc_loading s (ap_docId ps) = None \<and>
     ap_op ps \<in> A \<and> op_ready (pg.replica (sc_db s) (ap_docId ps)) (ap_op ps)"
| "orderly A s _ \<longleftrightarrow> True"

definition reflects :: "RGADocument \<Rightarrow> RGAOperation list \<Rightarrow> RGAOperation set \<Rightarrow> RGAOperation set \<Rightarrow> RGADocument \<Rightarrow> bool" where
  "reflects r xs U F D \<longleftrightarrow> (\<exists>ys. D = applyAll r ys \<and> causal r ys \<and> set xs \<union> U \<subseteq> set ys \<and> set ys \<subseteq> set xs \<union> U \<union> F)"

text \<open>\<open>X d\<close> are the operations stored since the start, when the document was \<open>R d\<close>.\<close>

definition log_tracks :: "RGAOperation set \<Rightarrow> (string \<Rightarrow> RGADocument) \<Rightarrow> (string \<Rightarrow> RGAOperation list) \<Rightarrow> Database \<Rightarrow> bool" where
  "log_tracks A R X db \<longleftrightarrow> store_ok db \<and>
     (\<forall>d. pg.replica db d = applyAll (R d) (X d) \<and> causal (R d) (X d) \<and> set (X d) \<subseteq> A)"

definition tasks_ok :: "RGAOperation set \<Rightarrow> Sched \<Rightarrow> bool" where
  "tasks_ok A s \<longleftrightarrow> (\<forall>t k session msg. sc_tasks s t = Some k \<longrightarrow> tk_caller k = Operate session msg \<longrightarrow>
     msg_op msg \<in> A \<and> op_ready (pg.replica (sc_db s) (msg_docId msg)) (msg_op msg))"

definition entries_ok :: "(string \<Rightarrow> RGADocument) \<Rightarrow> (string \<Rightarrow> RGAOperation list) \<Rightarrow> Sched \<Rightarrow> bool" where
  "entries_ok R X s \<longleftrightarrow>
     (\<forall>d p. cached s d = Some p \<longrightarrow> p < w_next (sc_worker s) \<and> (\<forall>e. cached s e = Some p \<longrightarrow> e = d) \<and>
        reflects (R d) (X d) (unstored s d) (failures s d) (cd_doc (entry s p)))"

definition holders_ok :: "Sched \<Rightarrow> bool" where
  "holders_ok s \<longleftrightarrow>
     (\<forall>t k session msg. sc_tasks s t = Some k \<longrightarrow> tk_caller k = Operate session msg \<longrightarrow>
        (\<forall>p. tk_stage k = Holding p \<longrightarrow> cached s (msg_docId msg) = Some p) \<and>
        (tk_stage k = Appending \<longrightarrow> cached s (msg_docId msg) \<noteq> None)) \<and>
     (\<forall>t k l ld p. sc_tasks s t = Some k \<longrightarrow> tk_stage k = Awaiting l \<longrightarrow> sc_loads s l = Some ld \<longrightarrow>
        ld_phase ld = Load_done p \<longrightarrow> cached s (ld_docId ld) = Some p)"

definition loads_ok :: "Sched \<Rightarrow> bool" where
  "loads_ok s \<longleftrightarrow> (\<forall>l ld. sc_loads s l = Some ld \<longrightarrow>
     (\<forall>b. ld_phase ld = Base_read b \<longrightarrow> b = loadLatestSnapshot (sc_db s) (ld_docId ld)) \<and>
     (\<forall>b xs now. ld_phase ld = Ops_read b xs \<longrightarrow> cd_doc (build_entry b xs now) = pg.replica (sc_db s) (ld_docId ld)))"

text \<open>The two queries of a load, if the log has not changed in between, give the stored document.\<close>

lemma build_is_load:
  "build_entry (loadLatestSnapshot db d) (loadOperationsAfterSeq db d (from_seq (loadLatestSnapshot db d) - 1) defaultLoadLimit) now =
     loadDocumentFromDB db d now"
  by (simp add: build_entry_def loadDocumentFromDB_def from_seq_def Let_def split: option.split)

lemma reflects_load: "U = {} \<Longrightarrow> causal r xs \<Longrightarrow> reflects r xs U F (applyAll r xs)"
  unfolding reflects_def by (rule exI [of _ xs]) auto

lemma reflects_apply:
  assumes "reflects r xs U F D" "causal r xs" "op_ready (applyAll r xs) x"
  shows "reflects r xs (insert x U) F (applyOp D x)"
proof -
  from assms(1) obtain ys where ys: "D = applyAll r ys" "causal r ys" "set xs \<union> U \<subseteq> set ys" "set ys \<subseteq> set xs \<union> U \<union> F"
    unfolding reflects_def by blast
  have "op_ready (applyAll r ys) x" using ready_with_more [OF assms(2) ys(2) _ assms(3)] ys(3) by blast
  then show ?thesis
    unfolding reflects_def by (intro exI [of _ "ys @ [x]"]) (use ys in auto)
qed

lemma reflects_mono:
  assumes "reflects r xs U F D" "set xs' \<union> U' \<subseteq> set xs \<union> U" "set xs \<union> U \<union> F \<subseteq> set xs' \<union> U' \<union> F'"
  shows "reflects r xs' U' F' D"
  using assms unfolding reflects_def by blast

text \<open>With nothing unstored and nothing failed, what is cached is what is stored.\<close>

lemma reflects_same:
  assumes "reflects r xs {} {} D" "causal r xs" "consistent_ops (set xs)"
  shows "D = applyAll r xs"
proof -
  from assms(1) obtain ys where "D = applyAll r ys" "causal r ys" "set xs = set ys"
    unfolding reflects_def by auto
  then show ?thesis using rga_same_set [OF assms(2) _ _ assms(3)] by metis
qed

fun mine :: "caller \<Rightarrow> string \<Rightarrow> RGAOperation set" where
  "mine (Operate session msg) d = (if msg_docId msg = d then {msg_op msg} else {})"
| "mine (Open e) d = {}"

abbreviation without :: "nat \<Rightarrow> Sched \<Rightarrow> Sched" where
  "without t s \<equiv> s\<lparr>sc_tasks := (sc_tasks s)(t := None)\<rparr>"

lemma ops_in_cong: "sc_tasks s' = sc_tasks s \<Longrightarrow> ops_in P s' d = ops_in P s d"
  by (simp add: ops_in_def)

lemma ex_map_split:
  assumes "m t = Some k"
  shows "(\<exists>t' k'. m t' = Some k' \<and> Q k') \<longleftrightarrow> (\<exists>t' k'. (m(t := None)) t' = Some k' \<and> Q k') \<or> Q k"
proof
  assume "\<exists>t' k'. m t' = Some k' \<and> Q k'"
  then obtain t' k' where "m t' = Some k'" "Q k'" by blast
  then show "(\<exists>t' k'. (m(t := None)) t' = Some k' \<and> Q k') \<or> Q k" using assms by (cases "t' = t") auto
qed (use assms in \<open>auto split: if_splits\<close>)

lemma in_mine: "x \<in> mine c d \<longleftrightarrow> (\<exists>session msg. c = Operate session msg \<and> msg_docId msg = d \<and> msg_op msg = x)"
  by (cases c) auto

lemma ops_in_mine: "ops_in P s d = {x. \<exists>t k. sc_tasks s t = Some k \<and> P (tk_stage k) \<and> x \<in> mine (tk_caller k) d}"
  unfolding ops_in_def in_mine by blast

lemma ops_in_at:
  assumes "sc_tasks s t = Some k"
  shows "ops_in P s d = ops_in P (without t s) d \<union> (if P (tk_stage k) then mine (tk_caller k) d else {})"
  unfolding ops_in_mine
  using ex_map_split [where m = "sc_tasks s" and Q = "\<lambda>k'. P (tk_stage k') \<and> x \<in> mine (tk_caller k') d" for x, OF assms]
  by auto

lemma ops_in_put:
  "ops_in P (put_task t k s) d = ops_in P (without t s) d \<union> (if P (tk_stage k) then mine (tk_caller k) d else {})"
  using ops_in_at [of "put_task t k s" t k P d] by (simp add: ops_in_def sched_simps)

lemma ops_in_fresh: "sc_tasks s t = None \<Longrightarrow> \<not> P (tk_stage k) \<Longrightarrow> ops_in P (put_task t k s) d = ops_in P s d"
  by (simp add: ops_in_put fun_upd_idem)

definition agree :: "RGAOperation set \<Rightarrow> (string \<Rightarrow> RGADocument) \<Rightarrow> (string \<Rightarrow> RGAOperation list) \<Rightarrow> Sched \<Rightarrow> bool" where
  "agree A R X s \<longleftrightarrow> log_tracks A R X (sc_db s) \<and> tasks_ok A s \<and> entries_ok R X s \<and> holders_ok s \<and> loads_ok s"

lemma agreeD:
  assumes "agree A R X s"
  shows "store_ok (sc_db s)" "pg.replica (sc_db s) d = applyAll (R d) (X d)" "causal (R d) (X d)" "set (X d) \<subseteq> A"
    and "sc_tasks s t = Some k \<Longrightarrow> tk_caller k = Operate session msg \<Longrightarrow>
      msg_op msg \<in> A \<and> op_ready (pg.replica (sc_db s) (msg_docId msg)) (msg_op msg)"
    and "cached s d = Some p \<Longrightarrow> p < w_next (sc_worker s)"
    and "cached s d = Some p \<Longrightarrow> cached s e = Some p \<Longrightarrow> e = d"
    and "cached s d = Some p \<Longrightarrow> reflects (R d) (X d) (unstored s d) (failures s d) (cd_doc (entry s p))"
    and "sc_tasks s t = Some k \<Longrightarrow> tk_caller k = Operate session msg \<Longrightarrow> tk_stage k = Holding p \<Longrightarrow>
      cached s (msg_docId msg) = Some p"
    and "sc_tasks s t = Some k \<Longrightarrow> tk_caller k = Operate session msg \<Longrightarrow> tk_stage k = Appending \<Longrightarrow>
      cached s (msg_docId msg) \<noteq> None"
    and "sc_tasks s t = Some k \<Longrightarrow> tk_stage k = Awaiting l \<Longrightarrow> sc_loads s l = Some ld \<Longrightarrow>
      ld_phase ld = Load_done p \<Longrightarrow> cached s (ld_docId ld) = Some p"
    and "sc_loads s l = Some ld \<Longrightarrow> ld_phase ld = Base_read b \<Longrightarrow> b = loadLatestSnapshot (sc_db s) (ld_docId ld)"
    and "sc_loads s l = Some ld \<Longrightarrow> ld_phase ld = Ops_read b xs \<Longrightarrow>
      cd_doc (build_entry b xs now) = pg.replica (sc_db s) (ld_docId ld)"
proof -
  have g: "log_tracks A R X (sc_db s)" "tasks_ok A s" "entries_ok R X s" "holders_ok s" "loads_ok s"
    using assms unfolding agree_def by blast+
  show "store_ok (sc_db s)" "pg.replica (sc_db s) d = applyAll (R d) (X d)" "causal (R d) (X d)" "set (X d) \<subseteq> A"
    using g(1) unfolding log_tracks_def by blast+
  show "sc_tasks s t = Some k \<Longrightarrow> tk_caller k = Operate session msg \<Longrightarrow>
      msg_op msg \<in> A \<and> op_ready (pg.replica (sc_db s) (msg_docId msg)) (msg_op msg)"
    using g(2) unfolding tasks_ok_def by blast
  show "cached s d = Some p \<Longrightarrow> p < w_next (sc_worker s)"
    "cached s d = Some p \<Longrightarrow> cached s e = Some p \<Longrightarrow> e = d"
    "cached s d = Some p \<Longrightarrow> reflects (R d) (X d) (unstored s d) (failures s d) (cd_doc (entry s p))"
    using g(3) unfolding entries_ok_def by blast+
  show "sc_tasks s t = Some k \<Longrightarrow> tk_caller k = Operate session msg \<Longrightarrow> tk_stage k = Holding p \<Longrightarrow>
      cached s (msg_docId msg) = Some p"
    "sc_tasks s t = Some k \<Longrightarrow> tk_caller k = Operate session msg \<Longrightarrow> tk_stage k = Appending \<Longrightarrow>
      cached s (msg_docId msg) \<noteq> None"
    "sc_tasks s t = Some k \<Longrightarrow> tk_stage k = Awaiting l \<Longrightarrow> sc_loads s l = Some ld \<Longrightarrow>
      ld_phase ld = Load_done p \<Longrightarrow> cached s (ld_docId ld) = Some p"
    using g(4) unfolding holders_ok_def by blast+
  show "sc_loads s l = Some ld \<Longrightarrow> ld_phase ld = Base_read b \<Longrightarrow> b = loadLatestSnapshot (sc_db s) (ld_docId ld)"
    "sc_loads s l = Some ld \<Longrightarrow> ld_phase ld = Ops_read b xs \<Longrightarrow>
      cd_doc (build_entry b xs now) = pg.replica (sc_db s) (ld_docId ld)"
    using g(5) unfolding loads_ok_def by blast+
qed

text \<open>A handler of which only the stage changes.\<close>

lemma agree_restage:
  assumes "agree A R X s" "sc_tasks s t = Some k" "st \<noteq> Appending" "\<And>l. st \<noteq> Awaiting l"
    and "\<And>p session msg. st = Holding p \<Longrightarrow> tk_caller k = Operate session msg \<Longrightarrow> cached s (msg_docId msg) = Some p"
    and "tk_stage k = Appending \<Longrightarrow> (\<exists>e. st = Failed e) \<or> (\<forall>d. mine (tk_caller k) d \<subseteq> set (X d))"
    and "\<And>e. tk_stage k \<noteq> Failed e"
  shows "agree A R X (put_task t (k\<lparr>tk_stage := st\<rparr>) s)"
proof -
  note a = agreeD [OF assms(1)]
  let ?s = "put_task t (k\<lparr>tk_stage := st\<rparr>) s"
  have U: "unstored ?s d \<subseteq> unstored s d" "failures s d \<subseteq> failures ?s d"
    "unstored s d \<union> failures s d \<subseteq> set (X d) \<union> unstored ?s d \<union> failures ?s d" for d
    using assms(3,6,7) unfolding ops_in_put ops_in_at [OF assms(2)] by auto
  have "entries_ok R X ?s"
    unfolding entries_ok_def sched_simps
  proof (intro allI impI conjI)
    fix d p assume p: "cached s d = Some p"
    show "p < w_next (sc_worker s)" by (rule a(6) [OF p])
    show "e = d" if "cached s e = Some p" for e by (rule a(7) [OF p that])
    show "reflects (R d) (X d) (unstored ?s d) (failures ?s d) (cd_doc (entry s p))"
      by (rule reflects_mono [OF a(8) [OF p]]) (use U [of d] in blast)+
  qed
  moreover have "tasks_ok A ?s"
    unfolding tasks_ok_def sched_simps using a(5) assms(2) by auto
  moreover have "holders_ok ?s"
    unfolding holders_ok_def sched_simps using a(9-11) assms(2-5) by (auto split: if_splits)
  ultimately show ?thesis
    using assms(1) by (simp add: agree_def sched_simps loads_ok_def)
qed

text \<open>A worker whose cache and documents are as before, and a log that is as before.\<close>

lemma agree_frame:
  assumes "agree A R X s" "sc_db s' = sc_db s" "sc_tasks s' = sc_tasks s" "sc_loads s' = sc_loads s"
    and "w_next (sc_worker s') = w_next (sc_worker s)" "cached s' = cached s" "\<And>p. cd_doc (entry s' p) = cd_doc (entry s p)"
  shows "agree A R X s'"
  using assms(1) unfolding agree_def log_tracks_def tasks_ok_def entries_ok_def holders_ok_def loads_ok_def
  unfolding assms(2-7) ops_in_cong [OF assms(3)] .

text \<open>A handler that starts.\<close>

lemma agree_new_task:
  assumes "agree A R X s" "sc_tasks s t = None"
    and "\<And>session msg. tk_caller k = Operate session msg \<Longrightarrow>
      msg_op msg \<in> A \<and> op_ready (pg.replica (sc_db s) (msg_docId msg)) (msg_op msg)"
    and "(\<exists>p. tk_stage k = Holding p \<and> cached s (caller_doc (tk_caller k)) = Some p) \<or>
      (\<exists>l ld. tk_stage k = Awaiting l \<and> sc_loads s l = Some ld \<and> in_flight (ld_phase ld))"
  shows "agree A R X (put_task t k s)"
proof -
  note a = agreeD [OF assms(1)]
  let ?s = "put_task t k s"
  have same: "unstored ?s d = unstored s d" "failures ?s d = failures s d" for d
    using assms(4) by (auto simp: ops_in_fresh [OF assms(2)])
  have "entries_ok R X ?s"
    unfolding entries_ok_def sched_simps same using a(6-8) by blast
  moreover have "tasks_ok A ?s"
    unfolding tasks_ok_def sched_simps using a(5) assms(3) by auto
  moreover have "holders_ok ?s"
    unfolding holders_ok_def
  proof (intro conjI allI impI)
    fix t' k' session msg
    assume k': "sc_tasks ?s t' = Some k'" "tk_caller k' = Operate session msg"
    show "cached ?s (msg_docId msg) = Some p" if "tk_stage k' = Holding p" for p
      using k' that a(9) assms(4) by (auto simp: sched_simps split: if_splits)
    show "cached ?s (msg_docId msg) \<noteq> None" if "tk_stage k' = Appending"
      using k' that a(10) [of t' k'] assms(4) by (auto simp: sched_simps split: if_splits)
  next
    fix t' k' l ld p
    assume "sc_tasks ?s t' = Some k'" "tk_stage k' = Awaiting l" "sc_loads ?s l = Some ld" "ld_phase ld = Load_done p"
    then show "cached ?s (ld_docId ld) = Some p"
      using a(11) [of t' k'] assms(4) by (auto simp: sched_simps split: if_splits)
  qed
  ultimately show ?thesis
    using assms(1) by (simp add: agree_def sched_simps loads_ok_def)
qed

text \<open>A load that has not yet come to its end.\<close>

lemma agree_put_load:
  assumes "agree A R X s" "\<And>p. ld_phase ld' \<noteq> Load_done p"
    and "\<And>b. ld_phase ld' = Base_read b \<Longrightarrow> b = loadLatestSnapshot (sc_db s) (ld_docId ld')"
    and "\<And>b xs now. ld_phase ld' = Ops_read b xs \<Longrightarrow> cd_doc (build_entry b xs now) = pg.replica (sc_db s) (ld_docId ld')"
  shows "agree A R X (put_load l ld' s)"
proof -
  note a = agreeD [OF assms(1)]
  let ?s = "put_load l ld' s"
  have "entries_ok R X ?s"
    using assms(1) by (simp add: agree_def entries_ok_def sched_simps ops_in_cong [of ?s s])
  moreover have "tasks_ok A ?s"
    using assms(1) by (simp add: agree_def tasks_ok_def sched_simps)
  moreover have "holders_ok ?s"
    unfolding holders_ok_def
  proof (intro conjI allI impI)
    fix t k session msg assume k: "sc_tasks ?s t = Some k" "tk_caller k = Operate session msg"
    show "cached ?s (msg_docId msg) = Some p" if "tk_stage k = Holding p" for p
      using a(9) k that by (simp add: sched_simps)
    show "cached ?s (msg_docId msg) \<noteq> None" if "tk_stage k = Appending"
      using a(10) [OF _ k(2) that] k(1) by (simp add: sched_simps)
  next
    fix t k n ld p
    assume "sc_tasks ?s t = Some k" "tk_stage k = Awaiting n" "sc_loads ?s n = Some ld" "ld_phase ld = Load_done p"
    then show "cached ?s (ld_docId ld) = Some p"
      using a(11) [of t k n] assms(2) by (auto simp: sched_simps split: if_splits)
  qed
  moreover have "loads_ok ?s"
    unfolding loads_ok_def
  proof (intro conjI allI impI)
    fix n ld assume ld: "sc_loads ?s n = Some ld"
    show "b = loadLatestSnapshot (sc_db ?s) (ld_docId ld)" if "ld_phase ld = Base_read b" for b
      using ld that a(12) assms(3) by (auto simp: sched_simps split: if_splits)
    show "cd_doc (build_entry b xs now) = pg.replica (sc_db ?s) (ld_docId ld)" if "ld_phase ld = Ops_read b xs" for b xs now
      using ld that a(13) assms(4) by (auto simp: sched_simps split: if_splits)
  qed
  ultimately show ?thesis
    using assms(1) by (simp add: agree_def sched_simps)
qed

lemma agree_finish_load:
  assumes "agree A R X s" "sc_loads s l = Some ld" "ld_phase ld = Ops_read b xs" "cached s (ld_docId ld) = None"
  shows "agree A R X (finish_load l ld (build_entry b xs now) s)"
proof -
  note a = agreeD [OF assms(1)]
  define d where "d = ld_docId ld"
  define p where "p = w_next (sc_worker s)"
  define s' where "s' = finish_load l ld (build_entry b xs now) s"
  have s': "sc_db s' = sc_db s" "sc_tasks s' = sc_tasks s" "sc_loads s' = (sc_loads s)(l \<mapsto> ld\<lparr>ld_phase := Load_done p\<rparr>)"
    "cached s' = (cached s)(d \<mapsto> p)" "w_next (sc_worker s') = p + 1" "entry s' = (entry s)(p := build_entry b xs now)"
    by (simp_all add: s'_def finish_load_def Let_def sched_simps map_lru_def d_def p_def)
  have none: "cached s d = None" using assms(4) by (simp add: d_def)
  have U: "unstored s d = {}"
    using a(10) none by (fastforce simp: ops_in_def)
  have built: "cd_doc (build_entry b xs now) = applyAll (R d) (X d)"
    using a(13) [OF assms(2,3)] a(2) by (simp add: d_def)
  have "entries_ok R X s'"
    unfolding entries_ok_def
  proof (intro allI impI conjI)
    fix e q assume q: "cached s' e = Some q"
    have old: "q < p" if "e \<noteq> d" using q a(6) [of e q] that by (simp add: s' p_def)
    show "q < w_next (sc_worker s')" using old q by (cases "e = d") (simp_all add: s')
    show "e' = e" if "cached s' e' = Some q" for e'
      using that q a(6) [of e q] a(6) [of e' q] a(7) [of e q e'] by (auto simp: s' p_def split: if_splits)
    show "reflects (R e) (X e) (unstored s' e) (failures s' e) (cd_doc (entry s' q))"
    proof (cases "e = d")
      case True
      then have "q = p" using q by (simp add: s')
      then show ?thesis
        using reflects_load [OF U a(3)] built by (simp add: True s' ops_in_cong [OF s'(2)])
    next
      case False
      then show ?thesis
        using a(8) [of e q] q old by (simp add: s' ops_in_cong [OF s'(2)])
    qed
  qed
  moreover have "tasks_ok A s'"
    using assms(1) by (simp add: agree_def tasks_ok_def s')
  moreover have "holders_ok s'"
    unfolding holders_ok_def
  proof (intro conjI allI impI)
    fix t k session msg assume k: "sc_tasks s' t = Some k" "tk_caller k = Operate session msg"
    show "cached s' (msg_docId msg) = Some q" if "tk_stage k = Holding q" for q
      using a(9) [OF k(1) [unfolded s'] k(2) that] none by (auto simp: s')
    show "cached s' (msg_docId msg) \<noteq> None" if "tk_stage k = Appending"
      using a(10) [OF k(1) [unfolded s'] k(2) that] by (simp add: s')
  next
    fix t k n m q
    assume k: "sc_tasks s' t = Some k" "tk_stage k = Awaiting n" "sc_loads s' n = Some m" "ld_phase m = Load_done q"
    show "cached s' (ld_docId m) = Some q"
    proof (cases "n = l")
      case True
      then have "m = ld\<lparr>ld_phase := Load_done p\<rparr>" using k(3) by (simp add: s')
      then show ?thesis using k(4) by (simp add: s' d_def)
    next
      case False
      then have "cached s (ld_docId m) = Some q" using a(11) [of t k n m q] k by (simp add: s')
      then show ?thesis using none by (auto simp: s')
    qed
  qed
  moreover have "loads_ok s'"
    unfolding loads_ok_def s' using a(12,13) by (auto split: if_splits)
  moreover have "log_tracks A R X (sc_db s')"
    using assms(1) by (simp add: agree_def s')
  ultimately show ?thesis by (simp add: agree_def s'_def)
qed

lemma agree_drop:
  assumes "agree A R X s" "flights_ok s" "\<not> busy s d"
  shows "agree A R X (s\<lparr>sc_worker := invalidateDocument map_lru (sc_worker s) d\<rparr>)"
proof -
  note a = agreeD [OF assms(1)]
  define s' where "s' = s\<lparr>sc_worker := invalidateDocument map_lru (sc_worker s) d\<rparr>"
  have s': "sc_db s' = sc_db s" "sc_tasks s' = sc_tasks s" "sc_loads s' = sc_loads s" "cached s' = (cached s)(d := None)"
    "w_next (sc_worker s') = w_next (sc_worker s)" "entry s' = entry s"
    by (simp_all add: s'_def invalidateDocument_def map_lru_def)
  have free: "caller_doc (tk_caller k) \<noteq> d" if "sc_tasks s t = Some k" "in_use k" for t k
    using assms(3) that by (auto simp: busy_def)
  have "entries_ok R X s'"
    unfolding entries_ok_def s' ops_in_cong [OF s'(2)] using a(6-8) by (auto split: if_splits)
  moreover have "tasks_ok A s'"
    using assms(1) by (simp add: agree_def tasks_ok_def s')
  moreover have "holders_ok s'"
    unfolding holders_ok_def s'
  proof (intro conjI allI impI)
    fix t k session msg assume k: "sc_tasks s t = Some k" "tk_caller k = Operate session msg"
    show "((cached s)(d := None)) (msg_docId msg) = Some q" if "tk_stage k = Holding q" for q
      using a(9) [OF k that] free [OF k(1)] k(2) that by auto
    show "((cached s)(d := None)) (msg_docId msg) \<noteq> None" if "tk_stage k = Appending"
      using a(10) [OF k that] free [OF k(1)] k(2) that by auto
  next
    fix t k n m q
    assume k: "sc_tasks s t = Some k" "tk_stage k = Awaiting n" "sc_loads s n = Some m" "ld_phase m = Load_done q"
    have "caller_doc (tk_caller k) \<noteq> d" using free [OF k(1)] k(2) by simp
    then have "ld_docId m \<noteq> d" using flights_okD(4) [OF assms(2) k(1,2)] k(3) by auto
    then show "((cached s)(d := None)) (ld_docId m) = Some q" using a(11) [OF k] by simp
  qed
  moreover have "loads_ok s'" "log_tracks A R X (sc_db s')"
    using assms(1) by (simp_all add: agree_def s' loads_ok_def)
  ultimately show ?thesis by (simp add: agree_def s'_def)
qed

lemma agree_apply:
  assumes "agree A R X s" "sc_tasks s t = Some k" "tk_caller k = Operate session msg" "tk_stage k = Holding p"
  shows "agree A R X (apply_step t k msg p s)"
proof -
  note a = agreeD [OF assms(1)]
  define d where "d = msg_docId msg"
  define x where "x = msg_op msg"
  define k' where "k' = k\<lparr>tk_stage := Appending\<rparr>"
  define s' where "s' = apply_step t k msg p s"
  have p: "cached s d = Some p" using a(9) [OF assms(2-4)] by (simp add: d_def)
  have s': "sc_db s' = sc_db s" "sc_tasks s' = (sc_tasks s)(t \<mapsto> k')" "sc_loads s' = sc_loads s" "cached s' = cached s"
    "w_next (sc_worker s') = w_next (sc_worker s)"
    "entry s' = (entry s)(p := (entry s p)\<lparr>cd_doc := applyOp (cd_doc (entry s p)) x\<rparr>)"
    by (simp_all add: s'_def apply_step_def sched_simps set_doc_def k'_def x_def applyOp_def)
  have ops: "unstored s' e = (if e = d then insert x (unstored s e) else unstored s e)" "failures s' e = failures s e" for e
    using assms(3,4) ops_in_cong [of s' "put_task t k' s"] s'(2)
    by (auto simp: sched_simps ops_in_put ops_in_at [OF assms(2)] k'_def d_def x_def)
  have ready: "op_ready (applyAll (R d) (X d)) x" using a(5) [OF assms(2,3)] a(2) by (simp add: d_def x_def)
  have "entries_ok R X s'"
    unfolding entries_ok_def
  proof (intro allI impI conjI)
    fix e q assume "cached s' e = Some q"
    then have q: "cached s e = Some q" by (simp add: s')
    show "q < w_next (sc_worker s')" using a(6) [OF q] by (simp add: s')
    show "e' = e" if "cached s' e' = Some q" for e' using a(7) [OF q] that by (simp add: s')
    show "reflects (R e) (X e) (unstored s' e) (failures s' e) (cd_doc (entry s' q))"
    proof (cases "e = d")
      case True
      then show ?thesis using reflects_apply [OF a(8) [OF p] a(3) ready] p q by (simp add: ops s')
    next
      case False
      then have "q \<noteq> p" using a(7) [OF p, of e] q by auto
      with False show ?thesis using a(8) [OF q] by (simp add: ops s')
    qed
  qed
  moreover have "tasks_ok A s'"
    unfolding tasks_ok_def s' using a(5) assms(2) by (auto simp: k'_def)
  moreover have "holders_ok s'"
    unfolding holders_ok_def s' using a(9-11) assms(3) p by (auto simp: k'_def d_def split: if_splits)
  moreover have "loads_ok s'" "log_tracks A R X (sc_db s')"
    using assms(1) by (simp_all add: agree_def s' loads_ok_def)
  ultimately show ?thesis by (simp add: agree_def s'_def)
qed

text \<open>A row is stored: that of a handler that has applied its operation, or another writer's.\<close>

lemma agree_append:
  assumes "agree A R X s" "flights_ok s" "appendOperation (sc_db s) ps uuid created = Inr (db, env)"
    and "ap_op ps \<in> A" "op_ready (pg.replica (sc_db s) (ap_docId ps)) (ap_op ps)"
    and "ap_op ps \<in> unstored s (ap_docId ps) \<or> (cached s (ap_docId ps) = None \<and> sc_loading s (ap_docId ps) = None)"
  shows "agree A R (X(ap_docId ps := X (ap_docId ps) @ [ap_op ps])) (s\<lparr>sc_db := db\<rparr>)"
proof -
  note a = agreeD [OF assms(1)]
  define d where "d = ap_docId ps"
  define x where "x = ap_op ps"
  let ?X = "X(d := X d @ [x])" and ?s = "s\<lparr>sc_db := db\<rparr>"
  from append_success [OF a(1) assms(3)] obtain row where row: "row_appended (sc_db s) d x db" "store_ok db"
    "db_snapshots db = db_snapshots (sc_db s)" unfolding d_def x_def .
  have rep: "pg.replica db e = (if e = d then applyOp (pg.replica (sc_db s) e) x else pg.replica (sc_db s) e)" for e
    by (rule pg.replica_append(1) [OF a(1) row(1)])
  have ready: "op_ready (applyAll (R d) (X d)) x" using assms(5) by (simp add: a(2) d_def x_def)
  have "log_tracks A R ?X db"
    unfolding log_tracks_def using row(2) a(2-4) ready assms(4) by (auto simp: rep x_def)
  moreover have "tasks_ok A ?s"
    unfolding tasks_ok_def
  proof (intro allI impI)
    fix t k session msg assume "sc_tasks ?s t = Some k" "tk_caller k = Operate session msg"
    then show "msg_op msg \<in> A \<and> op_ready (pg.replica (sc_db ?s) (msg_docId msg)) (msg_op msg)"
      using a(5) [of t k session msg] by (auto simp: rep intro: op_ready_mono)
  qed
  moreover have "entries_ok R ?X ?s"
    unfolding entries_ok_def
  proof (intro allI impI conjI)
    fix e q assume "cached ?s e = Some q"
    then have q: "cached s e = Some q" by simp
    show "q < w_next (sc_worker ?s)" using a(6) [OF q] by simp
    show "e' = e" if "cached ?s e' = Some q" for e' using a(7) [OF q] that by simp
    have same: "ops_in P ?s e = ops_in P s e" for P by (rule ops_in_cong) simp
    show "reflects (R e) (?X e) (unstored ?s e) (failures ?s e) (cd_doc (entry ?s q))"
    proof (cases "e = d")
      case True
      then have "x \<in> unstored s d" using assms(6) q by (auto simp: d_def x_def)
      with True have "reflects (R e) (X d @ [x]) (unstored s e) (failures s e) (cd_doc (entry s q))"
        by (intro reflects_mono [OF a(8) [OF q]]) auto
      then show ?thesis unfolding same using True by simp
    next
      case False
      then show ?thesis unfolding same using a(8) [OF q] by simp
    qed
  qed
  moreover have "holders_ok ?s"
    using assms(1) by (simp add: agree_def holders_ok_def)
  moreover have "loads_ok ?s"
    unfolding loads_ok_def
  proof (intro conjI allI impI)
    fix l ld assume ld: "sc_loads ?s l = Some ld"
    show "b = loadLatestSnapshot (sc_db ?s) (ld_docId ld)" if "ld_phase ld = Base_read b" for b
      using a(12) [of l ld b] ld that row(3) by (simp add: loadLatestSnapshot_def doc_snapshots_def)
    fix b xs now assume ph: "ld_phase ld = Ops_read b xs"
    have fl: "sc_loading s (ld_docId ld) = Some l" "cached s (ld_docId ld) = None"
      using flights_okD(3) [OF assms(2), of l ld] ld ph by simp_all
    have "unstored s (ld_docId ld) = {}" using a(10) fl(2) by (fastforce simp: ops_in_def)
    then have "ld_docId ld \<noteq> d" using assms(6) fl(1) by (auto simp: d_def)
    then show "cd_doc (build_entry b xs now) = pg.replica (sc_db ?s) (ld_docId ld)"
      using a(13) [of l ld b xs now] ld ph by (simp add: rep)
  qed
  ultimately show ?thesis by (simp add: agree_def d_def x_def)
qed

lemma agree_step:
  assumes g: "agree A R X s" and f: "flights_ok s" and "orderly A s ev" "do_event ev s = Some s'"
  shows "\<exists>X. agree A R X s'"
  using assms(4)
proof (cases rule: event_cases)
  case (called t c)
  have new: "msg_op msg \<in> A \<and> op_ready (pg.replica (sc_db s) (msg_docId msg)) (msg_op msg)"
    if "c = Operate session msg" for session msg
    using assms(3) that by (simp add: called(1))
  show ?thesis
  proof (cases rule: get_or_load_cases [of s c t])
    case (hit p)
    then have "agree A R X s'"
      unfolding called(3) hit(2) using new by (intro agree_new_task [OF g called(2)]) auto
    then show ?thesis by blast
  next
    case (wait l)
    have "agree A R X s'"
      unfolding called(3) wait(3)
      using new flights_okD(1) [OF f wait(2)] by (intro agree_new_task [OF g called(2)]) auto
    then show ?thesis by blast
  next
    case new_load: new
    let ?s1 = "s\<lparr>sc_loading := (sc_loading s)(caller_doc c \<mapsto> sc_nextLoad s), sc_nextLoad := sc_nextLoad s + 1\<rparr>"
    have "agree A R X ?s1" by (rule agree_frame [OF g]) simp_all
    then have "agree A R X (put_load (sc_nextLoad s) \<lparr>ld_docId = caller_doc c, ld_phase = Load_started\<rparr> ?s1)"
      by (rule agree_put_load) simp_all
    then have "agree A R X s'"
      unfolding called(3) new_load(3)
      by (rule agree_new_task) (use new called(2) in \<open>auto simp: sched_simps\<close>)
    then show ?thesis by blast
  qed
next
  case (base l ld)
  have "agree A R X s'"
    unfolding base(4) by (rule agree_put_load [OF g]) (simp_all add: query_snapshot_def)
  then show ?thesis by blast
next
  case (ops l ld b)
  have fits: "pg.pending (sc_db s) (ld_docId ld) \<le> int defaultLoadLimit"
    using assms(3) ops(2) by (simp add: ops(1))
  note a = agreeD [OF g]
  have "cd_doc (build_entry b xs now) = pg.replica (sc_db s) (ld_docId ld)"
    if "xs = loadOperationsAfterSeq (sc_db s) (ld_docId ld) (from_seq b - 1) defaultLoadLimit" for xs now
    using load_stored [OF a(1) fits, of now] that unfolding a(12) [OF ops(2,3)] by (simp add: build_is_load)
  then have "agree A R X s'"
    unfolding ops(4) by (intro agree_put_load [OF g]) (simp_all add: query_operations_def)
  then show ?thesis by blast
next
  case (loaded l ld b xs now)
  have "cached s (ld_docId ld) = None" using flights_okD(3) [OF f loaded(2)] loaded(3) by simp
  then show ?thesis unfolding loaded(4) using agree_finish_load [OF g loaded(2,3)] by blast
next
  case (load_failed l ld e)
  have "agree A R X (s\<lparr>sc_loading := (sc_loading s)(ld_docId ld := None)\<rparr>)" by (rule agree_frame [OF g]) simp_all
  then have "agree A R X s'" unfolding load_failed(4) fail_load_def by (rule agree_put_load) simp_all
  then show ?thesis by blast
next
  case (resumed t k l ld p)
  have "caller_doc (tk_caller k) = ld_docId ld" using flights_okD(4) [OF f resumed(2,3)] resumed(4) by auto
  then have "agree A R X s'"
    unfolding resumed(6) using agreeD(11) [OF g resumed(2-5)] resumed(3)
    by (intro agree_restage [OF g resumed(2)]) auto
  then show ?thesis by blast
next
  case (failed t k e)
  have "agree A R X s'"
    unfolding failed(3) using failed(4) by (intro agree_restage [OF g failed(2)]) auto
  then show ?thesis by blast
next
  case (applied t k session msg p)
  then show ?thesis using agree_apply [OF g applied(2-4)] by blast
next
  case (committed t k session msg uuid created db env)
  let ?ps = "append_params session msg"
  have ps: "ap_op ?ps = msg_op msg" "ap_docId ?ps = msg_docId msg" by (simp_all add: append_params_def)
  have "msg_op msg \<in> unstored s (msg_docId msg)" using committed(2-4) by (auto simp: ops_in_def)
  then have "agree A R (X(ap_docId ?ps := X (ap_docId ?ps) @ [ap_op ?ps])) (s\<lparr>sc_db := db\<rparr>)"
    using agreeD(5) [OF g committed(2,3)] by (intro agree_append [OF g f committed(5)]) (simp_all add: ps)
  then have "agree A R (X(ap_docId ?ps := X (ap_docId ?ps) @ [ap_op ?ps])) s'"
    unfolding committed(6) by (rule agree_restage) (use committed(2-4) in \<open>auto simp: ps\<close>)
  then show ?thesis by blast
next
  case (updated t k env)
  let ?s1 = "s\<lparr>sc_worker := updateCachedDocument map_lru (sc_worker s) (caller_doc (tk_caller k))
    (\<lambda>e. e\<lparr>cd_lastSeq := env_seq env, cd_opsSinceSnapshot := cd_opsSinceSnapshot e + 1\<rparr>)\<rparr>"
  have "agree A R X ?s1"
    by (rule agree_frame [OF g]) (auto simp: updateCachedDocument_def map_lru_def split: option.split)
  then have "agree A R X s'"
    unfolding updated(4) update_step_def by (rule agree_restage) (use updated(2,3) in auto)
  then show ?thesis by blast
next
  case (published t k env)
  have "agree A R X (s\<lparr>sc_published := sc_published s @ [env]\<rparr>)" by (rule agree_frame [OF g]) simp_all
  then have "agree A R X s'"
    unfolding published(4) by (rule agree_restage) (use published(2,3) in auto)
  then show ?thesis by blast
next
  case (dropped d)
  then have "\<not> busy s d" using assms(3) by auto
  then show ?thesis unfolding dropped(2) using agree_drop [OF g f] by blast
next
  case (written ps uuid created db env)
  then show ?thesis using assms(3) agree_append [OF g f written(2)] by auto
qed

lemma reaches_agree:
  assumes "reaches (orderly A) s0 s" "flights_ok s0" "agree A R X0 s0"
  shows "\<exists>X. agree A R X s"
  using assms(1)
proof (induction rule: reaches.induct)
  case start
  then show ?case using assms(3) by blast
next
  case (more s ev s')
  then show ?case using agree_step reaches_flights [OF more.hyps(1) assms(2)] by blast
qed

lemma agree_idle:
  assumes "idle db s" "store_ok db"
  shows "agree A (pg.replica db) (\<lambda>_. []) s"
  using assms
  by (simp add: idle_def agree_def log_tracks_def tasks_ok_def entries_ok_def holders_ok_def loads_ok_def)

text \<open>C5: Interleaved handlers are as good as one after the other. Let one worker start on a store and
  run any number of handlers, joins and loads in any interleaving at their awaits, with entries
  that are not in use evicted and loads and appends failing as they please. If clients refer only
  to stored characters and give no UID two contents, then a cached document for which no
  operation is waiting to be stored and none has failed is the stored document, node for
  node - although operations may have been applied in one order and stored in another.\<close>

theorem interleaved_handlers_agree:
  assumes "reaches (orderly A) s0 s" "idle db s0" "store_ok db" "consistent_ops A"
    and "cached s d = Some p" "unstored s d = {}" "failures s d = {}"
  shows "cd_doc (entry s p) = pg.replica (sc_db s) d"
proof -
  obtain X where g: "agree A (pg.replica db) X s"
    using reaches_agree [OF assms(1) flights_idle [OF assms(2)] agree_idle [OF assms(2,3)]] by blast
  note a = agreeD [OF g]
  have "reflects (pg.replica db d) (X d) {} {} (cd_doc (entry s p))" using a(8) [OF assms(5)] assms(6,7) by simp
  then show ?thesis
    using reflects_same [OF _ a(3) consistent_ops_subset [OF assms(4) a(4)]] a(2) by simp
qed

text \<open>Two handlers apply in one order and store in the other.\<close>

definition both_called :: "event list" where
  "both_called = [Call_load 1 (Operate (example_session ''a'') (example_insert ''a'' 97 ''n'')),
     Call_load 2 (Operate (example_session ''b'') (example_insert ''b'' 98 ''m'')), Query_snapshot 0, Query_operations 0]"

definition both_stored :: "event list" where
  "both_stored = [Loaded 0 7, Resume 1, Resume 2, Apply_op 1, Apply_op 2, Commit 2 ''i2'' ''t'', Commit 1 ''i1'' ''t'',
     Update_cache 1, Update_cache 2, Publish 1 True, Publish 2 True]"

lemma both_operate_split: "both_operate = both_called @ both_stored"
  by (simp add: both_operate_def both_called_def both_stored_def)

lemma events_append: "events (xs @ ys) s = Option.bind (events xs s) (events ys)"
  by (induction xs arbitrary: s) (auto simp: bind_eq_Some_conv split: bind_split)

lemma reaches_free:
  assumes "reaches fits s0 s" "events evs s = Some s'" "\<And>s ev. ev \<in> set evs \<Longrightarrow> fits s ev"
  shows "reaches fits s0 s'"
  using assms
proof (induction evs arbitrary: s)
  case (Cons ev evs)
  from Cons.prems(2) obtain s1 where s1: "do_event ev s = Some s1" "events evs s1 = Some s'"
    by (auto simp: bind_eq_Some_conv)
  show ?case
    by (rule Cons.IH [OF reaches.more [OF Cons.prems(1) Cons.prems(3) s1(1)] s1(2)]) (use Cons.prems(3) in auto)
qed simp

definition both_ops :: "RGAOperation set" where
  "both_ops = {INSERT (UID 1 ''a'') None (JStr [97]), INSERT (UID 1 ''b'') None (JStr [98])}"

lemma example_replica: "pg.replica example_db d = newRGADocument"
  by (simp add: pg.replica_def log_base_def log_after_def doc_snapshots_def doc_rows_def example_db_def newest_def)

fun writes :: "event \<Rightarrow> bool" where
  "writes (Commit t uuid created) = True"
| "writes (Write ps uuid created) = True"
| "writes _ = False"

lemma keeps_db: "do_event ev s = Some s' \<Longrightarrow> \<not> writes ev \<Longrightarrow> sc_db s' = sc_db s"
proof (erule event_cases, goal_cases)
  case (1 t c)
  then show ?case by (cases rule: get_or_load_cases [of s c t]) (simp_all add: sched_simps)
qed (auto simp: finish_load_def fail_load_def apply_step_def update_step_def Let_def sched_simps)

lemma both_called_run:
  obtains s where "events both_called example_sched = Some s" "reaches (orderly both_ops) example_sched s"
proof -
  let ?c1 = "Operate (example_session ''a'') (example_insert ''a'' 97 ''n'')"
  let ?c2 = "Operate (example_session ''b'') (example_insert ''b'' 98 ''m'')"
  have adm: "admissible example_db (example_session ''b'') (example_insert ''b'' 98 ''m'')"
    by (simp add: admissible_def example_insert_def example_session_def good_op_def plain_op_def not_on_root_def
        ROOT_UID_def is_high_surrogate_def document_exists_def user_exists_def example_db_def)
  have "events both_called example_sched \<noteq> None"
    by (simp add: both_called_def example_run example_sched_def empty_worker_def example_insert_def)
  then obtain s1 s2 s3 s4 where s: "do_event (Call_load 1 ?c1) example_sched = Some s1"
    "do_event (Call_load 2 ?c2) s1 = Some s2" "do_event (Query_snapshot 0) s2 = Some s3"
    "do_event (Query_operations 0) s3 = Some s4"
    unfolding both_called_def by (auto simp: bind_eq_Some_conv simp del: do_event.simps)
  have db: "sc_db s1 = example_db" "sc_db s3 = example_db"
    using keeps_db [OF s(1)] keeps_db [OF s(2)] keeps_db [OF s(3)] by (simp_all add: example_sched_def)
  have "orderly both_ops example_sched (Call_load 1 ?c1)"
    unfolding orderly.simps example_sched_def Sched.simps example_replica
    by (intro conjI example_admissible refl) (simp_all add: example_insert_def both_ops_def)
  moreover have "orderly both_ops s1 (Call_load 2 ?c2)"
    unfolding orderly.simps db example_replica by (intro conjI adm) (simp_all add: example_insert_def both_ops_def)
  moreover have "orderly both_ops s3 (Query_operations 0)"
    unfolding orderly.simps db by (simp add: example_store(3))
  moreover have "orderly both_ops s2 (Query_snapshot 0)" by simp
  ultimately have "reaches (orderly both_ops) example_sched s4"
    using s reaches.intros by meson
  moreover have "events both_called example_sched = Some s4"
    using s(1-4) by (simp add: both_called_def)
  ultimately show thesis using that by blast
qed

theorem interleaved_handlers_agree_witness:
  "\<exists>s p. events both_operate example_sched = Some s \<and> cached s ''d'' = Some p \<and>
     map row_nonce (db_operations (sc_db s)) = [''m'', ''n''] \<and> cd_doc (entry s p) = pg.replica (sc_db s) ''d''"
proof -
  obtain s1 where s1: "events both_called example_sched = Some s1" "reaches (orderly both_ops) example_sched s1"
    by (rule both_called_run)
  obtain s k k' env env' where s: "events both_operate example_sched = Some s" "cached s ''d'' = Some 0"
    "map row_nonce (db_operations (sc_db s)) = [''m'', ''n'']" and
    tasks: "sc_tasks s 1 = Some \<lparr>tk_caller = k, tk_stage = Finished env\<rparr>"
      "sc_tasks s 2 = Some \<lparr>tk_caller = k', tk_stage = Finished env'\<rparr>" "\<And>t. t \<noteq> 1 \<Longrightarrow> t \<noteq> 2 \<Longrightarrow> sc_tasks s t = None"
    using both_operate_run by metis
  have "\<exists>env. tk_stage m = Finished env" if "sc_tasks s t = Some m" for t m
    using that tasks by (cases "t = 1"; cases "t = 2") auto
  then have quiet: "unstored s ''d'' = {}" "failures s ''d'' = {}"
    by (fastforce simp: ops_in_def)+
  have "events both_stored s1 = Some s" using s(1) s1(1) by (simp add: both_operate_split events_append)
  then have r: "reaches (orderly both_ops) example_sched s"
    by (rule reaches_free [OF s1(2)]) (auto simp: both_stored_def)
  have c: "consistent_ops both_ops" by (simp add: consistent_ops_def both_ops_def)
  from interleaved_handlers_agree [OF r example_idle example_store(1) c s(2) quiet] s(1-3) show ?thesis
    by (intro exI [of _ s] exI [of _ 0] conjI)
qed

section \<open>An entry dropped at the wrong moment\<close>

text \<open>C35: What the awaits do not protect. A handler has applied its operation and waits for the
  database; the entry is invalidated - as every restore does -, another call loads the document
  again, and only then the append commits. The handler updates the entry it finds: the cached
  document now claims the operation's seq as its own and does not have the operation, which is
  stored, and will be acknowledged and published.\<close>

theorem invalidated_during_append:
  assumes "store_ok (sc_db s)" "sc_tasks s t = Some \<lparr>tk_caller = Operate session msg, tk_stage = Appending\<rparr>"
    and "sc_tasks s t' = None" "sc_loading s (msg_docId msg) = None" "admissible (sc_db s) session msg"
    and "pg.pending (sc_db s) (msg_docId msg) \<le> int defaultLoadLimit" "l = sc_nextLoad s" "d = msg_docId msg"
  shows "\<exists>s' p env. events [Invalidate d, Call_load t' (Open d), Query_snapshot l, Query_operations l, Loaded l now,
      Commit t uuid created, Update_cache t] s = Some s' \<and>
    sc_tasks s' t = Some \<lparr>tk_caller = Operate session msg, tk_stage = Publishing env\<rparr> \<and>
    cached s' d = Some p \<and> cd_doc (entry s' p) = pg.replica (sc_db s) d \<and>
    cd_lastSeq (entry s' p) = env_seq env \<and> env_seq env = getMaxSeq (sc_db s) d + 1 \<and>
    pg.replica (sc_db s') d = applyOp (pg.replica (sc_db s) d) (msg_op msg)"
proof -
  have tt: "t' \<noteq> t" using assms(2,3) by auto
  obtain db row where ap: "appendOperation (sc_db s) (append_params session msg) uuid created = Inr (db, rowToEnvelope row)"
    "row_appended (sc_db s) d (msg_op msg) db" "row_seq row = getMaxSeq (sc_db s) d + 1"
    using append_is_append [OF assms(1) admissible_valid [OF assms(5)], of uuid created] assms(8)
    by (auto simp: append_params_def)
  have rep: "pg.replica db d = applyOp (pg.replica (sc_db s) d) (msg_op msg)"
    using pg.replica_append(1) [OF assms(1) ap(2)] by simp
  have load: "build_entry (loadLatestSnapshot (sc_db s) d) (loadOperationsAfterSeq (sc_db s) d
      (from_seq (loadLatestSnapshot (sc_db s) d) - 1) defaultLoadLimit) now =
    \<lparr>cd_doc = pg.replica (sc_db s) d, cd_lastSeq = getMaxSeq (sc_db s) d, cd_opsSinceSnapshot = pg.pending (sc_db s) d,
      cd_loadedAt = now\<rparr>"
    using load_stored [OF assms(1)] assms(6,8) by (simp add: build_is_load)
  show ?thesis
    using assms(2-4,7,8) tt ap(1,3) rep load
    by (simp add: on_load_def on_task_def get_or_load_def map_lru_def put_task_def put_load_def Let_def
        query_snapshot_def query_operations_def finish_load_def commit_step_def update_step_def
        updateCachedDocument_def invalidateDocument_def env_of_row)
qed

theorem invalidated_during_append_witness:
  "\<exists>s s' p. events [Call_load 1 (Operate (example_session ''a'') (example_insert ''a'' 97 ''n'')), Query_snapshot 0,
      Query_operations 0, Loaded 0 7, Resume 1, Apply_op 1] example_sched = Some s \<and>
    events [Invalidate ''d'', Call_load 2 (Open ''d''), Query_snapshot 1, Query_operations 1, Loaded 1 8,
      Commit 1 ''i'' ''t'', Update_cache 1] s = Some s' \<and>
    cached s' ''d'' = Some p \<and> cd_lastSeq (entry s' p) = 1 \<and> cd_doc (entry s' p) = newRGADocument \<and>
    uids (pg.replica (sc_db s') ''d'') = {ROOT_UID, UID 1 ''a''}"
proof -
  let ?evs = "[Call_load 1 (Operate (example_session ''a'') (example_insert ''a'' 97 ''n'')), Query_snapshot 0,
      Query_operations 0, Loaded 0 7, Resume 1, Apply_op 1]"
  obtain s where s: "events ?evs example_sched = Some s"
    "sc_tasks s 1 = Some \<lparr>tk_caller = Operate (example_session ''a'') (example_insert ''a'' 97 ''n''), tk_stage = Appending\<rparr>"
    "sc_tasks s 2 = None" "sc_loading s ''d'' = None" "sc_nextLoad s = 1" "sc_db s = example_db"
    by (simp add: example_run example_data)
  have d: "msg_docId (example_insert ''a'' 97 ''n'') = ''d''" "msg_op (example_insert ''a'' 97 ''n'') = INSERT (UID 1 ''a'') None (JStr [97])"
    by (simp_all add: example_insert_def)
  have u: "uids (applyOp newRGADocument (INSERT (UID 1 ''a'') None (JStr [97]))) = {ROOT_UID, UID 1 ''a''}"
    by (auto simp: uids_applyOp)
  have "getMaxSeq example_db ''d'' = 0"
    using example_store(3) [of "''d''"] by (simp add: pg.pending_def log_base_def example_db_def doc_snapshots_def newest_def)
  then have fits: "store_ok (sc_db s)" "sc_loading s (msg_docId (example_insert ''a'' 97 ''n'')) = None"
    "admissible (sc_db s) (example_session ''a'') (example_insert ''a'' 97 ''n'')"
    "pg.pending (sc_db s) (msg_docId (example_insert ''a'' 97 ''n'')) \<le> int defaultLoadLimit"
    and top: "getMaxSeq (sc_db s) ''d'' = 0"
    using s(4,6) example_store(1,3) example_admissible by (simp_all add: d)
  obtain s' p and env :: OperationEnvelope where s': "events [Invalidate ''d'', Call_load 2 (Open ''d''), Query_snapshot 1, Query_operations 1,
      Loaded 1 8, Commit 1 ''i'' ''t'', Update_cache 1] s = Some s'" "cached s' ''d'' = Some p"
    "cd_doc (entry s' p) = pg.replica (sc_db s) ''d''" "cd_lastSeq (entry s' p) = env_seq env"
    "env_seq env = getMaxSeq (sc_db s) ''d'' + 1"
    "pg.replica (sc_db s') ''d'' = applyOp (pg.replica (sc_db s) ''d'') (INSERT (UID 1 ''a'') None (JStr [97]))"
    using invalidated_during_append [OF fits(1) s(2,3) fits(2-4) s(5) [symmetric] d(1) [symmetric], of 8 "''i''" "''t''"]
    unfolding d by (elim exE conjE) (rule that, assumption+)
  have new: "pg.replica (sc_db s) ''d'' = newRGADocument" unfolding s(6) by (rule example_replica)
  have "cd_lastSeq (entry s' p) = 1" "cd_doc (entry s' p) = newRGADocument"
    "uids (pg.replica (sc_db s') ''d'') = {ROOT_UID, UID 1 ''a''}"
    unfolding s'(3-6) new top u by simp_all
  with s(1) s'(1,2) show ?thesis by (intro exI [of _ s] exI [of _ s'] exI [of _ p] conjI)
qed

section \<open>A handler that nothing interrupts\<close>

definition uninterrupted :: "Sched \<Rightarrow> nat \<Rightarrow> ServerSession \<Rightarrow> OperationMessage \<Rightarrow> Call \<Rightarrow> event list" where
  "uninterrupted s t session msg call =
     Call_load t (Operate session msg) #
     (if cached s (msg_docId msg) = None
      then [Query_snapshot (sc_nextLoad s), Query_operations (sc_nextLoad s), Loaded (sc_nextLoad s) (ca_now call), Resume t]
      else []) @
     [Apply_op t, Commit t (ca_opId call) (ca_created call), Update_cache t, Publish t True]"

text \<open>The two models of the handler agree. When the steps of one handler follow each other with
  nothing in between, the worker, the database and the published operations they leave are those of
  the sequential model of the handler, up to the snapshot that it then takes in the background.\<close>

theorem uninterrupted_is_process:
  assumes "sc_tasks s t = None" "sc_loading s (msg_docId msg) = None" "dp_lru D = map_lru"
    and "sv_worker sv = sc_worker s" "sv_db sv = sc_db s" "sv_published sv = sc_published s"
    and "ca_pgUp call" "ca_publishOk call"
    and "appendOperation (sc_db s) (append_params session msg) (ca_opId call) (ca_created call) = Inr (db, env)"
  shows "\<exists>s'. events (uninterrupted s t session msg call) s = Some s' \<and>
    sc_tasks s' t = Some \<lparr>tk_caller = Operate session msg, tk_stage = Finished env\<rparr> \<and>
    process D call sv session msg =
      (case maybeTakeSnapshot map_lru (dp_compactor D) (dp_sha256 D) (sc_worker s') (sc_db s') (msg_docId msg) (ca_now call)
          (ca_snapId call) (ca_created call) of (w, db') \<Rightarrow>
        (sv\<lparr>sv_worker := w, sv_db := db', sv_published := sc_published s'\<rparr>,
         Returned \<lparr>or_success = True, or_envelope = Some env, or_error = None\<rparr>))"
proof (cases "cached s (msg_docId msg)")
  case None
  show ?thesis
    using assms None
    by (simp add: uninterrupted_def process_def load_throws_def getOrLoadDocument_def on_load_def on_task_def get_or_load_def
        map_lru_def put_task_def put_load_def Let_def query_snapshot_def query_operations_def finish_load_def apply_step_def
        commit_step_def update_step_def publish_step_def set_doc_def build_is_load split: prod.split)
next
  case (Some p)
  show ?thesis
    using assms Some
    by (simp add: uninterrupted_def process_def load_throws_def getOrLoadDocument_def on_task_def get_or_load_def
        map_lru_def put_task_def Let_def apply_step_def commit_step_def update_step_def publish_step_def set_doc_def
        split: prod.split)
qed

theorem uninterrupted_is_process_witness:
  "\<exists>s' env sv'. events (uninterrupted example_sched 1 (example_session ''a'') (example_insert ''a'' 97 ''n'') (example_call ''i''))
      example_sched = Some s' \<and>
    sc_tasks s' 1 = Some \<lparr>tk_caller = Operate (example_session ''a'') (example_insert ''a'' 97 ''n''), tk_stage = Finished env\<rparr> \<and>
    process example_deps (example_call ''i'') example_server (example_session ''a'') (example_insert ''a'' 97 ''n'') =
      (sv', Returned \<lparr>or_success = True, or_envelope = Some env, or_error = None\<rparr>)"
proof -
  let ?m = "example_insert ''a'' 97 ''n''" and ?c = "example_call ''i''"
  have ok: "store_ok (sc_db example_sched)" "admissible (sc_db example_sched) (example_session ''a'') ?m"
    using example_store(1) example_admissible by (simp_all add: example_sched_def)
  obtain db env where a: "appendOperation (sc_db example_sched) (append_params (example_session ''a'') ?m) (ca_opId ?c) (ca_created ?c) =
      Inr (db, env)"
    using append_is_append [OF ok(1) admissible_valid [OF ok(2)], of "ca_opId ?c" "ca_created ?c"] by blast
  have pre: "sc_tasks example_sched 1 = None" "sc_loading example_sched (msg_docId ?m) = None" "dp_lru example_deps = map_lru"
    "sv_worker example_server = sc_worker example_sched" "sv_db example_server = sc_db example_sched"
    "sv_published example_server = sc_published example_sched" "ca_pgUp ?c" "ca_publishOk ?c"
    by (simp_all add: example_sched_def example_deps_def example_server_def example_call_def)
  let ?snapshot = "\<lambda>s'. maybeTakeSnapshot map_lru (dp_compactor example_deps) (dp_sha256 example_deps) (sc_worker s') (sc_db s')
    (msg_docId ?m) (ca_now ?c) (ca_snapId ?c) (ca_created ?c)"
  have "\<exists>w db'. ?snapshot s' = (w, db')" for s' by (rule surj_pair)
  then show ?thesis
    using uninterrupted_is_process [OF pre a] by (metis (no_types, lifting) case_prod_conv)
qed

end
