(* ===== verification/Rich_Text_Editor.thy ===== *)
theory Rich_Text_Editor
  imports Client_Session
begin

text \<open>
  \<^verbatim>\<open>src/client/components/RichTextEditor.tsx\<close>: the text of the document as Slate paragraphs and back, carets as indices and
  back, the decoration of remote carets, and the component as a state machine: its React state, the children
  the Slate editor holds and the flag that tells its own updates from remote ones. What \<open>Slate\<close> itself does with the
  property \<open>initialValue\<close>, when it is mounted and at every later render, is a parameter, and \<open>slate_ok\<close> is what its
  documentation says of it. Rendering to the DOM is not modelled.
\<close>

section \<open>Text and paragraphs\<close>

record CustomText =
  leaf_text :: js_text
  leaf_bold :: "bool option"
  leaf_italic :: "bool option"

record CustomElement =
  el_children :: "CustomText list"

definition newline :: code_unit where
  "newline = 10"

text \<open>\<open>str.split('\n')\<close>.\<close>

fun split_lines :: "js_text \<Rightarrow> js_text list" where
  "split_lines [] = [[]]"
| "split_lines (u # s) = (if u = newline then [] # split_lines s
     else case split_lines s of l # ls \<Rightarrow> (u # l) # ls | [] \<Rightarrow> [[u]])"

definition plain_leaf :: "js_text \<Rightarrow> CustomText" where
  "plain_leaf t = \<lparr>leaf_text = t, leaf_bold = None, leaf_italic = None\<rparr>"

definition slate_deserialize :: "js_text \<Rightarrow> CustomElement list" where
  "slate_deserialize str = (if str = [] then [\<lparr>el_children = [plain_leaf []]\<rparr>]
     else map (\<lambda>line. \<lparr>el_children = [plain_leaf line]\<rparr>) (split_lines str))"

definition el_text :: "CustomElement \<Rightarrow> js_text" where
  "el_text n = join_with [] (map leaf_text (el_children n))"

definition slate_serialize :: "CustomElement list \<Rightarrow> js_text" where
  "slate_serialize nodes = join_with [newline] (map el_text nodes)"

section \<open>Carets\<close>

text \<open>The inner loop, from leaf \<open>j\<close> on.\<close>

fun point_in_leaves :: "int \<Rightarrow> int \<Rightarrow> nat \<Rightarrow> nat \<Rightarrow> int \<Rightarrow> CustomText list \<Rightarrow> ((nat \<times> nat) \<times> int) option" where
  "point_in_leaves index before i j leafCount [] = None"
| "point_in_leaves index before i j leafCount (leaf # leaves) =
     (if index \<le> before + leafCount + int (length (leaf_text leaf)) then Some ((i, j), index - before - leafCount)
      else point_in_leaves index before i (j + 1) (leafCount + int (length (leaf_text leaf))) leaves)"

fun indexToPoint_from :: "int \<Rightarrow> nat \<Rightarrow> int \<Rightarrow> CustomElement list \<Rightarrow> ((nat \<times> nat) \<times> int) option" where
  "indexToPoint_from index i before [] = None"
| "indexToPoint_from index i before (p # ps) =
     (let pTextLength = sum_list (map (\<lambda>c. int (length (leaf_text c))) (el_children p));
          rest = indexToPoint_from index (i + 1) (before + pTextLength + 1) ps
      in if index \<le> before + pTextLength
         then (case point_in_leaves index before i 0 0 (el_children p) of Some q \<Rightarrow> Some q | None \<Rightarrow> rest)
         else rest)"

definition indexToPoint :: "int \<Rightarrow> CustomElement list \<Rightarrow> ((nat \<times> nat) \<times> int) option" where
  "indexToPoint index nodes = indexToPoint_from index 0 0 nodes"

text \<open>\<open>handleSelect\<close>, of the point of the selection; a missing paragraph is a \<open>TypeError\<close>.\<close>

definition handleSelect :: "CustomElement list \<Rightarrow> (nat \<times> nat) \<times> int \<Rightarrow> int option" where
  "handleSelect nodes point =
     (if fst (fst point) \<le> length nodes
      then Some (sum_list (map (\<lambda>n. int (length (el_text n)) + 1) (take (fst (fst point)) nodes)) + snd point) else None)"

record CaretRange =
  cr_path :: "nat \<times> nat"
  cr_anchor :: int
  cr_focus :: int
  cr_color :: string
  cr_name :: string
  cr_isTyping :: bool

text \<open>\<open>decorate\<close>, of a leaf with text \<open>node_text\<close> at \<open>path\<close>.\<close>

definition decorate_one :: "(UID \<Rightarrow> int option) \<Rightarrow> CustomElement list \<Rightarrow> js_text \<Rightarrow> nat \<times> nat \<Rightarrow> UserPresence \<Rightarrow> CaretRange list" where
  "decorate_one look nodes node_text path p =
     (case Option.bind (p_cursor p) afterUid of
        None \<Rightarrow> []
      | Some u \<Rightarrow>
          (case look u of
             None \<Rightarrow> []
           | Some index \<Rightarrow>
               (case indexToPoint index nodes of
                  None \<Rightarrow> []
                | Some (path', offset) \<Rightarrow>
                    if path' = path
                    then [\<lparr>cr_path = path, cr_anchor = offset, cr_focus = min (offset + 1) (int (length node_text)),
                           cr_color = (if p_color p = [] then ''#ff0000'' else p_color p), cr_name = p_displayName p,
                           cr_isTyping = p_isTyping p\<rparr>]
                    else [])))"

definition decorate ::
  "(UID \<Rightarrow> int option) \<Rightarrow> CustomElement list \<Rightarrow> UserPresence list \<Rightarrow> js_text \<Rightarrow> nat \<times> nat \<Rightarrow> CaretRange list" where
  "decorate look nodes presence node_text path =
     (if node_text = [] then [] else concat (map (decorate_one look nodes node_text path) presence))"

section \<open>The component\<close>

record RichEditor =
  re_text :: js_text
  re_value :: "CustomElement list"
  re_children :: "CustomElement list"
  re_isLocalUpdate :: bool

text \<open>Slate's part: the children an editor holds when \<open><Slate initialValue={v}>\<close> is mounted, and those it holds after the
  same element, holding \<open>c\<close>, is rendered with \<open>v\<close>. Its documentation: \<open>initialValue\<close> is the editor's initial
  value, read at the mount only.\<close>

record Slate =
  slate_mount :: "CustomElement list \<Rightarrow> CustomElement list"
  slate_rerender :: "CustomElement list \<Rightarrow> CustomElement list \<Rightarrow> CustomElement list"

definition slate_ok :: "Slate \<Rightarrow> bool" where
  "slate_ok S \<longleftrightarrow> (\<forall>v. slate_mount S v = v) \<and> (\<forall>c v. slate_rerender S c v = c)"

definition mountEditor :: "Slate \<Rightarrow> js_text \<Rightarrow> RichEditor" where
  "mountEditor S t = (let value = slate_deserialize t
     in \<lparr>re_text = t, re_value = value, re_children = slate_mount S value, re_isLocalUpdate = False\<rparr>)"

text \<open>The effect of a new \<open>text\<close>; it runs when the text differs from the last one.\<close>

definition textChanged :: "RichEditor \<Rightarrow> js_text \<Rightarrow> RichEditor" where
  "textChanged R t =
     (if t = re_text R then R
      else let R1 = R\<lparr>re_text := t\<rparr>
        in if re_isLocalUpdate R1 then R1\<lparr>re_isLocalUpdate := False\<rparr>
           else if t \<noteq> slate_serialize (re_value R1) then R1\<lparr>re_value := slate_deserialize t\<rparr> else R1)"

text \<open>The element \<open><Slate initialValue={value}>\<close> of a render.\<close>

definition renderSlate :: "Slate \<Rightarrow> RichEditor \<Rightarrow> RichEditor" where
  "renderSlate S R = R\<lparr>re_children := slate_rerender S (re_children R) (re_value R)\<rparr>"

text \<open>The component's parent renders it with a text: the effect, and the render that follows \<open>setValue\<close>.\<close>

definition receiveText :: "Slate \<Rightarrow> RichEditor \<Rightarrow> js_text \<Rightarrow> RichEditor" where
  "receiveText S R t = renderSlate S (textChanged (renderSlate S R) t)"

text \<open>Slate calls it with its new children, also when only the selection has changed; the result is the call of
  \<open>onChange(text, nextStr)\<close>.\<close>

definition handleChange :: "RichEditor \<Rightarrow> CustomElement list \<Rightarrow> RichEditor \<times> (js_text \<times> js_text) option" where
  "handleChange R newValue =
     (let R1 = R\<lparr>re_children := newValue, re_value := newValue, re_isLocalUpdate := True\<rparr>;
          nextStr = slate_serialize newValue
      in (R1, if nextStr \<noteq> re_text R then Some (re_text R, nextStr) else None))"

text \<open>One edit by the user, as \<open>Editor\<close> wires it: Slate now holds \<open>v\<close>, \<open>onChange\<close> is \<open>localBatchEdit\<close>, and the
  component is rendered with the new text.\<close>

definition keystroke ::
  "RichEditor \<Rightarrow> ClientSession \<Rightarrow> local_storage \<Rightarrow> bool \<Rightarrow> CustomElement list \<Rightarrow> (nat \<Rightarrow> string) \<Rightarrow> int \<Rightarrow>
     RichEditor \<times> ClientSession \<times> local_storage \<times> ClientMessage list" where
  "keystroke R C st room v nonces now =
     (case handleChange R v of
        (R1, None) \<Rightarrow> (R1, C, st, [])
      | (R1, Some (prev, nextStr)) \<Rightarrow>
          (case localBatchEdit C st room prev nextStr nonces now of (C', st', out) \<Rightarrow>
             (textChanged R1 (cs_text C'), C', st', out)))"

text \<open>The operation a message of the browser carries.\<close>

definition sent_operation :: "ClientMessage \<Rightarrow> RGAOperation option" where
  "sent_operation m = (case m of OPERATION x \<Rightarrow> Some (msg_op x) | _ \<Rightarrow> None)"

section \<open>Round trips\<close>

lemma split_lines_nonempty: "split_lines s \<noteq> []"
  by (cases s) (auto split: list.split)

lemma join_split_lines: "join_with [newline] (split_lines s) = s"
proof (induction s)
  case (Cons u s)
  obtain l ls where l: "split_lines s = l # ls" using split_lines_nonempty by (cases "split_lines s") auto
  show ?case
    using Cons.IH by (cases ls) (auto simp: l)
qed simp

lemma split_lines_no_newline: "l \<in> set (split_lines s) \<Longrightarrow> newline \<notin> set l"
proof (induction s arbitrary: l)
  case (Cons u s)
  then show ?case by (cases "split_lines s") (auto split: if_splits)
qed simp

lemma el_text_plain [simp]: "el_text \<lparr>el_children = [plain_leaf t]\<rparr> = t"
  by (simp add: el_text_def plain_leaf_def)

lemma slate_lines: "slate_deserialize s = map (\<lambda>line. \<lparr>el_children = [plain_leaf line]\<rparr>) (split_lines s)"
  by (cases "s = []") (simp_all add: slate_deserialize_def)

lemma slate_roundtrip: "slate_serialize (slate_deserialize s) = s"
  by (simp add: slate_serialize_def slate_lines comp_def join_split_lines)

text \<open>Nothing is lost between the document's text and Slate's paragraphs: the text read back from the paragraphs of
  a text is that text, empty lines and a final newline included.\<close>

theorem text_roundtrip: "slate_serialize (slate_deserialize t) = t \<and> slate_deserialize t \<noteq> []"
  using slate_roundtrip [of t] by (simp add: slate_lines split_lines_nonempty)

lemma indexToPoint_lines:
  assumes "ls \<noteq> []" "before \<le> k" "k \<le> before + int (length (join_with [newline] ls))"
  shows "\<exists>m off. indexToPoint_from k i before (map (\<lambda>line. \<lparr>el_children = [plain_leaf line]\<rparr>) ls) = Some ((i + m, 0), off) \<and>
    m < length ls \<and> 0 \<le> off \<and> off \<le> int (length (ls ! m)) \<and>
    k = before + sum_list (map (\<lambda>l. int (length l) + 1) (take m ls)) + off"
  using assms
proof (induction ls arbitrary: i before)
  case (Cons l ls)
  show ?case
  proof (cases "k \<le> before + int (length l)")
    case True
    then show ?thesis
      using Cons.prems by (intro exI [of _ 0] exI [of _ "k - before"]) (simp add: Let_def plain_leaf_def)
  next
    case False
    with Cons.prems have ne: "ls \<noteq> []" by auto
    then have len: "length (join_with [newline] (l # ls)) = length l + 1 + length (join_with [newline] ls)"
      by (cases ls) simp_all
    obtain m off where m:
      "indexToPoint_from k (i + 1) (before + int (length l) + 1) (map (\<lambda>line. \<lparr>el_children = [plain_leaf line]\<rparr>) ls) =
         Some ((i + 1 + m, 0), off)" "m < length ls" "0 \<le> off" "off \<le> int (length (ls ! m))"
      "k = before + int (length l) + 1 + sum_list (map (\<lambda>l. int (length l) + 1) (take m ls)) + off"
      using Cons.IH [of "before + int (length l) + 1" "i + 1"] ne False Cons.prems len by auto
    show ?thesis
      using False m by (intro exI [of _ "m + 1"] exI [of _ off]) (simp add: Let_def plain_leaf_def)
  qed
qed simp

text \<open>Carets keep their place: every index of a text has a point in its paragraphs, inside a line, and selecting that
  point reports the same index.\<close>

theorem cursor_roundtrip:
  assumes "0 \<le> k" "k \<le> int (length t)"
  shows "\<exists>m off. indexToPoint k (slate_deserialize t) = Some ((m, 0), off) \<and> m < length (split_lines t) \<and>
    0 \<le> off \<and> off \<le> int (length (split_lines t ! m)) \<and> handleSelect (slate_deserialize t) ((m, 0), off) = Some k"
proof -
  obtain m off where m:
    "indexToPoint_from k (0 + 0) 0 (slate_deserialize t) = Some ((0 + m, 0), off)" "m < length (split_lines t)" "0 \<le> off"
    "off \<le> int (length (split_lines t ! m))"
    "k = sum_list (map (\<lambda>l. int (length l) + 1) (take m (split_lines t))) + off"
    using indexToPoint_lines [OF split_lines_nonempty, of 0 k t 0] assms by (auto simp: join_split_lines slate_lines)
  then show ?thesis
    by (intro exI [of _ m] exI [of _ off]) (simp add: indexToPoint_def handleSelect_def slate_lines take_map comp_def)
qed

theorem cursor_roundtrip_witness:
  "\<exists>m off. indexToPoint 2 (slate_deserialize [97, newline, 98]) = Some ((m, 0), off) \<and>
    handleSelect (slate_deserialize [97, newline, 98]) ((m, 0), off) = Some 2"
  using cursor_roundtrip [of 2 "[97, newline, 98]"] by auto

section \<open>Remote carets\<close>

lemma cl_indexToUID_from_range: "cl_indexToUID_from ns j k = Some u \<Longrightarrow> k < j \<and> u \<in> c_uid ` set ns"
proof (induction ns arbitrary: k)
  case (Cons n ns)
  then show ?case by (auto split: if_splits) force+
qed simp

lemma cl_uidToIndex_from_iff:
  "distinct (map c_uid ns) \<Longrightarrow>
     cl_uidToIndex_from ns (uidKey u) k = Some j \<longleftrightarrow> cl_indexToUID_from ns j k = Some u"
proof (induction ns arbitrary: k)
  case (Cons n ns)
  have "cl_indexToUID_from ns j (k + 1) = Some u \<Longrightarrow> k + 1 < j \<and> u \<in> set (map c_uid ns)"
    using cl_indexToUID_from_range by fastforce
  with Cons show ?case by auto
qed simp

lemma cl_uidToIndex_iff:
  assumes "wf_client c"
  shows "cl_uidToIndex c u = Some j \<longleftrightarrow> cl_indexToUID c j = Some u"
proof -
  have "map c_uid (tl (cl_chain c)) = map node_uid (body (srv_doc c))"
    by (simp add: srv_doc_def comp_def)
  then have "distinct (map c_uid (tl (cl_chain c)))"
    using assms wf_body_distinct [of "srv_doc c"] by (simp add: wf_client_def)
  then show ?thesis
    by (simp add: cl_uidToIndex_def cl_indexToUID_def cl_uidToIndex_from_iff)
qed

text \<open>A remote caret follows the character it stands after: the UID a browser sends for position \<open>k\<close> is turned by
  any other browser into the position of that character in its own replica, whatever the two replicas have seen, and into
  no position when the character is deleted there.\<close>

theorem caret_follows_character:
  assumes "cs_doc s = Some d" "cs_doc s' = Some d'" "wf_client d'" "cl_indexToUID d k = Some u"
  shows "sendCursor s (Some k) = send s (PRESENCE \<lparr>pm_docId = cs_docId s, pm_update =
      \<lparr>u_sessionId = (case cs_sessionId s of Some i \<Rightarrow> i | None \<Rightarrow> []),
       u_cursor = Some \<lparr>afterUid = Some u, anchorUid = None\<rparr>, u_isTyping = False\<rparr>\<rparr>) \<and>
    (cs_uidToIndex s' u = Some j \<longleftrightarrow> cl_indexToUID d' j = Some u)"
proof -
  have "k \<noteq> 0"
    using assms(4) cl_indexToUID_from_range by (fastforce simp: cl_indexToUID_def)
  then show ?thesis
    using assms by (simp add: sendCursor_def cs_uidToIndex_def cl_getAfterUID_def cl_uidToIndex_iff)
qed

section \<open>Typing\<close>

text \<open>The browser's replica shows the characters of \<open>t\<close>, and so does the hook.\<close>

definition shows_text :: "ClientSession \<Rightarrow> js_text \<Rightarrow> bool" where
  "shows_text C t \<longleftrightarrow> cs_text C = t \<and> (\<exists>d. cs_doc C = Some d \<and> wf_client d \<and> cl_values d = map JStr (code_points t))"

lemma cl_toText_values: "cl_values d = map JStr (code_points t) \<Longrightarrow> cl_toText d = t"
  by (simp add: cl_toText_def join_with_nil comp_def)

lemma submit_doc: "submit s st room x nonce now = (s', st', out) \<Longrightarrow> cs_doc s' = cs_doc s"
  by (auto simp: submit_def Let_def split: prod.splits)

lemma submit_all_doc: "submit_all s st room xs now = (s', st', out) \<Longrightarrow> cs_doc s' = cs_doc s"
proof (induction s st room xs now arbitrary: s' st' out rule: submit_all.induct)
  case (2 s st room x nonce xs now)
  obtain sa sta outa where a: "submit (s\<lparr>cs_clientSeq := cs_clientSeq s + 1\<rparr>) st room x nonce now = (sa, sta, outa)"
    by (metis prod_cases3)
  obtain sb stb outb where b: "submit_all sa sta room xs now = (sb, stb, outb)"
    by (metis prod_cases3)
  have "s' = sb"
    using 2(2) a b by simp
  with 2(1) [OF a [symmetric] refl b] submit_doc [OF a] show ?case by simp
qed simp

lemma localBatchEdit_shows:
  assumes "shows_text C t" "localBatchEdit C st room t t' nonces now = (C', st', out)"
  shows "shows_text C' t'"
proof -
  obtain d where d: "cs_doc C = Some d" "wf_client d" "cl_values d = map JStr (code_points t)"
    using assms(1) by (auto simp: shows_text_def)
  obtain d' ops where diff: "diffToOperations d t t' = (d', ops)" by (metis surj_pair)
  have d': "cl_values d' = map JStr (code_points t')" "wf_client d'"
    using diff_effect [OF d(2,3) diff] by simp_all
  obtain s1 st1 out1 where all:
    "submit_all (C\<lparr>cs_doc := Some d'\<rparr>) st room (zip ops (map nonces [0..<length ops])) now = (s1, st1, out1)"
    by (metis prod_cases3)
  have "C' = s1\<lparr>cs_text := cl_toText d'\<rparr>"
    using assms(2) d(1) diff all by (simp add: localBatchEdit_def)
  then show ?thesis
    using submit_all_doc [OF all] d' cl_toText_values [OF d'(1)] by (simp add: shows_text_def)
qed

lemma keystroke_shows:
  assumes "shows_text C (re_text R)" "keystroke R C st room v nonces now = (R', C', st', out)"
  shows "shows_text C' (slate_serialize v) \<and> re_text R' = slate_serialize v \<and> re_children R' = v \<and> re_value R' = v"
proof (cases "slate_serialize v = re_text R")
  case True
  then have "R' = fst (handleChange R v)" "C' = C"
    using assms(2) by (simp_all add: keystroke_def handleChange_def Let_def)
  with True assms(1) show ?thesis by (simp add: handleChange_def Let_def)
next
  case False
  obtain C1 st1 out1 where b: "localBatchEdit C st room (re_text R) (slate_serialize v) nonces now = (C1, st1, out1)"
    by (metis prod_cases3)
  have C1: "shows_text C1 (slate_serialize v)"
    by (rule localBatchEdit_shows [OF assms(1) b])
  then have t: "cs_text C1 = slate_serialize v"
    by (simp add: shows_text_def)
  have "C' = C1" "R' = textChanged (fst (handleChange R v)) (slate_serialize v)"
    using assms(2) b False t by (simp_all add: keystroke_def handleChange_def Let_def)
  with C1 False show ?thesis by (simp add: handleChange_def textChanged_def Let_def)
qed

text \<open>C13: What the user types is what the document says: after an edit that leaves the editor with the paragraphs \<open>v\<close>,
  the browser's replica shows the text of \<open>v\<close>, the component is rendered with it, and the editor still holds \<open>v\<close>.\<close>

theorem typed_text_becomes_document:
  assumes "shows_text C (re_text R)" "keystroke R C st room v nonces now = (R', C', st', out)"
  shows "shows_text C' (slate_serialize v) \<and> re_text R' = slate_serialize v \<and> re_children R' = v \<and> re_value R' = v"
  by (rule keystroke_shows [OF assms])

section \<open>What Slate was not given\<close>

lemma submit_sends:
  "submit s st room x nonce now = (s', st', out) \<Longrightarrow> cs_ws s' = cs_ws s \<and>
     (cs_ws s = Some OPEN \<longrightarrow> map sent_operation out = [Some x])"
  by (auto simp: submit_def send_def sent_operation_def Let_def split: prod.splits)

lemma submit_all_sends:
  "submit_all s st room xs now = (s', st', out) \<Longrightarrow> cs_ws s = Some OPEN \<Longrightarrow> map sent_operation out = map (Some \<circ> fst) xs"
proof (induction s st room xs now arbitrary: s' st' out rule: submit_all.induct)
  case (2 s st room x nonce xs now)
  obtain sa sta outa where a: "submit (s\<lparr>cs_clientSeq := cs_clientSeq s + 1\<rparr>) st room x nonce now = (sa, sta, outa)"
    by (metis prod_cases3)
  obtain sb stb outb where b: "submit_all sa sta room xs now = (sb, stb, outb)"
    by (metis prod_cases3)
  have "out = outa @ outb" using 2(2) a b by simp
  then show ?case using 2(1) [OF a [symmetric] refl b] 2(3) submit_sends [OF a] by simp
qed simp

lemma map_Some_filter: "map f xs = map Some ys \<Longrightarrow> List.map_filter f xs = ys"
  by (induction xs arbitrary: ys) (auto simp: map_filter_simps Cons_eq_map_conv)

lemma concat_text: "concat (text_parts ns) = concat (map js_join_part (map node_value (live ns)))"
  if "\<forall>n \<in> set (live ns). \<exists>s. node_value n = JStr s"
  using that by (induction ns) (auto simp: live_def split: json.split)

lemma values_text:
  assumes "cl_values c = map JStr (code_points t)"
  shows "cl_toText c = t" "toText (srv_doc c) = t"
proof -
  show c: "cl_toText c = t" by (rule cl_toText_values [OF assms])
  have v: "map node_value (live (body (srv_doc c))) = map JStr (code_points t)"
    using assms by (simp add: cl_values_srv toNodes_live)
  from arg_cong [OF v, of set] have "\<forall>n \<in> set (live (body (srv_doc c))). \<exists>s. node_value n = JStr s"
    by (auto dest!: equalityD1 [THEN subsetD, OF _ imageI])
  from concat_text [OF this] have "toText (srv_doc c) = concat (map js_join_part (map JStr (code_points t)))"
    unfolding v toText_def .
  then show "toText (srv_doc c) = t" using c by (simp add: cl_toText_def assms join_with_nil)
qed

lemma keystroke_sends:
  assumes "shows_text C (re_text R)" "cs_doc C = Some d" "cs_ws C = Some OPEN" "keystroke R C st room v nonces now = (R', C', st', out)"
  shows "toText (applyAll (srv_doc d) (List.map_filter sent_operation out)) = slate_serialize v \<and>
    list_all plain_op (List.map_filter sent_operation out)"
proof (cases "slate_serialize v = re_text R")
  case True
  then have "out = []" using assms(4) by (simp add: keystroke_def handleChange_def Let_def)
  with True assms(1,2) values_text [of d "re_text R"] show ?thesis by (auto simp: shows_text_def List.map_filter_def)
next
  case False
  have d: "wf_client d" "cl_values d = map JStr (code_points (re_text R))" using assms(1,2) by (auto simp: shows_text_def)
  obtain d' ops where diff: "diffToOperations d (re_text R) (slate_serialize v) = (d', ops)" by (metis surj_pair)
  note D = diff_effect [OF d diff]
  obtain s1 st1 out1 where all:
    "submit_all (C\<lparr>cs_doc := Some d'\<rparr>) st room (zip ops (map nonces [0..<length ops])) now = (s1, st1, out1)"
    by (metis prod_cases3)
  have "out = out1" using assms(2,4) False all by (simp add: keystroke_def handleChange_def localBatchEdit_def diff Let_def)
  moreover have "map sent_operation out1 = map Some ops"
    using submit_all_sends [OF all] assms(3) by (simp add: map_fst_zip flip: map_map)
  then have "List.map_filter sent_operation out1 = ops"
    by (rule map_Some_filter)
  ultimately show ?thesis using D values_text(2) [of d' "slate_serialize v"] by simp
qed

text \<open>C14: The editor erases what it was not given at its mount, for everyone. The component is mounted with a text (the
  empty one, for \<open>Editor\<close> mounts it before the join is answered) and then rendered with any further texts: the stored
  document, the edits of other users. Whatever they were, the user's next edit - any change \<open>edit\<close> of what Slate holds - starts from the
  paragraphs of the text at the mount, and what it makes of them becomes the whole document: in this browser, in the
  server's document after the operations the browser sends, and in every browser that had the same document and
  receives them. Nothing of the texts that arrived in between is left in it.\<close>

theorem unseen_text_erased:
  assumes "slate_ok S" "R = foldl (receiveText S) (mountEditor S mounted) (texts @ [arrived])" "shows_text C arrived"
    and "cs_doc C = Some d" "cs_ws C = Some OPEN"
    and "keystroke R C st room (edit (re_children R)) nonces now = (R', C', st', out)"
    and "result = slate_serialize (edit (slate_deserialize mounted))" "ops = List.map_filter sent_operation out"
  shows "shows_text C' result \<and> toText (applyAll (srv_doc d) ops) = result \<and>
    (\<forall>d'. wf_client d' \<and> srv_doc d' = srv_doc d \<longrightarrow> toText (srv_doc (foldl cl_applyOperation d' ops)) = result)"
proof -
  have held: "re_children (foldl (receiveText S) (mountEditor S mounted) ts) = slate_deserialize mounted" for ts
    using assms(1) by (induction ts rule: rev_induct)
      (simp_all add: mountEditor_def receiveText_def renderSlate_def textChanged_def slate_ok_def Let_def)
  have current: "re_text R = arrived" by (simp add: assms(2) receiveText_def renderSlate_def textChanged_def Let_def)
  have k: "keystroke R C st room (edit (slate_deserialize mounted)) nonces now = (R', C', st', out)"
    using assms(6) held [of "texts @ [arrived]"] by (simp add: assms(2) del: foldl_append)
  have shown: "shows_text C (re_text R)" using assms(3) current by simp
  note sends = keystroke_sends [OF shown assms(4,5) k]
  have "toText (srv_doc (foldl cl_applyOperation d' ops)) = result" if "wf_client d'" "srv_doc d' = srv_doc d" for d'
    using client_run_srv [OF that(1), of ops] sends that(2) by (simp add: assms(7,8))
  then show ?thesis using keystroke_shows [OF shown k] sends by (simp add: assms(7,8))
qed

definition example_editing :: ClientSession where
  "example_editing = (let (d, x) = localInsert (newClientRGADocument ''a'' 0) 0 [97]
     in (openSession ''d'' ''t'' ''c'' True Map.empty)\<lparr>cs_doc := Some d, cs_text := [97], cs_ws := Some OPEN\<rparr>)"

definition example_slate :: Slate where
  "example_slate = \<lparr>slate_mount = (\<lambda>v. v), slate_rerender = (\<lambda>c v. c)\<rparr>"

lemma example_editing_shows: "shows_text example_editing [97]"
proof -
  obtain d x where l: "localInsert (newClientRGADocument ''a'' 0) 0 [97] = (d, x)" by (metis surj_pair)
  have "cl_values d = [JStr [97]]" "wf_client d"
    using localInsert_values [OF wf_newClient l] localInsert_effect [OF wf_newClient l]
    by (simp_all add: newClientRGADocument_def)
  then show ?thesis
    by (simp add: example_editing_def l shows_text_def is_high_surrogate_def)
qed

theorem typed_text_becomes_document_witness:
  "case keystroke (mountEditor example_slate [97]) example_editing Map.empty True (slate_deserialize [97, 98]) (\<lambda>_. ''n'') 0 of
     (R', C', st', out) \<Rightarrow> shows_text C' [97, 98] \<and> re_text R' = [97, 98]"
proof -
  obtain R' C' st' out where k:
    "keystroke (mountEditor example_slate [97]) example_editing Map.empty True (slate_deserialize [97, 98]) (\<lambda>_. ''n'') 0 = (R', C', st', out)"
    by (metis prod_cases4)
  have "shows_text example_editing (re_text (mountEditor example_slate [97]))"
    by (simp add: example_editing_shows mountEditor_def Let_def)
  from typed_text_becomes_document [OF this k] k show ?thesis by (simp add: slate_roundtrip)
qed

text \<open>The stored \<open>a\<close> arrives in an editor mounted empty; the user types \<open>b\<close>.\<close>

theorem unseen_text_erased_witness:
  "let R = foldl (receiveText example_slate) (mountEditor example_slate []) [[97]] in
    case keystroke R example_editing Map.empty True ((\<lambda>v. [\<lparr>el_children = [plain_leaf [98]]\<rparr>]) (re_children R)) (\<lambda>_. ''n'') 0 of
     (R', C', st', out) \<Rightarrow> shows_text C' [98] \<and>
       toText (applyAll (srv_doc (the (cs_doc example_editing))) (List.map_filter sent_operation out)) = [98]"
proof -
  let ?edit = "\<lambda>v :: CustomElement list. [\<lparr>el_children = [plain_leaf [98]]\<rparr>]"
  let ?R = "foldl (receiveText example_slate) (mountEditor example_slate []) ([] @ [[97]])"
  obtain R' C' st' out where k:
    "keystroke ?R example_editing Map.empty True (?edit (re_children ?R)) (\<lambda>_. ''n'') 0 = (R', C', st', out)"
    by (metis prod_cases4)
  have "slate_ok example_slate" by (simp add: slate_ok_def example_slate_def)
  moreover obtain d where "cs_doc example_editing = Some d" using example_editing_shows by (auto simp: shows_text_def)
  moreover have "cs_ws example_editing = Some OPEN" by (simp add: example_editing_def split: prod.split)
  moreover have "slate_serialize (?edit v) = [98]" for v by (simp add: slate_serialize_def)
  ultimately show ?thesis
    using unseen_text_erased [where edit = ?edit, OF _ refl example_editing_shows _ _ k refl refl] k by (simp add: Let_def)
qed

theorem caret_follows_character_witness:
  "\<exists>u. cs_uidToIndex example_editing u = Some 1 \<and> cs_doc example_editing \<noteq> None"
proof -
  obtain d x where l: "localInsert (newClientRGADocument ''a'' 0) 0 [97] = (d, x)" by (metis surj_pair)
  have doc: "cs_doc example_editing = Some d" by (simp add: example_editing_def l)
  have "wf_client d" using localInsert_effect [OF wf_newClient l] by simp
  moreover have "length (toNodes (srv_doc d)) = 1"
    using localInsert_values [OF wf_newClient l] arg_cong [OF cl_values_srv [of d], of length]
    by (simp add: newClientRGADocument_def)
  then obtain u where u: "cl_indexToUID d 1 = Some u"
    by (simp add: cl_indexToUID_srv indexToUID_eq)
  ultimately show ?thesis
    using caret_follows_character [OF doc doc _ u, of 1] doc by auto
qed

text \<open>A change of the selection alone is a call of \<open>handleChange\<close> as well: it marks the next new text as the editor's own,
  so the component's paragraphs, and the carets computed from them, stay at the old text.\<close>

lemma selection_swallows_remote_text:
  assumes "slate_serialize (re_children R) = re_text R" "t \<noteq> re_text R"
  shows "handleChange R (re_children R) = (fst (handleChange R (re_children R)), None) \<and>
    re_value (textChanged (fst (handleChange R (re_children R))) t) = re_children R"
  using assms by (simp add: handleChange_def textChanged_def Let_def)

end
