(* ===== verification/Connections.thy ===== *)
theory Connections
  imports Event_Store "HOL-Library.Multiset"
begin

text \<open>
  The connections of a server process: the PostgreSQL pool and \<open>withTransaction\<close> of
  \<^verbatim>\<open>src/server/persistence/db.ts\<close>, and the three Redis clients of \<^verbatim>\<open>src/server/fanout/redis-client.ts\<close>.
  The libraries behind them are not under \<^verbatim>\<open>src/\<close>: a client of Redis is a number, a connection of PostgreSQL is
  outside or in a transaction as PostgreSQL documents of \<open>BEGIN\<close>, \<open>COMMIT\<close> and \<open>ROLLBACK\<close>, what a statement
  does is an argument, and how each command ends is the environment's choice. Shown is that clients are created once and never
  shared, that each transaction is all or nothing, whatever pooled connection it gets, and that on every path it
  gives this connection up. Transactions that overlap on several connections are not modelled.
\<close>

section \<open>Singletons\<close>

record Clients =
  cl_pool :: "nat option"
  cl_command :: "nat option"
  cl_publisher :: "nat option"
  cl_subscriber :: "nat option"
  cl_next :: nat
  cl_open :: "nat list"

definition no_clients :: Clients where
  "no_clients = \<lparr>cl_pool = None, cl_command = None, cl_publisher = None, cl_subscriber = None, cl_next = 0, cl_open = []\<rparr>"

definition createClient :: "Clients \<Rightarrow> Clients \<times> nat" where
  "createClient c = (c\<lparr>cl_next := cl_next c + 1, cl_open := cl_open c @ [cl_next c]\<rparr>, cl_next c)"

definition getPool :: "Clients \<Rightarrow> Clients \<times> nat" where
  "getPool c = (case cl_pool c of Some p \<Rightarrow> (c, p)
     | None \<Rightarrow> (case createClient c of (c1, p) \<Rightarrow> (c1\<lparr>cl_pool := Some p\<rparr>, p)))"

definition getRedis :: "Clients \<Rightarrow> Clients \<times> nat" where
  "getRedis c = (case cl_command c of Some p \<Rightarrow> (c, p)
     | None \<Rightarrow> (case createClient c of (c1, p) \<Rightarrow> (c1\<lparr>cl_command := Some p\<rparr>, p)))"

definition getPublisher :: "Clients \<Rightarrow> Clients \<times> nat" where
  "getPublisher c = (case cl_publisher c of Some p \<Rightarrow> (c, p)
     | None \<Rightarrow> (case createClient c of (c1, p) \<Rightarrow> (c1\<lparr>cl_publisher := Some p\<rparr>, p)))"

definition getSubscriber :: "Clients \<Rightarrow> Clients \<times> nat" where
  "getSubscriber c = (case cl_subscriber c of Some p \<Rightarrow> (c, p)
     | None \<Rightarrow> (case createClient c of (c1, p) \<Rightarrow> (c1\<lparr>cl_subscriber := Some p\<rparr>, p)))"

definition closePool :: "Clients \<Rightarrow> Clients" where
  "closePool c = (case cl_pool c of None \<Rightarrow> c
     | Some p \<Rightarrow> c\<lparr>cl_open := filter (\<lambda>q. q \<noteq> p) (cl_open c), cl_pool := None\<rparr>)"

definition closeRedis :: "Clients \<Rightarrow> Clients" where
  "closeRedis c = c\<lparr>cl_open := filter (\<lambda>q. Some q \<notin> {cl_command c, cl_publisher c, cl_subscriber c}) (cl_open c),
     cl_command := None, cl_publisher := None, cl_subscriber := None\<rparr>"

datatype client_call = Get_pool | Get_redis | Get_publisher | Get_subscriber | Close_pool | Close_redis

fun client_step :: "Clients \<Rightarrow> client_call \<Rightarrow> Clients" where
  "client_step c Get_pool = fst (getPool c)"
| "client_step c Get_redis = fst (getRedis c)"
| "client_step c Get_publisher = fst (getPublisher c)"
| "client_step c Get_subscriber = fst (getSubscriber c)"
| "client_step c Close_pool = closePool c"
| "client_step c Close_redis = closeRedis c"

definition slot :: "nat option \<Rightarrow> nat multiset" where
  "slot x = (case x of Some p \<Rightarrow> {#p#} | None \<Rightarrow> {#})"

lemma slot_simps [simp]: "slot None = {#}" "slot (Some p) = {#p#}" "q \<in># slot x \<longleftrightarrow> x = Some q"
  by (auto simp: slot_def split: option.split)

definition held :: "Clients \<Rightarrow> nat multiset" where
  "held c = slot (cl_pool c) + (slot (cl_command c) + slot (cl_publisher c) + slot (cl_subscriber c))"

definition clients_ok :: "Clients \<Rightarrow> bool" where
  "clients_ok c \<longleftrightarrow> mset (cl_open c) = held c \<and> distinct (cl_open c) \<and> (\<forall>p \<in> set (cl_open c). p < cl_next c)"

text \<open>Closing some of the clients in use leaves the others.\<close>

lemma close_some:
  assumes "mset xs = A + B" "distinct xs" "\<And>q. P q \<longleftrightarrow> q \<notin># B"
  shows "mset (filter P xs) = A"
proof -
  have "q \<notin># B" if "q \<in># A" for q
  proof
    assume "q \<in># B"
    with that have "1 \<le> count A q" "1 \<le> count B q" by simp_all
    then have "2 \<le> count (mset xs) q" unfolding assms(1) count_union by linarith
    then show False using assms(2) by (simp add: distinct_count_atmost_1 split: if_splits)
  qed
  then have "filter_mset P A = A" "filter_mset P B = {#}"
    using assms(3) by (simp_all add: filter_mset_eq_conv filter_mset_eq_mempty_iff)
  then show ?thesis by (simp add: assms(1))
qed

lemma clients_new:
  assumes "clients_ok c" "cl_open c' = cl_open c @ [cl_next c]" "cl_next c' = cl_next c + 1"
    and "held c' = add_mset (cl_next c) (held c)"
  shows "clients_ok c'"
  using assms by (auto simp: clients_ok_def)

lemma clients_close:
  assumes "clients_ok c" "held c = held c' + B" "cl_open c' = filter P (cl_open c)" "cl_next c' = cl_next c"
    and "\<And>q. P q \<longleftrightarrow> q \<notin># B"
  shows "clients_ok c'"
proof -
  have c: "mset (cl_open c) = held c" "distinct (cl_open c)" "\<forall>p \<in> set (cl_open c). p < cl_next c"
    using assms(1) by (simp_all add: clients_ok_def)
  have "mset (cl_open c') = held c'"
    unfolding assms(3) by (rule close_some [OF c(1) [unfolded assms(2)] c(2) assms(5)])
  then show ?thesis using c(2,3) by (simp add: clients_ok_def assms(3,4))
qed

lemma client_step_ok:
  assumes "clients_ok c"
  shows "clients_ok (client_step c x)"
proof (cases x)
  case Get_pool
  show ?thesis unfolding Get_pool using assms
    by (cases "cl_pool c") (auto simp: getPool_def createClient_def held_def intro: clients_new)
next
  case Get_redis
  show ?thesis unfolding Get_redis using assms
    by (cases "cl_command c") (auto simp: getRedis_def createClient_def held_def intro: clients_new)
next
  case Get_publisher
  show ?thesis unfolding Get_publisher using assms
    by (cases "cl_publisher c") (auto simp: getPublisher_def createClient_def held_def intro: clients_new)
next
  case Get_subscriber
  show ?thesis unfolding Get_subscriber using assms
    by (cases "cl_subscriber c") (auto simp: getSubscriber_def createClient_def held_def intro: clients_new)
next
  case Close_pool
  show ?thesis
  proof (cases "cl_pool c")
    case (Some p)
    show ?thesis unfolding Close_pool client_step.simps
      by (rule clients_close [OF assms, where B = "{#p#}" and P = "\<lambda>q. q \<noteq> p"]) (simp_all add: closePool_def held_def Some)
  qed (use assms Close_pool in \<open>simp add: closePool_def\<close>)
next
  case Close_redis
  show ?thesis unfolding Close_redis client_step.simps
    by (rule clients_close [OF assms, where B = "slot (cl_command c) + slot (cl_publisher c) + slot (cl_subscriber c)"
        and P = "\<lambda>q. Some q \<notin> {cl_command c, cl_publisher c, cl_subscriber c}"])
       (auto simp: closeRedis_def held_def)
qed

text \<open>The comment of \<^verbatim>\<open>redis-client.ts\<close>: publishing and subscribing have clients of their own, which commands
  never use. After any calls, in any order, the clients in use are different ones, exactly these are
  open, and closing leaves none open.\<close>

theorem clients_never_shared:
  assumes "c = foldl client_step no_clients calls"
  shows "mset (cl_open c) = held c \<and> distinct (cl_open c) \<and> cl_open (closeRedis (closePool c)) = []"
proof -
  have ok: "clients_ok (foldl client_step d calls)" if "clients_ok d" for d
    using that by (induction calls arbitrary: d) (simp_all add: client_step_ok)
  have c: "clients_ok c" unfolding assms by (rule ok) (simp add: clients_ok_def held_def no_clients_def)
  then have "clients_ok (closeRedis (closePool c))"
    using client_step_ok [OF client_step_ok [OF c, of Close_pool], of Close_redis] by simp
  moreover have "held (closeRedis (closePool c)) = {#}"
    by (simp add: held_def closeRedis_def closePool_def split: option.split)
  ultimately have "mset (cl_open (closeRedis (closePool c))) = {#}" by (simp add: clients_ok_def)
  then show ?thesis using c by (simp add: clients_ok_def)
qed

theorem clients_never_shared_witness:
  "distinct (cl_open (foldl client_step no_clients [Get_redis, Get_publisher, Close_redis, Get_subscriber, Get_redis]))"
  using clients_never_shared [OF refl, of "[Get_redis, Get_publisher, Close_redis, Get_subscriber, Get_redis]"] by blast

section \<open>Connections of the pool\<close>

text \<open>What becomes of a command: PostgreSQL answers it, refuses it with an error, or the connection breaks while it is
  under way; then the flag says whether the server had carried it out.\<close>

datatype fate = Answered | Refused db_error | Broken bool

text \<open>A connection as the server sees it: outside a transaction, in one - with the changes made so far, which nobody
  else sees -, in one that an error has aborted, or gone.\<close>

datatype 'db conn = Idle | Open "('db \<Rightarrow> 'db) list" | Aborted | Dead

text \<open>The pool and the database behind it: what is committed, the state of each connection, the idle ones, the ones
  checked out, and the number of the next one.\<close>

record 'db Pg =
  pg_db :: 'db
  pg_conn :: "nat \<Rightarrow> 'db conn"
  pg_idle :: "nat list"
  pg_out :: "nat list"
  pg_next :: nat

definition made :: "('db \<Rightarrow> 'db) list \<Rightarrow> 'db \<Rightarrow> 'db" where
  "made changes db = foldl (\<lambda>d c. c d) db changes"

abbreviation set_conn :: "'db Pg \<Rightarrow> nat \<Rightarrow> 'db conn \<Rightarrow> 'db Pg" where
  "set_conn P i s \<equiv> P\<lparr>pg_conn := (pg_conn P)(i := s)\<rparr>"

text \<open>\<open>connect()\<close> of the pool: a timeout, or one of the idle connections, or a new one.\<close>

definition connect_client :: "nat option \<Rightarrow> 'db Pg \<Rightarrow> ('db Pg \<times> nat) option" where
  "connect_client k P = (case k of
       None \<Rightarrow> None
     | Some k \<Rightarrow> if k < length (pg_idle P)
         then (let i = pg_idle P ! k in Some (P\<lparr>pg_idle := remove1 i (pg_idle P), pg_out := i # pg_out P\<rparr>, i))
         else (let i = pg_next P in Some ((set_conn P i Idle)\<lparr>pg_out := i # pg_out P, pg_next := i + 1\<rparr>, i)))"

text \<open>\<open>client.release()\<close>: back into the pool, as it is; the pool drops a connection that is gone.\<close>

definition release_client :: "'db Pg \<Rightarrow> nat \<Rightarrow> 'db Pg" where
  "release_client P i = P\<lparr>pg_out := remove1 i (pg_out P),
     pg_idle := (if pg_conn P i = Dead then pg_idle P else pg_idle P @ [i])\<rparr>"

text \<open>The commands on a connection. A \<open>BEGIN\<close> in a transaction is a warning and continues it.\<close>

definition begin_cmd :: "fate \<Rightarrow> 'db Pg \<Rightarrow> nat \<Rightarrow> 'db Pg \<times> db_error option" where
  "begin_cmd f P i = (case pg_conn P i of
       Dead \<Rightarrow> (P, Some ConnectionLost)
     | s \<Rightarrow> (case f of
           Broken b \<Rightarrow> (set_conn P i Dead, Some ConnectionLost)
         | Refused e \<Rightarrow> (if s = Idle then P else set_conn P i Aborted, Some e)
         | Answered \<Rightarrow> (case s of Idle \<Rightarrow> (set_conn P i (Open []), None)
             | Aborted \<Rightarrow> (P, Some InFailedTransaction) | _ \<Rightarrow> (P, None))))"

text \<open>A statement outside a transaction is one by itself.\<close>

definition autocommit :: "fate \<Rightarrow> ('db \<Rightarrow> db_error + ('db \<Rightarrow> 'db) \<times> 'v) \<Rightarrow> 'db \<Rightarrow> 'db \<times> (db_error + 'v)" where
  "autocommit f q db = (case f of
       Refused e \<Rightarrow> (db, Inl e)
     | Broken b \<Rightarrow> (case q db of Inr (c, v) \<Rightarrow> (if b then c db else db, Inl ConnectionLost) | Inl e \<Rightarrow> (db, Inl ConnectionLost))
     | Answered \<Rightarrow> (case q db of Inr (c, v) \<Rightarrow> (c db, Inr v) | Inl e \<Rightarrow> (db, Inl e)))"

definition statement_cmd ::
  "fate \<Rightarrow> ('db \<Rightarrow> db_error + ('db \<Rightarrow> 'db) \<times> 'v) \<Rightarrow> 'db Pg \<Rightarrow> nat \<Rightarrow> 'db Pg \<times> (db_error + 'v)" where
  "statement_cmd f q P i = (case pg_conn P i of
       Dead \<Rightarrow> (P, Inl ConnectionLost)
     | Idle \<Rightarrow> (case autocommit f q (pg_db P) of (db, res) \<Rightarrow>
         ((case f of Broken b \<Rightarrow> set_conn P i Dead | _ \<Rightarrow> P)\<lparr>pg_db := db\<rparr>, res))
     | Aborted \<Rightarrow> (case f of Broken b \<Rightarrow> (set_conn P i Dead, Inl ConnectionLost) | _ \<Rightarrow> (P, Inl InFailedTransaction))
     | Open own \<Rightarrow> (case f of
           Broken b \<Rightarrow> (set_conn P i Dead, Inl ConnectionLost)
         | Refused e \<Rightarrow> (set_conn P i Aborted, Inl e)
         | Answered \<Rightarrow> (case q (made own (pg_db P)) of
               Inr (c, v) \<Rightarrow> (set_conn P i (Open (own @ [c])), Inr v)
             | Inl e \<Rightarrow> (set_conn P i Aborted, Inl e))))"

text \<open>A refused \<open>COMMIT\<close> ends the transaction without its changes, and so does the \<open>COMMIT\<close> of an aborted one, which
  is no error.\<close>

definition commit_cmd :: "fate \<Rightarrow> 'db Pg \<Rightarrow> nat \<Rightarrow> 'db Pg \<times> db_error option" where
  "commit_cmd f P i = (let new = (case pg_conn P i of Open own \<Rightarrow> made own (pg_db P) | _ \<Rightarrow> pg_db P) in
     if pg_conn P i = Dead then (P, Some ConnectionLost)
     else case f of
         Broken b \<Rightarrow> ((set_conn P i Dead)\<lparr>pg_db := (if b then new else pg_db P)\<rparr>, Some ConnectionLost)
       | Refused e \<Rightarrow> (set_conn P i Idle, Some e)
       | Answered \<Rightarrow> ((set_conn P i Idle)\<lparr>pg_db := new\<rparr>, None))"

text \<open>PostgreSQL refuses no \<open>ROLLBACK\<close>; it only fails with its connection, which ends the transaction too.\<close>

definition rollback_cmd :: "bool \<Rightarrow> 'db Pg \<Rightarrow> nat \<Rightarrow> 'db Pg \<times> db_error option" where
  "rollback_cmd broken P i =
     (if pg_conn P i = Dead then (P, Some ConnectionLost)
      else if broken then (set_conn P i Dead, Some ConnectionLost) else (set_conn P i Idle, None))"

section \<open>Transactions\<close>

text \<open>The function passed to \<open>withTransaction\<close>: it awaits statements on the transaction's client, and statements
  through \<open>query\<close>, which take another connection of the pool (\<open>saveSnapshot\<close> in \<open>restoreToRevision\<close>), and returns or
  throws. A statement gives the rows it changes, as a function on databases, and a value, or an error, which none of these
  functions catches.\<close>

datatype ('db, 'v, 'r) callback = Return 'r | Throw db_error
  | Query "'db \<Rightarrow> db_error + ('db \<Rightarrow> 'db) \<times> 'v" "'v \<Rightarrow> ('db, 'v, 'r) callback"
  | PoolQuery "'db \<Rightarrow> db_error + ('db \<Rightarrow> 'db) \<times> 'v" "'v \<Rightarrow> ('db, 'v, 'r) callback"

text \<open>What the environment decides: the connections, and the fate of each command; statements are counted.\<close>

record TxEnv =
  tx_connect :: "nat option"
  tx_begin :: fate
  tx_query :: "nat \<Rightarrow> fate"
  tx_place :: "nat \<Rightarrow> nat option"
  tx_commit :: fate
  tx_rollbackBroken :: bool

definition pool_query ::
  "nat option \<Rightarrow> fate \<Rightarrow> ('db \<Rightarrow> db_error + ('db \<Rightarrow> 'db) \<times> 'v) \<Rightarrow> 'db Pg \<Rightarrow> 'db Pg \<times> (db_error + 'v)" where
  "pool_query k f q P = (case connect_client k P of
       None \<Rightarrow> (P, Inl ConnectionLost)
     | Some (P1, i) \<Rightarrow> (case statement_cmd f q P1 i of (P2, res) \<Rightarrow> (release_client P2 i, res)))"

primrec run_callback :: "TxEnv \<Rightarrow> nat \<Rightarrow> ('db, 'v, 'r) callback \<Rightarrow> nat \<Rightarrow> 'db Pg \<Rightarrow> 'db Pg \<times> (db_error + 'r)" where
  "run_callback E i (Return r) n P = (P, Inr r)"
| "run_callback E i (Throw e) n P = (P, Inl e)"
| "run_callback E i (Query q g) n P = (case statement_cmd (tx_query E n) q P i of
     (P1, Inl e) \<Rightarrow> (P1, Inl e) | (P1, Inr v) \<Rightarrow> run_callback E i (g v) (n + 1) P1)"
| "run_callback E i (PoolQuery q g) n P = (case pool_query (tx_place E n) (tx_query E n) q P of
     (P1, Inl e) \<Rightarrow> (P1, Inl e) | (P1, Inr v) \<Rightarrow> run_callback E i (g v) (n + 1) P1)"

text \<open>\<open>withTransaction\<close>: the \<open>try\<close>, the \<open>catch\<close> - whose \<open>ROLLBACK\<close>, when it fails, replaces the error by its own -
  and the \<open>finally\<close>.\<close>

definition withTransaction :: "TxEnv \<Rightarrow> ('db, 'v, 'r) callback \<Rightarrow> 'db Pg \<Rightarrow> 'db Pg \<times> (db_error + 'r)" where
  "withTransaction E fn P =
     (case connect_client (tx_connect E) P of
        None \<Rightarrow> (P, Inl ConnectionLost)
      | Some (P0, client) \<Rightarrow>
          let tried = (case begin_cmd (tx_begin E) P0 client of
                (P1, Some e) \<Rightarrow> (P1, Inl e)
              | (P1, None) \<Rightarrow> (case run_callback E client fn 0 P1 of
                    (P2, Inl e) \<Rightarrow> (P2, Inl e)
                  | (P2, Inr result) \<Rightarrow> (case commit_cmd (tx_commit E) P2 client of
                        (P3, Some e) \<Rightarrow> (P3, Inl e)
                      | (P3, None) \<Rightarrow> (P3, Inr result))));
              caught = (case tried of
                (P4, Inl err) \<Rightarrow> (case rollback_cmd (tx_rollbackBroken E) P4 client of
                    (P5, Some e) \<Rightarrow> (P5, Inl e) | (P5, None) \<Rightarrow> (P5, Inl err))
              | (P4, Inr result) \<Rightarrow> (P4, Inr result))
          in case caught of (P6, res) \<Rightarrow> (release_client P6 client, res))"

text \<open>Transactions one after the other, on the connections of the pool.\<close>

fun run_transactions :: "(TxEnv \<times> ('db, 'v, 'r) callback) list \<Rightarrow> 'db Pg \<Rightarrow> 'db Pg \<times> (db_error + 'r) list" where
  "run_transactions [] P = (P, [])"
| "run_transactions ((E, fn) # txs) P = (case withTransaction E fn P of (P1, res) \<Rightarrow>
     case run_transactions txs P1 of (P2, rs) \<Rightarrow> (P2, res # rs))"

text \<open>What a transaction means, without connections: the function run alone over the committed database and its own
  changes, which only the \<open>COMMIT\<close> adds to it; what it does through \<open>query\<close> is committed at once.\<close>

primrec alone :: "TxEnv \<Rightarrow> ('db, 'v, 'r) callback \<Rightarrow> nat \<Rightarrow> 'db \<Rightarrow> ('db \<Rightarrow> 'db) list \<Rightarrow> 'db \<times> ('db \<Rightarrow> 'db) list \<times> (db_error + 'r)" where
  "alone E (Return r) n db own = (db, own, Inr r)"
| "alone E (Throw e) n db own = (db, own, Inl e)"
| "alone E (Query q g) n db own = (case tx_query E n of
       Broken b \<Rightarrow> (db, own, Inl ConnectionLost)
     | Refused e \<Rightarrow> (db, own, Inl e)
     | Answered \<Rightarrow> (case q (made own db) of Inl e \<Rightarrow> (db, own, Inl e) | Inr (c, v) \<Rightarrow> alone E (g v) (n + 1) db (own @ [c])))"
| "alone E (PoolQuery q g) n db own = (if tx_place E n = None then (db, own, Inl ConnectionLost)
     else case autocommit (tx_query E n) q db of
       (db', Inl e) \<Rightarrow> (db', own, Inl e) | (db', Inr v) \<Rightarrow> alone E (g v) (n + 1) db' own)"

definition all_or_nothing :: "TxEnv \<Rightarrow> ('db, 'v, 'r) callback \<Rightarrow> 'db \<Rightarrow> db_error + 'r \<Rightarrow> 'db \<Rightarrow> bool" where
  "all_or_nothing E fn db res db' \<longleftrightarrow>
     (if tx_connect E = None \<or> tx_begin E \<noteq> Answered then db' = db \<and> (\<exists>e. res = Inl e)
      else case alone E fn 0 db [] of
          (base, own, Inl e) \<Rightarrow> db' = base \<and> res = Inl (if tx_rollbackBroken E then ConnectionLost else e)
        | (base, own, Inr r) \<Rightarrow> (case tx_commit E of
              Answered \<Rightarrow> db' = made own base \<and> res = Inr r
            | Refused e \<Rightarrow> db' = base \<and> (\<exists>e. res = Inl e)
            | Broken b \<Rightarrow> db' = (if b then made own base else base) \<and> res = Inl ConnectionLost))"

fun serial :: "(TxEnv \<times> ('db, 'v, 'r) callback) list \<Rightarrow> 'db \<Rightarrow> (db_error + 'r) list \<Rightarrow> 'db \<Rightarrow> bool" where
  "serial [] db rs db' \<longleftrightarrow> rs = [] \<and> db' = db"
| "serial ((E, fn) # txs) db rs db' \<longleftrightarrow> (\<exists>res rs' db1. rs = res # rs' \<and> all_or_nothing E fn db res db1 \<and> serial txs db1 rs' db')"

text \<open>The pool between two transactions: its connections are outside any.\<close>

definition pool_ok :: "'db Pg \<Rightarrow> bool" where
  "pool_ok P \<longleftrightarrow> distinct (pg_idle P @ pg_out P) \<and> (\<forall>i \<in> set (pg_idle P @ pg_out P). i < pg_next P) \<and>
     (\<forall>i \<in> set (pg_idle P). pg_conn P i = Idle)"

lemma connected:
  assumes "pool_ok P" "connect_client k P = Some (P1, i)"
  shows "pool_ok P1" "pg_conn P1 i = Idle" "pg_out P1 = i # pg_out P" "pg_db P1 = pg_db P"
    "\<forall>j \<in> set (pg_out P). pg_conn P1 j = pg_conn P j \<and> j \<noteq> i"
proof -
  obtain n where k: "k = Some n" using assms(2) by (auto simp: connect_client_def split: option.splits)
  have idle: "n < length (pg_idle P) \<Longrightarrow> pg_idle P ! n \<in> set (pg_idle P)" by simp
  show "pool_ok P1" "pg_conn P1 i = Idle" "pg_out P1 = i # pg_out P" "pg_db P1 = pg_db P"
    "\<forall>j \<in> set (pg_out P). pg_conn P1 j = pg_conn P j \<and> j \<noteq> i"
    using assms idle
    by (auto simp: connect_client_def k pool_ok_def Let_def less_Suc_eq simp del: nth_mem split: if_splits)
qed

lemma released:
  assumes "pool_ok P" "pg_out P = i # out" "pg_conn P i = Idle \<or> pg_conn P i = Dead"
  shows "pool_ok (release_client P i)" "pg_out (release_client P i) = out" "pg_db (release_client P i) = pg_db P"
    "pg_conn (release_client P i) = pg_conn P"
  using assms by (auto simp: release_client_def pool_ok_def)

lemma set_conn_ok: "pool_ok P \<Longrightarrow> i \<in> set (pg_out P) \<Longrightarrow> pool_ok (set_conn P i s)"
  by (auto simp: pool_ok_def)

lemma pool_ok_db [simp]: "pool_ok (P\<lparr>pg_db := x\<rparr>) = pool_ok P"
  by (simp add: pool_ok_def)

lemma pool_query_effect:
  assumes "pool_ok P" "pool_query k f q P = (P1, res)"
  shows "pool_ok P1 \<and> pg_out P1 = pg_out P \<and> (\<forall>j \<in> set (pg_out P). pg_conn P1 j = pg_conn P j) \<and>
    (if k = None then pg_db P1 = pg_db P \<and> res = Inl ConnectionLost else autocommit f q (pg_db P) = (pg_db P1, res))"
proof (cases "connect_client k P")
  case None
  then have "k = None" by (auto simp: connect_client_def Let_def split: option.splits if_splits)
  then show ?thesis using assms None by (simp add: pool_query_def)
next
  case (Some x)
  obtain P0 i where x: "x = (P0, i)" by (rule prod.exhaust)
  note c = connected [OF assms(1) Some [unfolded x]]
  have k: "k \<noteq> None" using Some by (cases k) (simp_all add: connect_client_def)
  obtain P2 where P2: "statement_cmd f q P0 i = (P2, res)" "P1 = release_client P2 i"
    using assms(2) by (auto simp: pool_query_def Some x split: prod.splits)
  obtain db where a: "autocommit f q (pg_db P) = (db, res)"
    using P2(1) c(2,4) by (auto simp: statement_cmd_def split: prod.splits)
  have P2': "P2 = (case f of Broken b \<Rightarrow> set_conn P0 i Dead | _ \<Rightarrow> P0)\<lparr>pg_db := db\<rparr>"
    using P2(1) a c(2,4) by (simp add: statement_cmd_def)
  have "pool_ok P2" "pg_out P2 = i # pg_out P" "pg_conn P2 i = Idle \<or> pg_conn P2 i = Dead" "pg_db P2 = db"
    "\<forall>j \<in> set (pg_out P). pg_conn P2 j = pg_conn P j"
    using c set_conn_ok [OF c(1), of i Dead] by (auto simp: P2' pool_ok_def split: fate.split)
  then show ?thesis using released [of P2 i "pg_out P"] a k by (auto simp: P2(2))
qed

text \<open>On its connection, the function does what it does alone.\<close>

lemma run_alone:
  assumes "pool_ok P" "i \<in> set (pg_out P)" "pg_conn P i = Open own" "run_callback E i fn n P = (P1, res)"
  shows "pool_ok P1 \<and> pg_out P1 = pg_out P \<and> (\<exists>own'. alone E fn n (pg_db P) own = (pg_db P1, own', res) \<and>
    (case res of Inr r \<Rightarrow> pg_conn P1 i = Open own' | Inl e \<Rightarrow> pg_conn P1 i = Dead \<longrightarrow> e = ConnectionLost))"
  using assms
proof (induction fn arbitrary: n P own)
  case (Query q g)
  show ?case
  proof (cases "tx_query E n")
    case Answered
    show ?thesis
    proof (cases "q (made own (pg_db P))")
      case (Inr x)
      obtain c v where x: "x = (c, v)" by (rule prod.exhaust)
      let ?P = "set_conn P i (Open (own @ [c]))"
      have "run_callback E i (g v) (n + 1) ?P = (P1, res)"
        using Query.prems Answered Inr x by (simp add: statement_cmd_def)
      from Query.IH [OF _ set_conn_ok [OF Query.prems(1,2)] _ _ this] Query.prems(2) show ?thesis
        by (simp add: Answered Inr x)
    qed (use Query.prems set_conn_ok [OF Query.prems(1,2)] Answered in \<open>auto simp: statement_cmd_def\<close>)
  qed (use Query.prems set_conn_ok [OF Query.prems(1,2)] in \<open>auto simp: statement_cmd_def\<close>)
next
  case (PoolQuery q g)
  obtain P0 r where q: "pool_query (tx_place E n) (tx_query E n) q P = (P0, r)" by (rule prod.exhaust)
  note e = pool_query_effect [OF PoolQuery.prems(1) q]
  have opened: "pg_conn P0 i = Open own" "i \<in> set (pg_out P0)" using e PoolQuery.prems(2,3) by simp_all
  show ?case
  proof (cases r)
    case (Inr v)
    have "run_callback E i (g v) (n + 1) P0 = (P1, res)" using PoolQuery.prems(4) by (simp add: q Inr)
    from PoolQuery.IH [OF _ _ opened(2,1) this] e show ?thesis by (auto simp: Inr split: if_splits)
  qed (use PoolQuery.prems(4) e opened in \<open>auto simp: q split: if_splits\<close>)
qed auto

lemma transaction_effect:
  assumes "pool_ok P" "withTransaction E fn P = (P1, res)"
  shows "pool_ok P1 \<and> pg_out P1 = pg_out P \<and> all_or_nothing E fn (pg_db P) res (pg_db P1)"
proof (cases "connect_client (tx_connect E) P")
  case None
  then have "tx_connect E = None" by (auto simp: connect_client_def Let_def split: option.splits if_splits)
  then show ?thesis using assms None by (auto simp: withTransaction_def all_or_nothing_def)
next
  case (Some x)
  obtain P0 i where x: "x = (P0, i)" by (rule prod.exhaust)
  note c = connected [OF assms(1) Some [unfolded x]]
  have k: "tx_connect E \<noteq> None" using Some by (cases "tx_connect E") (simp_all add: connect_client_def)
  have i: "i \<in> set (pg_out P0)" using c(3) by simp
  have finish: "pool_ok P1 \<and> pg_out P1 = pg_out P \<and> pg_db P1 = pg_db Q"
    if "pool_ok Q" "pg_out Q = i # pg_out P" "pg_conn Q i = Idle \<or> pg_conn Q i = Dead" "P1 = release_client Q i" for Q
    using released [OF that(1-3)] by (simp add: that(4))
  have throws: "pool_ok P1 \<and> pg_out P1 = pg_out P \<and> pg_db P1 = pg_db Q \<and>
      res = Inl (if pg_conn Q i = Dead \<or> tx_rollbackBroken E then ConnectionLost else e)"
    if "pool_ok Q" "pg_out Q = i # pg_out P"
      and "(case (case rollback_cmd (tx_rollbackBroken E) Q i of (P5, Some e) \<Rightarrow> (P5, Inl e) | (P5, None) \<Rightarrow> (P5, Inl e)) of
        (P6, res) \<Rightarrow> (release_client P6 i, res)) = (P1, res)" for Q e
  proof -
    obtain Q' x where q: "rollback_cmd (tx_rollbackBroken E) Q i = (Q', x)" by (rule prod.exhaust)
    have "pool_ok Q'" "pg_out Q' = i # pg_out P" "pg_conn Q' i = Idle \<or> pg_conn Q' i = Dead" "pg_db Q' = pg_db Q"
      "x = (if pg_conn Q i = Dead \<or> tx_rollbackBroken E then Some ConnectionLost else None)"
      using q set_conn_ok [OF that(1)] that(1,2) by (auto simp: rollback_cmd_def split: if_splits)
    then show ?thesis using finish [of Q'] that(3) by (auto simp: q split: if_splits)
  qed
  show ?thesis
  proof (cases "tx_begin E = Answered")
    case False
    obtain Q e where b: "begin_cmd (tx_begin E) P0 i = (Q, Some e)" "pool_ok Q" "pg_out Q = i # pg_out P" "pg_db Q = pg_db P"
      using False c set_conn_ok [OF c(1) i] by (cases "tx_begin E") (auto simp: begin_cmd_def)
    have "(case (case rollback_cmd (tx_rollbackBroken E) Q i of (P5, Some e) \<Rightarrow> (P5, Inl e) | (P5, None) \<Rightarrow> (P5, Inl e)) of
        (P6, res) \<Rightarrow> (release_client P6 i, res)) = (P1, res)"
      using assms(2) by (simp add: withTransaction_def Some x b(1) Let_def)
    from throws [OF b(2,3) this] b(4) False show ?thesis by (auto simp: all_or_nothing_def)
  next
    case True
    let ?P = "set_conn P0 i (Open [])"
    have b: "begin_cmd (tx_begin E) P0 i = (?P, None)" using True c(2) by (simp add: begin_cmd_def)
    obtain P2 r where r: "run_callback E i fn 0 ?P = (P2, r)" by (rule prod.exhaust)
    obtain own where run: "pool_ok P2" "pg_out P2 = i # pg_out P" "alone E fn 0 (pg_db P) [] = (pg_db P2, own, r)"
      "case r of Inr y \<Rightarrow> pg_conn P2 i = Open own | Inl e \<Rightarrow> pg_conn P2 i = Dead \<longrightarrow> e = ConnectionLost"
      using run_alone [OF set_conn_ok [OF c(1) i, of "Open []"] _ _ r] i c(3,4) by auto
    show ?thesis
    proof (cases r)
      case (Inl e)
      have "(case (case rollback_cmd (tx_rollbackBroken E) P2 i of (P5, Some e) \<Rightarrow> (P5, Inl e) | (P5, None) \<Rightarrow> (P5, Inl e)) of
          (P6, res) \<Rightarrow> (release_client P6 i, res)) = (P1, res)"
        using assms(2) by (simp add: withTransaction_def Some x b r Inl Let_def)
      from throws [OF run(1,2) this] run(3,4) k True show ?thesis by (auto simp: all_or_nothing_def Inl)
    next
      case (Inr y)
      obtain P3 z where m: "commit_cmd (tx_commit E) P2 i = (P3, z)" by (rule prod.exhaust)
      have i2: "i \<in> set (pg_out P2)" by (simp add: run(2))
      have o: "pg_conn P2 i = Open own" using run(4) by (simp add: Inr)
      show ?thesis
      proof (cases z)
        case None
        then have "P3 = (set_conn P2 i Idle)\<lparr>pg_db := made own (pg_db P2)\<rparr>" "tx_commit E = Answered"
          using m o by (auto simp: commit_cmd_def Let_def split: fate.splits)
        moreover have "P1 = release_client P3 i" "res = Inr y"
          using assms(2) by (simp_all add: withTransaction_def Some x b r Inr m None Let_def)
        ultimately show ?thesis
          using finish [of P3] set_conn_ok [OF run(1) i2, of Idle] run k True by (auto simp: all_or_nothing_def Inr)
      next
        case (Some e)
        have "(case (case rollback_cmd (tx_rollbackBroken E) P3 i of (P5, Some e) \<Rightarrow> (P5, Inl e) | (P5, None) \<Rightarrow> (P5, Inl e)) of
            (P6, res) \<Rightarrow> (release_client P6 i, res)) = (P1, res)"
          using assms(2) by (simp add: withTransaction_def \<open>connect_client (tx_connect E) P = Some x\<close> x b r Inr m Some Let_def)
        moreover have "pool_ok P3" "pg_out P3 = i # pg_out P"
          using m set_conn_ok [OF run(1) i2] run(2) o by (auto simp: commit_cmd_def Let_def split: fate.splits)
        ultimately have "pool_ok P1 \<and> pg_out P1 = pg_out P \<and> pg_db P1 = pg_db P3 \<and>
            res = Inl (if pg_conn P3 i = Dead \<or> tx_rollbackBroken E then ConnectionLost else e)"
          by (intro throws)
        then show ?thesis using m o Some run(3) k True by (auto simp: all_or_nothing_def commit_cmd_def Inr Let_def split: fate.splits)
      qed
    qed
  qed
qed

text \<open>C36: All or nothing, transaction after transaction: whatever the functions do, whichever statement, \<open>BEGIN\<close>, \<open>COMMIT\<close> or
  \<open>ROLLBACK\<close> fails or loses its connection, and whichever pooled connections are used again, the committed
  database is what the transactions make of it one by one: one that returns has added all its changes, one that throws has
  added none - only when the connection breaks during the \<open>COMMIT\<close> may they be in although it throws -, a later
  one never publishes what an earlier one left, and after each every connection is back in the pool or dropped, and outside any
  transaction. (A statement through \<open>query\<close>, on another connection, is committed at once and stays: \<open>restoreToRevision\<close> saves its
  snapshot so, see \<open>History_Service\<close>.)\<close>

theorem transaction_all_or_nothing:
  assumes "pool_ok P" "run_transactions txs P = (P', results)"
  shows "pool_ok P' \<and> pg_out P' = pg_out P \<and> serial txs (pg_db P) results (pg_db P')"
  using assms
proof (induction txs arbitrary: P results)
  case (Cons x txs)
  obtain E fn where x: "x = (E, fn)" by (rule prod.exhaust)
  obtain P1 res rs where r: "withTransaction E fn P = (P1, res)" "run_transactions txs P1 = (P', rs)" "results = res # rs"
    using Cons.prems(2) by (auto simp: x split: prod.splits)
  note t = transaction_effect [OF Cons.prems(1) r(1)]
  with Cons.IH [OF _ r(2)] show ?case by (auto simp: x r(3))
qed simp

text \<open>Two appends on one connection: the first one throws after its statement, the second one is committed.\<close>

definition example_append :: "string \<Rightarrow> Database \<Rightarrow> db_error + (Database \<Rightarrow> Database) \<times> OperationEnvelope" where
  "example_append i db = (case appendOperation db (example_params (DELETE uA)) i ''t'' of
     Inl e \<Rightarrow> Inl e | Inr (db', env) \<Rightarrow> Inr ((\<lambda>_. db'), env))"

definition all_fine :: TxEnv where
  "all_fine = \<lparr>tx_connect = Some 0, tx_begin = Answered, tx_query = (\<lambda>_. Answered), tx_place = (\<lambda>_. Some 0), tx_commit = Answered,
     tx_rollbackBroken = False\<rparr>"

theorem transaction_all_or_nothing_witness:
  "case run_transactions [(all_fine, Query (example_append ''i'') (\<lambda>_. Throw InvalidParameter)), (all_fine, Query (example_append ''j'') Return)]
       \<lparr>pg_db = example_db, pg_conn = (\<lambda>_. Idle), pg_idle = [0], pg_out = [], pg_next = 1\<rparr> of
     (P', results) \<Rightarrow> \<exists>env. results = [Inl InvalidParameter, Inr env] \<and> env_id env = ''j'' \<and> env_seq env = 1 \<and>
       map row_id (db_operations (pg_db P')) = [''j''] \<and> pg_out P' = []"
proof -
  let ?txs = "[(all_fine, Query (example_append ''i'') (\<lambda>_. Throw InvalidParameter)), (all_fine, Query (example_append ''j'') Return)]"
  let ?P = "\<lparr>pg_db = example_db, pg_conn = (\<lambda>_. Idle), pg_idle = [0 :: nat], pg_out = [], pg_next = 1\<rparr>"
  obtain P' results where r: "run_transactions ?txs ?P = (P', results)" by (rule prod.exhaust)
  have ok: "pool_ok ?P" by (simp add: pool_ok_def)
  have a: "\<exists>db env. appendOperation example_db (example_params (DELETE uA)) i ''t'' = Inr (db, env) \<and> env_id env = i \<and> env_seq env = 1 \<and>
      map row_id (db_operations db) = [i]" for i
    by (simp add: appendOperation_def example_db_def example_params_def next_doc_seq_def document_exists_def user_exists_def rowToEnvelope_def Let_def)
  obtain db env where j: "appendOperation example_db (example_params (DELETE uA)) ''j'' ''t'' = Inr (db, env)" "env_id env = ''j''"
    "env_seq env = 1" "map row_id (db_operations db) = [''j'']" using a [of "''j''"] by auto
  obtain db' env' where i: "appendOperation example_db (example_params (DELETE uA)) ''i'' ''t'' = Inr (db', env')" using a [of "''i''"] by auto
  from transaction_all_or_nothing [OF ok r] r j i show ?thesis
    by (auto simp: all_or_nothing_def all_fine_def example_append_def made_def)
qed

end
