(* ===== verification/Spec2Isabelle.thy ===== *)
theory Spec2Isabelle
  imports Vector_Clock RGA_Heap Operation_Log History_Manager Client_Session History_Service
    Input_Sanitizer Request_Guards Worker_Events Http_Router Interleaved_Handlers Rich_Text_Editor
    Connections Server_Process
begin

text \<open>
  SyncEngine: a collaborative text editor. Browsers edit an RGA (a replicated growable array, a
  sequence CRDT); a server worker validates each operation, applies it to its replica, appends
  it to an event store and broadcasts it. The development models the TypeScript code under
  \<^verbatim>\<open>src/\<close> as HOL functions over explicit states and proves what the parts promise each other.

  \<^bold>\<open>The parts and their theories\<close>

  \<^item> \<open>Sync_Prelude\<close>: JavaScript strings as lists of 16-bit code units, code points, decimal text,
    joining keys with \<open>:\<close>, list lemmas. \<open>Shared_Types\<close>: \<^verbatim>\<open>shared/types/*.ts\<close> and
    \<^verbatim>\<open>shared/constants.ts\<close> - UIDs and their order, operations, envelopes, messages, keys.
  \<^item> \<open>Vector_Clock\<close>: \<^verbatim>\<open>crdt/vector-clock.ts\<close>, \<^verbatim>\<open>crdt/uid.ts\<close>.
  \<^item> \<open>Causal_Delivery\<close>: the interface of the convergence argument, two locales: operations that
    commute when both are deliverable (\<open>causal_ops\<close>) and may be repeated (\<open>idempotent_ops\<close>).
  \<^item> \<open>RGA_Document\<close>: \<^verbatim>\<open>crdt/rga-document.ts\<close> on lists: the node chain from the sentinel, the two
    counters, every operation and query, the class invariant \<open>wf_doc\<close>. \<open>RGA_Convergence\<close>
    interprets the locales on it; \<open>RGA_Queries\<close> holds positions, indices, serialization and
    garbage collection; \<open>RGA_Heap\<close> models the same class with its doubly linked nodes and index
    map in an explicit store and shows that it refines the lists.
  \<^item> \<open>Operation_Log\<close>: \<^verbatim>\<open>crdt/operation-log.ts\<close>, the causal buffer. \<open>History_Manager\<close>:
    \<^verbatim>\<open>crdt/history-manager.ts\<close>, undo and redo.
  \<^item> \<open>Client_RGA\<close>, \<open>Offline_Queue\<close>, \<open>Client_Session\<close>: the browser - \<^verbatim>\<open>client/crdt/client-rga.ts\<close>,
    \<^verbatim>\<open>client/crdt/offline-queue.ts\<close> and the hook \<^verbatim>\<open>client/hooks/useCollaborativeDoc.ts\<close> as a state
    machine of connection events, server messages and edits.
  \<^item> \<open>Log_Interface\<close>: what the document cache needs of the event store, a locale. \<open>Event_Store\<close>:
    \<^verbatim>\<open>server/persistence/operation-store.ts\<close>, \<^verbatim>\<open>snapshot-store.ts\<close> and the parts of \<^verbatim>\<open>schema.sql\<close>
    they use, with tables as lists of rows; it interprets the locale. \<open>History_Service\<close>:
    \<^verbatim>\<open>server/persistence/history-service.ts\<close>.
  \<^item> \<open>Input_Sanitizer\<close>: the WebSocket schemas of \<^verbatim>\<open>server/security/input-sanitizer.ts\<close>.
    \<open>Request_Guards\<close>: \<^verbatim>\<open>server/sync/rate-limiter.ts\<close> and \<^verbatim>\<open>server/security/replay-guard.ts\<close>.
  \<^item> \<open>Document_Cache\<close>: \<^verbatim>\<open>server/sync/document-cache.ts\<close>, \<^verbatim>\<open>offline-merger.ts\<close> and
    \<^verbatim>\<open>server/jobs/snapshot-compactor.ts\<close>. \<open>Session_Manager\<close>: \<^verbatim>\<open>server/transport/session-manager.ts\<close>.
    \<open>Operation_Handler\<close>: \<^verbatim>\<open>server/sync/operation-handler.ts\<close> and \<^verbatim>\<open>server/api/routes/restore.ts\<close>, the pipeline
    of one operation over cache, store and guards. \<open>Redis_Pubsub\<close>: \<^verbatim>\<open>server/fanout/redis-pubsub.ts\<close>.
    \<open>Presence_Manager\<close>: \<^verbatim>\<open>server/sync/presence-manager.ts\<close>.
  \<^item> \<open>Document_Store\<close>: \<^verbatim>\<open>document-store.ts\<close>, \<^verbatim>\<open>invitation-store.ts\<close>, \<^verbatim>\<open>notification-store.ts\<close> over their
    tables. \<open>Document_Routes\<close>: the HTTP routes of \<^verbatim>\<open>server/api/routes/\<close> and their middleware, a request at a
    time. \<open>Auth\<close>: \<^verbatim>\<open>server/security/jwt.ts\<close> and \<^verbatim>\<open>server/api/routes/auth.ts\<close>.
  \<^item> \<open>WebSocket_Server\<close>: \<^verbatim>\<open>server/transport/websocket-server.ts\<close>, every callback a function on the state of the
    worker (sockets, sessions, subscriptions, timers and, inside, the server of \<open>Operation_Handler\<close>).
    \<open>Live_Session\<close> composes it with the browser: a join, an acknowledged edit, an edit shown at
    another browser. \<open>Worker_Events\<close>: all callbacks as one step relation and its invariant.
  \<^item> \<open>Rich_Text_Editor\<close>: \<^verbatim>\<open>client/components/RichTextEditor.tsx\<close>, wired to the hook as
    \<^verbatim>\<open>client/components/Editor.tsx\<close> does: paragraphs, carets, and what typing does to the document.
    \<open>Client_App\<close>: the shell \<^verbatim>\<open>client/index.tsx\<close>, dashboard, share dialog and notifications, composed with
    the routes of the server.
    \<open>Revision_Panel\<close>: the milestones of \<^verbatim>\<open>client/components/RevisionHistory.tsx\<close> with \<open>Revert\<close>, the tag form of
    \<^verbatim>\<open>Editor.tsx\<close> and the peers of \<^verbatim>\<open>PresenceOverlay.tsx\<close>. \<open>Http_Router\<close>: the routes that
    \<^verbatim>\<open>server/transport/http-server.ts\<close> mounts, with methods and paths, and the requests the pages send.
  \<^item> \<open>Interleaved_Handlers\<close>: the load of \<^verbatim>\<open>document-cache.ts\<close> and steps 4 to 8 of \<^verbatim>\<open>operation-handler.ts\<close>
    once more, cut at every \<open>await\<close>: one function per stretch of code, and a state machine in which any
    number of handlers, loads, evictions, invalidations and other writers alternate.
  \<^item> \<open>Server_Process\<close>: \<^verbatim>\<open>server/config.ts\<close> and the start and shutdown in \<^verbatim>\<open>server/index.ts\<close>. \<open>Connections\<close>: the
    singletons of \<^verbatim>\<open>server/persistence/db.ts\<close> and \<^verbatim>\<open>server/fanout/redis-client.ts\<close>, and \<open>withTransaction\<close>
    on the connections of the pool, each outside or in a transaction.

  \<^bold>\<open>What is shown\<close>

  Replicas converge whatever the order of delivery, browser and server alike, and the pointer
  structure refines the lists; the log is gapless, a restore adds the version it names to it and loses none, and what was once
  served can be rebuilt as long as its snapshot is kept; the cache of a worker without exceptions
  is what a load of the database gives, an accepted operation is stored, published
  and in the replica of every browser that was in step, and an acknowledged one is in the log. This holds
  for handlers that interleave at their awaits as well: a document is loaded once at a time, no
  handler waits for ever, and when nothing is pending the cached document is the stored one, in
  whatever order the operations were applied and stored. Rights
  change only by those entitled, a rotated token is refused from then on, transactions are all or nothing
  whatever connection they get, requests keep the tables consistent, and the
  dialogs of the browser show what the tables hold; no handler but those of the login runs without
  a token, and a restore is served to whoever joins next. The theorems also state where the program
  falls short: text lost on a reconnect, by the editor component, between two workers and by
  garbage collection; a \<open>Revert\<close> button that is always refused; restores that a pruned history forgets; an entry invalidated while an append is pending; writing into documents one has not joined; sessions, subscriptions and
  connection counts that leak; overlapping token rotations; a shutdown that waits for its clients.

  \<^bold>\<open>How the model corresponds to the code\<close>

  A class is a record of its fields, a method a function from the record to the new record and
  the result; a module's state is an argument; what a method throws is the left side of a sum.
  Times, UUIDs, digests, Redis and whether a commit succeeds are arguments. Async functions run
  to completion, except in \<open>Interleaved_Handlers\<close> and where a theory says so (a join that is answered late, the
  two parts of a token rotation); \<open>uninterrupted_is_process\<close> relates the two models of the handler. JavaScript
  numbers that count or clock are unbounded integers (the code stays far below \<open>2^53\<close>). The only
  loop that is not structural is \<open>flushBuffer\<close>, a function with a termination proof; no fuel is
  used. The rounds of a session's message queue are events.

  \<^bold>\<open>Not modelled\<close>

  Rendering, logging, the migration runner, \<open>parseJwt\<close> of the shell (its result is only displayed), the background
  snapshots among interleaved handlers, Express's middleware packages, transactions that overlap, the protocols of PostgreSQL and Redis, and
  the cryptography of tokens and passwords: markup, input and output, or calls into libraries. What the
  model uses of a library (Slate's handling of its initial value, the hashing of passwords, Redis) is an argument or a
  named hypothesis where it is used; of SQL, of the types \<open>pg\<close> returns, of the zod schemas
  and of Express's paths it uses the documented meaning of what the source writes.
\<close>

end
